(* ===== verification/Prelude.thy ===== *)
theory Prelude
  imports
    Main
    "HOL-Library.Word"
    "HOL-Library.Char_ord"
    "HOL-Library.List_Lexorder"
    "HOL-Library.Monad_Syntax"
begin

text \<open>
  Shared vocabulary of the NovaKV development: the machine integers and byte strings of the
  C++ code, the little-endian byte images that \<open>reinterpret_cast<const char*>(&x)\<close> yields on
  the supported platforms (x86-64 Linux), bounded reads from a byte region, and the
  association lists that stand for \<open>std::map\<close> (ascending iteration order).

  A \<open>std::string\<close> is a \<^typ>\<open>string\<close> whose characters are bytes; its \<open><\<close> is the
  lexicographic order on unsigned bytes, which is the order the library instances of
  \<open>Char_ord\<close> and \<open>List_Lexorder\<close> give to \<^typ>\<open>string\<close>.
\<close>

section \<open>Machine integers and byte strings\<close>

type_synonym u8 = "8 word"
type_synonym u32 = "32 word"
type_synonym u64 = "64 word"
type_synonym bytes = string

named_theorems codec_simps \<open>round trips of byte encodings\<close>
named_theorems assoc_simps \<open>lookups in ordered association lists\<close>

subsection \<open>Little-endian images of unsigned integers\<close>

fun le_bytes :: "nat \<Rightarrow> nat \<Rightarrow> bytes" where
  "le_bytes 0 m = []"
| "le_bytes (Suc n) m = char_of m # le_bytes n (m div 256)"

fun le_val :: "bytes \<Rightarrow> nat" where
  "le_val [] = 0"
| "le_val (c # cs) = of_char c + 256 * le_val cs"

definition enc_u32 :: "u32 \<Rightarrow> bytes" where
  "enc_u32 w = le_bytes 4 (unat w)"

definition dec_u32 :: "bytes \<Rightarrow> u32" where
  "dec_u32 s = of_nat (le_val s)"

definition enc_u64 :: "u64 \<Rightarrow> bytes" where
  "enc_u64 w = le_bytes 8 (unat w)"

definition dec_u64 :: "bytes \<Rightarrow> u64" where
  "dec_u64 s = of_nat (le_val s)"

definition enc_u8 :: "u8 \<Rightarrow> bytes" where
  "enc_u8 w = [char_of (unat w)]"

definition dec_u8 :: "bytes \<Rightarrow> u8" where
  "dec_u8 s = of_nat (le_val s)"

lemma length_le_bytes [simp]: "length (le_bytes n m) = n"
  by (induction n arbitrary: m) auto

lemma le_val_le_bytes: "le_val (le_bytes n m) = m mod 256 ^ n"
proof (induction n arbitrary: m)
  case (Suc n)
  have "m mod 256 ^ Suc n = m mod 256 + 256 * (m div 256 mod 256 ^ n)"
    by (simp add: mod_mult2_eq)
  with Suc show ?case by simp
qed simp

lemma of_char_less [simp]: "of_char c < (256::nat)"
  by simp

lemma char_of_low [simp]: "char_of (of_char c + 256 * (n::nat)) = c"
proof -
  have "char_of (of_char c + 256 * n) = (char_of ((of_char c + 256 * n) mod 256) :: char)"
    by (simp only: char_of_mod_256)
  also have "(of_char c + 256 * n) mod 256 = of_char c" by simp
  finally show ?thesis by simp
qed

lemma le_bytes_le_val: "le_bytes (length s) (le_val s) = s"
  by (induction s) auto

lemma digit_carry: "(a::nat) < 256 \<Longrightarrow> b < p \<Longrightarrow> a + 256 * b < 256 * p"
  by linarith

lemma le_val_less: "le_val s < 256 ^ length s"
  by (induction s) (auto intro: digit_carry)

lemma length_enc [simp]:
  "length (enc_u8 b) = 1" "length (enc_u32 w) = 4" "length (enc_u64 x) = 8"
  by (simp_all add: enc_u8_def enc_u32_def enc_u64_def)

lemma dec_enc_u8 [simp, codec_simps]: "dec_u8 (enc_u8 w) = w"
proof -
  have "unat w < 256" using unsigned_less [of w] by simp
  then show ?thesis by (simp add: dec_u8_def enc_u8_def)
qed

lemma dec_enc_u32 [simp, codec_simps]: "dec_u32 (enc_u32 w) = w"
proof -
  have "unat w < 256 ^ 4" using unsigned_less [of w] by simp
  then show ?thesis by (simp add: dec_u32_def enc_u32_def le_val_le_bytes)
qed

lemma dec_enc_u64 [simp, codec_simps]: "dec_u64 (enc_u64 w) = w"
proof -
  have "unat w < 256 ^ 8" using unsigned_less [of w] by simp
  then show ?thesis by (simp add: dec_u64_def enc_u64_def le_val_le_bytes)
qed

lemma enc_dec_u32: "length s = 4 \<Longrightarrow> enc_u32 (dec_u32 s) = s"
  using le_val_less [of s] le_bytes_le_val [of s]
  by (simp add: enc_u32_def dec_u32_def unat_of_nat)

lemma enc_dec_u64: "length s = 8 \<Longrightarrow> enc_u64 (dec_u64 s) = s"
  using le_val_less [of s] le_bytes_le_val [of s]
  by (simp add: enc_u64_def dec_u64_def unat_of_nat)

lemma dec_u64_eq_iff: "length s = 8 \<Longrightarrow> dec_u64 s = w \<longleftrightarrow> s = enc_u64 w"
  using enc_dec_u64 [of s] by auto

lemma dec_u32_eq_iff: "length s = 4 \<Longrightarrow> dec_u32 s = w \<longleftrightarrow> s = enc_u32 w"
  using enc_dec_u32 [of s] by auto

lemma enc_dec_u8: "length s = 1 \<Longrightarrow> enc_u8 (dec_u8 s) = s"
  by (cases s) (auto simp: enc_u8_def dec_u8_def unat_of_nat)

section \<open>Bounded reads\<close>

text \<open>
  \<open>mem_slice d off n\<close> is the \<open>n\<close> bytes at offset \<open>off\<close> of a mapped region \<open>d\<close>. A read that
  leaves the region is undefined behaviour in C++; the model makes it the value \<open>None\<close>.
\<close>

definition mem_slice :: "bytes \<Rightarrow> nat \<Rightarrow> nat \<Rightarrow> bytes option" where
  "mem_slice d off n = (if off + n \<le> length d then Some (take n (drop off d)) else None)"

lemma mem_slice_append [simp]:
  "length a = off \<Longrightarrow> length b = n \<Longrightarrow> mem_slice (a @ b @ c) off n = Some b"
  by (simp add: mem_slice_def)

lemma mem_slice_Some_length: "mem_slice d off n = Some s \<Longrightarrow> length s = n"
  by (auto simp: mem_slice_def split: if_splits)

lemma mem_slice_extend:
  "mem_slice d off n = Some s \<Longrightarrow> mem_slice (p @ d @ q) (length p + off) n = Some s"
  by (auto simp: mem_slice_def split: if_splits)

lemma mem_slice_sub:
  assumes "mem_slice d off n = Some s" "i + m \<le> n"
  shows "mem_slice d (off + i) m = Some (take m (drop i s))"
  using assms by (auto simp: mem_slice_def drop_take min_def add.commute split: if_splits)

lemma mem_slice_at:
  "d = a @ b @ c \<Longrightarrow> off = length a \<Longrightarrow> n = length b \<Longrightarrow> mem_slice d off n = Some b"
  by simp

section \<open>std::lower\_bound\<close>

text \<open>
  The binary search of the standard library over \<open>[first, first + len)\<close>: \<open>p x\<close> says that the
  element \<open>x\<close> is less than the searched value. On a range where the elements that satisfy \<open>p\<close>
  come first it returns their number.
\<close>

function lower_bound_loop :: "('a \<Rightarrow> bool) \<Rightarrow> 'a list \<Rightarrow> nat \<Rightarrow> nat \<Rightarrow> nat" where
  "lower_bound_loop p xs first len =
     (if len = 0 then first
      else
        let half = len div 2; mid = first + half
        in if p (xs ! mid) then lower_bound_loop p xs (mid + 1) (len - half - 1)
           else lower_bound_loop p xs first half)"
  by pat_completeness auto
termination
  by (relation "measure (\<lambda>(p, xs, first, len). len)") auto

declare lower_bound_loop.simps [simp del]

definition lower_bound :: "('a \<Rightarrow> bool) \<Rightarrow> 'a list \<Rightarrow> nat" where
  "lower_bound p xs = lower_bound_loop p xs 0 (length xs)"

lemma lower_bound_loop_split:
  assumes "\<And>i. i < n \<Longrightarrow> p (xs ! i)" "\<And>i. n \<le> i \<Longrightarrow> i < length xs \<Longrightarrow> \<not> p (xs ! i)"
    and "first \<le> n" "n \<le> first + len" "first + len \<le> length xs"
  shows "lower_bound_loop p xs first len = n"
  using assms
proof (induction p xs first len rule: lower_bound_loop.induct)
  case (1 p xs first len)
  show ?case
  proof (cases "len = 0")
    case False
    define mid where "mid = first + len div 2"
    have mid: "mid < first + len" using False by (simp add: mid_def)
    have eq: "lower_bound_loop p xs first len =
        (if p (xs ! mid) then lower_bound_loop p xs (mid + 1) (len - len div 2 - 1)
         else lower_bound_loop p xs first (len div 2))"
      using False by (subst lower_bound_loop.simps) (simp add: Let_def mid_def)
    show ?thesis
    proof (cases "p (xs ! mid)")
      case True
      then have "mid < n" using "1.prems"(2,5) mid by (meson not_le order_less_le_trans)
      then have "lower_bound_loop p xs (mid + 1) (len - len div 2 - 1) = n"
        using True "1.prems" mid by (intro "1.IH"(1) [OF False refl mid_def]) (auto simp: mid_def)
      with True eq show ?thesis by simp
    next
      case m: False
      then have "n \<le> mid" using "1.prems"(1) by (meson not_le)
      then have "lower_bound_loop p xs first (len div 2) = n"
        using m "1.prems" mid by (intro "1.IH"(2) [OF False refl mid_def]) (auto simp: mid_def)
      with m eq show ?thesis by simp
    qed
  qed (use "1.prems" in \<open>simp add: lower_bound_loop.simps\<close>)
qed

lemma lower_bound_append:
  assumes "\<forall>x\<in>set as. p x" "\<forall>x\<in>set bs. \<not> p x"
  shows "lower_bound p (as @ bs) = length as"
  unfolding lower_bound_def
  by (rule lower_bound_loop_split) (use assms in \<open>auto simp: nth_append\<close>)

lemma lower_bound_sorted:
  assumes "sorted_wrt (<) (map key xs)"
  shows "lower_bound (\<lambda>x. key x < (k::'k::linorder)) xs = length (takeWhile (\<lambda>x. key x < k) xs)"
proof -
  let ?t = "takeWhile (\<lambda>x. key x < k) xs" and ?d = "dropWhile (\<lambda>x. key x < k) xs"
  have "\<not> key y < k" if "y \<in> set ?d" for y
  proof -
    have "?d \<noteq> []" using that by (metis empty_iff list.set(1))
    then obtain z zs where d: "?d = z # zs" by (auto simp only: neq_Nil_conv)
    have z: "\<not> key z < k" using d by (meson dropWhile_eq_Cons_conv)
    have "sorted_wrt (<) (map key ?t @ map key ?d)"
      using assms by (metis map_append takeWhile_dropWhile_id)
    then have "sorted_wrt (<) (map key (z # zs))" by (simp add: sorted_wrt_append d)
    with that z d show ?thesis by auto
  qed
  moreover have "\<forall>x\<in>set ?t. key x < k" by (auto dest: set_takeWhileD)
  ultimately have "lower_bound (\<lambda>x. key x < k) (?t @ ?d) = length ?t"
    by (intro lower_bound_append ballI) blast+
  then show ?thesis by (simp only: takeWhile_dropWhile_id)
qed

section \<open>Ordered association lists for std::map\<close>

type_synonym ('k, 'v) omap = "('k \<times> 'v) list"

definition sorted_keys :: "('k::linorder \<times> 'v) list \<Rightarrow> bool" where
  "sorted_keys m \<longleftrightarrow> sorted_wrt (<) (map fst m)"

text \<open>\<open>std::map::try_emplace\<close> (and \<open>emplace\<close>): insert unless the key is present.\<close>

fun try_emplace :: "'k::linorder \<Rightarrow> 'v \<Rightarrow> ('k, 'v) omap \<Rightarrow> ('k, 'v) omap" where
  "try_emplace k v [] = [(k, v)]"
| "try_emplace k v ((a, b) # m) =
     (if k < a then (k, v) # (a, b) # m
      else if k = a then (a, b) # m
      else (a, b) # try_emplace k v m)"

definition try_emplace_all :: "('k::linorder \<times> 'v) list \<Rightarrow> ('k, 'v) omap \<Rightarrow> ('k, 'v) omap" where
  "try_emplace_all kvs m = fold (\<lambda>(k, v). try_emplace k v) kvs m"

text \<open>The reference for an ordered index: insert, replacing the value of a present key.\<close>

fun upsert :: "'k::linorder \<Rightarrow> 'v \<Rightarrow> ('k, 'v) omap \<Rightarrow> ('k, 'v) omap" where
  "upsert k v [] = [(k, v)]"
| "upsert k v ((a, b) # m) =
     (if k < a then (k, v) # (a, b) # m
      else if k = a then (a, v) # m
      else (a, b) # upsert k v m)"

lemma sorted_keys_Nil [simp]: "sorted_keys []"
  by (simp add: sorted_keys_def)

lemma sorted_keys_Cons [simp]:
  "sorted_keys ((k, v) # m) \<longleftrightarrow> (\<forall>a\<in>fst ` set m. k < a) \<and> sorted_keys m"
  by (auto simp: sorted_keys_def)

lemma sorted_keys_append:
  "sorted_keys (a @ b) \<longleftrightarrow>
     sorted_keys a \<and> sorted_keys b \<and> (\<forall>x\<in>fst ` set a. \<forall>y\<in>fst ` set b. x < y)"
  by (auto simp: sorted_keys_def sorted_wrt_append)

lemma sorted_keys_distinct: "sorted_keys m \<Longrightarrow> distinct (map fst m)"
  by (induction m) fastforce+

lemma sorted_keys_filter: "sorted_keys m \<Longrightarrow> sorted_keys (filter P m)"
  by (induction m) auto

lemma keys_try_emplace [simp]: "fst ` set (try_emplace k v m) = insert k (fst ` set m)"
  by (induction k v m rule: try_emplace.induct) auto

lemma sorted_try_emplace [simp]: "sorted_keys m \<Longrightarrow> sorted_keys (try_emplace k v m)"
  by (induction k v m rule: try_emplace.induct) auto

lemma map_of_notin [simp]: "sorted_keys m \<Longrightarrow> \<forall>a\<in>fst ` set m. k < a \<Longrightarrow> map_of m k = None"
  by (auto simp: map_of_eq_None_iff)

lemma map_of_try_emplace [assoc_simps]:
  "sorted_keys m \<Longrightarrow>
   map_of (try_emplace k v m) x =
     (if x = k \<and> map_of m k = None then Some v else map_of m x)"
proof (induction k v m rule: try_emplace.induct)
  case (2 k v a b m)
  have "k < a \<Longrightarrow> map_of m k = None" using "2.prems" by (auto simp: map_of_eq_None_iff)
  with 2 show ?case by auto
qed simp

lemma sorted_try_emplace_all [simp]:
  "sorted_keys m \<Longrightarrow> sorted_keys (try_emplace_all kvs m)"
  by (induction kvs arbitrary: m) (auto simp: try_emplace_all_def)

lemma map_of_try_emplace_all [assoc_simps]:
  "sorted_keys m \<Longrightarrow>
   map_of (try_emplace_all kvs m) x = (case map_of m x of Some v \<Rightarrow> Some v | None \<Rightarrow> map_of kvs x)"
proof (induction kvs arbitrary: m)
  case (Cons kv kvs)
  obtain k v where kv: "kv = (k, v)" by (cases kv)
  have "map_of (try_emplace_all (kv # kvs) m) x =
        map_of (try_emplace_all kvs (try_emplace k v m)) x"
    by (simp add: try_emplace_all_def kv)
  with Cons show ?case
    by (auto simp: kv map_of_try_emplace split: option.splits)
qed (simp add: try_emplace_all_def split: option.splits)

lemma keys_upsert [simp]: "fst ` set (upsert k v m) = insert k (fst ` set m)"
  by (induction k v m rule: upsert.induct) auto

lemma sorted_upsert [simp]: "sorted_keys m \<Longrightarrow> sorted_keys (upsert k v m)"
  by (induction k v m rule: upsert.induct) auto

lemma map_of_upsert [assoc_simps]:
  "sorted_keys m \<Longrightarrow> map_of (upsert k v m) = (map_of m)(k \<mapsto> v)"
  by (induction k v m rule: upsert.induct) (auto simp: fun_eq_iff)

lemma upsert_append:
  assumes "\<forall>a\<in>fst ` set m1. a < k"
  shows "upsert k v (m1 @ m2) = m1 @ upsert k v m2"
  using assms by (induction m1) auto

lemma upsert_front: "\<forall>a\<in>fst ` set m. k < a \<Longrightarrow> upsert k v m = (k, v) # m"
  by (cases m) auto

text \<open>A sequence of insertions, and the fact that an ordered list is determined by its lookups.\<close>

definition upsert_all :: "('k::linorder \<times> 'v) list \<Rightarrow> ('k, 'v) omap \<Rightarrow> ('k, 'v) omap" where
  "upsert_all rs m = fold (\<lambda>(k, v). upsert k v) rs m"

lemma upsert_all_simps [simp]:
  "upsert_all [] m = m" "upsert_all ((k, v) # rs) m = upsert_all rs (upsert k v m)"
  by (simp_all add: upsert_all_def)

lemma upsert_all_append: "upsert_all (a @ b) m = upsert_all b (upsert_all a m)"
  by (simp add: upsert_all_def)

lemma sorted_upsert_all [simp]: "sorted_keys m \<Longrightarrow> sorted_keys (upsert_all rs m)"
  by (induction rs arbitrary: m) auto

lemma map_of_upsert_all [assoc_simps]:
  "sorted_keys m \<Longrightarrow> map_of (upsert_all rs m) = map_of m ++ map_of (rev rs)"
  by (induction rs arbitrary: m) (auto simp: map_of_upsert)

lemma keys_upsert_all: "fst ` set (upsert_all rs m) = fst ` set rs \<union> fst ` set m"
proof (induction rs arbitrary: m)
  case (Cons r rs)
  then show ?case by (cases r) (simp only: upsert_all_simps keys_upsert, simp)
qed simp

lemma sorted_keys_eqI:
  assumes "sorted_keys a" "sorted_keys b" "map_of a = map_of b"
  shows "a = b"
  using assms
proof (induction a arbitrary: b)
  case Nil
  then show ?case by (cases b) (auto simp: fun_eq_iff split: if_splits)
next
  case (Cons p a)
  obtain k v where p: "p = (k, v)" by (cases p)
  have "map_of b k = Some v" using Cons.prems(3) by (metis p fun_upd_same map_of.simps(2) fst_conv snd_conv)
  then obtain q b' where b: "b = q # b'" by (cases b) auto
  obtain k' v' where q: "q = (k', v')" by (cases q)
  have "map_of (p # a) k' = Some v'" unfolding Cons.prems(3) by (simp add: b q)
  then have "k' \<in> insert k (fst ` set a)" by (auto simp: p dest!: map_of_SomeD split: if_splits intro: rev_image_eqI)
  moreover have "k \<in> insert k' (fst ` set b')"
    using \<open>map_of b k = Some v\<close> by (auto simp: b q dest!: map_of_SomeD split: if_splits intro: rev_image_eqI)
  ultimately have k: "k' = k" using Cons.prems(1,2) by (auto simp: p b q dest: less_asym)
  then have v: "v' = v" using \<open>map_of b k = Some v\<close> by (simp add: b q)
  have "map_of a k = None" "map_of b' k = None"
    using Cons.prems(1,2) k by (auto simp: p b q map_of_eq_None_iff)
  moreover have "map_of a x = map_of b' x" if "x \<noteq> k" for x
    using fun_cong [OF Cons.prems(3), of x] that k by (simp add: p b q)
  ultimately have "map_of a = map_of b'" by (intro ext) metis
  with Cons k v show ?case by (auto simp: p b q)
qed

lemma upsert_all_sorted: "sorted_keys (m @ es) \<Longrightarrow> upsert_all es m = m @ es"
proof (induction es arbitrary: m)
  case (Cons e es)
  obtain k v where e: "e = (k, v)" by (cases e)
  have "upsert k v (m @ []) = m @ upsert k v []"
    using Cons.prems by (intro upsert_append) (auto simp: sorted_keys_append e)
  then have "upsert k v m = m @ [e]" by (simp add: e)
  with Cons.IH [of "m @ [e]"] Cons.prems show ?case by (simp add: e)
qed simp

section \<open>Option results\<close>

lemma bind_eq_SomeE:
  assumes "Option.bind x f = Some y"
  obtains z where "x = Some z" "f z = Some y"
  using assms by (cases x) auto

end
