(* ===== verification/NetworkBuffer.thy ===== *)
theory NetworkBuffer
  imports Prelude
begin

text \<open>
  The input and output buffers of a connection (\<open>include/network/NetworkBuffer.h\<close>,
  \<open>src/network/NetworkBuffer.cpp\<close>): a byte vector with a read and a write index. Sizes and indices
  are below the vector's maximal size, so \<open>size_t\<close> is \<^typ>\<open>nat\<close>; the invariant \<open>nb_ok\<close> excludes the
  states in which a difference of indices would wrap.

  \<open>None\<close> stands for a copy that leaves the vector. The result of the system call \<open>readv\<close> is a
  parameter of \<open>ReadFromFd\<close>: an errno value, or the bytes the kernel delivered.

  \<open>FindCRLF\<close> passes two occurrences of one string literal as the two ends of the pattern; the model
  assumes that the compiler stores them once, which the code relies on.
\<close>

section \<open>Operations\<close>

record NetworkBuffer =
  nb_buffer :: bytes
  read_index :: nat
  write_index :: nat

definition new_NetworkBuffer :: "nat \<Rightarrow> NetworkBuffer" where
  "new_NetworkBuffer initial_size =
     \<lparr>nb_buffer = replicate initial_size (CHR 0x00), read_index = 0, write_index = 0\<rparr>"

definition initial_buffer_size :: nat where "initial_buffer_size = 1024"

definition ReadableBytes :: "NetworkBuffer \<Rightarrow> nat" where
  "ReadableBytes nb = write_index nb - read_index nb"

definition WritableBytes :: "NetworkBuffer \<Rightarrow> nat" where
  "WritableBytes nb = length (nb_buffer nb) - write_index nb"

text \<open>The bytes between \<open>Peek()\<close> and \<open>Peek() + ReadableBytes()\<close>.\<close>

definition Peek :: "NetworkBuffer \<Rightarrow> bytes" where
  "Peek nb = take (ReadableBytes nb) (drop (read_index nb) (nb_buffer nb))"

definition copy_to :: "bytes \<Rightarrow> nat \<Rightarrow> bytes \<Rightarrow> bytes option" where
  "copy_to data pos buf =
     (if pos + length data \<le> length buf
      then Some (take pos buf @ data @ drop (pos + length data) buf) else None)"

definition vec_resize :: "nat \<Rightarrow> bytes \<Rightarrow> bytes" where
  "vec_resize n buf = take n buf @ replicate (n - length buf) (CHR 0x00)"

definition MakeSpace :: "nat \<Rightarrow> NetworkBuffer \<Rightarrow> NetworkBuffer option" where
  "MakeSpace len nb =
     (if WritableBytes nb + read_index nb < len
      then Some (nb\<lparr>nb_buffer := vec_resize (write_index nb + len) (nb_buffer nb)\<rparr>)
      else do {
        buf \<leftarrow> copy_to (Peek nb) 0 (nb_buffer nb);
        Some (nb\<lparr>nb_buffer := buf, read_index := 0, write_index := ReadableBytes nb\<rparr>)
      })"

definition EnsureWritableBytes :: "nat \<Rightarrow> NetworkBuffer \<Rightarrow> NetworkBuffer option" where
  "EnsureWritableBytes len nb = (if WritableBytes nb < len then MakeSpace len nb else Some nb)"

definition NetworkBuffer_Append :: "bytes \<Rightarrow> NetworkBuffer \<Rightarrow> NetworkBuffer option" where
  "NetworkBuffer_Append data nb = do {
     nb1 \<leftarrow> EnsureWritableBytes (length data) nb;
     buf \<leftarrow> copy_to data (write_index nb1) (nb_buffer nb1);
     Some (nb1\<lparr>nb_buffer := buf, write_index := write_index nb1 + length data\<rparr>)
   }"

definition RetrieveAll :: "NetworkBuffer \<Rightarrow> NetworkBuffer" where
  "RetrieveAll nb = nb\<lparr>read_index := 0, write_index := 0\<rparr>"

definition Retrieve :: "nat \<Rightarrow> NetworkBuffer \<Rightarrow> NetworkBuffer" where
  "Retrieve len nb =
     (if len < ReadableBytes nb then nb\<lparr>read_index := read_index nb + len\<rparr> else RetrieveAll nb)"

definition RetrieveAllAsString :: "NetworkBuffer \<Rightarrow> bytes \<times> NetworkBuffer" where
  "RetrieveAllAsString nb = (Peek nb, RetrieveAll nb)"

text \<open>\<open>std::search\<close> for the two bytes; the result is an offset from \<open>Peek()\<close>.\<close>

fun find_crlf :: "bytes \<Rightarrow> nat option" where
  "find_crlf (a # b # s) =
     (if a = CHR 0x0D \<and> b = CHR 0x0A then Some 0 else map_option Suc (find_crlf (b # s)))"
| "find_crlf _ = None"

definition FindCRLF :: "NetworkBuffer \<Rightarrow> nat option" where
  "FindCRLF nb = find_crlf (Peek nb)"

text \<open>
  The kernel fills the free part of the vector and then the 65536 bytes of \<open>extra_buffer\<close>. The
  result is \<open>-1\<close> with the errno value, or the number of bytes read.
\<close>

definition extra_buffer_size :: nat where "extra_buffer_size = 65536"

definition ReadFromFd :: "int + bytes \<Rightarrow> NetworkBuffer \<Rightarrow> (int \<times> int \<times> NetworkBuffer) option" where
  "ReadFromFd res nb =
     (case res of
        Inl err \<Rightarrow> Some (-1, err, nb)
      | Inr data \<Rightarrow>
          (let writable = WritableBytes nb; n = length data in do {
             buf \<leftarrow> copy_to (take writable data) (write_index nb) (nb_buffer nb);
             nb' \<leftarrow> (if n \<le> writable then Some (nb\<lparr>nb_buffer := buf, write_index := write_index nb + n\<rparr>)
                     else if n - writable > extra_buffer_size then None
                     else NetworkBuffer_Append (drop writable data)
                            (nb\<lparr>nb_buffer := buf, write_index := length buf\<rparr>));
             Some (int n, 0, nb')
           }))"

section \<open>The buffer as a queue of bytes\<close>

definition nb_ok :: "NetworkBuffer \<Rightarrow> bool" where
  "nb_ok nb \<longleftrightarrow> read_index nb \<le> write_index nb \<and> write_index nb \<le> length (nb_buffer nb)"

lemma length_Peek: "nb_ok nb \<Longrightarrow> length (Peek nb) = ReadableBytes nb"
  by (auto simp: Peek_def ReadableBytes_def nb_ok_def)

lemma nb_ok_new [simp]: "nb_ok (new_NetworkBuffer n)"
  by (simp add: nb_ok_def new_NetworkBuffer_def)

lemma Peek_new [simp]: "Peek (new_NetworkBuffer n) = []"
  by (simp add: Peek_def ReadableBytes_def new_NetworkBuffer_def)

lemma length_copy_to: "copy_to d p b = Some b' \<Longrightarrow> length b' = length b"
  by (auto simp: copy_to_def split: if_splits)

lemma EnsureWritableBytes_ok:
  assumes "nb_ok nb"
  shows "\<exists>nb'. EnsureWritableBytes len nb = Some nb' \<and> nb_ok nb' \<and> Peek nb' = Peek nb \<and> len \<le> WritableBytes nb'"
proof (cases "WritableBytes nb < len")
  case True
  show ?thesis
  proof (cases "WritableBytes nb + read_index nb < len")
    case grow: True
    let ?nb = "nb\<lparr>nb_buffer := vec_resize (write_index nb + len) (nb_buffer nb)\<rparr>"
    have "Peek ?nb = Peek nb"
      using assms grow by (simp add: Peek_def ReadableBytes_def WritableBytes_def vec_resize_def nb_ok_def)
    then show ?thesis
      using assms True grow
      by (auto simp: EnsureWritableBytes_def MakeSpace_def nb_ok_def WritableBytes_def vec_resize_def)
  next
    case move: False
    have le: "ReadableBytes nb \<le> length (nb_buffer nb)" using assms by (auto simp: nb_ok_def ReadableBytes_def)
    let ?buf = "Peek nb @ drop (ReadableBytes nb) (nb_buffer nb)"
    have c: "copy_to (Peek nb) 0 (nb_buffer nb) = Some ?buf"
      using le by (simp add: copy_to_def length_Peek [OF assms])
    let ?nb = "nb\<lparr>nb_buffer := ?buf, read_index := 0, write_index := ReadableBytes nb\<rparr>"
    have "Peek ?nb = Peek nb" by (simp add: Peek_def [of ?nb] ReadableBytes_def [of ?nb] length_Peek [OF assms])
    moreover have "len \<le> WritableBytes ?nb"
      using assms move by (simp add: WritableBytes_def ReadableBytes_def nb_ok_def length_Peek)
    ultimately show ?thesis
      using True move c le by (simp add: EnsureWritableBytes_def MakeSpace_def nb_ok_def length_Peek [OF assms])
  qed
qed (use assms in \<open>simp add: EnsureWritableBytes_def\<close>)

lemma copy_at_write_index:
  assumes "nb_ok nb" "length data \<le> WritableBytes nb"
  shows "\<exists>buf. copy_to data (write_index nb) (nb_buffer nb) = Some buf \<and> length buf = length (nb_buffer nb) \<and>
    nb_ok (nb\<lparr>nb_buffer := buf, write_index := write_index nb + length data\<rparr>) \<and>
    Peek (nb\<lparr>nb_buffer := buf, write_index := write_index nb + length data\<rparr>) = Peek nb @ data"
proof -
  let ?buf = "take (write_index nb) (nb_buffer nb) @ data @ drop (write_index nb + length data) (nb_buffer nb)"
  have le: "write_index nb + length data \<le> length (nb_buffer nb)" "read_index nb \<le> write_index nb"
    using assms by (auto simp: nb_ok_def WritableBytes_def)
  let ?old = "take (write_index nb - read_index nb) (drop (read_index nb) (nb_buffer nb))"
  have "drop (read_index nb) ?buf = ?old @ data @ drop (write_index nb + length data) (nb_buffer nb)"
    using le by (simp add: drop_take)
  moreover have "length (?old @ data) = write_index nb + length data - read_index nb" using le by simp
  ultimately have "take (write_index nb + length data - read_index nb) (drop (read_index nb) ?buf) = ?old @ data"
    by (metis append.assoc append_eq_conv_conj)
  then show ?thesis using le by (simp add: copy_to_def nb_ok_def Peek_def ReadableBytes_def)
qed

lemma NetworkBuffer_Append_ok:
  assumes "nb_ok nb"
  shows "\<exists>nb'. NetworkBuffer_Append data nb = Some nb' \<and> nb_ok nb' \<and> Peek nb' = Peek nb @ data"
proof -
  obtain nb1 where e: "EnsureWritableBytes (length data) nb = Some nb1" "nb_ok nb1" "Peek nb1 = Peek nb"
    "length data \<le> WritableBytes nb1"
    using EnsureWritableBytes_ok [OF assms] by blast
  then show ?thesis using copy_at_write_index [OF e(2,4)] by (auto simp: NetworkBuffer_Append_def)
qed

lemma Retrieve_ok:
  "nb_ok nb \<Longrightarrow> nb_ok (Retrieve len nb)" "nb_ok nb \<Longrightarrow> Peek (Retrieve len nb) = drop len (Peek nb)"
  by (auto simp: nb_ok_def Retrieve_def RetrieveAll_def Peek_def ReadableBytes_def drop_take add.commute)

lemma RetrieveAll_ok [simp]: "nb_ok (RetrieveAll nb)" "Peek (RetrieveAll nb) = []"
  by (simp_all add: nb_ok_def RetrieveAll_def Peek_def ReadableBytes_def)

lemma ReadFromFd_ok:
  assumes "nb_ok nb" "length data \<le> WritableBytes nb + extra_buffer_size"
  shows "\<exists>nb'. ReadFromFd (Inr data) nb = Some (int (length data), 0, nb') \<and> nb_ok nb' \<and> Peek nb' = Peek nb @ data"
proof -
  let ?w = "WritableBytes nb"
  have le: "length (take ?w data) \<le> ?w" by simp
  obtain buf where b: "copy_to (take ?w data) (write_index nb) (nb_buffer nb) = Some buf" "length buf = length (nb_buffer nb)"
    "nb_ok (nb\<lparr>nb_buffer := buf, write_index := write_index nb + length (take ?w data)\<rparr>)"
    "Peek (nb\<lparr>nb_buffer := buf, write_index := write_index nb + length (take ?w data)\<rparr>) = Peek nb @ take ?w data"
    using copy_at_write_index [OF assms(1) le] by blast
  show ?thesis
  proof (cases "length data \<le> ?w")
    case True
    then show ?thesis using b by (simp add: ReadFromFd_def Let_def)
  next
    case False
    then have idx: "write_index nb + length (take ?w data) = length buf"
      using assms(1) b(2) by (simp add: WritableBytes_def nb_ok_def)
    have ok: "nb_ok (nb\<lparr>nb_buffer := buf, write_index := length buf\<rparr>)"
      "Peek (nb\<lparr>nb_buffer := buf, write_index := length buf\<rparr>) = Peek nb @ take ?w data"
      using b(3,4) unfolding idx by simp_all
    obtain nb' where "NetworkBuffer_Append (drop ?w data) (nb\<lparr>nb_buffer := buf, write_index := length buf\<rparr>) = Some nb'"
      "nb_ok nb'" "Peek nb' = (Peek nb @ take ?w data) @ drop ?w data"
      using NetworkBuffer_Append_ok [OF ok(1), of "drop ?w data"] ok(2) by auto
    then show ?thesis using b(1) False assms(2) by (simp add: ReadFromFd_def Let_def)
  qed
qed

subsection \<open>The interface its clients use\<close>

locale byte_queue =
  fixes ok :: "'q \<Rightarrow> bool"
    and contents :: "'q \<Rightarrow> bytes"
    and append :: "bytes \<Rightarrow> 'q \<Rightarrow> 'q option"
    and retrieve :: "nat \<Rightarrow> 'q \<Rightarrow> 'q"
  assumes append_law: "ok q \<Longrightarrow> \<exists>q'. append d q = Some q' \<and> ok q' \<and> contents q' = contents q @ d"
    and retrieve_law: "ok q \<Longrightarrow> ok (retrieve n q) \<and> contents (retrieve n q) = drop n (contents q)"
begin

lemma append_obtain:
  assumes "ok q"
  obtains q' where "append d q = Some q'" "ok q'" "contents q' = contents q @ d"
  using append_law [OF assms] by blast

lemma append_then_retrieve:
  assumes "ok q" "append d q = Some q'"
  shows "contents (retrieve (length (contents q)) q') = d"
  using append_law [OF assms(1), of d] retrieve_law assms(2) by auto

text \<open>A client that appends one piece after the other.\<close>

definition sends :: "('q \<Rightarrow> 'q option) \<Rightarrow> bytes \<Rightarrow> bool" where
  "sends f d \<longleftrightarrow> (\<forall>q. ok q \<longrightarrow> (\<exists>q'. f q = Some q' \<and> ok q' \<and> contents q' = contents q @ d))"

lemma sends_append [intro]: "sends (append d) d"
  by (simp add: sends_def append_law)

lemma sends_bind [intro]: "sends f a \<Longrightarrow> sends g b \<Longrightarrow> sends (\<lambda>q. f q \<bind> g) (a @ b)"
  unfolding sends_def by (metis append.assoc bind.bind_lunit)

lemma sendsD:
  assumes "sends f d" "ok q"
  obtains q' where "f q = Some q'" "ok q'" "contents q' = contents q @ d"
  using assms by (auto simp: sends_def)

end

interpretation nb: byte_queue nb_ok Peek NetworkBuffer_Append Retrieve
  by unfold_locales (use NetworkBuffer_Append_ok Retrieve_ok in auto)

section \<open>Finding the end of a line\<close>

lemma find_crlf_Cons:
  "find_crlf (a # s) = (if a = CHR 0x0D \<and> s \<noteq> [] \<and> hd s = CHR 0x0A then Some 0 else map_option Suc (find_crlf s))"
  by (cases s) auto

lemma find_crlf_append: "find_crlf s = Some i \<Longrightarrow> find_crlf (s @ t) = Some i"
proof (induction s arbitrary: i)
  case (Cons a s)
  then show ?case by (cases s) (auto simp: find_crlf_Cons split: if_splits)
qed simp

lemma find_crlf_line: "CHR 0x0D \<notin> set a \<Longrightarrow> find_crlf (a @ CHR 0x0D # CHR 0x0A # s) = Some (length a)"
  by (induction a) (auto simp: find_crlf_Cons)

lemma find_crlf_bound: "find_crlf s = Some i \<Longrightarrow> i + 2 \<le> length s"
proof (induction s arbitrary: i)
  case (Cons a s)
  then show ?case by (cases s) (auto simp: find_crlf_Cons split: if_splits)
qed simp

lemma find_crlf_split:
  "find_crlf s = Some i \<Longrightarrow> s = take i s @ CHR 0x0D # CHR 0x0A # drop (i + 2) s"
proof (induction s arbitrary: i)
  case (Cons a s)
  then show ?case by (cases s) (auto simp: find_crlf_Cons split: if_splits)
qed simp

section \<open>Sequences of operations\<close>

datatype nb_op = OpAppend bytes | OpRetrieve nat | OpRetrieveAll | OpRead bytes

fun run_nb_op :: "nb_op \<Rightarrow> NetworkBuffer \<Rightarrow> NetworkBuffer option" where
  "run_nb_op (OpAppend d) nb = NetworkBuffer_Append d nb"
| "run_nb_op (OpRetrieve n) nb = Some (Retrieve n nb)"
| "run_nb_op OpRetrieveAll nb = Some (RetrieveAll nb)"
| "run_nb_op (OpRead d) nb = do { (n, err, nb') \<leftarrow> ReadFromFd (Inr d) nb; Some nb' }"

fun run_nb_ops :: "nb_op list \<Rightarrow> NetworkBuffer \<Rightarrow> NetworkBuffer option" where
  "run_nb_ops [] nb = Some nb"
| "run_nb_ops (op # ops) nb = do { nb' \<leftarrow> run_nb_op op nb; run_nb_ops ops nb' }"

fun queue_op :: "nb_op \<Rightarrow> bytes \<Rightarrow> bytes" where
  "queue_op (OpAppend d) q = q @ d"
| "queue_op (OpRetrieve n) q = drop n q"
| "queue_op OpRetrieveAll q = []"
| "queue_op (OpRead d) q = q @ d"

definition read_fits :: "nb_op \<Rightarrow> bool" where
  "read_fits op = (case op of OpRead d \<Rightarrow> length d \<le> extra_buffer_size | _ \<Rightarrow> True)"

lemma run_nb_op_ok:
  assumes "nb_ok nb" "read_fits op"
  shows "\<exists>nb'. run_nb_op op nb = Some nb' \<and> nb_ok nb' \<and> Peek nb' = queue_op op (Peek nb)"
proof (cases op)
  case (OpRead d)
  then have "length d \<le> WritableBytes nb + extra_buffer_size" using assms(2) by (simp add: read_fits_def)
  from ReadFromFd_ok [OF assms(1) this] show ?thesis by (auto simp: OpRead)
qed (use assms(1) nb.append_law nb.retrieve_law in auto)

lemma run_nb_ops_ok:
  "nb_ok nb \<Longrightarrow> list_all read_fits ops \<Longrightarrow>
   \<exists>nb'. run_nb_ops ops nb = Some nb' \<and> nb_ok nb' \<and> Peek nb' = fold queue_op ops (Peek nb)"
proof (induction ops arbitrary: nb)
  case (Cons op ops)
  obtain nb1 where "run_nb_op op nb = Some nb1" "nb_ok nb1" "Peek nb1 = queue_op op (Peek nb)"
    using run_nb_op_ok Cons.prems by fastforce
  with Cons.IH [of nb1] Cons.prems show ?case by simp
qed simp

section \<open>Properties\<close>

text \<open>
  C30: whatever sequence of appends, retrievals and socket reads (of at most the 65536 bytes of the
  overflow buffer) is applied to a new buffer of any initial size, no copy leaves the vector, the
  indices stay in order, and the readable bytes are those of an unbounded byte queue that the same
  operations are applied to; growing the vector and moving data to its front are invisible.
\<close>

theorem buffer_refines_queue:
  assumes "list_all read_fits ops"
  shows "\<exists>nb'. run_nb_ops ops (new_NetworkBuffer n) = Some nb' \<and>
    read_index nb' \<le> write_index nb' \<and> write_index nb' \<le> length (nb_buffer nb') \<and>
    Peek nb' = fold queue_op ops [] \<and> ReadableBytes nb' = length (fold queue_op ops [])"
proof -
  obtain nb' where "run_nb_ops ops (new_NetworkBuffer n) = Some nb'" "nb_ok nb'" "Peek nb' = fold queue_op ops []"
    using run_nb_ops_ok [OF nb_ok_new assms, of n] by auto
  then show ?thesis using length_Peek [of nb'] by (auto simp: nb_ok_def)
qed

theorem buffer_refines_queue_witness:
  "\<exists>nb'. run_nb_ops [OpAppend ''abc'', OpRetrieve 2, OpRead ''defgh'', OpAppend ''ij''] (new_NetworkBuffer 4) = Some nb' \<and>
     Peek nb' = ''cdefghij''"
  using buffer_refines_queue [of "[OpAppend ''abc'', OpRetrieve 2, OpRead ''defgh'', OpAppend ''ij'']" 4]
  by (auto simp: read_fits_def extra_buffer_size_def)

end
