(* ===== verification/Decimal.thy ===== *)
theory Decimal
  imports Prelude
begin

text \<open>
  Decimal text of the standard library: \<open>std::to_string\<close> on unsigned and signed 64-bit values,
  the digit test of \<open>std::isdigit\<close> in the "C" locale, and the value of a digit string, which
  \<open>std::stoull\<close>, \<open>std::stoi\<close> and \<open>std::from_chars\<close> share. Used for file names and for RESP.
\<close>

definition is_digit :: "char \<Rightarrow> bool" where
  "is_digit c \<longleftrightarrow> 48 \<le> (of_char c :: nat) \<and> (of_char c :: nat) \<le> 57"

definition digit_char :: "nat \<Rightarrow> char" where
  "digit_char d = char_of (48 + d)"

definition digit_val :: "char \<Rightarrow> nat" where
  "digit_val c = of_char c - 48"

fun to_string :: "nat \<Rightarrow> string" where
  "to_string n = (if n < 10 then [digit_char n] else to_string (n div 10) @ [digit_char (n mod 10)])"

declare to_string.simps [simp del]

definition int_to_string :: "int \<Rightarrow> string" where
  "int_to_string i = (if i < 0 then CHR ''-'' # to_string (nat (- i)) else to_string (nat i))"

definition digits_value :: "string \<Rightarrow> nat" where
  "digits_value s = foldl (\<lambda>a c. 10 * a + digit_val c) 0 s"

text \<open>\<open>std::stoull\<close> and \<open>std::stoi\<close> on a string of digits; \<open>None\<close> is the exception they throw.\<close>

definition stoull :: "string \<Rightarrow> u64 option" where
  "stoull s = (if s = [] \<or> digits_value s \<ge> 2 ^ 64 then None else Some (of_nat (digits_value s)))"

definition stoi :: "string \<Rightarrow> int option" where
  "stoi s = (if s = [] \<or> digits_value s \<ge> 2 ^ 31 then None else Some (int (digits_value s)))"

section \<open>Round trip\<close>

lemma of_char_digit_char: "d < 10 \<Longrightarrow> (of_char (digit_char d) :: nat) = 48 + d"
  by (simp add: digit_char_def)

lemma is_digit_digit_char [simp]: "d < 10 \<Longrightarrow> is_digit (digit_char d)"
  by (simp add: is_digit_def of_char_digit_char)

lemma digit_val_digit_char [simp]: "d < 10 \<Longrightarrow> digit_val (digit_char d) = d"
  by (simp add: digit_val_def of_char_digit_char)

lemma digits_value_snoc: "digits_value (s @ [c]) = 10 * digits_value s + digit_val c"
  by (simp add: digits_value_def)

lemma digits_value_to_string [simp]: "digits_value (to_string n) = n"
proof (induction n rule: to_string.induct)
  case (1 n)
  then show ?case
    by (subst to_string.simps) (auto simp: digits_value_snoc, simp add: digits_value_def)
qed

lemma to_string_digits: "c \<in> set (to_string n) \<Longrightarrow> is_digit c"
proof (induction n rule: to_string.induct)
  case (1 n)
  from "1.prems" show ?case
    by (subst (asm) to_string.simps) (auto split: if_splits intro: "1.IH")
qed

lemma to_string_nonempty [simp]: "to_string n \<noteq> []"
  by (subst to_string.simps) simp

lemma to_string_inj [simp]: "to_string m = to_string n \<longleftrightarrow> m = n"
  by (metis digits_value_to_string)

lemma list_all_digits_to_string [simp]: "list_all is_digit (to_string n)"
  by (auto simp: list_all_iff intro: to_string_digits)

lemma unat_u64_bound: "\<not> 18446744073709551616 \<le> unat (w :: u64)"
  using unsigned_less [of w] by (simp add: not_le)

lemma stoull_to_string [simp]: "stoull (to_string (unat (w :: u64))) = Some w"
  by (simp add: stoull_def unat_u64_bound)

lemma digit_not_special:
  "is_digit c \<Longrightarrow> c \<noteq> CHR 0x0D \<and> c \<noteq> CHR 0x0A \<and> c \<noteq> CHR ''-'' \<and> c \<noteq> CHR ''.''"
  by (auto simp: is_digit_def)

lemma not_in_to_string [simp]:
  "CHR 0x0D \<notin> set (to_string n)" "CHR 0x0A \<notin> set (to_string n)"
  "CHR ''-'' \<notin> set (to_string n)" "CHR ''.'' \<notin> set (to_string n)"
  using to_string_digits digit_not_special by blast+

end
