(* ===== verification/RESPEncoder.thy ===== *)
theory RESPEncoder
  imports NetworkBuffer Decimal
begin

text \<open>
  The encoder of replies (\<open>include/network/RESPEncoder.h\<close>, \<open>src/network/RESPEncoder.cpp\<close>). Each
  operation is a sequence of appends to a \<open>NetworkBuffer\<close>; the theory gives the bytes each one
  appends and shows that a client can split a stream of replies in exactly one way.
\<close>

section \<open>Operations\<close>

definition kCRLF :: bytes where "kCRLF = [CHR 0x0D, CHR 0x0A]"

definition EncodeSimpleString :: "bytes \<Rightarrow> NetworkBuffer \<Rightarrow> NetworkBuffer option" where
  "EncodeSimpleString str nb = do {
     a \<leftarrow> NetworkBuffer_Append ''+'' nb;
     b \<leftarrow> NetworkBuffer_Append str a;
     NetworkBuffer_Append kCRLF b
   }"

definition EncodeError :: "bytes \<Rightarrow> NetworkBuffer \<Rightarrow> NetworkBuffer option" where
  "EncodeError msg nb = do {
     a \<leftarrow> NetworkBuffer_Append ''-ERR '' nb;
     b \<leftarrow> NetworkBuffer_Append msg a;
     NetworkBuffer_Append kCRLF b
   }"

definition EncodeInteger :: "int \<Rightarrow> NetworkBuffer \<Rightarrow> NetworkBuffer option" where
  "EncodeInteger val nb = do {
     a \<leftarrow> NetworkBuffer_Append '':'' nb;
     b \<leftarrow> NetworkBuffer_Append (int_to_string val) a;
     NetworkBuffer_Append kCRLF b
   }"

definition EncodeBulkString :: "bytes \<Rightarrow> NetworkBuffer \<Rightarrow> NetworkBuffer option" where
  "EncodeBulkString str nb = do {
     a \<leftarrow> NetworkBuffer_Append ''$'' nb;
     b \<leftarrow> NetworkBuffer_Append (to_string (length str)) a;
     c \<leftarrow> NetworkBuffer_Append kCRLF b;
     d \<leftarrow> NetworkBuffer_Append str c;
     NetworkBuffer_Append kCRLF d
   }"

definition EncodeNull :: "NetworkBuffer \<Rightarrow> NetworkBuffer option" where
  "EncodeNull nb = do {
     a \<leftarrow> NetworkBuffer_Append ''$-1'' nb;
     NetworkBuffer_Append kCRLF a
   }"

fun encode_elements :: "bytes list \<Rightarrow> NetworkBuffer \<Rightarrow> NetworkBuffer option" where
  "encode_elements [] nb = Some nb"
| "encode_elements (e # es) nb = do { nb' \<leftarrow> EncodeBulkString e nb; encode_elements es nb' }"

definition EncodeArray :: "bytes list \<Rightarrow> NetworkBuffer \<Rightarrow> NetworkBuffer option" where
  "EncodeArray elements nb = do {
     a \<leftarrow> NetworkBuffer_Append ''*'' nb;
     b \<leftarrow> NetworkBuffer_Append (to_string (length elements)) a;
     c \<leftarrow> NetworkBuffer_Append kCRLF b;
     encode_elements elements c
   }"

section \<open>What they append\<close>

definition bulk_bytes :: "bytes \<Rightarrow> bytes" where
  "bulk_bytes str = ''$'' @ to_string (length str) @ kCRLF @ str @ kCRLF"

definition array_bytes :: "bytes list \<Rightarrow> bytes" where
  "array_bytes es = ''*'' @ to_string (length es) @ kCRLF @ concat (map bulk_bytes es)"

datatype reply = SimpleString bytes | ErrorReply bytes | IntegerReply int | BulkString bytes | NullReply | ArrayReply "bytes list"

fun reply_bytes :: "reply \<Rightarrow> bytes" where
  "reply_bytes (SimpleString s) = ''+'' @ s @ kCRLF"
| "reply_bytes (ErrorReply s) = ''-ERR '' @ s @ kCRLF"
| "reply_bytes (IntegerReply i) = '':'' @ int_to_string i @ kCRLF"
| "reply_bytes (BulkString s) = bulk_bytes s"
| "reply_bytes NullReply = ''$-1'' @ kCRLF"
| "reply_bytes (ArrayReply es) = array_bytes es"

fun Encode :: "reply \<Rightarrow> NetworkBuffer \<Rightarrow> NetworkBuffer option" where
  "Encode (SimpleString s) = EncodeSimpleString s"
| "Encode (ErrorReply s) = EncodeError s"
| "Encode (IntegerReply i) = EncodeInteger i"
| "Encode (BulkString s) = EncodeBulkString s"
| "Encode NullReply = EncodeNull"
| "Encode (ArrayReply es) = EncodeArray es"

lemma EncodeBulkString_sends: "nb.sends (EncodeBulkString s) (bulk_bytes s)"
  unfolding EncodeBulkString_def bulk_bytes_def by (intro nb.sends_bind nb.sends_append)

lemma encode_elements_sends: "nb.sends (encode_elements es) (concat (map bulk_bytes es))"
proof (induction es)
  case (Cons e es)
  then show ?case using nb.sends_bind [OF EncodeBulkString_sends] by (simp add: fun_eq_iff)
qed (simp add: nb.sends_def)

lemma EncodeArray_sends: "nb.sends (EncodeArray es) (array_bytes es)"
  unfolding EncodeArray_def array_bytes_def by (intro nb.sends_bind nb.sends_append encode_elements_sends)

lemma line_sends:
  "nb.sends (EncodeSimpleString s) (''+'' @ s @ kCRLF)" "nb.sends (EncodeError s) (''-ERR '' @ s @ kCRLF)"
  "nb.sends (EncodeInteger i) ('':'' @ int_to_string i @ kCRLF)" "nb.sends EncodeNull (''$-1'' @ kCRLF)"
  unfolding EncodeSimpleString_def EncodeError_def EncodeInteger_def EncodeNull_def
  by (intro nb.sends_bind nb.sends_append)+

lemma Encode_sends: "nb.sends (Encode r) (reply_bytes r)"
  by (cases r; simp only: Encode.simps reply_bytes.simps; intro line_sends EncodeBulkString_sends EncodeArray_sends)

fun encode_all :: "reply list \<Rightarrow> NetworkBuffer \<Rightarrow> NetworkBuffer option" where
  "encode_all [] nb = Some nb"
| "encode_all (r # rs) nb = do { nb' \<leftarrow> Encode r nb; encode_all rs nb' }"

lemma encode_all_sends: "nb.sends (encode_all rs) (concat (map reply_bytes rs))"
proof (induction rs)
  case (Cons r rs)
  then show ?case using nb.sends_bind [OF Encode_sends] by (simp add: fun_eq_iff)
qed (simp add: nb.sends_def)

section \<open>Replies are self-delimiting\<close>

text \<open>The text of a simple string or an error must not contain a carriage return.\<close>

fun framed :: "reply \<Rightarrow> bool" where
  "framed (SimpleString s) = (CHR 0x0D \<notin> set s)"
| "framed (ErrorReply s) = (CHR 0x0D \<notin> set s)"
| "framed _ = True"

lemma line_unique:
  assumes "a @ kCRLF @ s = b @ kCRLF @ t" "CHR 0x0D \<notin> set a" "CHR 0x0D \<notin> set b"
  shows "a = b \<and> s = t"
  using assms
proof (induction a arbitrary: b)
  case Nil
  then show ?case by (cases b) (auto simp: kCRLF_def)
next
  case (Cons x a)
  then show ?case by (cases b) (auto simp: kCRLF_def)
qed

lemma length_line_unique:
  assumes "to_string m @ kCRLF @ s = to_string n @ kCRLF @ t"
  shows "m = n" "s = t"
  using line_unique [OF assms] by auto

lemma bulk_unique: "bulk_bytes a @ s = bulk_bytes b @ t \<Longrightarrow> a = b \<and> s = t"
  unfolding bulk_bytes_def using length_line_unique [of "length a" "a @ kCRLF @ s" "length b" "b @ kCRLF @ t"]
  by auto

lemma bulks_unique:
  "concat (map bulk_bytes es) @ s = concat (map bulk_bytes fs) @ t \<Longrightarrow> length es = length fs \<Longrightarrow> es = fs \<and> s = t"
proof (induction es arbitrary: fs)
  case (Cons e es)
  then obtain f fs' where fs: "fs = f # fs'" by (cases fs) auto
  with Cons.prems have "bulk_bytes e @ (concat (map bulk_bytes es) @ s) = bulk_bytes f @ (concat (map bulk_bytes fs') @ t)"
    by simp
  then have "e = f" "concat (map bulk_bytes es) @ s = concat (map bulk_bytes fs') @ t" using bulk_unique by blast+
  with Cons fs show ?case by simp
qed simp

lemma array_unique: "array_bytes es @ s = array_bytes fs @ t \<Longrightarrow> es = fs \<and> s = t"
  unfolding array_bytes_def
  using length_line_unique [of "length es" "concat (map bulk_bytes es) @ s" "length fs" "concat (map bulk_bytes fs) @ t"]
    bulks_unique by auto

lemma to_string_no_minus: "to_string n @ s \<noteq> CHR ''-'' # t"
proof
  assume eq: "to_string n @ s = CHR ''-'' # t"
  obtain c u where c: "to_string n = c # u" by (cases "to_string n") auto
  have "is_digit c" using to_string_digits [of c n] c by simp
  then show False using eq c by (auto simp: is_digit_def)
qed

lemma no_minus_to_string: "CHR ''-'' # t \<noteq> to_string n @ s"
  using to_string_no_minus [of n s t] by (rule not_sym)

lemma int_to_string_inj [simp]: "int_to_string i = int_to_string j \<longleftrightarrow> i = j"
  using to_string_no_minus [of _ "[]"] by (auto simp: int_to_string_def dest: sym)

lemma int_to_string_no_cr: "CHR 0x0D \<notin> set (int_to_string i)"
  by (simp add: int_to_string_def)

lemma reply_unique:
  assumes eq: "reply_bytes r @ s = reply_bytes q @ t" and "framed r" "framed q"
  shows "r = q \<and> s = t"
proof (cases r)
  case (SimpleString a)
  then obtain b where "q = SimpleString b" using eq by (cases q) (simp_all add: bulk_bytes_def array_bytes_def)
  then show ?thesis using assms SimpleString line_unique [of a s b t] by simp
next
  case (ErrorReply a)
  then obtain b where "q = ErrorReply b" using eq by (cases q) (simp_all add: bulk_bytes_def array_bytes_def)
  then show ?thesis using assms ErrorReply line_unique [of a s b t] by simp
next
  case (IntegerReply i)
  then obtain j where "q = IntegerReply j" using eq by (cases q) (simp_all add: bulk_bytes_def array_bytes_def)
  then show ?thesis
    using eq IntegerReply line_unique [of "int_to_string i" s "int_to_string j" t] by (simp add: int_to_string_no_cr)
next
  case (BulkString a)
  then obtain b where "q = BulkString b"
    using eq to_string_no_minus by (cases q) (simp_all add: bulk_bytes_def array_bytes_def)
  then show ?thesis using eq BulkString bulk_unique [of a s b t] by simp
next
  case NullReply
  then have "q = NullReply"
    using eq no_minus_to_string by (cases q) (simp_all add: bulk_bytes_def array_bytes_def)
  then show ?thesis using eq NullReply by simp
next
  case (ArrayReply es)
  then obtain fs where "q = ArrayReply fs" using eq by (cases q) (simp_all add: bulk_bytes_def array_bytes_def)
  then show ?thesis using eq ArrayReply array_unique [of es s fs t] by simp
qed

lemma replies_unique:
  "concat (map reply_bytes rs) @ s = concat (map reply_bytes qs) @ t \<Longrightarrow> length rs = length qs \<Longrightarrow>
   list_all framed rs \<Longrightarrow> list_all framed qs \<Longrightarrow> rs = qs \<and> s = t"
proof (induction rs arbitrary: qs)
  case (Cons r rs)
  then obtain q qs' where qs: "qs = q # qs'" by (cases qs) auto
  with Cons.prems have "reply_bytes r @ (concat (map reply_bytes rs) @ s) = reply_bytes q @ (concat (map reply_bytes qs') @ t)"
    by simp
  then have "r = q" "concat (map reply_bytes rs) @ s = concat (map reply_bytes qs') @ t"
    using reply_unique [of r _ q] Cons.prems qs by auto
  with Cons qs show ?case by simp
qed simp

section \<open>Properties\<close>

text \<open>
  C33: a sequence of replies is appended to whatever the buffer holds, reply by reply. The encoder does
  not look at the texts of simple strings and errors; when none of them contains a carriage return, the
  encoding is prefix-free: a client recovers the replies in exactly one way, whatever bytes the bulk
  strings hold.
\<close>

theorem encoded_replies_unique:
  assumes "nb_ok nb"
  shows "\<exists>nb'. encode_all rs nb = Some nb' \<and> nb_ok nb' \<and> Peek nb' = Peek nb @ concat (map reply_bytes rs) \<and>
    (\<forall>qs s t. list_all framed rs \<and> list_all framed qs \<and> length qs = length rs \<and>
       concat (map reply_bytes rs) @ s = concat (map reply_bytes qs) @ t \<longrightarrow> qs = rs \<and> s = t)"
proof -
  obtain nb' where "encode_all rs nb = Some nb'" "nb_ok nb'" "Peek nb' = Peek nb @ concat (map reply_bytes rs)"
    by (rule nb.sendsD [OF encode_all_sends assms(1)])
  then show ?thesis using replies_unique by metis
qed

theorem encoded_replies_unique_witness:
  "\<exists>nb'. encode_all [BulkString [CHR 0x0D, CHR 0x0A], NullReply] (new_NetworkBuffer 2) = Some nb' \<and>
     Peek nb' = bulk_bytes [CHR 0x0D, CHR 0x0A] @ ''$-1'' @ kCRLF"
  using encoded_replies_unique [OF nb_ok_new, of "[BulkString [CHR 0x0D, CHR 0x0A], NullReply]" 2] by auto

end
