(* ===== verification/RESPParser.thy ===== *)
theory RESPParser
  imports RESPEncoder
begin

text \<open>
  The request parser (\<open>include/network/RESPParser.h\<close>, \<open>src/network/RESPParser.cpp\<close>): a state machine
  that consumes a connection's input buffer and keeps its state between two socket reads. \<open>None\<close>
  stands for undefined behaviour: the signed overflow of \<open>bulk_len_ + 2\<close>.
\<close>

section \<open>Operations\<close>

datatype ParseStatus = SUCCESS | INCOMPLETE | ERROR

datatype ParserState = EXPECT_ARRAY_SIZE | EXPECT_BULK_SIZE | EXPECT_BULK_DATA

record RESPParser =
  pstate :: ParserState
  array_size :: int
  bulk_len :: int
  current_command :: "bytes list"

definition new_RESPParser :: RESPParser where
  "new_RESPParser = \<lparr>pstate = EXPECT_ARRAY_SIZE, array_size = 0, bulk_len = 0, current_command = []\<rparr>"

definition RESPParser_Reset :: "RESPParser \<Rightarrow> RESPParser" where
  "RESPParser_Reset p = p\<lparr>pstate := EXPECT_ARRAY_SIZE, array_size := 0, bulk_len := 0, current_command := []\<rparr>"

text \<open>
  \<open>std::from_chars\<close> for \<open>int64_t\<close> in base 10: how many characters it consumed and the value, or no
  value when it reports an error (no digits, or out of range).
\<close>

definition int64_max :: int where "int64_max = 2 ^ 63 - 1"

definition from_chars :: "bytes \<Rightarrow> nat \<times> int option" where
  "from_chars s =
     (let neg = (s \<noteq> [] \<and> hd s = CHR ''-'');
          ds = takeWhile is_digit (if neg then tl s else s);
          n = length ds + (if neg then 1 else 0);
          v = (if neg then - int (digits_value ds) else int (digits_value ds))
      in if ds = [] then (0, None)
         else if - int64_max - 1 \<le> v \<and> v \<le> int64_max then (n, Some v) else (n, None))"

text \<open>
  One turn of the loop of \<open>Parse\<close>: the returned status, or none when the loop goes on; the output
  parameter; the parser and the buffer afterwards.
\<close>

type_synonym parse_result = "ParseStatus option \<times> bytes list \<times> RESPParser \<times> NetworkBuffer"

definition parse_array_size :: "RESPParser \<Rightarrow> NetworkBuffer \<Rightarrow> bytes list \<Rightarrow> parse_result" where
  "parse_array_size p nb out =
     (case FindCRLF nb of
        None \<Rightarrow> (Some INCOMPLETE, out, p, nb)
      | Some crlf \<Rightarrow>
          if crlf = 0 then (None, out, p, Retrieve 2 nb)
          else if Peek nb ! 0 \<noteq> CHR ''*'' then (Some ERROR, out, p, nb)
          else (case from_chars (take (crlf - 1) (drop 1 (Peek nb))) of
                  (n, None) \<Rightarrow> (Some ERROR, out, p, nb)
                | (n, Some v) \<Rightarrow>
                    (let p1 = p\<lparr>array_size := v\<rparr> in
                     if n \<noteq> crlf - 1 then (Some ERROR, out, p1, nb)
                     else if v < 0 then (Some ERROR, out, p1, nb)
                     else if v = 0 then (Some SUCCESS, [], RESPParser_Reset p1, Retrieve (crlf + 2) nb)
                     else (None, out, p1\<lparr>pstate := EXPECT_BULK_SIZE\<rparr>, Retrieve (crlf + 2) nb))))"

text \<open>A finished argument: the command is complete, or the next length is expected.\<close>

definition add_argument :: "bytes \<Rightarrow> RESPParser \<Rightarrow> NetworkBuffer \<Rightarrow> bytes list \<Rightarrow> parse_result" where
  "add_argument arg p nb out =
     (let cmd = current_command p @ [arg] in
      if length cmd = nat (array_size p) then (Some SUCCESS, cmd, RESPParser_Reset p, nb)
      else (None, out, p\<lparr>current_command := cmd, pstate := EXPECT_BULK_SIZE\<rparr>, nb))"

definition parse_bulk_size :: "RESPParser \<Rightarrow> NetworkBuffer \<Rightarrow> bytes list \<Rightarrow> parse_result" where
  "parse_bulk_size p nb out =
     (case FindCRLF nb of
        None \<Rightarrow> (Some INCOMPLETE, out, p, nb)
      | Some crlf \<Rightarrow>
          if crlf = 0 then (None, out, p, Retrieve 2 nb)
          else if Peek nb ! 0 \<noteq> CHR ''$'' then (Some ERROR, out, p, nb)
          else (case from_chars (take (crlf - 1) (drop 1 (Peek nb))) of
                  (n, None) \<Rightarrow> (Some ERROR, out, p, nb)
                | (n, Some v) \<Rightarrow>
                    (let p1 = p\<lparr>bulk_len := v\<rparr> in
                     if n \<noteq> crlf - 1 then (Some ERROR, out, p1, nb)
                     else if v < - 1 then (Some ERROR, out, p1, nb)
                     else if v = - 1 then add_argument [] p1 (Retrieve (crlf + 2) nb) out
                     else (None, out, p1\<lparr>pstate := EXPECT_BULK_DATA\<rparr>, Retrieve (crlf + 2) nb))))"

text \<open>
  In this state the length is not negative (\<open>parser_ok\<close> below); a negative one would be converted to a
  \<open>size_t\<close> beyond every buffer, and is undefined here.
\<close>

definition parse_bulk_data :: "RESPParser \<Rightarrow> NetworkBuffer \<Rightarrow> bytes list \<Rightarrow> parse_result option" where
  "parse_bulk_data p nb out =
     (if bulk_len p < 0 \<or> bulk_len p + 2 > int64_max then None
      else let len = nat (bulk_len p) in
        Some (if ReadableBytes nb < nat (bulk_len p + 2) then (Some INCOMPLETE, out, p, nb)
              else if Peek nb ! len \<noteq> CHR 0x0D \<or> Peek nb ! (len + 1) \<noteq> CHR 0x0A then (Some ERROR, out, p, nb)
              else add_argument (take len (Peek nb)) p (Retrieve (nat (bulk_len p + 2)) nb) out))"

definition parse_step :: "RESPParser \<Rightarrow> NetworkBuffer \<Rightarrow> bytes list \<Rightarrow> parse_result option" where
  "parse_step p nb out =
     (case pstate p of
        EXPECT_ARRAY_SIZE \<Rightarrow> Some (parse_array_size p nb out)
      | EXPECT_BULK_SIZE \<Rightarrow> Some (parse_bulk_size p nb out)
      | EXPECT_BULK_DATA \<Rightarrow> parse_bulk_data p nb out)"

lemma ReadableBytes_Retrieve: "ReadableBytes (Retrieve n nb) = ReadableBytes nb - n"
  by (simp add: Retrieve_def RetrieveAll_def ReadableBytes_def)

lemma add_argument_buffer: "add_argument a p nb out = (st, out', p', nb') \<Longrightarrow> nb' = nb"
  by (auto simp: add_argument_def Let_def split: if_splits)

lemma add_argument_status: "add_argument a p nb out = (st, out', p', nb') \<Longrightarrow> st = None \<or> st = Some SUCCESS"
  by (auto simp: add_argument_def Let_def split: if_splits)

text \<open>A turn that does not end the call consumes input; so does a successful one.\<close>

lemma parse_step_consumes:
  assumes "parse_step p nb out = Some (st, out', p', nb')" "ReadableBytes nb \<noteq> 0" "st = None \<or> st = Some SUCCESS"
  shows "ReadableBytes nb' < ReadableBytes nb"
  using assms
  by (auto simp: parse_step_def parse_array_size_def parse_bulk_size_def parse_bulk_data_def Let_def ReadableBytes_Retrieve
      dest!: add_argument_buffer split: ParserState.splits option.splits if_splits prod.splits)

function Parse ::
  "RESPParser \<Rightarrow> NetworkBuffer \<Rightarrow> bytes list \<Rightarrow> (ParseStatus \<times> bytes list \<times> RESPParser \<times> NetworkBuffer) option" where
  "Parse p nb out =
     (if ReadableBytes nb = 0 then Some (INCOMPLETE, out, p, nb)
      else (case parse_step p nb out of
              None \<Rightarrow> None
            | Some (Some st, out', p', nb') \<Rightarrow> Some (st, out', p', nb')
            | Some (None, out', p', nb') \<Rightarrow> Parse p' nb' out'))"
  by pat_completeness auto
termination
  by (relation "measure (\<lambda>(p, nb, out). ReadableBytes nb)") (auto dest: parse_step_consumes)

declare Parse.simps [simp del]

section \<open>The parser's state\<close>

definition parser_ok :: "RESPParser \<Rightarrow> bool" where
  "parser_ok p \<longleftrightarrow>
     (pstate p = EXPECT_ARRAY_SIZE \<longrightarrow> current_command p = []) \<and>
     (pstate p \<noteq> EXPECT_ARRAY_SIZE \<longrightarrow> int (length (current_command p)) < array_size p \<and> array_size p \<le> int64_max) \<and>
     (pstate p = EXPECT_BULK_DATA \<longrightarrow> 0 \<le> bulk_len p \<and> bulk_len p \<le> int64_max)"

lemma parser_ok_new [simp]: "parser_ok new_RESPParser"
  by (simp add: parser_ok_def new_RESPParser_def)

lemma parser_ok_reset [simp]: "parser_ok (RESPParser_Reset p)"
  by (simp add: parser_ok_def RESPParser_Reset_def)

lemma Reset_new [simp]: "RESPParser_Reset p = new_RESPParser"
  by (simp add: RESPParser_Reset_def new_RESPParser_def)

lemma from_chars_range: "from_chars s = (n, Some v) \<Longrightarrow> - int64_max - 1 \<le> v \<and> v \<le> int64_max"
  by (auto simp: from_chars_def Let_def split: if_splits)

lemma add_argument_ok:
  assumes "add_argument a p nb out = (st, out', p', nb')" "parser_ok p" "pstate p \<noteq> EXPECT_ARRAY_SIZE"
  shows "parser_ok p'"
  using assms by (auto simp: add_argument_def Let_def parser_ok_def new_RESPParser_def split: if_splits)

lemma parse_step_ok:
  assumes "parse_step p nb out = Some (st, out', p', nb')" "parser_ok p" "st \<noteq> Some ERROR"
  shows "parser_ok p'"
proof (cases "pstate p")
  case EXPECT_ARRAY_SIZE
  then show ?thesis
    using assms from_chars_range
    by (fastforce simp: parse_step_def parse_array_size_def Let_def parser_ok_def new_RESPParser_def split: option.splits if_splits prod.splits)
next
  case EXPECT_BULK_SIZE
  have a: "parser_ok p'" if "add_argument [] (p\<lparr>bulk_len := v\<rparr>) b out = (st, out', p', nb')" for v b
    by (rule add_argument_ok [OF that]) (use assms(2,3) EXPECT_BULK_SIZE in \<open>auto simp: parser_ok_def\<close>)
  show ?thesis
    using assms EXPECT_BULK_SIZE a from_chars_range
    by (fastforce simp: parse_step_def parse_bulk_size_def Let_def parser_ok_def new_RESPParser_def split: option.splits if_splits prod.splits)
next
  case EXPECT_BULK_DATA
  have a: "parser_ok p'" if "add_argument x p b out = (st, out', p', nb')" for x b
    by (rule add_argument_ok [OF that]) (use assms(2,3) EXPECT_BULK_DATA in \<open>auto simp: parser_ok_def\<close>)
  show ?thesis
    using assms EXPECT_BULK_DATA a
    by (auto simp: parse_step_def parse_bulk_data_def Let_def split: if_splits)
qed

section \<open>More input does not change what was parsed\<close>

definition extends :: "bytes \<Rightarrow> NetworkBuffer \<Rightarrow> NetworkBuffer \<Rightarrow> bool" where
  "extends t a b \<longleftrightarrow> nb_ok a \<and> nb_ok b \<and> Peek b = Peek a @ t"

lemma extends_Retrieve: "extends t a b \<Longrightarrow> n \<le> length (Peek a) \<Longrightarrow> extends t (Retrieve n a) (Retrieve n b)"
  by (simp add: extends_def nb.retrieve_law)

lemma extends_FindCRLF: "extends t a b \<Longrightarrow> FindCRLF a = Some i \<Longrightarrow> FindCRLF b = Some i \<and> i + 2 \<le> length (Peek a)"
  using find_crlf_bound [of "Peek a" i] by (simp add: extends_def FindCRLF_def find_crlf_append)

lemma extends_ReadableBytes: "extends t a b \<Longrightarrow> ReadableBytes a = length (Peek a) \<and> ReadableBytes b = length (Peek a) + length t"
  by (simp add: extends_def length_Peek [symmetric])

lemma extends_Peek: "extends t a b \<Longrightarrow> i < length (Peek a) \<Longrightarrow> Peek b ! i = Peek a ! i"
  by (simp add: extends_def nth_append)

lemma extends_take: "extends t a b \<Longrightarrow> n \<le> length (Peek a) \<Longrightarrow> take n (Peek b) = take n (Peek a)"
  by (simp add: extends_def)

lemma extends_line:
  "extends t a b \<Longrightarrow> i + 2 \<le> length (Peek a) \<Longrightarrow> take (i - 1) (drop 1 (Peek b)) = take (i - 1) (drop 1 (Peek a))"
  by (simp add: extends_def)

lemma add_argument_extends:
  assumes "add_argument x p a out = (st, out', p', a')" "extends t a b"
  shows "add_argument x p b out = (st, out', p', b) \<and> extends t a' b"
  using assms by (auto simp: add_argument_def Let_def split: if_splits)

lemma size_line_extends:
  assumes e: "extends t a b" and i: "FindCRLF a = Some i"
  shows "FindCRLF b = Some i" "Peek b ! 0 = Peek a ! 0" "take (i - 1) (drop 1 (Peek b)) = take (i - 1) (drop 1 (Peek a))"
    "extends t (Retrieve 2 a) (Retrieve 2 b)" "extends t (Retrieve (i + 2) a) (Retrieve (i + 2) b)"
proof -
  have b: "FindCRLF b = Some i" "i + 2 \<le> length (Peek a)" using extends_FindCRLF [OF e i] by auto
  show "FindCRLF b = Some i" by (rule b(1))
  show "Peek b ! 0 = Peek a ! 0" using extends_Peek [OF e, of 0] b(2) by linarith
  show "take (i - 1) (drop 1 (Peek b)) = take (i - 1) (drop 1 (Peek a))" by (rule extends_line [OF e b(2)])
  show "extends t (Retrieve 2 a) (Retrieve 2 b)" "extends t (Retrieve (i + 2) a) (Retrieve (i + 2) b)"
    using extends_Retrieve [OF e] b(2) by simp_all
qed

lemma parse_array_size_extends:
  assumes e: "extends t a b" and s: "parse_array_size p a out = (st, out', p', a')"
  shows "if st = Some INCOMPLETE then out' = out \<and> p' = p \<and> a' = a
    else \<exists>b'. parse_array_size p b out = (st, out', p', b') \<and> extends t a' b'"
proof (cases "FindCRLF a")
  case None
  then show ?thesis using s by (simp add: parse_array_size_def)
next
  case (Some i)
  note L = size_line_extends [OF e Some]
  obtain n r where fc: "from_chars (take (i - Suc 0) (drop (Suc 0) (Peek a))) = (n, r)" by fastforce
  then have fcb: "from_chars (take (i - Suc 0) (drop (Suc 0) (Peek b))) = (n, r)" using L(3) by simp
  show ?thesis
    using s e L(4,5) by (auto simp: parse_array_size_def Let_def Some L(1,2) fc fcb split: if_splits option.splits)
qed

lemma parse_bulk_size_extends:
  assumes e: "extends t a b" and s: "parse_bulk_size p a out = (st, out', p', a')"
  shows "if st = Some INCOMPLETE then out' = out \<and> p' = p \<and> a' = a
    else \<exists>b'. parse_bulk_size p b out = (st, out', p', b') \<and> extends t a' b'"
proof (cases "FindCRLF a")
  case None
  then show ?thesis using s by (simp add: parse_bulk_size_def)
next
  case (Some i)
  note L = size_line_extends [OF e Some]
  obtain n r where fc: "from_chars (take (i - Suc 0) (drop (Suc 0) (Peek a))) = (n, r)" by fastforce
  then have fcb: "from_chars (take (i - Suc 0) (drop (Suc 0) (Peek b))) = (n, r)" using L(3) by simp
  show ?thesis
  proof (cases "\<exists>v. r = Some v \<and> i \<noteq> 0 \<and> Peek a ! 0 = CHR ''$'' \<and> n = i - 1 \<and> v = -1")
    case True
    then have "add_argument [] (p\<lparr>bulk_len := -1\<rparr>) (Retrieve (i + 2) a) out = (st, out', p', a')"
      using s fc Some by (auto simp: parse_bulk_size_def Let_def)
    from add_argument_extends [OF this L(5)] add_argument_status [OF this] show ?thesis
      using True fcb L(1,2) by (auto simp: parse_bulk_size_def Let_def)
  next
    case False
    then show ?thesis
      using s e L(4,5) by (auto simp: parse_bulk_size_def Let_def Some L(1,2) fc fcb split: if_splits option.splits)
  qed
qed

lemma parse_bulk_data_extends:
  assumes e: "extends t a b" and s: "parse_bulk_data p a out = Some (st, out', p', a')"
  shows "if st = Some INCOMPLETE then out' = out \<and> p' = p \<and> a' = a
    else \<exists>b'. parse_bulk_data p b out = Some (st, out', p', b') \<and> extends t a' b'"
proof (cases "ReadableBytes a < nat (bulk_len p + 2)")
  case True
  then show ?thesis using s by (auto simp: parse_bulk_data_def Let_def split: if_splits)
next
  case False
  have ok: "0 \<le> bulk_len p" "bulk_len p + 2 \<le> int64_max" using s by (auto simp: parse_bulk_data_def split: if_splits)
  let ?n = "nat (bulk_len p)"
  have len: "?n + 2 \<le> length (Peek a)" "nat (bulk_len p + 2) = ?n + 2"
    using False extends_ReadableBytes [OF e] ok by auto
  have P: "Peek b ! ?n = Peek a ! ?n" "Peek b ! (?n + 1) = Peek a ! (?n + 1)" "take ?n (Peek b) = take ?n (Peek a)"
    using extends_Peek [OF e] extends_take [OF e] len by simp_all
  have R: "extends t (Retrieve (?n + 2) a) (Retrieve (?n + 2) b)" using extends_Retrieve [OF e len(1)] .
  have Fb: "\<not> ReadableBytes b < nat (bulk_len p + 2)" using False extends_ReadableBytes [OF e] by simp
  show ?thesis
  proof (cases "Peek a ! ?n \<noteq> CHR 0x0D \<or> Peek a ! (?n + 1) \<noteq> CHR 0x0A")
    case True
    then show ?thesis using s False Fb P e ok by (auto simp: parse_bulk_data_def Let_def)
  next
    case F: False
    then have "add_argument (take ?n (Peek a)) p (Retrieve (?n + 2) a) out = (st, out', p', a')"
      using s False ok len(2) by (auto simp: parse_bulk_data_def Let_def)
    from add_argument_extends [OF this R] add_argument_status [OF this] show ?thesis
      using F Fb P ok len(2) by (auto simp: parse_bulk_data_def Let_def)
  qed
qed

lemma parse_step_extends:
  assumes e: "extends t a b" and s: "parse_step p a out = Some (st, out', p', a')"
  shows "if st = Some INCOMPLETE then out' = out \<and> p' = p \<and> a' = a
    else \<exists>b'. parse_step p b out = Some (st, out', p', b') \<and> extends t a' b'"
  using s parse_array_size_extends [OF e] parse_bulk_size_extends [OF e] parse_bulk_data_extends [OF e]
  by (cases "pstate p") (auto simp: parse_step_def)

lemma parse_step_same:
  assumes e: "extends [] a b" and s: "parse_step p a out = Some (Some INCOMPLETE, out', p', a')"
  shows "parse_step p b out = Some (Some INCOMPLETE, out, p, b)"
proof (cases "FindCRLF a")
  case None
  then have "FindCRLF b = None" using e by (simp add: FindCRLF_def extends_def)
  then show ?thesis
    using s None extends_ReadableBytes [OF e]
    by (cases "pstate p") (auto simp: parse_step_def parse_array_size_def parse_bulk_size_def parse_bulk_data_def Let_def
        dest: add_argument_status split: if_splits)
next
  case (Some i)
  then show ?thesis
    using s extends_ReadableBytes [OF e]
    by (cases "pstate p") (auto simp: parse_step_def parse_array_size_def parse_bulk_size_def parse_bulk_data_def Let_def
        dest: add_argument_status split: if_splits option.splits prod.splits)
qed

lemma parse_step_undefined: "parse_step p a out = None \<longleftrightarrow> parse_step p b out = None"
  by (auto simp: parse_step_def parse_bulk_data_def Let_def split: ParserState.splits)

text \<open>
  A call on the longer buffer returns the same when the call on the shorter one returned a command
  or an error; when it asked for more input, it goes on from there.
\<close>

lemma Parse_extends:
  "extends t a b \<Longrightarrow>
   (case Parse p a out of
      None \<Rightarrow> Parse p b out = None
    | Some (st, out', p', a') \<Rightarrow>
        \<exists>b'. extends t a' b' \<and>
          (if st = INCOMPLETE
           then Parse p b out = Parse p' b' out' \<and> (t = [] \<longrightarrow> Parse p b out = Some (st, out', p', b'))
           else Parse p b out = Some (st, out', p', b')))"
proof (induction p a out arbitrary: b rule: Parse.induct)
  case (1 p a out)
  show ?case
  proof (cases "ReadableBytes a = 0")
    case True
    moreover have "ReadableBytes b = 0" if "t = []" using True that extends_ReadableBytes [OF "1.prems"] by simp
    ultimately show ?thesis using "1.prems" by (auto simp: Parse.simps [of p a] Parse.simps [of p b])
  next
    case False
    then have b0: "ReadableBytes b \<noteq> 0" using extends_ReadableBytes [OF "1.prems"] by simp
    show ?thesis
    proof (cases "parse_step p a out")
      case None
      then show ?thesis using False b0 parse_step_undefined [of p a out b] by (simp add: Parse.simps [of p])
    next
      case (Some r)
      obtain st out' p' a' where r: "r = (st, out', p', a')" by (cases r)
      note E = parse_step_extends [OF "1.prems", of p out st out' p' a']
      show ?thesis
      proof (cases "st = Some INCOMPLETE")
        case True
        then have "t = [] \<longrightarrow> parse_step p b out = Some (Some INCOMPLETE, out, p, b)"
          using parse_step_same [of a b p out out' p' a'] "1.prems" Some r by auto
        then show ?thesis using True E Some r False b0 "1.prems" by (auto simp: Parse.simps [of p])
      next
        case ni: False
        then obtain b' where b': "parse_step p b out = Some (st, out', p', b')" "extends t a' b'"
          using E Some r by auto
        show ?thesis
        proof (cases st)
          case None
          have "case Parse p' a' out' of None \<Rightarrow> Parse p' b' out' = None
            | Some (st2, out2, p2, a2) \<Rightarrow> \<exists>b2. extends t a2 b2 \<and>
               (if st2 = INCOMPLETE
                then Parse p' b' out' = Parse p2 b2 out2 \<and> (t = [] \<longrightarrow> Parse p' b' out' = Some (st2, out2, p2, b2))
                else Parse p' b' out' = Some (st2, out2, p2, b2))"
            by (rule "1.IH" [OF False \<open>parse_step p a out = Some r\<close> r [symmetric] None refl refl b'(2)])
          moreover have "Parse p a out = Parse p' a' out'" "Parse p b out = Parse p' b' out'"
            using None \<open>parse_step p a out = Some r\<close> r b'(1) False b0 by (simp_all add: Parse.simps [of p])
          ultimately show ?thesis by (simp only:)
        next
          case (Some st')
          then show ?thesis using ni b' \<open>parse_step p a out = Some r\<close> r False b0 by (auto simp: Parse.simps [of p])
        qed
      qed
    qed
  qed
qed

section \<open>All commands of a buffer\<close>

lemma parse_step_out: "parse_step p nb out = Some (st, out', p', nb') \<Longrightarrow> st \<noteq> Some SUCCESS \<Longrightarrow> out' = out"
  by (auto simp: parse_step_def parse_array_size_def parse_bulk_size_def parse_bulk_data_def add_argument_def Let_def
      split: ParserState.splits option.splits if_splits prod.splits)

lemma Parse_unfold:
  "ReadableBytes nb = 0 \<Longrightarrow> Parse p nb out = Some (INCOMPLETE, out, p, nb)"
  "ReadableBytes nb \<noteq> 0 \<Longrightarrow> parse_step p nb out = None \<Longrightarrow> Parse p nb out = None"
  "ReadableBytes nb \<noteq> 0 \<Longrightarrow> parse_step p nb out = Some (Some st, out', p', nb') \<Longrightarrow> Parse p nb out = Some (st, out', p', nb')"
  "ReadableBytes nb \<noteq> 0 \<Longrightarrow> parse_step p nb out = Some (None, out', p', nb') \<Longrightarrow> Parse p nb out = Parse p' nb' out'"
  by (subst Parse.simps, simp)+

lemma Parse_cases:
  assumes "Parse p nb out = Some (st, out', p', nb')"
  obtains (empty) "ReadableBytes nb = 0" "st = INCOMPLETE" "out' = out" "p' = p" "nb' = nb"
  | (stop) "ReadableBytes nb \<noteq> 0" "parse_step p nb out = Some (Some st, out', p', nb')"
  | (turn) out1 p1 nb1 where "ReadableBytes nb \<noteq> 0" "parse_step p nb out = Some (None, out1, p1, nb1)"
      "Parse p1 nb1 out1 = Some (st, out', p', nb')"
proof (cases "ReadableBytes nb = 0")
  case True
  with assms show ?thesis by (intro empty) (simp_all add: Parse_unfold(1))
next
  case False
  show ?thesis
  proof (cases "parse_step p nb out")
    case None
    then show ?thesis using assms False by (simp add: Parse_unfold(2))
  next
    case (Some r)
    obtain st1 out1 p1 nb1 where r: "r = (st1, out1, p1, nb1)" by (cases r)
    show ?thesis
    proof (cases st1)
      case None
      then show ?thesis using turn [OF False] assms False Some r Parse_unfold(4) by simp
    next
      case (Some s)
      then show ?thesis using stop [OF False] assms False \<open>parse_step p nb out = Some r\<close> r Parse_unfold(3) by auto
    qed
  qed
qed

lemma Parse_keeps:
  "Parse p nb out = Some (st, out', p', nb') \<Longrightarrow>
   (st \<noteq> SUCCESS \<longrightarrow> out' = out) \<and> (st = SUCCESS \<longrightarrow> ReadableBytes nb' < ReadableBytes nb) \<and>
   (parser_ok p \<longrightarrow> st \<noteq> ERROR \<longrightarrow> parser_ok p') \<and>
   (st = INCOMPLETE \<longrightarrow> Parse p' nb' out' = Some (INCOMPLETE, out', p', nb'))"
proof (induction p nb out rule: Parse.induct)
  case (1 p nb out)
  from "1.prems" show ?case
  proof (cases rule: Parse_cases)
    case empty
    then show ?thesis by (simp add: Parse_unfold(1))
  next
    case stop
    have "nb' = nb \<and> p' = p" if "st = INCOMPLETE"
      using stop(2) that
      by (auto simp: parse_step_def parse_array_size_def parse_bulk_size_def parse_bulk_data_def add_argument_def Let_def
          split: ParserState.splits option.splits if_splits prod.splits)
    then show ?thesis
      using stop parse_step_out [OF stop(2)] parse_step_consumes [OF stop(2,1)] parse_step_ok [OF stop(2)]
        Parse_unfold(3) [OF stop] by auto
  next
    case (turn out1 p1 nb1)
    from "1.IH" [OF turn(1,2) refl refl refl refl turn(3)]
    show ?thesis
      using parse_step_out [OF turn(2)] parse_step_consumes [OF turn(2,1)] parse_step_ok [OF turn(2)] by fastforce
  qed
qed

text \<open>The loop in which \<open>TcpServer::HandleRead\<close> calls \<open>Parse\<close>: the commands, and how it ends.\<close>

type_synonym parsed = "bytes list list \<times> ParseStatus \<times> RESPParser \<times> NetworkBuffer"

definition prepend :: "bytes list list \<Rightarrow> parsed option \<Rightarrow> parsed option" where
  "prepend cs = map_option (\<lambda>(ds, r). (cs @ ds, r))"

lemma prepend_simps [simp]:
  "prepend cs None = None" "prepend cs (Some (ds, r)) = Some (cs @ ds, r)" "prepend [] x = x"
  "prepend cs (prepend ds x) = prepend (cs @ ds) x"
  by (simp_all add: prepend_def option.map_comp comp_def case_prod_unfold option.map_ident)

lemma prepend_eq_None [simp]: "prepend cs x = None \<longleftrightarrow> x = None"
  by (simp add: prepend_def)

function parse_all :: "RESPParser \<Rightarrow> NetworkBuffer \<Rightarrow> parsed option" where
  "parse_all p nb =
     (case Parse p nb [] of
        None \<Rightarrow> None
      | Some (st, cmd, p', nb') \<Rightarrow>
          if st = SUCCESS then prepend [cmd] (parse_all p' nb') else Some ([], st, p', nb'))"
  by pat_completeness auto
termination
  by (relation "measure (\<lambda>(p, nb). ReadableBytes nb)") (auto dest: Parse_keeps)

declare parse_all.simps [simp del]

lemma parse_all_success:
  "Parse p nb [] = Some (SUCCESS, cmd, p', nb') \<Longrightarrow> parse_all p nb = prepend [cmd] (parse_all p' nb')"
  by (simp add: parse_all.simps [of p nb])

lemma parse_all_stop: "Parse p nb [] = Some (st, cmd, p', nb') \<Longrightarrow> st \<noteq> SUCCESS \<Longrightarrow> parse_all p nb = Some ([], st, p', nb')"
  by (simp add: parse_all.simps [of p nb])

lemma prepend_SomeE:
  assumes "prepend cs x = Some (es, r)"
  obtains ds where "x = Some (ds, r)" "es = cs @ ds"
  using assms by (auto simp: prepend_def)

lemma parse_all_cases:
  assumes "parse_all p nb = Some (cs, st, p', nb')"
  obtains (stop) cmd where "Parse p nb [] = Some (st, cmd, p', nb')" "st \<noteq> SUCCESS" "cs = []"
  | (more) cmd p1 nb1 ds where "Parse p nb [] = Some (SUCCESS, cmd, p1, nb1)" "parse_all p1 nb1 = Some (ds, st, p', nb')" "cs = cmd # ds"
proof (cases "Parse p nb []")
  case None
  then show ?thesis using assms by (simp add: parse_all.simps [of p nb])
next
  case (Some r)
  obtain s1 cmd p1 nb1 where r: "r = (s1, cmd, p1, nb1)" by (cases r)
  show ?thesis
  proof (cases "s1 = SUCCESS")
    case True
    then have "prepend [cmd] (parse_all p1 nb1) = Some (cs, st, p', nb')" using assms Some r by (simp add: parse_all_success)
    then show ?thesis using more Some r True by (auto elim!: prepend_SomeE)
  next
    case False
    then show ?thesis using stop assms Some r by (simp add: parse_all_stop)
  qed
qed

lemma parse_all_ends:
  "parse_all p nb = Some (cs, st, p', nb') \<Longrightarrow>
   st \<noteq> SUCCESS \<and> (st = INCOMPLETE \<longrightarrow> parse_all p' nb' = Some ([], INCOMPLETE, p', nb')) \<and>
   (parser_ok p \<longrightarrow> st = INCOMPLETE \<longrightarrow> parser_ok p')"
proof (induction p nb arbitrary: cs rule: parse_all.induct)
  case (1 p nb)
  from "1.prems" show ?case
  proof (cases rule: parse_all_cases)
    case (stop cmd)
    then show ?thesis using Parse_keeps [OF stop(1)] by (auto intro: parse_all_stop)
  next
    case (more cmd p1 nb1 ds)
    then show ?thesis using "1.IH" [OF more(1) refl refl refl refl more(2)] Parse_keeps [OF more(1)] by auto
  qed
qed

lemma parse_all_extends:
  "extends t a b \<Longrightarrow>
   (case parse_all p a of
      None \<Rightarrow> parse_all p b = None
    | Some (cs, st, p', a') \<Rightarrow>
        \<exists>b'. extends t a' b' \<and>
          (if st = INCOMPLETE
           then parse_all p b = prepend cs (parse_all p' b') \<and> (t = [] \<longrightarrow> parse_all p b = Some (cs, st, p', b'))
           else parse_all p b = Some (cs, st, p', b')))"
proof (induction p a arbitrary: b rule: parse_all.induct)
  case (1 p a)
  note E = Parse_extends [OF "1.prems", of p "[]"]
  show ?case
  proof (cases "Parse p a []")
    case None
    then show ?thesis using E by (simp add: parse_all.simps [of p])
  next
    case (Some r)
    obtain st cmd p1 a1 where r: "r = (st, cmd, p1, a1)" by (cases r)
    then have P: "Parse p a [] = Some (st, cmd, p1, a1)" using Some by simp
    note K = Parse_keeps [OF P]
    show ?thesis
    proof (cases "st = SUCCESS")
      case True
      then obtain b1 where b1: "extends t a1 b1" "Parse p b [] = Some (SUCCESS, cmd, p1, b1)" using E P by auto
      have eq: "parse_all p a = prepend [cmd] (parse_all p1 a1)" "parse_all p b = prepend [cmd] (parse_all p1 b1)"
        using P b1(2) True by (simp_all add: parse_all_success)
      note IH = "1.IH" [OF P refl refl refl True b1(1)]
      show ?thesis
      proof (cases "parse_all p1 a1")
        case None
        then show ?thesis using IH eq by simp
      next
        case (Some q)
        obtain cs st2 p2 a2 where q: "q = (cs, st2, p2, a2)" by (cases q)
        then obtain b2 where "extends t a2 b2" "if st2 = INCOMPLETE
           then parse_all p1 b1 = prepend cs (parse_all p2 b2) \<and> (t = [] \<longrightarrow> parse_all p1 b1 = Some (cs, st2, p2, b2))
           else parse_all p1 b1 = Some (cs, st2, p2, b2)"
          using IH Some by auto
        moreover from this have "parse_all p b = prepend (cmd # cs) (parse_all p2 b2)" if "st2 = INCOMPLETE" using eq(2) that by simp
        moreover have "parse_all p b = Some (cmd # cs, st2, p2, b2)" if "st2 \<noteq> INCOMPLETE \<or> t = []"
        proof -
          have "parse_all p1 b1 = Some (cs, st2, p2, b2)" using calculation(2) that by argo
          then show ?thesis using eq(2) by simp
        qed
        moreover have "parse_all p a = Some (cmd # cs, st2, p2, a2)" using eq(1) Some q by simp
        ultimately show ?thesis by (auto intro!: exI [of _ b2] simp del: prepend_simps)
      qed
    next
      case False
      then obtain b1 where b1: "extends t a1 b1"
        "if st = INCOMPLETE then Parse p b [] = Parse p1 b1 [] \<and> (t = [] \<longrightarrow> Parse p b [] = Some (st, [], p1, b1))
         else Parse p b [] = Some (st, [], p1, b1)"
        using E P K by auto
      have a: "parse_all p a = Some ([], st, p1, a1)" using parse_all_stop [OF P False] .
      have "parse_all p b = parse_all p1 b1" if "st = INCOMPLETE"
        using b1(2) that by (simp add: parse_all.simps [of p b] parse_all.simps [of p1 b1])
      moreover have "parse_all p b = Some ([], st, p1, b1)" if "st \<noteq> INCOMPLETE \<or> t = []"
        using b1(2) that False by (auto intro: parse_all_stop split: if_splits)
      ultimately show ?thesis using a b1(1) by auto
    qed
  qed
qed

section \<open>Input in pieces\<close>

fun feed_chunks :: "RESPParser \<Rightarrow> NetworkBuffer \<Rightarrow> bytes list \<Rightarrow> parsed option" where
  "feed_chunks p nb [] = Some ([], INCOMPLETE, p, nb)"
| "feed_chunks p nb (c # cs) =
     (case ReadFromFd (Inr c) nb of
        None \<Rightarrow> None
      | Some (n, err, nb1) \<Rightarrow>
          (case parse_all p nb1 of
             None \<Rightarrow> None
           | Some (cmds, st, p', nb2) \<Rightarrow>
               if st = INCOMPLETE then prepend cmds (feed_chunks p' nb2 cs) else Some (cmds, st, p', nb2)))"

definition settled :: "RESPParser \<Rightarrow> NetworkBuffer \<Rightarrow> bool" where
  "settled p nb \<longleftrightarrow> nb_ok nb \<and> parse_all p nb = Some ([], INCOMPLETE, p, nb)"

lemma settled_new: "settled new_RESPParser (new_NetworkBuffer n)"
  by (simp add: settled_def parse_all.simps Parse.simps length_Peek [symmetric])

lemma ReadFromFd_fits: "ReadFromFd (Inr c) nb \<noteq> None \<Longrightarrow> length c \<le> WritableBytes nb + extra_buffer_size"
  by (auto simp: ReadFromFd_def Let_def split: if_splits bind_splits)

text \<open>Reading the input in pieces finds what one read of all of it finds.\<close>

lemma feed_chunks_whole:
  assumes "settled p nb" "(\<forall>c\<in>set cs. length c \<le> extra_buffer_size) \<or> feed_chunks p nb cs \<noteq> None" "extends (concat cs) nb w"
  shows "case feed_chunks p nb cs of
      None \<Rightarrow> parse_all p w = None
    | Some (cmds, st, p', nb') \<Rightarrow>
        \<exists>w'. parse_all p w = Some (cmds, st, p', w') \<and> (st = INCOMPLETE \<longrightarrow> extends [] nb' w')"
  using assms
proof (induction cs arbitrary: p nb w)
  case Nil
  then show ?case using parse_all_extends [of "[]" nb w p] by (auto simp: settled_def)
next
  case (Cons c cs)
  have ok: "nb_ok nb" "nb_ok w" using Cons.prems by (auto simp: extends_def)
  obtain nb1 where rd: "ReadFromFd (Inr c) nb = Some (int (length c), 0, nb1)" "nb_ok nb1" "Peek nb1 = Peek nb @ c"
    using ReadFromFd_ok [OF ok(1), of c] ReadFromFd_fits [of c nb] Cons.prems(2) by (cases "ReadFromFd (Inr c) nb") auto
  have e: "extends (concat cs) nb1 w" using rd ok Cons.prems(3) by (simp add: extends_def)
  note E = parse_all_extends [OF e, of p]
  show ?case
  proof (cases "parse_all p nb1")
    case None
    then show ?thesis using E rd by simp
  next
    case (Some q)
    obtain cmds st p' nb2 where q: "q = (cmds, st, p', nb2)" by (cases q)
    then have P: "parse_all p nb1 = Some (cmds, st, p', nb2)" using Some by simp
    show ?thesis
    proof (cases "st = INCOMPLETE")
      case True
      then obtain b where b: "extends (concat cs) nb2 b" "parse_all p w = prepend cmds (parse_all p' b)" using E P by auto
      have "settled p' nb2" using parse_all_ends [OF P] True b(1) by (simp add: settled_def extends_def)
      note IH = Cons.IH [OF this _ b(1)]
      have f: "feed_chunks p nb (c # cs) = prepend cmds (feed_chunks p' nb2 cs)" using rd(1) P True by simp
      have "(\<forall>c\<in>set cs. length c \<le> extra_buffer_size) \<or> feed_chunks p' nb2 cs \<noteq> None"
        using Cons.prems(2) f by (auto simp del: feed_chunks.simps)
      then show ?thesis using IH b(2) by (cases "feed_chunks p' nb2 cs") (auto simp: f simp del: feed_chunks.simps)
    next
      case False
      then show ?thesis using E P rd(1) by auto
    qed
  qed
qed

lemma feed_chunks_snoc:
  "feed_chunks p nb cs = Some (cmds, INCOMPLETE, p', nb') \<Longrightarrow>
   feed_chunks p nb (cs @ [c]) = prepend cmds (feed_chunks p' nb' [c])"
proof (induction cs arbitrary: p nb cmds)
  case (Cons d cs)
  then obtain n err nb1 ds st q nb2 where r: "ReadFromFd (Inr d) nb = Some (n, err, nb1)" "parse_all p nb1 = Some (ds, st, q, nb2)"
    by (auto split: option.splits prod.splits)
  have st: "st = INCOMPLETE" using Cons.prems r by (auto split: if_splits)
  then obtain es where es: "feed_chunks q nb2 cs = Some (es, INCOMPLETE, p', nb')" "cmds = ds @ es"
    using Cons.prems r by (auto elim: prepend_SomeE)
  from Cons.IH [OF es(1)] show ?case using r st es(2) by (simp del: feed_chunks.simps(2)) (simp add: feed_chunks.simps(2) [of p nb d])
qed simp

section \<open>Parsing what the encoder writes\<close>

lemma from_chars_to_string: "int n \<le> int64_max \<Longrightarrow> from_chars (to_string n) = (length (to_string n), Some (int n))"
proof -
  have tw: "takeWhile is_digit (to_string n) = to_string n" by (simp add: takeWhile_eq_all_conv to_string_digits)
  have "\<not> (to_string n \<noteq> [] \<and> hd (to_string n) = CHR ''-'')"
    using not_in_to_string(3) [of n] by (metis hd_in_set)
  moreover assume "int n \<le> int64_max"
  moreover have "- int64_max - 1 \<le> int n" by (simp add: int64_max_def)
  ultimately show ?thesis by (auto simp: from_chars_def Let_def tw)
qed

lemma size_line:
  assumes "nb_ok nb" "Peek nb = c # to_string n @ kCRLF @ rest" "c \<noteq> CHR 0x0D"
  shows "FindCRLF nb = Some (length (to_string n) + 1)" "Peek nb ! 0 = c"
    "take (length (to_string n)) (drop (Suc 0) (Peek nb)) = to_string n"
    "nb_ok (Retrieve (length (to_string n) + 3) nb)" "Peek (Retrieve (length (to_string n) + 3) nb) = rest"
    "ReadableBytes nb \<noteq> 0"
proof -
  have "find_crlf ((c # to_string n) @ CHR 0x0D # CHR 0x0A # rest) = Some (length (c # to_string n))"
    by (rule find_crlf_line) (use assms(3) in simp)
  then show "FindCRLF nb = Some (length (to_string n) + 1)" by (simp add: FindCRLF_def assms(2) kCRLF_def)
  show "Peek (Retrieve (length (to_string n) + 3) nb) = rest"
    using nb.retrieve_law [OF assms(1)] by (simp add: assms(2) kCRLF_def numeral_3_eq_3)
  show "ReadableBytes nb \<noteq> 0" using length_Peek [OF assms(1)] by (simp add: assms(2))
qed (use assms nb.retrieve_law in auto)

lemma parse_step_array_size:
  assumes "nb_ok nb" "Peek nb = CHR ''*'' # to_string n @ kCRLF @ rest" "pstate p = EXPECT_ARRAY_SIZE" "int n \<le> int64_max"
  shows "parse_step p nb out =
    Some (if n = 0 then (Some SUCCESS, [], new_RESPParser, Retrieve (length (to_string n) + 3) nb)
          else (None, out, p\<lparr>array_size := int n, pstate := EXPECT_BULK_SIZE\<rparr>, Retrieve (length (to_string n) + 3) nb))"
  using size_line [OF assms(1,2)] assms(3) from_chars_to_string [OF assms(4)]
  by (simp add: parse_step_def parse_array_size_def Let_def numeral_3_eq_3)

lemma parse_step_bulk_size:
  assumes "nb_ok nb" "Peek nb = CHR ''$'' # to_string n @ kCRLF @ rest" "pstate p = EXPECT_BULK_SIZE" "int n \<le> int64_max"
  shows "parse_step p nb out =
    Some (None, out, p\<lparr>bulk_len := int n, pstate := EXPECT_BULK_DATA\<rparr>, Retrieve (length (to_string n) + 3) nb)"
  using size_line [OF assms(1,2)] assms(3) from_chars_to_string [OF assms(4)]
  by (simp add: parse_step_def parse_bulk_size_def Let_def numeral_3_eq_3)

lemma parse_step_bulk_data:
  assumes "nb_ok nb" "Peek nb = e @ kCRLF @ rest" "pstate p = EXPECT_BULK_DATA" "bulk_len p = int (length e)"
    "int (length e) + 2 \<le> int64_max"
  shows "parse_step p nb out = Some (add_argument e p (Retrieve (length e + 2) nb) out)" "Peek (Retrieve (length e + 2) nb) = rest"
    "ReadableBytes nb \<noteq> 0"
proof -
  have rb: "ReadableBytes nb = length e + 2 + length rest" using length_Peek [OF assms(1)] by (simp add: assms(2) kCRLF_def)
  have nat2: "nat (int (length e) + 2) = length e + 2" by simp
  show "parse_step p nb out = Some (add_argument e p (Retrieve (length e + 2) nb) out)"
    using assms(3-5) rb by (simp add: parse_step_def parse_bulk_data_def Let_def nat2 assms(2) kCRLF_def nth_append)
  show "Peek (Retrieve (length e + 2) nb) = rest" using nb.retrieve_law [OF assms(1)] by (simp add: assms(2) kCRLF_def)
  show "ReadableBytes nb \<noteq> 0" using rb by simp
qed

lemma Parse_bulk:
  assumes ok: "nb_ok nb" and P: "Peek nb = bulk_bytes e @ rest" and st: "pstate p = EXPECT_BULK_SIZE"
    and len: "int (length e) + 2 \<le> int64_max"
  shows "\<exists>nb'. nb_ok nb' \<and> Peek nb' = rest \<and>
    Parse p nb out =
      (if Suc (length (current_command p)) = nat (array_size p) then Some (SUCCESS, current_command p @ [e], new_RESPParser, nb')
       else Parse (p\<lparr>bulk_len := int (length e), current_command := current_command p @ [e]\<rparr>) nb' out)"
proof -
  have P1: "Peek nb = CHR ''$'' # to_string (length e) @ kCRLF @ (e @ kCRLF @ rest)" using P by (simp add: bulk_bytes_def)
  let ?nb1 = "Retrieve (length (to_string (length e)) + 3) nb" and ?p1 = "p\<lparr>bulk_len := int (length e), pstate := EXPECT_BULK_DATA\<rparr>"
  note S = size_line [OF ok P1]
  have ok1: "nb_ok ?nb1" "Peek ?nb1 = e @ kCRLF @ rest" using S by simp_all
  have a: "Parse p nb out = Parse ?p1 ?nb1 out"
    by (rule Parse_unfold(4)) (use S(6) parse_step_bulk_size [OF ok P1 st] len in simp_all)
  let ?nb2 = "Retrieve (length e + 2) ?nb1"
  have s2: "parse_step ?p1 ?nb1 out = Some (add_argument e ?p1 ?nb2 out)" "Peek ?nb2 = rest" "ReadableBytes ?nb1 \<noteq> 0"
    using parse_step_bulk_data [OF ok1, of ?p1] len by simp_all
  have ok2: "nb_ok ?nb2" using nb.retrieve_law [OF ok1(1)] by simp
  show ?thesis
  proof (cases "Suc (length (current_command p)) = nat (array_size p)")
    case True
    then have "add_argument e ?p1 ?nb2 out = (Some SUCCESS, current_command p @ [e], new_RESPParser, ?nb2)"
      by (simp add: add_argument_def)
    then have "Parse ?p1 ?nb1 out = Some (SUCCESS, current_command p @ [e], new_RESPParser, ?nb2)"
      using s2 Parse_unfold(3) by simp
    then show ?thesis using a ok2 s2(2) True by (intro exI [of _ ?nb2]) simp
  next
    case False
    then have "add_argument e ?p1 ?nb2 out =
        (None, out, p\<lparr>bulk_len := int (length e), current_command := current_command p @ [e]\<rparr>, ?nb2)"
      using st by (simp add: add_argument_def)
    then have "Parse ?p1 ?nb1 out = Parse (p\<lparr>bulk_len := int (length e), current_command := current_command p @ [e]\<rparr>) ?nb2 out"
      using s2 Parse_unfold(4) by simp
    then show ?thesis using a ok2 s2(2) False by (intro exI [of _ ?nb2]) simp
  qed
qed

lemma Parse_bulks:
  "nb_ok nb \<Longrightarrow> Peek nb = concat (map bulk_bytes es) @ rest \<Longrightarrow> pstate p = EXPECT_BULK_SIZE \<Longrightarrow> es \<noteq> [] \<Longrightarrow>
   array_size p = int (length (current_command p) + length es) \<Longrightarrow> \<forall>e\<in>set es. int (length e) + 2 \<le> int64_max \<Longrightarrow>
   \<exists>nb'. Parse p nb out = Some (SUCCESS, current_command p @ es, new_RESPParser, nb') \<and> nb_ok nb' \<and> Peek nb' = rest"
proof (induction es arbitrary: p nb)
  case (Cons e es)
  have "Peek nb = bulk_bytes e @ (concat (map bulk_bytes es) @ rest)" using Cons.prems(2) by simp
  from Parse_bulk [OF Cons.prems(1) this Cons.prems(3), of out] Cons.prems(6) obtain nb' where
    n: "nb_ok nb'" "Peek nb' = concat (map bulk_bytes es) @ rest" and
    P: "Parse p nb out =
      (if Suc (length (current_command p)) = nat (array_size p) then Some (SUCCESS, current_command p @ [e], new_RESPParser, nb')
       else Parse (p\<lparr>bulk_len := int (length e), current_command := current_command p @ [e]\<rparr>) nb' out)"
    by auto
  show ?case
  proof (cases "es = []")
    case True
    then have "Suc (length (current_command p)) = nat (array_size p)" using Cons.prems(5) by simp
    then show ?thesis using True P n by simp
  next
    case False
    have "nat (array_size p) = length (current_command p) + length (e # es)" using Cons.prems(5) by (simp only: nat_int)
    then have ne: "Suc (length (current_command p)) \<noteq> nat (array_size p)" using False by (cases es) auto
    let ?p = "p\<lparr>bulk_len := int (length e), current_command := current_command p @ [e]\<rparr>"
    have "\<exists>nb''. Parse ?p nb' out = Some (SUCCESS, current_command ?p @ es, new_RESPParser, nb'') \<and> nb_ok nb'' \<and> Peek nb'' = rest"
      by (rule Cons.IH [OF n(1,2)]) (use Cons.prems False in auto)
    then show ?thesis using P ne by simp
  qed
qed simp

text \<open>A request: an array of bulk strings whose sizes the protocol can express.\<close>

definition request_ok :: "bytes list \<Rightarrow> bool" where
  "request_ok cmd \<longleftrightarrow> int (length cmd) \<le> int64_max \<and> (\<forall>e\<in>set cmd. int (length e) + 2 \<le> int64_max)"

lemma Parse_array:
  assumes ok: "nb_ok nb" and P: "Peek nb = array_bytes cmd @ rest" and r: "request_ok cmd"
  shows "\<exists>nb'. Parse new_RESPParser nb out = Some (SUCCESS, cmd, new_RESPParser, nb') \<and> nb_ok nb' \<and> Peek nb' = rest"
proof -
  have P1: "Peek nb = CHR ''*'' # to_string (length cmd) @ kCRLF @ (concat (map bulk_bytes cmd) @ rest)"
    using P by (simp add: array_bytes_def)
  have len: "int (length cmd) \<le> int64_max" using r by (simp add: request_ok_def)
  note S = size_line [OF ok P1]
  let ?nb = "Retrieve (length (to_string (length cmd)) + 3) nb"
  have st: "parse_step new_RESPParser nb out =
    Some (if length cmd = 0 then (Some SUCCESS, [], new_RESPParser, ?nb)
          else (None, out, new_RESPParser\<lparr>array_size := int (length cmd), pstate := EXPECT_BULK_SIZE\<rparr>, ?nb))"
    by (rule parse_step_array_size [OF ok P1 _ len]) (simp add: new_RESPParser_def)
  show ?thesis
  proof (cases "cmd = []")
    case True
    then show ?thesis using st S Parse_unfold(3) [of nb new_RESPParser out SUCCESS] by simp
  next
    case False
    let ?p = "new_RESPParser\<lparr>array_size := int (length cmd), pstate := EXPECT_BULK_SIZE\<rparr>"
    have "Parse new_RESPParser nb out = Parse ?p ?nb out" by (rule Parse_unfold(4)) (use S(6) st False in simp_all)
    moreover have "\<exists>nb'. Parse ?p ?nb out = Some (SUCCESS, current_command ?p @ cmd, new_RESPParser, nb') \<and> nb_ok nb' \<and> Peek nb' = rest"
      by (rule Parse_bulks) (use S False r in \<open>auto simp: new_RESPParser_def request_ok_def\<close>)
    ultimately show ?thesis by (simp add: new_RESPParser_def)
  qed
qed

lemma parse_all_arrays:
  "nb_ok nb \<Longrightarrow> Peek nb = concat (map array_bytes cmds) \<Longrightarrow> \<forall>c\<in>set cmds. request_ok c \<Longrightarrow>
   \<exists>nb'. parse_all new_RESPParser nb = Some (cmds, INCOMPLETE, new_RESPParser, nb') \<and> nb_ok nb' \<and> Peek nb' = []"
proof (induction cmds arbitrary: nb)
  case Nil
  then have "ReadableBytes nb = 0" using length_Peek [of nb] by simp
  then show ?case using Nil by (auto intro: parse_all_stop Parse_unfold(1))
next
  case (Cons c cmds)
  then have "Peek nb = array_bytes c @ concat (map array_bytes cmds)" "request_ok c" by simp_all
  from Parse_array [OF Cons.prems(1) this] obtain nb1 where
    "Parse new_RESPParser nb [] = Some (SUCCESS, c, new_RESPParser, nb1)" "nb_ok nb1" "Peek nb1 = concat (map array_bytes cmds)"
    by blast
  with Cons.IH [of nb1] Cons.prems(3) show ?case by (auto simp: parse_all_success)
qed

lemma feed_new_whole:
  assumes "\<forall>c\<in>set cs. length c \<le> extra_buffer_size" "nb_ok w" "Peek w = concat cs"
  shows "map_option (\<lambda>(cmds, st, p, nb). (cmds, st, p)) (feed_chunks new_RESPParser (new_NetworkBuffer n) cs) =
    map_option (\<lambda>(cmds, st, p, nb). (cmds, st, p)) (parse_all new_RESPParser w)"
proof -
  have "extends (concat cs) (new_NetworkBuffer n) w" using assms by (simp add: extends_def)
  from feed_chunks_whole [OF settled_new disjI1 [OF assms(1)] this] show ?thesis by (auto split: option.splits)
qed

lemma buffer_with: "\<exists>w. nb_ok w \<and> Peek w = s"
  using nb.append_law [OF nb_ok_new, where d = s] by auto

text \<open>What is parsed from a beginning of a stream of requests is a beginning of the requests.\<close>

lemma feed_prefix:
  assumes "feed_chunks new_RESPParser (new_NetworkBuffer n) cs = Some (cmds, st, p, nb)"
    and "concat cs @ t = concat (map array_bytes reqs)" "\<forall>r\<in>set reqs. request_ok r"
  shows "st = INCOMPLETE" "\<exists>more. reqs = cmds @ more" "t = [] \<Longrightarrow> cmds = reqs"
proof -
  obtain w where w: "nb_ok w" "Peek w = concat cs" using buffer_with by blast
  obtain v where v: "nb_ok v" "Peek v = concat (map array_bytes reqs)" using buffer_with by blast
  have ext: "extends (concat cs) (new_NetworkBuffer n) w" "extends t w v" using w v assms(2) by (auto simp: extends_def)
  obtain w' where W: "parse_all new_RESPParser w = Some (cmds, st, p, w')"
    using feed_chunks_whole [OF settled_new _ ext(1)] assms(1) by auto
  obtain v' where V: "parse_all new_RESPParser v = Some (reqs, INCOMPLETE, new_RESPParser, v')"
    using parse_all_arrays [OF v assms(3)] by blast
  note E = parse_all_extends [OF ext(2), of new_RESPParser]
  show st: "st = INCOMPLETE" using E W V by (auto split: if_splits)
  obtain b where b: "parse_all new_RESPParser v = prepend cmds (parse_all p b)" "t = [] \<longrightarrow> parse_all new_RESPParser v = Some (cmds, st, p, b)"
    using E W st by auto
  then have "prepend cmds (parse_all p b) = Some (reqs, INCOMPLETE, new_RESPParser, v')" using V by simp
  then show "\<exists>more. reqs = cmds @ more" by (auto elim: prepend_SomeE)
  show "cmds = reqs" if "t = []" using b(2) V that by simp
qed

section \<open>Properties\<close>

text \<open>
  C19: a client that encodes its requests as arrays of bulk strings has them parsed as exactly those
  requests, in order, however the stream is cut into socket reads (of at most 65536 bytes): no
  request is lost, split or merged, and the parser ends in its initial state with an empty buffer.
\<close>

theorem requests_roundtrip:
  assumes "\<forall>cmd\<in>set cmds. request_ok cmd" "\<forall>c\<in>set chunks. length c \<le> extra_buffer_size"
    and "concat chunks = concat (map array_bytes cmds)"
  shows "\<exists>nb'. feed_chunks new_RESPParser (new_NetworkBuffer n) chunks = Some (cmds, INCOMPLETE, new_RESPParser, nb') \<and>
    Peek nb' = []"
proof -
  obtain w where w: "nb_ok w" "Peek w = concat chunks" using buffer_with by blast
  then obtain w' where P: "parse_all new_RESPParser w = Some (cmds, INCOMPLETE, new_RESPParser, w')" "Peek w' = []"
    using parse_all_arrays [of w cmds] assms(1,3) by auto
  have "extends (concat chunks) (new_NetworkBuffer n) w" using w by (simp add: extends_def)
  from feed_chunks_whole [OF settled_new disjI1 [OF assms(2)] this] show ?thesis
    using P by (auto simp: extends_def split: option.splits prod.splits)
qed

theorem requests_roundtrip_witness:
  "\<exists>nb'. feed_chunks new_RESPParser (new_NetworkBuffer 1024)
       [take 5 (array_bytes [''GET'', ''a'']), drop 5 (array_bytes [''GET'', ''a'']) @ array_bytes [''DEL'', ''b'']] =
     Some ([[''GET'', ''a''], [''DEL'', ''b'']], INCOMPLETE, new_RESPParser, nb') \<and> Peek nb' = []"
proof (rule requests_roundtrip)
  have d: "length (to_string n) = 1" if "n < 10" for n using that by (simp add: to_string.simps [of n])
  show "\<forall>c\<in>set [take 5 (array_bytes [''GET'', ''a'']), drop 5 (array_bytes [''GET'', ''a'']) @ array_bytes [''DEL'', ''b'']].
      length c \<le> extra_buffer_size"
    by (simp add: array_bytes_def bulk_bytes_def kCRLF_def extra_buffer_size_def d)
qed (auto simp: request_ok_def int64_max_def)

text \<open>
  C32: what the parser makes of a byte stream, valid or not, does not depend on how the stream is cut
  into reads: the commands, the final status (waiting or protocol error) and the parser's state are
  the same for every way of cutting it.
\<close>

theorem chunking_irrelevant:
  assumes "\<forall>c\<in>set cs. length c \<le> extra_buffer_size" "\<forall>c\<in>set ds. length c \<le> extra_buffer_size" "concat cs = concat ds"
  shows "map_option (\<lambda>(cmds, st, p, nb). (cmds, st, p)) (feed_chunks new_RESPParser (new_NetworkBuffer m) cs) =
    map_option (\<lambda>(cmds, st, p, nb). (cmds, st, p)) (feed_chunks new_RESPParser (new_NetworkBuffer n) ds)"
proof -
  obtain w where w: "nb_ok w" "Peek w = concat cs" using buffer_with by blast
  then show ?thesis using feed_new_whole [OF assms(1) w] feed_new_whole [OF assms(2) w(1)] assms(3) by simp
qed

theorem chunking_irrelevant_witness:
  "map_option (\<lambda>(cmds, st, p, nb). (cmds, st, p)) (feed_chunks new_RESPParser (new_NetworkBuffer 4) [''*1'', ''x'', kCRLF]) =
   map_option (\<lambda>(cmds, st, p, nb). (cmds, st, p)) (feed_chunks new_RESPParser (new_NetworkBuffer 9) [''*1x'' @ kCRLF])"
  by (rule chunking_irrelevant) (simp_all add: extra_buffer_size_def kCRLF_def)

text \<open>
  C34: the invariant of the parser's state (no arguments are stored while an array header is
  expected; fewer arguments than announced and an announced number in the \<open>int64_t\<close> range
  afterwards; a length in range while data is expected) holds after every call that does not report
  an error; a call that reports a command has consumed input and one that asks for more can be
  repeated without effect.
\<close>

theorem parser_invariant:
  assumes "parser_ok p" "Parse p nb out = Some (st, out', p', nb')" "st \<noteq> ERROR"
  shows "parser_ok p' \<and> (st = SUCCESS \<longrightarrow> ReadableBytes nb' < ReadableBytes nb) \<and>
    (st = INCOMPLETE \<longrightarrow> out' = out \<and> Parse p' nb' out' = Some (INCOMPLETE, out', p', nb'))"
  using Parse_keeps [OF assms(2)] assms(1,3) by auto

theorem parser_invariant_witness:
  "parser_ok new_RESPParser \<and> Parse new_RESPParser (new_NetworkBuffer 8) [] = Some (INCOMPLETE, [], new_RESPParser, new_NetworkBuffer 8)"
proof -
  have P: "Parse new_RESPParser (new_NetworkBuffer 8) [] = Some (INCOMPLETE, [], new_RESPParser, new_NetworkBuffer 8)"
    by (rule Parse_unfold(1)) (simp add: length_Peek [symmetric])
  from parser_invariant [OF parser_ok_new P] P show ?thesis by simp
qed

text \<open>
  A first line that is not \<open>*\<close> followed by a complete non-negative number in the \<open>int64_t\<close>
  range is a protocol error, reported without consuming anything.
\<close>

theorem bad_header_rejected:
  assumes "nb_ok nb" "Peek nb = line @ kCRLF @ rest" "CHR 0x0D \<notin> set line" "line \<noteq> []"
    and "hd line \<noteq> CHR ''*'' \<or> (\<forall>v\<ge>0. from_chars (tl line) \<noteq> (length (tl line), Some v))"
  shows "\<exists>p'. Parse new_RESPParser nb out = Some (ERROR, out, p', nb)"
proof -
  obtain c s where line: "line = c # s" using assms(4) by (cases line) auto
  have f: "FindCRLF nb = Some (Suc (length s))"
    using find_crlf_line [OF assms(3), of rest] by (simp add: FindCRLF_def assms(2) kCRLF_def line)
  have rb: "ReadableBytes nb \<noteq> 0" using length_Peek [OF assms(1)] by (simp add: assms(2) line)
  have t: "take (length s) (drop (Suc 0) (Peek nb)) = s" "Peek nb ! 0 = c" by (simp_all add: assms(2) line)
  have h: "c \<noteq> CHR ''*'' \<or> (\<forall>v. from_chars s = (length s, Some v) \<longrightarrow> v < 0)"
    using assms(5) line by (auto simp: not_less [symmetric])
  have "\<exists>p'. parse_step new_RESPParser nb out = Some (Some ERROR, out, p', nb)"
    using h f t
    by (cases "from_chars s"; cases "snd (from_chars s)")
       (auto simp: parse_step_def parse_array_size_def Let_def line new_RESPParser_def)
  then show ?thesis using rb Parse_unfold(3) by blast
qed

theorem bad_header_rejected_witness:
  "\<exists>nb p'. NetworkBuffer_Append (''PING'' @ kCRLF) (new_NetworkBuffer 16) = Some nb \<and>
     Parse new_RESPParser nb [] = Some (ERROR, [], p', nb)"
proof -
  obtain nb where nb: "NetworkBuffer_Append (''PING'' @ kCRLF) (new_NetworkBuffer 16) = Some nb" "nb_ok nb"
    "Peek nb = Peek (new_NetworkBuffer 16) @ ''PING'' @ kCRLF"
    by (rule nb.append_obtain [OF nb_ok_new])
  have "Peek nb = ''PING'' @ kCRLF @ []" using nb(3) by simp
  from bad_header_rejected [OF nb(2) this, of "[]"] nb(1) show ?thesis by auto
qed

text \<open>
  C40: a bulk length of \<open>INT64_MAX - 1\<close> or \<open>INT64_MAX\<close> passes every check of the parser and then
  overflows in \<open>bulk_len_ + 2\<close> as soon as one more byte arrives: the behaviour is undefined.
\<close>

theorem huge_bulk_length_undefined:
  assumes "nb_ok nb" "Peek nb = array_header @ CHR ''$'' # to_string n @ kCRLF @ c # rest"
    and "array_header = CHR ''*'' # to_string 1 @ kCRLF" "int64_max - 2 < int n" "int n \<le> int64_max"
  shows "Parse new_RESPParser nb out = None"
proof -
  have P1: "Peek nb = CHR ''*'' # to_string 1 @ kCRLF @ (CHR ''$'' # to_string n @ kCRLF @ c # rest)"
    using assms(2,3) by simp
  note S1 = size_line [OF assms(1) P1]
  let ?nb1 = "Retrieve (length (to_string 1) + 3) nb" and ?p1 = "new_RESPParser\<lparr>array_size := int 1, pstate := EXPECT_BULK_SIZE\<rparr>"
  have "Parse new_RESPParser nb out = Parse ?p1 ?nb1 out"
    by (rule Parse_unfold(4))
       (use S1 parse_step_array_size [OF assms(1) P1, of new_RESPParser out] in \<open>simp_all add: new_RESPParser_def int64_max_def\<close>)
  moreover have ok1: "nb_ok ?nb1" "Peek ?nb1 = CHR ''$'' # to_string n @ kCRLF @ c # rest" using S1 by simp_all
  note S2 = size_line [OF ok1]
  let ?nb2 = "Retrieve (length (to_string n) + 3) ?nb1" and ?p2 = "?p1\<lparr>bulk_len := int n, pstate := EXPECT_BULK_DATA\<rparr>"
  have "Parse ?p1 ?nb1 out = Parse ?p2 ?nb2 out"
    by (rule Parse_unfold(4)) (use S2 parse_step_bulk_size [OF ok1, of ?p1 out] assms(5) in simp_all)
  moreover have "ReadableBytes ?nb2 \<noteq> 0" using S2 length_Peek [of ?nb2] by simp
  then have "Parse ?p2 ?nb2 out = None"
    by (rule Parse_unfold(2)) (use assms(4) in \<open>simp add: parse_step_def parse_bulk_data_def\<close>)
  ultimately show ?thesis by simp
qed

theorem huge_bulk_length_undefined_witness:
  "\<exists>nb. NetworkBuffer_Append (CHR ''*'' # to_string 1 @ kCRLF @ CHR ''$'' # to_string (2 ^ 63 - 1) @ kCRLF @ ''x'') (new_NetworkBuffer 16) = Some nb \<and>
     Parse new_RESPParser nb [] = None"
proof -
  obtain nb where nb: "NetworkBuffer_Append (CHR ''*'' # to_string 1 @ kCRLF @ CHR ''$'' # to_string (2 ^ 63 - 1) @ kCRLF @ ''x'')
      (new_NetworkBuffer 16) = Some nb" "nb_ok nb"
    "Peek nb = Peek (new_NetworkBuffer 16) @ CHR ''*'' # to_string 1 @ kCRLF @ CHR ''$'' # to_string (2 ^ 63 - 1) @ kCRLF @ ''x''"
    by (rule nb.append_obtain [OF nb_ok_new])
  have "Parse new_RESPParser nb [] = None"
    by (rule huge_bulk_length_undefined [OF nb(2) _ refl, of "2 ^ 63 - 1" "CHR ''x''" "[]"])
       (use nb(3) in \<open>simp_all add: int64_max_def\<close>)
  then show ?thesis using nb(1) by blast
qed

end
