(* ===== verification/Storage.thy ===== *)
theory Storage
  imports Prelude
begin

text \<open>
  The data shared by the storage layer (\<open>include/ValueRecord.h\<close>, \<open>include/Storage.h\<close>): typed
  values, block handles, index entries, and the 40-byte footer of an SSTable file with its
  encoder and its validating decoder.
\<close>

section \<open>Values\<close>

text \<open>
  \<open>enum class ValueType : uint8_t\<close> has a fixed underlying type, so a cast from a byte read
  from disk can yield a value that is neither enumerator; \<open>OtherType\<close> holds those.
\<close>

datatype ValueType = kValue | kDeletion | OtherType u8

definition type_to_u8 :: "ValueType \<Rightarrow> u8" where
  "type_to_u8 t = (case t of kValue \<Rightarrow> 1 | kDeletion \<Rightarrow> 2 | OtherType b \<Rightarrow> b)"

definition u8_to_type :: "u8 \<Rightarrow> ValueType" where
  "u8_to_type b = (if b = 1 then kValue else if b = 2 then kDeletion else OtherType b)"

definition type_ok :: "ValueType \<Rightarrow> bool" where
  "type_ok t \<longleftrightarrow> (case t of OtherType b \<Rightarrow> b \<noteq> 1 \<and> b \<noteq> 2 | _ \<Rightarrow> True)"

record ValueRecord =
  vtype :: ValueType
  rvalue :: bytes

lemma u8_to_type_of_type [simp, codec_simps]: "type_ok t \<Longrightarrow> u8_to_type (type_to_u8 t) = t"
  by (auto simp: type_ok_def u8_to_type_def type_to_u8_def split: ValueType.splits)

lemma type_to_u8_of_u8 [simp, codec_simps]: "type_to_u8 (u8_to_type b) = b"
  by (auto simp: u8_to_type_def type_to_u8_def)

lemma type_ok_u8_to_type [simp]: "type_ok (u8_to_type b)"
  by (auto simp: type_ok_def u8_to_type_def)

lemma type_ok_enumerators [simp]: "type_ok kValue" "type_ok kDeletion"
  by (simp_all add: type_ok_def)

lemma ValueRecord_eta [simp]: "\<lparr>vtype = vtype r, rvalue = rvalue r\<rparr> = (r :: ValueRecord)"
  by simp

section \<open>Block handles, index entries, footer\<close>

record BlockHandle =
  bh_offset :: u64
  bh_size :: u64

definition empty_handle :: BlockHandle where
  "empty_handle = \<lparr>bh_offset = 0, bh_size = 0\<rparr>"

record IndexEntry =
  last_key :: bytes
  handle :: BlockHandle

record Footer =
  index_handle :: BlockHandle
  filter_handle :: BlockHandle

definition kMagicNumber :: u64 where
  "kMagicNumber = 0xDEADC0DEFA112026"

definition kEncodedLength :: nat where
  "kEncodedLength = 16 + 16 + 8"

definition Footer_EncodeTo :: "Footer \<Rightarrow> bytes \<Rightarrow> bytes" where
  "Footer_EncodeTo f dst =
     dst @ enc_u64 (bh_offset (index_handle f)) @ enc_u64 (bh_size (index_handle f))
         @ enc_u64 (bh_offset (filter_handle f)) @ enc_u64 (bh_size (filter_handle f))
         @ enc_u64 kMagicNumber"

text \<open>
  \<open>DecodeFrom\<close> overwrites the footer's fields before it compares the magic number, so the
  model returns the verdict together with the footer as it is left.
\<close>

definition Footer_DecodeFrom :: "Footer \<Rightarrow> bytes \<Rightarrow> bool \<times> Footer" where
  "Footer_DecodeFrom f input =
     (if length input < kEncodedLength then (False, f)
      else
        let rd = (\<lambda>p. dec_u64 (take 8 (drop p input)));
            f' = \<lparr>index_handle = \<lparr>bh_offset = rd 0, bh_size = rd 8\<rparr>,
                  filter_handle = \<lparr>bh_offset = rd 16, bh_size = rd 24\<rparr>\<rparr>
        in (rd 32 = kMagicNumber, f'))"

lemma length_Footer_EncodeTo [simp]:
  "length (Footer_EncodeTo f dst) = length dst + kEncodedLength"
  by (simp add: Footer_EncodeTo_def kEncodedLength_def)

lemma Footer_roundtrip_aux:
  "Footer_DecodeFrom f0 (Footer_EncodeTo f []) = (True, f)"
  by (cases f; cases "index_handle f"; cases "filter_handle f")
     (simp add: Footer_DecodeFrom_def Footer_EncodeTo_def kEncodedLength_def)

lemma Footer_DecodeFrom_accepts_aux:
  "fst (Footer_DecodeFrom f s) \<longleftrightarrow>
     kEncodedLength \<le> length s \<and> take 8 (drop 32 s) = enc_u64 kMagicNumber"
proof (cases "kEncodedLength \<le> length s")
  case True
  then have "length (take 8 (drop 32 s)) = 8" by (simp add: kEncodedLength_def)
  with True show ?thesis
    by (simp add: Footer_DecodeFrom_def Let_def dec_u64_eq_iff)
qed (simp add: Footer_DecodeFrom_def)

section \<open>Properties\<close>

text \<open>
  Decoding an encoded footer gives it back, and an arbitrary input is accepted exactly when it
  has at least 40 bytes and its bytes 32 to 39 are the magic number.
\<close>

theorem Footer_codec:
  "Footer_DecodeFrom f0 (Footer_EncodeTo f []) = (True, f) \<and>
   (fst (Footer_DecodeFrom f0 s) \<longleftrightarrow>
      kEncodedLength \<le> length s \<and> take 8 (drop 32 s) = enc_u64 kMagicNumber)"
  by (simp add: Footer_roundtrip_aux Footer_DecodeFrom_accepts_aux)

end
