(* ===== verification/BlockBuilder.thy ===== *)
theory BlockBuilder
  imports Storage
begin

text \<open>
  \<open>BlockBuilder\<close> (\<open>include/BlockBuilder.h\<close>, \<open>src/BlockBuilder.cpp\<close>) serialises key/value
  records into one block; \<open>WritableFile\<close> (\<open>include/FileFormats.h\<close>) is the append-only output
  file with its own 64-bit size counter. The theory also gives the byte image of one record,
  which every reader of blocks inverts.
\<close>

section \<open>The block builder\<close>

record BlockBuilder =
  buffer :: bytes
  counter :: int
  finished :: bool

definition new_BlockBuilder :: BlockBuilder where
  "new_BlockBuilder = \<lparr>buffer = [], counter = 0, finished = False\<rparr>"

text \<open>Layout: key length (4 bytes), key, value type (1 byte), value length (4 bytes), value.\<close>

definition BlockBuilder_Add :: "bytes \<Rightarrow> bytes \<Rightarrow> ValueType \<Rightarrow> BlockBuilder \<Rightarrow> BlockBuilder" where
  "BlockBuilder_Add key val type bb =
     (let key_len = (of_nat (length key) :: u32);
          val_len = (of_nat (length val) :: u32)
      in bb\<lparr>buffer := buffer bb @ enc_u32 key_len @ key @ enc_u8 (type_to_u8 type)
                        @ enc_u32 val_len @ val,
            counter := counter bb + 1\<rparr>)"

definition BlockBuilder_Finish :: "BlockBuilder \<Rightarrow> bytes \<times> BlockBuilder" where
  "BlockBuilder_Finish bb = (buffer bb, bb\<lparr>finished := True\<rparr>)"

definition BlockBuilder_Reset :: "BlockBuilder \<Rightarrow> BlockBuilder" where
  "BlockBuilder_Reset bb = bb\<lparr>buffer := [], counter := 0, finished := False\<rparr>"

definition CurrentSizeEstimate :: "BlockBuilder \<Rightarrow> nat" where
  "CurrentSizeEstimate bb = length (buffer bb)"

definition BlockBuilder_Empty :: "BlockBuilder \<Rightarrow> bool" where
  "BlockBuilder_Empty bb \<longleftrightarrow> buffer bb = []"

section \<open>The output file\<close>

text \<open>
  The stream is opened in append mode: \<open>contents\<close> is whatever the file held before plus what
  was written, while \<open>wsize\<close> counts only the bytes written through this object.
\<close>

record WritableFile =
  contents :: bytes
  wsize :: u64

definition new_WritableFile :: "bytes \<Rightarrow> WritableFile" where
  "new_WritableFile old = \<lparr>contents = old, wsize = 0\<rparr>"

definition WritableFile_Append :: "bytes \<Rightarrow> WritableFile \<Rightarrow> WritableFile" where
  "WritableFile_Append d f =
     f\<lparr>contents := contents f @ d, wsize := wsize f + of_nat (length d)\<rparr>"

definition WritableFile_Size :: "WritableFile \<Rightarrow> u64" where
  "WritableFile_Size f = wsize f"

section \<open>Byte image of records\<close>

type_synonym row = "bytes \<times> ValueRecord"

definition row_bytes :: "row \<Rightarrow> bytes" where
  "row_bytes r =
     enc_u32 (of_nat (length (fst r))) @ fst r @ enc_u8 (type_to_u8 (vtype (snd r)))
       @ enc_u32 (of_nat (length (rvalue (snd r)))) @ rvalue (snd r)"

definition block_bytes :: "row list \<Rightarrow> bytes" where
  "block_bytes rs = concat (map row_bytes rs)"

text \<open>
  A row fits its length fields: both lengths are below \<open>2^32\<close>, and its type byte denotes the
  type it came from.
\<close>

definition row_ok :: "row \<Rightarrow> bool" where
  "row_ok r \<longleftrightarrow> length (fst r) < 2 ^ 32 \<and> length (rvalue (snd r)) < 2 ^ 32 \<and> type_ok (vtype (snd r))"

definition row_size :: "row \<Rightarrow> nat" where
  "row_size r = 9 + length (fst r) + length (rvalue (snd r))"

definition rows_size :: "row list \<Rightarrow> nat" where
  "rows_size rs = sum_list (map row_size rs)"

lemma block_bytes_simps [simp]:
  "block_bytes [] = []"
  "block_bytes (r # rs) = row_bytes r @ block_bytes rs"
  "block_bytes (rs @ rs') = block_bytes rs @ block_bytes rs'"
  by (simp_all add: block_bytes_def)

lemma rows_size_simps [simp]:
  "rows_size [] = 0"
  "rows_size (r # rs) = row_size r + rows_size rs"
  "rows_size (rs @ rs') = rows_size rs + rows_size rs'"
  by (simp_all add: rows_size_def)

lemma length_row_bytes: "length (row_bytes r) = row_size r"
  by (simp add: row_bytes_def row_size_def)

lemma length_block_bytes: "length (block_bytes rs) = rows_size rs"
  by (induction rs) (simp_all add: length_row_bytes)

lemma row_size_pos [simp]: "0 < row_size r" "9 \<le> row_size r"
  by (simp_all add: row_size_def)

lemma block_bytes_eq_Nil [simp]: "block_bytes rs = [] \<longleftrightarrow> rs = []"
proof (cases rs)
  case (Cons r rs')
  have "length (row_bytes r) \<noteq> 0" unfolding length_row_bytes by simp
  with Cons show ?thesis by auto
qed simp

lemma rows_size_count: "9 * length rs \<le> rows_size rs"
  by (induction rs) (auto simp: row_size_def)

lemma rows_size_concat: "rows_size (concat bs) = sum_list (map rows_size bs)"
  by (induction bs) auto

lemma buffer_Add [simp]:
  "buffer (BlockBuilder_Add k v t bb) = buffer bb @ row_bytes (k, \<lparr>vtype = t, rvalue = v\<rparr>)"
  by (simp add: BlockBuilder_Add_def Let_def row_bytes_def)

lemma buffer_Reset [simp]: "buffer (BlockBuilder_Reset bb) = []"
  by (simp add: BlockBuilder_Reset_def)

lemma buffer_new [simp]: "buffer new_BlockBuilder = []"
  by (simp add: new_BlockBuilder_def)

lemma unat_u32_length: "length s < 2 ^ 32 \<Longrightarrow> unat (of_nat (length s) :: u32) = length s"
  by (simp add: unat_of_nat)

lemma u64_of_nat_inverse: "n < 2 ^ 64 \<Longrightarrow> unat (of_nat n :: u64) = n"
  by (simp add: unat_of_nat)

end
