(* ===== verification/BloomFilter.thy ===== *)
theory BloomFilter
  imports Prelude
begin

unbundle bit_operations_syntax

text \<open>
  The Bloom filter of an SSTable (\<open>include/BloomFilter.h\<close>): the 32-bit hash, the probe
  sequence \<open>h, h + delta, h + 2*delta, \<dots>\<close>, the construction of the bit array and the
  membership test. All arithmetic is at the width of the source: the hash is a 32-bit word
  that wraps, the bit count a 64-bit \<open>size_t\<close>.
\<close>

section \<open>Hash\<close>

text \<open>
  \<open>static_cast<uint32_t>(c)\<close> for a signed \<open>char\<close> sign-extends the byte.
\<close>

definition char_to_u32 :: "char \<Rightarrow> u32" where
  "char_to_u32 c = scast (of_nat (of_char c) :: u8)"

fun BloomHash_loop :: "u32 \<Rightarrow> bytes \<Rightarrow> u32" where
  "BloomHash_loop h [] = h"
| "BloomHash_loop h (c # cs) =
     (let h1 = h XOR char_to_u32 c;
          h2 = h1 * 0x5bd1e995;
          h3 = h2 XOR drop_bit 15 h2
      in BloomHash_loop h3 cs)"

definition BloomHash :: "bytes \<Rightarrow> u32" where
  "BloomHash key = BloomHash_loop (0xbc9f1d34 XOR of_nat (length key)) key"

definition bloom_delta :: "u32 \<Rightarrow> u32" where
  "bloom_delta h = drop_bit 17 h OR push_bit 15 h"

text \<open>\<open>const uint32_t bitpos = h % bits\<close> with \<open>bits\<close> a \<open>size_t\<close>.\<close>

definition bitpos :: "u32 \<Rightarrow> u64 \<Rightarrow> nat" where
  "bitpos h bits = unat (ucast ((ucast h :: u64) mod bits) :: u32)"

section \<open>Construction\<close>

definition set_filter_bit :: "bytes \<Rightarrow> nat \<Rightarrow> bytes" where
  "set_filter_bit res p =
     res[p div 8 := char_of ((of_char (res ! (p div 8)) :: nat) OR push_bit (p mod 8) 1)]"

definition filter_bit :: "bytes \<Rightarrow> nat \<Rightarrow> bool" where
  "filter_bit f p = bit (of_char (f ! (p div 8)) :: nat) (p mod 8)"

fun set_probes :: "nat \<Rightarrow> u32 \<Rightarrow> u32 \<Rightarrow> u64 \<Rightarrow> bytes \<Rightarrow> bytes" where
  "set_probes 0 h delta bits res = res"
| "set_probes (Suc j) h delta bits res =
     set_probes j (h + delta) delta bits (set_filter_bit res (bitpos h bits))"

definition add_filter_key :: "nat \<Rightarrow> u64 \<Rightarrow> bytes \<Rightarrow> bytes \<Rightarrow> bytes" where
  "add_filter_key k bits key res =
     (let h = BloomHash key in set_probes k h (bloom_delta h) bits res)"

text \<open>
  The number of probes, \<open>static_cast<int>(bits_per_key_ * 0.69)\<close> clamped to \<open>1..30\<close>. The
  floating-point product never lies within rounding distance of an integer below the upper
  clamp, so the truncated rational product clamped is the same number.
\<close>

definition bloom_k :: "int \<Rightarrow> int" where
  "bloom_k bits_per_key = min 30 (max 1 (bits_per_key * 69 div 100))"

definition bloom_bytes :: "int \<Rightarrow> nat \<Rightarrow> u64" where
  "bloom_bytes bits_per_key n =
     (let bits = of_nat n * of_int bits_per_key;
          bits' = (if bits < 64 then 64 else bits)
      in (bits' + 7) div 8)"

definition CreateFilter :: "int \<Rightarrow> bytes list \<Rightarrow> bytes" where
  "CreateFilter bits_per_key keys =
     (if keys = [] then []
      else
        let nbytes = bloom_bytes bits_per_key (length keys);
            bits = nbytes * 8;
            k = bloom_k bits_per_key;
            res = fold (add_filter_key (nat k) bits) keys (replicate (unat nbytes) (CHR 0x00))
        in res @ [char_of (nat k)])"

section \<open>Query\<close>

fun test_probes :: "nat \<Rightarrow> u32 \<Rightarrow> u32 \<Rightarrow> u64 \<Rightarrow> bytes \<Rightarrow> bool" where
  "test_probes 0 h delta bits f = True"
| "test_probes (Suc j) h delta bits f =
     (if \<not> filter_bit f (bitpos h bits) then False
      else test_probes j (h + delta) delta bits f)"

definition KeyMayMatch :: "bytes \<Rightarrow> bytes \<Rightarrow> bool" where
  "KeyMayMatch key f =
     (if length f < 2 then False
      else
        let len = length f;
            k = sint (of_nat (of_char (f ! (len - 1))) :: u8);
            bits = of_nat (len - 1) * 8;
            h = BloomHash key
        in test_probes (nat k) h (bloom_delta h) bits f)"

section \<open>No false negatives\<close>

lemma length_set_filter_bit [simp]: "length (set_filter_bit res p) = length res"
  by (simp add: set_filter_bit_def)

lemma length_set_probes [simp]: "length (set_probes k h d bits res) = length res"
  by (induction k h d bits res rule: set_probes.induct) auto

lemma length_add_filter_key [simp]: "length (add_filter_key k bits key res) = length res"
  by (simp add: add_filter_key_def Let_def)

lemma length_fold_add_filter_key [simp]:
  "length (fold (add_filter_key k bits) keys res) = length res"
  by (induction keys arbitrary: res) auto

lemma bit_or_byte: "bit ((a OR 2 ^ i) mod 256 :: nat) j \<longleftrightarrow> j < 8 \<and> (bit a j \<or> i = j)"
proof -
  have "bit ((a OR 2 ^ i) mod 256 :: nat) j \<longleftrightarrow> bit (take_bit 8 (a OR push_bit i 1)) j"
    by (simp add: take_bit_eq_mod push_bit_eq_mult)
  then show ?thesis by (auto simp: bit_simps)
qed

lemma filter_bit_set:
  assumes "q div 8 < length res"
  shows "filter_bit (set_filter_bit res q) p \<longleftrightarrow> filter_bit res p \<or> p = q"
proof (cases "p div 8 = q div 8")
  case True
  have "p mod 8 = q mod 8 \<longleftrightarrow> p = q"
    using True by (metis div_mult_mod_eq)
  with True assms show ?thesis
    by (auto simp: filter_bit_def set_filter_bit_def bit_or_byte)
qed (auto simp: filter_bit_def set_filter_bit_def)

definition probe_ok :: "u64 \<Rightarrow> bytes \<Rightarrow> bool" where
  "probe_ok bits f \<longleftrightarrow> 0 < bits \<and> unat bits \<le> 8 * length f"

lemma bitpos_less: "probe_ok bits f \<Longrightarrow> bitpos h bits div 8 < length f"
proof -
  assume ok: "probe_ok bits f"
  have "bitpos h bits \<le> unat ((ucast h :: u64) mod bits)"
    unfolding bitpos_def by (simp add: unsigned_ucast_eq)
  also have "\<dots> < unat bits"
    using ok by (simp add: probe_ok_def unat_mod word_gt_0_no word_neq_0_conv unat_gt_0)
  finally show ?thesis
    using ok by (auto simp: probe_ok_def intro!: less_mult_imp_div_less)
qed

lemma set_probes_mono:
  "probe_ok bits res \<Longrightarrow> filter_bit res p \<Longrightarrow> filter_bit (set_probes k h d bits res) p"
  by (induction k h d bits res rule: set_probes.induct)
     (simp_all add: probe_ok_def filter_bit_set bitpos_less)

lemma test_probes_mono:
  assumes "\<And>p. filter_bit f p \<Longrightarrow> filter_bit g p" and "test_probes k h d bits f"
  shows "test_probes k h d bits g"
  using assms(2,1) by (induction k h d bits f rule: test_probes.induct) (auto split: if_splits)

lemma test_set_probes:
  "probe_ok bits res \<Longrightarrow> test_probes k h d bits (set_probes k h d bits res)"
proof (induction k h d bits res rule: set_probes.induct)
  case (2 j h d bits res)
  let ?r = "set_filter_bit res (bitpos h bits)"
  have ok: "probe_ok bits ?r" using "2.prems" by (simp add: probe_ok_def)
  have "filter_bit ?r (bitpos h bits)"
    using "2.prems" by (simp add: filter_bit_set bitpos_less)
  with ok have "filter_bit (set_probes j (h + d) d bits ?r) (bitpos h bits)"
    by (rule set_probes_mono)
  with "2.IH" [OF ok] show ?case by simp
qed simp

lemma test_probes_append:
  "probe_ok bits f \<Longrightarrow> test_probes k h d bits f \<Longrightarrow> test_probes k h d bits (f @ g)"
  by (induction k h d bits f rule: test_probes.induct)
     (auto simp: filter_bit_def nth_append bitpos_less split: if_splits)

lemma fold_add_filter_key_mono:
  "probe_ok bits res \<Longrightarrow> filter_bit res p \<Longrightarrow> filter_bit (fold (add_filter_key k bits) keys res) p"
  by (induction keys arbitrary: res)
     (simp_all add: add_filter_key_def Let_def set_probes_mono probe_ok_def)

lemma fold_add_filter_key_member:
  assumes "probe_ok bits res" "key \<in> set keys"
  shows "test_probes k (BloomHash key) (bloom_delta (BloomHash key)) bits
           (fold (add_filter_key k bits) keys res)"
  using assms
proof (induction keys arbitrary: res)
  case (Cons x xs)
  let ?r = "add_filter_key k bits x res"
  have ok: "probe_ok bits ?r" using Cons.prems by (simp add: probe_ok_def)
  show ?case
  proof (cases "x = key")
    case True
    have "test_probes k (BloomHash key) (bloom_delta (BloomHash key)) bits ?r"
      using test_set_probes [OF Cons.prems(1)] by (simp add: add_filter_key_def Let_def True)
    with fold_add_filter_key_mono [OF ok] show ?thesis
      by (auto intro: test_probes_mono)
  next
    case False
    with Cons ok show ?thesis by simp
  qed
qed simp

lemma bloom_k_range: "1 \<le> bloom_k b" "bloom_k b \<le> 30"
  by (auto simp: bloom_k_def)

lemma unat_bloom_bytes:
  assumes "0 \<le> b" "int n * b < 2 ^ 63"
  shows "8 \<le> unat (bloom_bytes b n)" "unat (bloom_bytes b n) < 2 ^ 61"
    "unat (bloom_bytes b n) \<le> 8 + nat (int n * b)"
proof -
  define w :: u64 where "w = of_nat n * of_int b"
  have "w = of_int (int n * b)" by (simp add: w_def)
  then have "uint w = int n * b mod 2 ^ 64" by (simp only: uint_word_of_int) simp
  also have "\<dots> = int n * b" using assms by simp
  finally have w: "uint w = int n * b" .
  then have nw: "unat w = nat (int n * b)" by (metis unat_eq_nat_uint)
  define x :: u64 where "x = (if w < 64 then 64 else w)"
  have "unat x < 2 ^ 63"
    using assms nw by (auto simp: x_def)
  moreover have "64 \<le> unat x"
    by (auto simp: x_def word_less_nat_alt not_less)
  ultimately have ux: "unat (x + 7) = unat x + 7"
    by (subst unat_add_lem [THEN iffD1]) auto
  have *: "unat (bloom_bytes b n) = (unat x + 7) div 8"
    by (simp add: bloom_bytes_def Let_def w_def [symmetric] x_def [symmetric] unat_div ux)
  show "8 \<le> unat (bloom_bytes b n)" using \<open>64 \<le> unat x\<close> unfolding * by linarith
  show "unat (bloom_bytes b n) < 2 ^ 61" using \<open>unat x < 2 ^ 63\<close> unfolding * by simp
  have "unat x \<le> 64 + nat (int n * b)" by (auto simp: x_def nw)
  then show "unat (bloom_bytes b n) \<le> 8 + nat (int n * b)" unfolding * by arith
qed

lemma length_CreateFilter:
  "keys \<noteq> [] \<Longrightarrow> length (CreateFilter b keys) = unat (bloom_bytes b (length keys)) + 1"
  by (simp add: CreateFilter_def Let_def)

lemma KeyMayMatch_CreateFilter_aux:
  assumes b: "0 \<le> b" "int (length keys) * b < 2 ^ 63" and key: "key \<in> set keys"
  shows "KeyMayMatch key (CreateFilter b keys)"
proof -
  define n where "n = bloom_bytes b (length keys)"
  note nb = unat_bloom_bytes [OF b, folded n_def]
  define k where "k = nat (bloom_k b)"
  have k: "1 \<le> k" "k \<le> 30" using bloom_k_range [of b] by (auto simp: k_def)
  define res where "res = fold (add_filter_key k (n * 8)) keys (replicate (unat n) (CHR 0x00))"
  have lres: "length res = unat n" by (simp add: res_def)
  have un8: "unat (n * 8) = unat n * 8"
    using nb by (subst unat_mult_lem [THEN iffD1]) auto
  then have ok: "probe_ok (n * 8) (replicate (unat n) (CHR 0x00))"
    using nb by (simp add: probe_ok_def word_less_nat_alt)
  have f: "CreateFilter b keys = res @ [char_of k]"
    using key by (auto simp: CreateFilter_def Let_def res_def n_def k_def)
  have "test_probes k (BloomHash key) (bloom_delta (BloomHash key)) (n * 8) res"
    unfolding res_def by (rule fold_add_filter_key_member [OF ok key])
  moreover have ok': "probe_ok (n * 8) res" using ok by (simp add: probe_ok_def lres)
  ultimately have t: "test_probes k (BloomHash key) (bloom_delta (BloomHash key)) (n * 8)
      (res @ [char_of k])"
    using test_probes_append by blast
  have "sint (of_nat k :: u8) = int k"
    using k by (simp add: signed_of_nat signed_take_bit_int_eq_self)
  with k t lres nb(1) show ?thesis
    by (simp add: KeyMayMatch_def f Let_def nth_append)
qed

section \<open>Properties\<close>

text \<open>
  The Bloom filter has no false negatives: every key a filter was created from matches it, for
  every non-negative number of bits per key whose product with the number of keys fits 63 bits.
\<close>

theorem bloom_no_false_negatives:
  assumes "0 \<le> b" "int (length keys) * b < 2 ^ 63" "key \<in> set keys"
  shows "KeyMayMatch key (CreateFilter b keys)"
  using assms by (rule KeyMayMatch_CreateFilter_aux)

theorem bloom_no_false_negatives_witness:
  "KeyMayMatch ''beta'' (CreateFilter 10 [''alpha'', ''beta'', ''gamma''])"
  by (rule bloom_no_false_negatives) simp_all

end
