(* ===== verification/SSTableBuilder.thy ===== *)
theory SSTableBuilder
  imports BlockBuilder BloomFilter
begin

text \<open>
  \<open>SSTableBuilder\<close> (\<open>include/SSTableBuilder.h\<close>, \<open>src/SSTableBuilder.cpp\<close>): rows are gathered
  into data blocks of at least 4096 bytes, every finished block gets an index entry with its
  last key, and \<open>Finish\<close> appends the filter block, the index block and the footer. The main
  lemma gives the exact bytes of the finished file.
\<close>

section \<open>Operations\<close>

record SSTableBuilder =
  sb_file :: WritableFile
  data_block :: BlockBuilder
  sb_last_key :: bytes
  sb_index_entries :: "IndexEntry list"
  sb_keys :: "bytes list"
  sb_filter_handle :: BlockHandle

definition new_SSTableBuilder :: "WritableFile \<Rightarrow> SSTableBuilder" where
  "new_SSTableBuilder f =
     \<lparr>sb_file = f, data_block = new_BlockBuilder, sb_last_key = [], sb_index_entries = [],
      sb_keys = [], sb_filter_handle = empty_handle\<rparr>"

definition WriteDataBlock :: "SSTableBuilder \<Rightarrow> SSTableBuilder" where
  "WriteDataBlock sb =
     (let off = WritableFile_Size (sb_file sb);
          (content, db) = BlockBuilder_Finish (data_block sb);
          h = \<lparr>bh_offset = off, bh_size = of_nat (length content)\<rparr>
      in sb\<lparr>sb_file := WritableFile_Append content (sb_file sb),
            data_block := BlockBuilder_Reset db,
            sb_index_entries := sb_index_entries sb @ [\<lparr>last_key = sb_last_key sb, handle = h\<rparr>]\<rparr>)"

definition SSTableBuilder_Add ::
  "bytes \<Rightarrow> bytes \<Rightarrow> ValueType \<Rightarrow> SSTableBuilder \<Rightarrow> SSTableBuilder" where
  "SSTableBuilder_Add key val type sb =
     (let sb1 = (if CurrentSizeEstimate (data_block sb) \<ge> 4096 then WriteDataBlock sb else sb)
      in sb1\<lparr>data_block := BlockBuilder_Add key val type (data_block sb1),
             sb_keys := sb_keys sb1 @ [key],
             sb_last_key := key\<rparr>)"

definition encode_handle :: "BlockHandle \<Rightarrow> bytes" where
  "encode_handle h = enc_u64 (bh_offset h) @ enc_u64 (bh_size h)"

definition index_block :: "IndexEntry list \<Rightarrow> BlockBuilder" where
  "index_block es =
     fold (\<lambda>e. BlockBuilder_Add (last_key e) (encode_handle (handle e)) kValue) es new_BlockBuilder"

definition WriteIndexBlock :: "SSTableBuilder \<Rightarrow> SSTableBuilder" where
  "WriteIndexBlock sb =
     sb\<lparr>sb_file := WritableFile_Append
                  (fst (BlockBuilder_Finish (index_block (sb_index_entries sb)))) (sb_file sb)\<rparr>"

definition WriteFilterBlock :: "SSTableBuilder \<Rightarrow> SSTableBuilder" where
  "WriteFilterBlock sb =
     (if sb_keys sb = [] then sb
      else
        let filter_data = CreateFilter 10 (sb_keys sb)
        in sb\<lparr>sb_filter_handle := \<lparr>bh_offset = WritableFile_Size (sb_file sb),
                                   bh_size = of_nat (length filter_data)\<rparr>,
              sb_file := WritableFile_Append filter_data (sb_file sb)\<rparr>)"

definition SSTableBuilder_Finish :: "SSTableBuilder \<Rightarrow> SSTableBuilder" where
  "SSTableBuilder_Finish sb =
     (let sb1 = (if \<not> BlockBuilder_Empty (data_block sb) then WriteDataBlock sb else sb);
          sb2 = WriteFilterBlock sb1;
          ioff = WritableFile_Size (sb_file sb2);
          sb3 = WriteIndexBlock sb2;
          isize = WritableFile_Size (sb_file sb3) - ioff;
          footer = \<lparr>index_handle = \<lparr>bh_offset = ioff, bh_size = isize\<rparr>,
                    filter_handle = sb_filter_handle sb3\<rparr>
      in sb3\<lparr>sb_file := WritableFile_Append (Footer_EncodeTo footer []) (sb_file sb3)\<rparr>)"

text \<open>The callers' loop: add every row of a table in order, then finish.\<close>

definition add_rows :: "row list \<Rightarrow> SSTableBuilder \<Rightarrow> SSTableBuilder" where
  "add_rows rs sb = fold (\<lambda>(k, r). SSTableBuilder_Add k (rvalue r) (vtype r)) rs sb"

definition build_table :: "row list \<Rightarrow> bytes" where
  "build_table rs =
     contents (sb_file (SSTableBuilder_Finish (add_rows rs (new_SSTableBuilder (new_WritableFile [])))))"

section \<open>What the finished file holds\<close>

text \<open>The partition of the rows into data blocks that the 4096-byte threshold yields.\<close>

fun split_blocks :: "row list \<Rightarrow> row list \<Rightarrow> row list list" where
  "split_blocks cur [] = (if cur = [] then [] else [cur])"
| "split_blocks cur (r # rs) =
     (if rows_size cur \<ge> 4096 then cur # split_blocks [r] rs else split_blocks (cur @ [r]) rs)"

fun index_of :: "nat \<Rightarrow> row list list \<Rightarrow> IndexEntry list" where
  "index_of off [] = []"
| "index_of off (b # bs) =
     \<lparr>last_key = fst (last b),
      handle = \<lparr>bh_offset = of_nat off, bh_size = of_nat (length (block_bytes b))\<rparr>\<rparr>
       # index_of (off + length (block_bytes b)) bs"

definition index_row :: "IndexEntry \<Rightarrow> row" where
  "index_row e = (last_key e, \<lparr>vtype = kValue, rvalue = encode_handle (handle e)\<rparr>)"

definition index_bytes :: "IndexEntry list \<Rightarrow> bytes" where
  "index_bytes es = block_bytes (map index_row es)"

definition filter_bytes :: "row list \<Rightarrow> bytes" where
  "filter_bytes rs = CreateFilter 10 (map fst rs)"

definition table_footer :: "row list \<Rightarrow> row list list \<Rightarrow> Footer" where
  "table_footer rs bs =
     (let d = length (block_bytes rs); f = length (filter_bytes rs)
      in \<lparr>index_handle = \<lparr>bh_offset = of_nat (d + f), bh_size = of_nat (length (index_bytes (index_of 0 bs)))\<rparr>,
          filter_handle = (if rs = [] then empty_handle
                           else \<lparr>bh_offset = of_nat d, bh_size = of_nat f\<rparr>)\<rparr>)"

lemma split_blocks_concat: "concat (split_blocks cur rs) = cur @ rs"
  by (induction cur rs rule: split_blocks.induct) auto

lemma split_blocks_nonempty: "b \<in> set (split_blocks cur rs) \<Longrightarrow> b \<noteq> []"
  by (induction cur rs rule: split_blocks.induct) (auto split: if_splits)

lemma split_blocks_eq_Nil [simp]: "split_blocks cur rs = [] \<longleftrightarrow> cur = [] \<and> rs = []"
  by (induction cur rs rule: split_blocks.induct) auto

lemma index_of_append:
  "index_of off (bs @ bs') = index_of off bs @ index_of (off + length (block_bytes (concat bs))) bs'"
  by (induction bs arbitrary: off) (simp_all add: add.assoc)

lemma length_index_of [simp]: "length (index_of off bs) = length bs"
  by (induction bs arbitrary: off) auto

subsection \<open>The builder invariant\<close>

text \<open>
  After some rows: the blocks \<open>ds\<close> are in the file and in the index, the rows \<open>cur\<close> wait in
  the block under construction.
\<close>

definition builder_inv :: "row list list \<Rightarrow> row list \<Rightarrow> SSTableBuilder \<Rightarrow> bool" where
  "builder_inv ds cur sb \<longleftrightarrow>
     contents (sb_file sb) = block_bytes (concat ds) \<and>
     wsize (sb_file sb) = of_nat (length (contents (sb_file sb))) \<and>
     buffer (data_block sb) = block_bytes cur \<and>
     (cur \<noteq> [] \<longrightarrow> sb_last_key sb = fst (last cur)) \<and>
     sb_index_entries sb = index_of 0 ds \<and>
     sb_keys sb = map fst (concat ds @ cur) \<and>
     sb_filter_handle sb = empty_handle"

lemma builder_inv_new: "builder_inv [] [] (new_SSTableBuilder (new_WritableFile []))"
  by (simp add: builder_inv_def new_SSTableBuilder_def new_WritableFile_def)

lemma builder_inv_WriteDataBlock:
  "builder_inv ds cur sb \<Longrightarrow> cur \<noteq> [] \<Longrightarrow> builder_inv (ds @ [cur]) [] (WriteDataBlock sb)"
  by (simp add: builder_inv_def WriteDataBlock_def Let_def BlockBuilder_Finish_def
      WritableFile_Append_def WritableFile_Size_def index_of_append BlockBuilder_Reset_def)

lemma builder_inv_Add:
  assumes "builder_inv ds cur sb"
  shows "if rows_size cur \<ge> 4096
         then builder_inv (ds @ [cur]) [(k, r)] (SSTableBuilder_Add k (rvalue r) (vtype r) sb)
         else builder_inv ds (cur @ [(k, r)]) (SSTableBuilder_Add k (rvalue r) (vtype r) sb)"
proof -
  have est: "CurrentSizeEstimate (data_block sb) = rows_size cur"
    using assms by (simp add: builder_inv_def CurrentSizeEstimate_def length_block_bytes)
  have "rows_size cur \<ge> 4096 \<Longrightarrow> builder_inv (ds @ [cur]) [] (WriteDataBlock sb)"
    by (rule builder_inv_WriteDataBlock [OF assms]) auto
  with assms show ?thesis
    by (simp add: builder_inv_def SSTableBuilder_Add_def est Let_def)
qed

lemma builder_inv_add_rows:
  assumes "builder_inv ds cur sb"
  shows "\<exists>ds' cur'. builder_inv ds' cur' (add_rows rs sb) \<and>
           (cur' = [] \<longrightarrow> cur = [] \<and> rs = []) \<and>
           ds' @ (if cur' = [] then [] else [cur']) = ds @ split_blocks cur rs"
  using assms
proof (induction rs arbitrary: ds cur sb)
  case Nil
  then show ?case by (auto simp: add_rows_def)
next
  case (Cons x rs)
  obtain k r where x: "x = (k, r)" by (cases x)
  show ?case
  proof (cases "rows_size cur \<ge> 4096")
    case True
    with builder_inv_Add [OF Cons.prems, of k r]
    have "builder_inv (ds @ [cur]) [(k, r)] (SSTableBuilder_Add k (rvalue r) (vtype r) sb)"
      by simp
    from Cons.IH [OF this] True show ?thesis by (auto simp: add_rows_def x)
  next
    case False
    with builder_inv_Add [OF Cons.prems, of k r]
    have "builder_inv ds (cur @ [(k, r)]) (SSTableBuilder_Add k (rvalue r) (vtype r) sb)"
      by simp
    from Cons.IH [OF this] False show ?thesis by (auto simp: add_rows_def x)
  qed
qed

lemma buffer_index_block: "buffer (index_block es) = index_bytes es"
proof -
  have "buffer (fold (\<lambda>e. BlockBuilder_Add (last_key e) (encode_handle (handle e)) kValue) es bb)
      = buffer bb @ index_bytes es" for bb
    by (induction es arbitrary: bb) (simp_all add: index_bytes_def index_row_def)
  then show ?thesis by (simp add: index_block_def)
qed

lemma Finish_layout:
  assumes "builder_inv bs [] sb" and "concat bs = rs"
  shows "contents (sb_file (SSTableBuilder_Finish sb)) =
           block_bytes rs @ filter_bytes rs @ index_bytes (index_of 0 bs)
             @ Footer_EncodeTo (table_footer rs bs) []"
  using assms
  by (auto simp: SSTableBuilder_Finish_def Let_def BlockBuilder_Empty_def builder_inv_def
      WriteFilterBlock_def WriteIndexBlock_def BlockBuilder_Finish_def buffer_index_block
      WritableFile_Append_def WritableFile_Size_def filter_bytes_def table_footer_def
      CreateFilter_def)

theorem build_table_layout:
  "build_table rs =
     (let bs = split_blocks [] rs
      in block_bytes rs @ filter_bytes rs @ index_bytes (index_of 0 bs)
           @ Footer_EncodeTo (table_footer rs bs) [])"
proof -
  let ?sb = "add_rows rs (new_SSTableBuilder (new_WritableFile []))"
  obtain ds cur where inv: "builder_inv ds cur ?sb" and
      bs: "ds @ (if cur = [] then [] else [cur]) = split_blocks [] rs"
    using builder_inv_add_rows [OF builder_inv_new, of rs] by auto
  define sb where "sb = (if cur = [] then ?sb else WriteDataBlock ?sb)"
  have inv': "builder_inv (split_blocks [] rs) [] sb"
    using inv bs builder_inv_WriteDataBlock [OF inv] by (auto simp: sb_def split: if_splits)
  have "SSTableBuilder_Finish ?sb = SSTableBuilder_Finish sb"
  proof (cases "cur = []")
    case False
    have "buffer (data_block sb) = []" using inv' by (simp add: builder_inv_def)
    then show ?thesis using inv False
      by (simp add: SSTableBuilder_Finish_def BlockBuilder_Empty_def builder_inv_def sb_def)
  qed (simp add: sb_def)
  then show ?thesis
    using Finish_layout [OF inv'] by (simp add: build_table_def Let_def split_blocks_concat)
qed

end
