(* ===== verification/SSTableReader.thy ===== *)
theory SSTableReader
  imports SSTableBuilder
begin

text \<open>
  \<open>SSTableReader\<close> (\<open>include/SSTableReader.h\<close>, \<open>src/SSTableReader.cpp\<close>): validation of a mapped
  file, point lookup through filter, index and block scan, and the full traversal. The mapped
  file is a byte list. An outer \<open>None\<close> is a read outside the file, which the C++ code does not
  guard against in the index parser and in the block scan; the inner results are those of the
  source (a null pointer, a boolean with the out parameter).
\<close>

section \<open>Operations\<close>

record SSTableReader =
  sr_data :: bytes
  sr_footer :: Footer
  sr_index_entries :: "IndexEntry list"
  sr_filter_data :: bytes

definition new_SSTableReader :: "bytes \<Rightarrow> SSTableReader" where
  "new_SSTableReader d =
     \<lparr>sr_data = d, sr_footer = \<lparr>index_handle = empty_handle, filter_handle = empty_handle\<rparr>,
      sr_index_entries = [], sr_filter_data = []\<rparr>"

definition ReadFooter :: "SSTableReader \<Rightarrow> (bool \<times> SSTableReader) option" where
  "ReadFooter r = do {
     footer_buf \<leftarrow> mem_slice (sr_data r) (length (sr_data r) - kEncodedLength) kEncodedLength;
     (let (ok, f) = Footer_DecodeFrom (sr_footer r) footer_buf
      in Some (ok, r\<lparr>sr_footer := f\<rparr>))
   }"

function read_index_loop ::
  "bytes \<Rightarrow> nat \<Rightarrow> nat \<Rightarrow> nat \<Rightarrow> IndexEntry list \<Rightarrow> IndexEntry list option" where
  "read_index_loop d base sz pos acc =
     (if pos < sz then do {
        kl \<leftarrow> mem_slice d (base + pos) 4;
        (let key_len = unat (dec_u32 kl); pos1 = pos + 4; pos2 = pos1 + key_len;
             pos3 = pos2 + 1; pos4 = pos3 + 4
         in do {
           key \<leftarrow> mem_slice d (base + pos1) key_len;
           _ \<leftarrow> mem_slice d (base + pos2) 1;
           _ \<leftarrow> mem_slice d (base + pos3) 4;
           off \<leftarrow> mem_slice d (base + pos4) 8;
           siz \<leftarrow> mem_slice d (base + (pos4 + 8)) 8;
           read_index_loop d base sz (pos4 + 8 + 8)
             (acc @ [\<lparr>last_key = key, handle = \<lparr>bh_offset = dec_u64 off, bh_size = dec_u64 siz\<rparr>\<rparr>])
         })
      } else Some acc)"
  by pat_completeness auto
termination
  by (relation "measure (\<lambda>(d, base, sz, pos, acc). sz - pos)") auto

declare read_index_loop.simps [simp del]

definition ReadIndexBlock :: "SSTableReader \<Rightarrow> (bool \<times> SSTableReader) option" where
  "ReadIndexBlock r =
     (let off = bh_offset (index_handle (sr_footer r));
          sz = bh_size (index_handle (sr_footer r))
      in if off + sz > of_nat (length (sr_data r)) - of_nat kEncodedLength then Some (False, r)
         else do {
           es \<leftarrow> read_index_loop (sr_data r) (unat off) (unat sz) 0 (sr_index_entries r);
           Some (es \<noteq> [], r\<lparr>sr_index_entries := es\<rparr>)
         })"

definition ReadFilterBlock :: "SSTableReader \<Rightarrow> (bool \<times> SSTableReader) option" where
  "ReadFilterBlock r =
     (let off = bh_offset (filter_handle (sr_footer r));
          sz = bh_size (filter_handle (sr_footer r))
      in if sz = 0 then Some (True, r)
         else if off + sz > of_nat (length (sr_data r)) then Some (False, r)
         else do {
           fd \<leftarrow> mem_slice (sr_data r) (unat off) (unat sz);
           Some (True, r\<lparr>sr_filter_data := fd\<rparr>)
         })"

text \<open>
  \<open>Open\<close> on a file that exists with the given bytes. A failed filter read only logs.
\<close>

definition SSTableReader_Open :: "bytes \<Rightarrow> SSTableReader option option" where
  "SSTableReader_Open content =
     (if length content < kEncodedLength then Some None
      else do {
        (ok, r1) \<leftarrow> ReadFooter (new_SSTableReader content);
        if \<not> ok then Some None
        else do {
          (ok2, r2) \<leftarrow> ReadIndexBlock r1;
          if \<not> ok2 then Some None
          else do {
            (_, r3) \<leftarrow> ReadFilterBlock r2;
            Some (Some r3)
          }
        }
      })"

text \<open>
  \<open>Open\<close> with its system calls: the descriptor that \<open>open\<close> returns, whether \<open>fstat\<close> works and the address
  that \<open>mmap\<close> returns (\<open>None\<close> for \<open>MAP_FAILED\<close>). The table's bytes are those of the mapping.
\<close>

record reader_os =
  os_fds :: "int set"
  os_maps :: "nat set"

record open_env =
  open_result :: int
  fstat_ok :: bool
  mmap_result :: "nat option"

record reader_res =
  rd_fd :: int
  rd_data :: "nat option"

definition new_reader_res :: reader_res where
  "new_reader_res = \<lparr>rd_fd = -1, rd_data = None\<rparr>"

definition delete_SSTableReader :: "reader_res \<Rightarrow> reader_os \<Rightarrow> reader_os" where
  "delete_SSTableReader res os =
     (let os1 = (case rd_data res of None \<Rightarrow> os | Some a \<Rightarrow> os\<lparr>os_maps := os_maps os - {a}\<rparr>)
      in if rd_fd res \<ge> 0 then os1\<lparr>os_fds := os_fds os1 - {rd_fd res}\<rparr> else os1)"

definition Open_mapped :: "open_env \<Rightarrow> bytes \<Rightarrow> reader_os \<Rightarrow> ((reader_res \<times> SSTableReader) option \<times> reader_os) option" where
  "Open_mapped env content os =
     (if open_result env < 0 then Some (None, os)
      else
        let fd = open_result env; os1 = os\<lparr>os_fds := insert fd (os_fds os)\<rparr>;
            closed = os1\<lparr>os_fds := os_fds os1 - {fd}\<rparr> in
        if \<not> fstat_ok env \<or> length content < kEncodedLength then Some (None, closed)
        else
          (case mmap_result env of
             None \<Rightarrow> Some (None, closed)
           | Some a \<Rightarrow>
               let os2 = os1\<lparr>os_maps := insert a (os_maps os1)\<rparr>;
                   res = new_reader_res\<lparr>rd_fd := fd, rd_data := Some a\<rparr> in do {
                 (ok, r1) \<leftarrow> ReadFooter (new_SSTableReader content);
                 if \<not> ok then Some (None, delete_SSTableReader res os2)
                 else do {
                   (ok2, r2) \<leftarrow> ReadIndexBlock r1;
                   if \<not> ok2 then Some (None, delete_SSTableReader res os2)
                   else do {
                     (_, r3) \<leftarrow> ReadFilterBlock r2;
                     Some (Some (res, r3), os2)
                   }
                 }
               }))"

function scan_block ::
  "bytes \<Rightarrow> nat \<Rightarrow> nat \<Rightarrow> nat \<Rightarrow> bytes \<Rightarrow> ValueRecord option option" where
  "scan_block d base sz pos key =
     (if pos < sz then do {
        kl \<leftarrow> mem_slice d (base + pos) 4;
        (let curr_key_len = unat (dec_u32 kl); pos1 = pos + 4; pos2 = pos1 + curr_key_len;
             pos3 = pos2 + 1; pos4 = pos3 + 4
         in do {
           curr_key \<leftarrow> mem_slice d (base + pos1) curr_key_len;
           tb \<leftarrow> mem_slice d (base + pos2) 1;
           vl \<leftarrow> mem_slice d (base + pos3) 4;
           (let type = u8_to_type (dec_u8 tb); val_len = unat (dec_u32 vl)
            in if curr_key = key then
                 (if type = kValue then do {
                    v \<leftarrow> mem_slice d (base + pos4) val_len;
                    Some (Some \<lparr>vtype = type, rvalue = v\<rparr>)
                  } else Some (Some \<lparr>vtype = type, rvalue = []\<rparr>))
               else scan_block d base sz (pos4 + val_len) key)
         })
      } else Some None)"
  by pat_completeness auto
termination
  by (relation "measure (\<lambda>(d, base, sz, pos, key). sz - pos)") auto

declare scan_block.simps [simp del]

definition GetRecord :: "SSTableReader \<Rightarrow> bytes \<Rightarrow> ValueRecord option option" where
  "GetRecord r key =
     (if sr_filter_data r \<noteq> [] \<and> \<not> KeyMayMatch key (sr_filter_data r) then Some None
      else
        let it = lower_bound (\<lambda>e. last_key e < key) (sr_index_entries r)
        in if it = length (sr_index_entries r) then Some None
           else
             let h = handle (sr_index_entries r ! it)
             in scan_block (sr_data r) (unat (bh_offset h)) (unat (bh_size h)) 0 key)"

definition SSTableReader_Get :: "SSTableReader \<Rightarrow> bytes \<Rightarrow> bytes option option" where
  "SSTableReader_Get r key = do {
     res \<leftarrow> GetRecord r key;
     Some (case res of None \<Rightarrow> None
           | Some rec \<Rightarrow> if vtype rec = kDeletion then None else Some (rvalue rec))
   }"

text \<open>
  \<open>ForEach\<close> bounds every field by the block size before it reads; a field that does not fit
  ends the block. The model returns the rows in callback order.
\<close>

function foreach_block :: "bytes \<Rightarrow> nat \<Rightarrow> nat \<Rightarrow> nat \<Rightarrow> row list option" where
  "foreach_block d base sz pos =
     (if \<not> pos < sz \<or> pos + 4 > sz then Some []
      else do {
        kl \<leftarrow> mem_slice d (base + pos) 4;
        (let key_len = unat (dec_u32 kl); pos1 = pos + 4; pos2 = pos1 + key_len;
             pos3 = pos2 + 1; pos4 = pos3 + 4
         in if pos2 > sz then Some []
            else do {
              key \<leftarrow> mem_slice d (base + pos1) key_len;
              if pos3 > sz then Some []
              else do {
                tb \<leftarrow> mem_slice d (base + pos2) 1;
                if pos4 > sz then Some []
                else do {
                  vl \<leftarrow> mem_slice d (base + pos3) 4;
                  (let val_len = unat (dec_u32 vl); pos5 = pos4 + val_len
                   in if pos5 > sz then Some []
                      else do {
                        v \<leftarrow> mem_slice d (base + pos4) val_len;
                        rest \<leftarrow> foreach_block d base sz pos5;
                        Some ((key, \<lparr>vtype = u8_to_type (dec_u8 tb), rvalue = v\<rparr>) # rest)
                      })
                }
              }
            })
      })"
  by pat_completeness auto
termination
  by (relation "measure (\<lambda>(d, base, sz, pos). sz - pos)") auto

declare foreach_block.simps [simp del]

fun foreach_entries :: "bytes \<Rightarrow> IndexEntry list \<Rightarrow> row list option" where
  "foreach_entries d [] = Some []"
| "foreach_entries d (e # es) = do {
     rows \<leftarrow> foreach_block d (unat (bh_offset (handle e))) (unat (bh_size (handle e))) 0;
     rest \<leftarrow> foreach_entries d es;
     Some (rows @ rest)
   }"

definition ForEach :: "SSTableReader \<Rightarrow> row list option" where
  "ForEach r = foreach_entries (sr_data r) (sr_index_entries r)"

section \<open>Descriptors and mappings\<close>

text \<open>With system calls that succeed \<open>Open_mapped\<close> is \<open>SSTableReader_Open\<close>.\<close>

lemma Open_mapped_reader:
  assumes "0 \<le> open_result env" "fstat_ok env" "mmap_result env = Some a"
  shows "map_option (map_option snd \<circ> fst) (Open_mapped env content os) = SSTableReader_Open content"
  using assms by (auto simp: Open_mapped_def SSTableReader_Open_def Let_def split: bind_splits prod.splits)

text \<open>
  A failed \<open>Open\<close> leaves the process's descriptors and mappings as they were, and so does a
  successful one followed by the destructor.
\<close>

lemma Open_mapped_no_leak:
  assumes "Open_mapped env content os = Some (res, os')" "open_result env \<notin> os_fds os" "\<forall>a. mmap_result env = Some a \<longrightarrow> a \<notin> os_maps os"
  shows "case res of None \<Rightarrow> os' = os | Some (h, r) \<Rightarrow> delete_SSTableReader h os' = os"
proof -
  let ?fd = "open_result env" and ?os1 = "os\<lparr>os_fds := insert (open_result env) (os_fds os)\<rparr>"
  have closed: "?os1\<lparr>os_fds := os_fds ?os1 - {?fd}\<rparr> = os" using assms(2) by simp
  consider (none) "res = None" "os' = os" | (mapped) a where "0 \<le> ?fd" "mmap_result env = Some a"
    "(res, os') \<in> {(None, delete_SSTableReader (new_reader_res\<lparr>rd_fd := ?fd, rd_data := Some a\<rparr>) (?os1\<lparr>os_maps := insert a (os_maps ?os1)\<rparr>))} \<union>
       range (\<lambda>r. (Some (new_reader_res\<lparr>rd_fd := ?fd, rd_data := Some a\<rparr>, r), ?os1\<lparr>os_maps := insert a (os_maps ?os1)\<rparr>))"
  proof (cases "?fd < 0 \<or> \<not> fstat_ok env \<or> length content < kEncodedLength \<or> mmap_result env = None")
    case True
    then show ?thesis using none assms(1) closed by (cases "?fd < 0") (auto simp: Open_mapped_def Let_def split: if_splits option.splits)
  next
    case False
    then obtain a where a: "0 \<le> ?fd" "mmap_result env = Some a" by auto
    then show ?thesis using assms(1) False
      by (intro mapped [of a]) (auto simp: Open_mapped_def Let_def elim!: bind_eq_SomeE split: if_splits prod.splits)
  qed
  then show ?thesis
  proof cases
    case (mapped a)
    have "delete_SSTableReader (new_reader_res\<lparr>rd_fd := ?fd, rd_data := Some a\<rparr>) (?os1\<lparr>os_maps := insert a (os_maps ?os1)\<rparr>) = os"
      using assms(2,3) mapped(1,2) by (simp add: delete_SSTableReader_def new_reader_res_def)
    then show ?thesis using mapped(3) by auto
  qed simp
qed

section \<open>Reading back one row\<close>

text \<open>
  The offsets are written as the readers compute them: \<open>base\<close> is the start of the block,
  \<open>pos\<close> the position of the row in it.
\<close>

lemma row_slices:
  assumes d: "d = p @ x @ row_bytes (k, r) @ c" and ok: "row_ok (k, r)"
    and base: "base = length p" and pos: "pos = length x"
  shows "mem_slice d (base + pos) 4 = Some (enc_u32 (of_nat (length k)))"
    and "unat (of_nat (length k) :: u32) = length k"
    and "mem_slice d (base + (pos + 4)) (length k) = Some k"
    and "mem_slice d (base + (pos + 4 + length k)) 1 = Some (enc_u8 (type_to_u8 (vtype r)))"
    and "mem_slice d (base + (pos + 4 + length k + 1)) 4 = Some (enc_u32 (of_nat (length (rvalue r))))"
    and "unat (of_nat (length (rvalue r)) :: u32) = length (rvalue r)"
    and "mem_slice d (base + (pos + 4 + length k + 1 + 4)) (length (rvalue r)) = Some (rvalue r)"
    and "pos + 4 + length k + 1 + 4 + length (rvalue r) = length (x @ row_bytes (k, r))"
    and "u8_to_type (type_to_u8 (vtype r)) = vtype r"
proof -
  show "unat (of_nat (length k) :: u32) = length k"
    and "unat (of_nat (length (rvalue r)) :: u32) = length (rvalue r)"
    and "u8_to_type (type_to_u8 (vtype r)) = vtype r"
    using ok by (simp_all add: row_ok_def unat_u32_length)
  show "pos + 4 + length k + 1 + 4 + length (rvalue r) = length (x @ row_bytes (k, r))"
    by (simp add: length_row_bytes row_size_def pos)
  let ?kl = "enc_u32 (of_nat (length k))" and ?t = "enc_u8 (type_to_u8 (vtype r))"
    and ?vl = "enc_u32 (of_nat (length (rvalue r)))"
  have d': "d = (p @ x) @ ?kl @ k @ ?t @ ?vl @ rvalue r @ c"
    by (simp add: d row_bytes_def)
  show "mem_slice d (base + pos) 4 = Some ?kl"
    unfolding d' base pos by (rule mem_slice_at [where a = "p @ x"]) auto
  show "mem_slice d (base + (pos + 4)) (length k) = Some k"
    unfolding d' base pos
    by (rule mem_slice_at [where a = "(p @ x) @ ?kl" and c = "?t @ ?vl @ rvalue r @ c"]) auto
  show "mem_slice d (base + (pos + 4 + length k)) 1 = Some ?t"
    unfolding d' base pos
    by (rule mem_slice_at [where a = "(p @ x) @ ?kl @ k" and c = "?vl @ rvalue r @ c"]) auto
  show "mem_slice d (base + (pos + 4 + length k + 1)) 4 = Some ?vl"
    unfolding d' base pos
    by (rule mem_slice_at [where a = "(p @ x) @ ?kl @ k @ ?t" and c = "rvalue r @ c"]) auto
  show "mem_slice d (base + (pos + 4 + length k + 1 + 4)) (length (rvalue r)) = Some (rvalue r)"
    unfolding d' base pos
    by (rule mem_slice_at [where a = "(p @ x) @ ?kl @ k @ ?t @ ?vl" and c = c]) auto
qed

lemmas read_row_simps = Let_def dec_enc_u32 dec_enc_u8 Option.bind.simps if_True if_False

section \<open>Reading back blocks\<close>

definition shown_record :: "ValueRecord \<Rightarrow> ValueRecord" where
  "shown_record r = \<lparr>vtype = vtype r, rvalue = (if vtype r = kValue then rvalue r else [])\<rparr>"

lemma scan_block_rows:
  assumes "d = p @ x @ block_bytes rs @ q" and "\<forall>r\<in>set rs. row_ok r"
    and "sz = length x + length (block_bytes rs)"
  shows "scan_block d (length p) sz (length x) key =
           Some (map_option shown_record (map_of rs key))"
  using assms
proof (induction rs arbitrary: x)
  case Nil
  then show ?case by (subst scan_block.simps) simp
next
  case (Cons kr rs)
  obtain k r where kr: "kr = (k, r)" by (cases kr)
  have ok: "row_ok (k, r)" using Cons.prems kr by simp
  have d: "d = p @ x @ row_bytes (k, r) @ block_bytes rs @ q" using Cons.prems kr by simp
  note sl = row_slices [OF d ok refl refl]
  have lt: "length x < sz"
    using Cons.prems(3) by (simp add: kr length_row_bytes)
  have rec: "scan_block d (length p) sz (length (x @ row_bytes (k, r))) key =
      Some (map_option shown_record (map_of rs key))"
    by (rule Cons.IH) (use Cons.prems kr in auto)
  have "scan_block d (length p) sz (length x) key =
      (if k = key then Some (Some (shown_record r))
       else scan_block d (length p) sz (length (x @ row_bytes (k, r))) key)"
    by (subst scan_block.simps)
       (auto simp only: lt read_row_simps sl shown_record_def split: if_splits)
  with rec show ?case by (auto simp: kr)
qed

lemma foreach_block_rows:
  assumes "d = p @ x @ block_bytes rs @ q" and "\<forall>r\<in>set rs. row_ok r"
    and "sz = length x + length (block_bytes rs)"
  shows "foreach_block d (length p) sz (length x) = Some rs"
  using assms
proof (induction rs arbitrary: x)
  case Nil
  then show ?case by (subst foreach_block.simps) simp
next
  case (Cons kr rs)
  obtain k r where kr: "kr = (k, r)" by (cases kr)
  have ok: "row_ok (k, r)" using Cons.prems kr by simp
  have d: "d = p @ x @ row_bytes (k, r) @ block_bytes rs @ q" using Cons.prems kr by simp
  note sl = row_slices [OF d ok refl refl]
  let ?n = "length x"
  have sz: "?n + 4 + length k + 1 + 4 + length (rvalue r) \<le> sz"
    using Cons.prems(3) by (simp add: kr length_row_bytes row_size_def)
  then have le: "\<not> (\<not> ?n < sz \<or> ?n + 4 > sz)" "\<not> ?n + 4 + length k > sz"
    "\<not> ?n + 4 + length k + 1 > sz" "\<not> ?n + 4 + length k + 1 + 4 > sz"
    "\<not> length (x @ row_bytes (k, r)) > sz"
    using sl(8) by linarith+
  have rec: "foreach_block d (length p) sz (length (x @ row_bytes (k, r))) = Some rs"
    by (rule Cons.IH) (use Cons.prems kr in auto)
  show ?case
    by (subst foreach_block.simps)
       (simp only: le read_row_simps sl rec kr ValueRecord_eta)
qed

lemma row_ok_index_row: "row_ok (index_row e) \<longleftrightarrow> length (last_key e) < 2 ^ 32"
  by (simp add: row_ok_def index_row_def encode_handle_def)

lemma read_index_loop_rows:
  assumes "d = p @ x @ index_bytes es @ q" and "\<forall>e\<in>set es. length (last_key e) < 2 ^ 32"
    and "sz = length x + length (index_bytes es)"
  shows "read_index_loop d (length p) sz (length x) acc = Some (acc @ es)"
  using assms
proof (induction es arbitrary: x acc)
  case Nil
  then show ?case by (subst read_index_loop.simps) (simp add: index_bytes_def)
next
  case (Cons e es)
  let ?v = "\<lparr>vtype = kValue, rvalue = encode_handle (handle e)\<rparr>"
  have e: "index_row e = (last_key e, ?v)" by (simp add: index_row_def)
  have ok: "row_ok (last_key e, ?v)" using Cons.prems row_ok_index_row [of e] e by simp
  have d: "d = p @ x @ row_bytes (last_key e, ?v) @ index_bytes es @ q"
    using Cons.prems by (simp add: index_bytes_def e)
  note sl = row_slices [OF d ok refl refl, simplified ValueRecord.simps]
  have lh: "length (encode_handle (handle e)) = 16" by (simp add: encode_handle_def)
  let ?o = "length p + (length x + 4 + length (last_key e) + 1 + 4)"
  have s1: "mem_slice d ?o 8 = Some (enc_u64 (bh_offset (handle e)))"
    using mem_slice_sub [OF sl(7), of 0 8] by (simp add: lh encode_handle_def)
  have s2: "mem_slice d (length p + (length x + 4 + length (last_key e) + 1 + 4 + 8)) 8 =
      Some (enc_u64 (bh_size (handle e)))"
    using mem_slice_sub [OF sl(7), of 8 8]
    by (simp only: lh add.assoc) (simp add: encode_handle_def)
  have lt: "length x < sz"
    using Cons.prems(3) by (simp add: index_bytes_def e length_row_bytes)
  have pos: "length x + 4 + length (last_key e) + 1 + 4 + 8 + 8 =
      length (x @ row_bytes (last_key e, ?v))"
    using sl(8) by (simp add: lh)
  have rec: "read_index_loop d (length p) sz (length (x @ row_bytes (last_key e, ?v))) (acc @ [e]) =
      Some ((acc @ [e]) @ es)"
    by (rule Cons.IH) (use Cons.prems d in \<open>auto simp: index_bytes_def e\<close>)
  have ee: "\<lparr>last_key = last_key e, handle = \<lparr>bh_offset = bh_offset (handle e),
      bh_size = bh_size (handle e)\<rparr>\<rparr> = e"
    by simp
  show ?case
    by (subst read_index_loop.simps)
       (simp only: lt read_row_simps dec_enc_u64 sl(1-5) s1 s2 pos ee rec append_assoc append_Cons
         append_Nil)
qed

section \<open>Opening a finished table\<close>

text \<open>
  A table whose rows fit their length fields and whose data stay below \<open>2^56\<close> bytes: then no
  64-bit offset computed by the builder or the reader wraps.
\<close>

definition table_ok :: "row list \<Rightarrow> bool" where
  "table_ok rs \<longleftrightarrow> rs \<noteq> [] \<and> (\<forall>r\<in>set rs. row_ok r) \<and> rows_size rs < 2 ^ 56"

definition opened :: "row list \<Rightarrow> SSTableReader" where
  "opened rs =
     \<lparr>sr_data = build_table rs, sr_footer = table_footer rs (split_blocks [] rs),
      sr_index_entries = index_of 0 (split_blocks [] rs), sr_filter_data = filter_bytes rs\<rparr>"

lemma last_key_index_of:
  "e \<in> set (index_of off bs) \<Longrightarrow> \<exists>b\<in>set bs. last_key e = fst (last b)"
  by (induction bs arbitrary: off) auto

lemma index_of_last_key_ok:
  assumes "\<forall>r\<in>set rs. row_ok r" "e \<in> set (index_of 0 (split_blocks [] rs))"
  shows "length (last_key e) < 2 ^ 32"
proof -
  obtain b where b: "b \<in> set (split_blocks [] rs)" "last_key e = fst (last b)"
    using last_key_index_of [OF assms(2)] by blast
  then have "last b \<in> set (concat (split_blocks [] rs))"
    using split_blocks_nonempty [OF b(1)] by (auto intro: bexI [of _ b])
  with assms(1) b(2) show ?thesis by (auto simp: split_blocks_concat row_ok_def)
qed

lemma length_index_bytes_bound:
  assumes "\<forall>b\<in>set bs. b \<noteq> []"
  shows "length (index_bytes (index_of off bs)) \<le> 3 * rows_size (concat bs)"
  using assms
proof (induction bs arbitrary: off)
  case (Cons b bs)
  have "row_size (last b) \<le> rows_size b"
    using Cons.prems by (cases b rule: rev_cases) auto
  then have "length (fst (last b)) + 9 \<le> rows_size b" by (simp add: row_size_def)
  moreover have "length (index_bytes (index_of (off + length (block_bytes b)) bs))
      \<le> 3 * rows_size (concat bs)"
    using Cons.IH Cons.prems by simp
  ultimately show ?case
    by (simp add: index_bytes_def index_row_def length_row_bytes row_size_def encode_handle_def)
qed (simp add: index_bytes_def)

lemma length_filter_bytes_bound:
  assumes "rs \<noteq> []" "rows_size rs < 2 ^ 56"
  shows "length (filter_bytes rs) \<le> 9 + 2 * rows_size rs" "2 \<le> length (filter_bytes rs)"
proof -
  have n: "9 * length rs \<le> rows_size rs" by (rule rows_size_count)
  then have "int (length rs) * 10 < 2 ^ 63" using assms(2) by simp
  note bb = unat_bloom_bytes [OF _ this]
  have n10: "nat (int (length rs) * 10) = 10 * length rs" by simp
  show "length (filter_bytes rs) \<le> 9 + 2 * rows_size rs" "2 \<le> length (filter_bytes rs)"
    using bb(1,3) n assms(1) n10 by (simp_all add: filter_bytes_def length_CreateFilter)
qed

lemma build_table_parts:
  "build_table rs = block_bytes rs @ filter_bytes rs
     @ index_bytes (index_of 0 (split_blocks [] rs))
     @ Footer_EncodeTo (table_footer rs (split_blocks [] rs)) []"
  by (simp add: build_table_layout Let_def)

lemma length_build_table: "length (build_table rs) =
    length (block_bytes rs) + length (filter_bytes rs)
      + length (index_bytes (index_of 0 (split_blocks [] rs))) + kEncodedLength"
  by (simp add: build_table_parts)

lemma length_build_table_bound:
  assumes "table_ok rs"
  shows "length (build_table rs) < 2 ^ 62"
proof -
  have "length (index_bytes (index_of 0 (split_blocks [] rs))) \<le> 3 * rows_size rs"
    using length_index_bytes_bound [of "split_blocks [] rs" 0] split_blocks_nonempty
    by (auto simp: split_blocks_concat)
  moreover have "length (filter_bytes rs) \<le> 9 + 2 * rows_size rs" "rows_size rs < 2 ^ 56"
    using assms length_filter_bytes_bound by (auto simp: table_ok_def)
  ultimately show ?thesis
    by (simp add: length_build_table length_block_bytes kEncodedLength_def)
qed

lemma ReadFooter_table:
  "ReadFooter (new_SSTableReader (build_table rs)) =
     Some (True, (new_SSTableReader (build_table rs))
       \<lparr>sr_footer := table_footer rs (split_blocks [] rs)\<rparr>)"
proof -
  let ?f = "Footer_EncodeTo (table_footer rs (split_blocks [] rs)) []"
  have "mem_slice (build_table rs) (length (build_table rs) - kEncodedLength) kEncodedLength = Some ?f"
    by (rule mem_slice_at [where c = "[]" and
          a = "block_bytes rs @ filter_bytes rs @ index_bytes (index_of 0 (split_blocks [] rs))"])
       (simp_all add: build_table_parts)
  then show ?thesis
    by (simp add: ReadFooter_def new_SSTableReader_def Footer_roundtrip_aux)
qed

lemma ReadIndexBlock_table:
  assumes ok: "table_ok rs" and r: "sr_data r = build_table rs" "sr_index_entries r = []"
    "sr_footer r = table_footer rs (split_blocks [] rs)"
  shows "ReadIndexBlock r =
           Some (True, r\<lparr>sr_index_entries := index_of 0 (split_blocks [] rs)\<rparr>)"
proof -
  let ?bs = "split_blocks [] rs"
  let ?d = "length (block_bytes rs)" and ?f = "length (filter_bytes rs)"
    and ?i = "length (index_bytes (index_of 0 ?bs))"
  note lb = length_build_table_bound [OF ok] and lt = length_build_table [of rs]
  have inv: "unat (of_nat n :: u64) = n" if "n \<le> length (build_table rs)" for n
    using that lb by (intro u64_of_nat_inverse) simp
  have u: "unat (of_nat (?d + ?f) :: u64) = ?d + ?f" "unat (of_nat ?i :: u64) = ?i"
    using lt by (intro inv, linarith)+
  have "of_nat (?d + ?f) + of_nat ?i = (of_nat (length (build_table rs)) - of_nat kEncodedLength :: u64)"
    by (simp add: lt)
  then have chk: "\<not> of_nat (?d + ?f) + of_nat ?i >
      (of_nat (length (build_table rs)) - of_nat kEncodedLength :: u64)"
    by simp
  have "read_index_loop (build_table rs) (length (block_bytes rs @ filter_bytes rs)) ?i (length ([] :: bytes)) [] =
      Some ([] @ index_of 0 ?bs)"
    by (rule read_index_loop_rows)
       (use ok index_of_last_key_ok in \<open>auto simp: build_table_parts table_ok_def\<close>)
  moreover have "index_of 0 ?bs \<noteq> []"
    using ok by (metis length_index_of length_0_conv split_blocks_eq_Nil table_ok_def)
  ultimately show ?thesis
    using chk u unfolding ReadIndexBlock_def r
    by (simp add: table_footer_def Let_def)
qed

lemma ReadFilterBlock_table:
  assumes ok: "table_ok rs" and r: "sr_data r = build_table rs"
    "sr_footer r = table_footer rs (split_blocks [] rs)"
  shows "ReadFilterBlock r = Some (True, r\<lparr>sr_filter_data := filter_bytes rs\<rparr>)"
proof -
  let ?d = "length (block_bytes rs)" and ?f = "length (filter_bytes rs)"
  note lb = length_build_table_bound [OF ok] and lt = length_build_table [of rs]
  have rs: "rs \<noteq> []" using ok by (simp add: table_ok_def)
  have f2: "2 \<le> ?f" using ok length_filter_bytes_bound by (auto simp: table_ok_def)
  have inv: "unat (of_nat n :: u64) = n" if "n \<le> length (build_table rs)" for n
    using that lb by (intro u64_of_nat_inverse) simp
  have u: "unat (of_nat ?d :: u64) = ?d" "unat (of_nat ?f :: u64) = ?f"
      "unat (of_nat (?d + ?f) :: u64) = ?d + ?f"
      "unat (of_nat (length (build_table rs)) :: u64) = length (build_table rs)"
    using lt by (intro inv, linarith)+
  have nz: "(of_nat ?f :: u64) \<noteq> 0" using u(2) f2 by (metis not_numeral_le_zero unat_0)
  have chk: "\<not> of_nat ?d + of_nat ?f > (of_nat (length (build_table rs)) :: u64)"
    using u(3,4) lt by (simp add: word_less_nat_alt)
  have "mem_slice (build_table rs) ?d ?f = Some (filter_bytes rs)"
    by (rule mem_slice_at) (auto simp: build_table_parts)
  then show ?thesis
    using chk nz u unfolding ReadFilterBlock_def r
    by (simp add: table_footer_def Let_def rs)
qed

lemma Open_build_table_aux:
  assumes "table_ok rs"
  shows "SSTableReader_Open (build_table rs) = Some (Some (opened rs))"
proof -
  let ?r1 = "(new_SSTableReader (build_table rs))\<lparr>sr_footer := table_footer rs (split_blocks [] rs)\<rparr>"
  let ?r2 = "?r1\<lparr>sr_index_entries := index_of 0 (split_blocks [] rs)\<rparr>"
  have "ReadIndexBlock ?r1 = Some (True, ?r2)"
    by (rule ReadIndexBlock_table [OF assms]) (simp_all add: new_SSTableReader_def)
  moreover have "ReadFilterBlock ?r2 = Some (True, ?r2\<lparr>sr_filter_data := filter_bytes rs\<rparr>)"
    by (rule ReadFilterBlock_table [OF assms]) (simp_all add: new_SSTableReader_def)
  moreover have "?r2\<lparr>sr_filter_data := filter_bytes rs\<rparr> = opened rs"
    by (simp add: opened_def new_SSTableReader_def)
  moreover have "\<not> length (build_table rs) < kEncodedLength"
    by (simp add: length_build_table)
  ultimately show ?thesis
    by (simp add: SSTableReader_Open_def ReadFooter_table)
qed

section \<open>Lookup and traversal of a finished table\<close>

lemma foreach_entries_blocks:
  assumes "d = p @ block_bytes (concat bs) @ q" "\<forall>r\<in>set (concat bs). row_ok r" "length d < 2 ^ 64"
  shows "foreach_entries d (index_of (length p) bs) = Some (concat bs)"
  using assms
proof (induction bs arbitrary: p)
  case (Cons b bs)
  have u: "unat (of_nat (length p) :: u64) = length p"
      "unat (of_nat (length (block_bytes b)) :: u64) = length (block_bytes b)"
    using Cons.prems by (intro u64_of_nat_inverse, simp)+
  have "foreach_block d (length p) (length (block_bytes b)) (length ([] :: bytes)) = Some b"
    by (rule foreach_block_rows) (use Cons.prems in auto)
  moreover have "foreach_entries d (index_of (length (p @ block_bytes b)) bs) = Some (concat bs)"
    by (rule Cons.IH) (use Cons.prems in auto)
  ultimately show ?case using u by simp
qed simp

lemma ForEach_opened:
  assumes "table_ok rs"
  shows "ForEach (opened rs) = Some rs"
proof -
  let ?bs = "split_blocks [] rs"
  have "foreach_entries (build_table rs) (index_of (length ([] :: bytes)) ?bs) = Some (concat ?bs)"
    by (rule foreach_entries_blocks [where q = "filter_bytes rs @ index_bytes (index_of 0 ?bs)
          @ Footer_EncodeTo (table_footer rs ?bs) []"])
       (use assms length_build_table_bound [OF assms] in
         \<open>auto simp: split_blocks_concat table_ok_def build_table_parts\<close>)
  then show ?thesis by (simp add: ForEach_def opened_def split_blocks_concat)
qed

lemma index_of_keys: "map last_key (index_of off bs) = map (\<lambda>b. fst (last b)) bs"
  by (induction bs arbitrary: off) auto

lemma index_of_split:
  "index_of off (bs1 @ b # bs2) ! length bs1 =
     \<lparr>last_key = fst (last b),
      handle = \<lparr>bh_offset = of_nat (off + length (block_bytes (concat bs1))),
                bh_size = of_nat (length (block_bytes b))\<rparr>\<rparr>"
  by (simp add: index_of_append nth_append)

lemma sorted_keys_block_bounds:
  assumes "sorted_keys b" "b \<noteq> []" "x \<in> fst ` set b"
  shows "x \<le> fst (last b)"
proof -
  have "b = butlast b @ [last b]" using assms(2) by simp
  then have "sorted_keys (butlast b @ [last b])" using assms(1) by simp
  with assms show ?thesis
    by (cases b rule: rev_cases) (auto simp: sorted_keys_append)
qed

lemma sorted_keys_last_keys:
  assumes "sorted_keys (concat bs)" "\<forall>b\<in>set bs. b \<noteq> []"
  shows "sorted_wrt (<) (map (\<lambda>b. fst (last b)) bs)"
  using assms
proof (induction bs)
  case (Cons b bs)
  have "fst (last b) < fst (last c)" if "c \<in> set bs" for c
    using Cons.prems that by (auto simp: sorted_keys_append)
  with Cons show ?case by (auto simp: sorted_keys_append)
qed simp

lemma key_beyond_blocks:
  assumes "sorted_keys (concat bs)" "\<forall>c\<in>set bs. c \<noteq> []" "\<forall>c\<in>set bs. fst (last c) < key"
  shows "key \<notin> fst ` set (concat bs)"
proof
  assume "key \<in> fst ` set (concat bs)"
  then obtain c where c: "c \<in> set bs" "key \<in> fst ` set c" by auto
  then have "sorted_keys c" using assms(1)
    by (metis concat.simps(2) concat_append in_set_conv_decomp sorted_keys_append)
  then have "key \<le> fst (last c)" using sorted_keys_block_bounds [of c key] c assms(2) by auto
  with assms(3) c show False by (meson leD)
qed

lemma map_of_concat_block:
  assumes srt: "sorted_keys (concat (bs1 @ b # bs2))" and ne: "\<forall>c\<in>set (bs1 @ b # bs2). c \<noteq> []"
    and lt: "\<forall>c\<in>set bs1. fst (last c) < key" and ge: "\<not> fst (last b) < key"
  shows "map_of (concat (bs1 @ b # bs2)) key = map_of b key"
proof -
  have "key \<notin> fst ` set (concat bs1)"
    using srt ne lt by (intro key_beyond_blocks) (auto simp: sorted_keys_append)
  moreover have "key \<notin> fst ` set (concat bs2)"
  proof
    assume "key \<in> fst ` set (concat bs2)"
    moreover have "fst (last b) \<in> fst ` set b" using ne by simp
    moreover have "\<forall>x\<in>fst ` set b. \<forall>y\<in>fst ` set (concat bs2). x < y"
      using srt by (simp add: sorted_keys_append)
    ultimately show False using ge by blast
  qed
  ultimately show ?thesis
    by (simp add: map_add_def map_of_eq_None_iff [THEN iffD2] split: option.splits)
qed

lemma scan_block_table:
  assumes ok: "table_ok rs" and bs: "split_blocks [] rs = bs1 @ b # bs2"
  shows "scan_block (build_table rs) (unat (of_nat (length (block_bytes (concat bs1))) :: u64))
           (unat (of_nat (length (block_bytes b)) :: u64)) 0 key =
         Some (map_option shown_record (map_of b key))"
proof -
  have rs: "rs = concat bs1 @ b @ concat bs2"
    using split_blocks_concat [of "[]" rs] by (simp add: bs)
  have u: "unat (of_nat (length (block_bytes (concat bs1))) :: u64) = length (block_bytes (concat bs1))"
      "unat (of_nat (length (block_bytes b)) :: u64) = length (block_bytes b)"
    using ok by (intro u64_of_nat_inverse, simp add: table_ok_def length_block_bytes rs)+
  have "scan_block (build_table rs) (length (block_bytes (concat bs1))) (length (block_bytes b))
      (length ([] :: bytes)) key = Some (map_option shown_record (map_of b key))"
    by (rule scan_block_rows [where q = "block_bytes (concat bs2) @ filter_bytes rs @
          index_bytes (index_of 0 (split_blocks [] rs)) @
          Footer_EncodeTo (table_footer rs (split_blocks [] rs)) []"])
       (use ok in \<open>auto simp: build_table_parts table_ok_def rs\<close>)
  then show ?thesis using u by simp
qed

lemma GetRecord_opened:
  assumes ok: "table_ok rs" and srt: "sorted_keys rs"
  shows "GetRecord (opened rs) key = Some (map_option shown_record (map_of rs key))"
proof (cases "KeyMayMatch key (filter_bytes rs)")
  case False
  have "9 * length rs \<le> rows_size rs" by (rule rows_size_count)
  then have "key \<notin> set (map fst rs)"
    using KeyMayMatch_CreateFilter_aux [of 10 "map fst rs" key] False ok
    by (auto simp: filter_bytes_def table_ok_def)
  then have "map_of rs key = None" by (simp add: map_of_eq_None_iff)
  moreover have "filter_bytes rs \<noteq> []"
    using ok length_filter_bytes_bound(2) [of rs] by (auto simp: table_ok_def)
  ultimately show ?thesis using False by (simp add: GetRecord_def opened_def)
next
  case True
  define bs where "bs = split_blocks [] rs"
  have cb: "concat bs = rs" by (simp add: bs_def split_blocks_concat)
  have ne: "\<forall>b\<in>set bs. b \<noteq> []" using split_blocks_nonempty bs_def by blast
  have lk: "sorted_wrt (<) (map last_key (index_of 0 bs))"
    unfolding index_of_keys using sorted_keys_last_keys srt ne cb by metis
  define n where "n = length (takeWhile (\<lambda>b. fst (last b) < key) bs)"
  have it: "lower_bound (\<lambda>e. last_key e < key) (index_of 0 bs) = n"
  proof -
    have "length (takeWhile (\<lambda>e. last_key e < key) (index_of 0 bs)) =
        length (takeWhile (\<lambda>k. k < key) (map last_key (index_of 0 bs)))"
      by (simp add: takeWhile_map comp_def)
    also have "\<dots> = n" unfolding index_of_keys n_def by (simp add: takeWhile_map comp_def)
    finally show ?thesis using lower_bound_sorted [OF lk, of key] by simp
  qed
  show ?thesis
  proof (cases "n = length bs")
    case all: True
    then have "\<forall>b\<in>set bs. fst (last b) < key"
      unfolding n_def by (metis takeWhile_eq_all_conv takeWhile_eq_take take_all order_refl)
    then have "map_of rs key = None"
      using key_beyond_blocks [of bs key] srt ne by (simp add: cb map_of_eq_None_iff)
    then show ?thesis using True it all by (simp add: GetRecord_def opened_def bs_def [symmetric])
  next
    case False
    then have n: "n < length bs"
      unfolding n_def by (simp add: length_takeWhile_le order.not_eq_order_implies_strict)
    define b where "b = bs ! n"
    have bs: "bs = take n bs @ b # drop (Suc n) bs" using n by (simp add: b_def id_take_nth_drop)
    have tn: "take n bs = takeWhile (\<lambda>b. fst (last b) < key) bs"
      unfolding n_def by (rule takeWhile_eq_take [symmetric])
    have "map_of (concat (take n bs @ b # drop (Suc n) bs)) key = map_of b key"
    proof (rule map_of_concat_block)
      show "sorted_keys (concat (take n bs @ b # drop (Suc n) bs))"
        using srt cb bs by metis
      show "\<forall>c\<in>set (take n bs @ b # drop (Suc n) bs). c \<noteq> []"
        using ne bs by metis
      show "\<forall>c\<in>set (take n bs). fst (last c) < key"
        unfolding tn by (auto dest: set_takeWhileD)
      show "\<not> fst (last b) < key"
        unfolding b_def n_def using n by (intro nth_length_takeWhile) (simp add: n_def)
    qed
    then have "map_of rs key = map_of b key" using bs cb by metis
    moreover have "handle (index_of 0 bs ! n) =
        \<lparr>bh_offset = of_nat (length (block_bytes (concat (take n bs)))),
         bh_size = of_nat (length (block_bytes b))\<rparr>"
      using index_of_split [of 0 "take n bs" b "drop (Suc n) bs"] n
      unfolding bs [symmetric] by simp
    ultimately show ?thesis
      using True it n scan_block_table [OF ok bs_def [symmetric, THEN trans, OF bs], of key]
      by (simp add: GetRecord_def opened_def bs_def [symmetric] Let_def)
  qed
qed

section \<open>The interface of a sorted table\<close>

text \<open>
  What the database relies on: a reader with sorted rows, a point lookup that agrees with them and
  a traversal that lists them. \<open>first_hit\<close> is the loop that asks tables from the newest to the
  oldest and stops at the first that has the key; \<open>each_table\<close> the loop that traverses them.
\<close>

fun first_hit :: "('r \<Rightarrow> bytes \<Rightarrow> ValueRecord option option) \<Rightarrow> 'r list \<Rightarrow> bytes \<Rightarrow> ValueRecord option option" where
  "first_hit get [] key = Some None"
| "first_hit get (r # rs) key = do {
     res \<leftarrow> get r key;
     case res of Some rec \<Rightarrow> Some (Some rec) | None \<Rightarrow> first_hit get rs key
   }"

fun each_table :: "('r \<Rightarrow> row list option) \<Rightarrow> 'r list \<Rightarrow> row list list option" where
  "each_table each [] = Some []"
| "each_table each (r # rs) = do { x \<leftarrow> each r; xs \<leftarrow> each_table each rs; Some (x # xs) }"

locale table_reader =
  fixes ok :: "'r \<Rightarrow> bool"
    and rows :: "'r \<Rightarrow> row list"
    and get :: "'r \<Rightarrow> bytes \<Rightarrow> ValueRecord option option"
    and each :: "'r \<Rightarrow> row list option"
  assumes rows_sorted: "ok r \<Longrightarrow> sorted_keys (rows r)"
    and get_law: "ok r \<Longrightarrow> get r key = Some (map_option shown_record (map_of (rows r) key))"
    and each_law: "ok r \<Longrightarrow> each r = Some (rows r)"
begin

lemma first_hit_newest:
  "\<forall>r\<in>set rs. ok r \<Longrightarrow>
   first_hit get rs key = Some (map_option shown_record (map_of (concat (map rows rs)) key))"
  by (induction rs) (auto simp: get_law map_add_def split: option.split)

lemma each_table_rows: "\<forall>r\<in>set rs. ok r \<Longrightarrow> each_table each rs = Some (map rows rs)"
  by (induction rs) (simp_all add: each_law)

end

definition reader_ok :: "SSTableReader \<Rightarrow> bool" where
  "reader_ok r \<longleftrightarrow> (\<exists>rs. r = opened rs \<and> table_ok rs \<and> sorted_keys rs)"

definition reader_rows :: "SSTableReader \<Rightarrow> row list" where
  "reader_rows r = (case ForEach r of None \<Rightarrow> [] | Some rs \<Rightarrow> rs)"

lemma reader_rows_opened: "table_ok rs \<Longrightarrow> reader_rows (opened rs) = rs"
  by (simp add: reader_rows_def ForEach_opened)

lemma reader_ok_opened: "table_ok rs \<Longrightarrow> sorted_keys rs \<Longrightarrow> reader_ok (opened rs)"
  by (auto simp: reader_ok_def)

interpretation sst: table_reader reader_ok reader_rows GetRecord ForEach
proof
  fix r key
  assume "reader_ok r"
  then obtain rs where rs: "r = opened rs" "table_ok rs" "sorted_keys rs" by (auto simp: reader_ok_def)
  then show "sorted_keys (reader_rows r)" "ForEach r = Some (reader_rows r)"
    "GetRecord r key = Some (map_option shown_record (map_of (reader_rows r) key))"
    by (simp_all add: reader_rows_opened ForEach_opened GetRecord_opened)
qed

lemma reader_ok_rows: "reader_ok r \<Longrightarrow> table_ok (reader_rows r) \<and> r = opened (reader_rows r)"
  by (auto simp: reader_ok_def reader_rows_opened)

section \<open>Properties\<close>

text \<open>
  C16: a table written by the builder from sorted rows opens, and a point lookup in it finds
  exactly the rows that were added: the record for a present key (a deletion marker comes back
  with an empty value), nothing for an absent one. No read leaves the file.
\<close>

theorem sst_get_roundtrip:
  assumes "table_ok rs" "sorted_keys rs"
  shows "\<exists>r. SSTableReader_Open (build_table rs) = Some (Some r) \<and>
           (\<forall>key. GetRecord r key = Some (map_option shown_record (map_of rs key)))"
  using Open_build_table_aux [OF assms(1)] GetRecord_opened [OF assms] by blast

theorem sst_get_roundtrip_witness:
  "\<exists>r. SSTableReader_Open (build_table [(''a'', \<lparr>vtype = kValue, rvalue = ''1''\<rparr>),
         (''b'', \<lparr>vtype = kDeletion, rvalue = ''x''\<rparr>)]) = Some (Some r) \<and>
     GetRecord r ''a'' = Some (Some \<lparr>vtype = kValue, rvalue = ''1''\<rparr>) \<and>
     GetRecord r ''b'' = Some (Some \<lparr>vtype = kDeletion, rvalue = []\<rparr>) \<and>
     GetRecord r ''c'' = Some None"
proof -
  let ?rs = "[(''a'', \<lparr>vtype = kValue, rvalue = ''1''\<rparr>), (''b'', \<lparr>vtype = kDeletion, rvalue = ''x''\<rparr>)]"
  have "table_ok ?rs" by (simp add: table_ok_def row_ok_def row_size_def)
  moreover have "sorted_keys ?rs" by (simp add: less_char_def)
  ultimately obtain r where "SSTableReader_Open (build_table ?rs) = Some (Some r)"
      "\<forall>key. GetRecord r key = Some (map_option shown_record (map_of ?rs key))"
    using sst_get_roundtrip by blast
  then show ?thesis by (auto simp: shown_record_def)
qed

text \<open>
  C23: traversing an opened table hands out exactly the rows that were added, with their types and
  values, in the order they were added.
\<close>

theorem sst_foreach_roundtrip:
  assumes "table_ok rs"
  shows "\<exists>r. SSTableReader_Open (build_table rs) = Some (Some r) \<and> ForEach r = Some rs"
  using Open_build_table_aux [OF assms] ForEach_opened [OF assms] by blast

theorem sst_foreach_roundtrip_witness:
  "\<exists>r. SSTableReader_Open (build_table [(''k'', \<lparr>vtype = kValue, rvalue = ''v''\<rparr>)]) = Some (Some r) \<and>
     ForEach r = Some [(''k'', \<lparr>vtype = kValue, rvalue = ''v''\<rparr>)]"
  by (rule sst_foreach_roundtrip) (simp add: table_ok_def row_ok_def row_size_def)

end
