(* ===== verification/SkipList.thy ===== *)
theory SkipList
  imports Prelude
begin

text \<open>
  The skip list (\<open>include/SkipList.h\<close>) on an explicit heap of nodes: every node has a vector of
  successor pointers, insertion and deletion relink the predecessors found on the way down.
  Reading through a dangling pointer or outside a node's pointer vector is the value \<open>None\<close>.
  The operations are proved to implement an ordered map without ever reaching such a read.
\<close>

section \<open>Nodes, heap, state\<close>

type_synonym addr = nat

record ('k, 'v) Node =
  nkey :: 'k
  nval :: 'v
  nnext :: "addr option list"

type_synonym ('k, 'v) heap = "addr \<Rightarrow> ('k, 'v) Node option"

record ('k, 'v) SkipList =
  sl_heap :: "('k, 'v) heap"
  sl_fresh :: addr
  max_level :: nat
  current_level :: nat
  sl_head :: addr
  node_count :: u32

definition nth_opt :: "'a list \<Rightarrow> nat \<Rightarrow> 'a option" where
  "nth_opt xs i = (if i < length xs then Some (xs ! i) else None)"

definition new_Node :: "'k \<Rightarrow> 'v \<Rightarrow> nat \<Rightarrow> ('k, 'v) Node" where
  "new_Node k v level = \<lparr>nkey = k, nval = v, nnext = replicate level None\<rparr>"

text \<open>\<open>k0\<close> and \<open>v0\<close> are the values \<open>K()\<close> and \<open>V()\<close> of the sentinel.\<close>

definition new_SkipList :: "'k \<Rightarrow> 'v \<Rightarrow> nat \<Rightarrow> ('k, 'v) SkipList" where
  "new_SkipList k0 v0 maxl =
     \<lparr>sl_heap = [0 \<mapsto> new_Node k0 v0 maxl], sl_fresh = 1, max_level = maxl, current_level = 0,
      sl_head = 0, node_count = 0\<rparr>"

text \<open>\<open>a->next[i].load()\<close> and \<open>a->next[i].store(p)\<close>.\<close>

definition load_next :: "('k, 'v) heap \<Rightarrow> addr \<Rightarrow> nat \<Rightarrow> addr option option" where
  "load_next h a i = do { n \<leftarrow> h a; nth_opt (nnext n) i }"

definition store_next :: "addr \<Rightarrow> nat \<Rightarrow> addr option \<Rightarrow> ('k, 'v) heap \<Rightarrow> ('k, 'v) heap option" where
  "store_next a i p h = do {
     n \<leftarrow> h a;
     if i < length (nnext n) then Some (h(a \<mapsto> n\<lparr>nnext := (nnext n)[i := p]\<rparr>)) else None
   }"

section \<open>Random levels\<close>

text \<open>
  The generator is an unknown sequence of coin tosses: \<open>coin l\<close> is the comparison
  \<open>dis(gen) < 0.5f\<close> made when the level is \<open>l\<close>.
\<close>

function random_level_loop :: "(nat \<Rightarrow> bool) \<Rightarrow> nat \<Rightarrow> nat \<Rightarrow> nat" where
  "random_level_loop coin maxl level =
     (if coin level \<and> level < maxl then random_level_loop coin maxl (level + 1) else level)"
  by pat_completeness auto
termination
  by (relation "measure (\<lambda>(c, m, l). m - l)") auto

declare random_level_loop.simps [simp del]

definition get_random_level :: "(nat \<Rightarrow> bool) \<Rightarrow> nat \<Rightarrow> nat" where
  "get_random_level coin maxl = random_level_loop coin maxl 1"

section \<open>Operations\<close>

text \<open>The inner loop of every search: go right on level \<open>i\<close> while the next key is smaller.\<close>

partial_function (option) walk :: "('k::linorder, 'v) heap \<Rightarrow> nat \<Rightarrow> 'k \<Rightarrow> addr \<Rightarrow> addr option" where
  "walk h i key cur = do {
     nx \<leftarrow> load_next h cur i;
     case nx of None \<Rightarrow> Some cur
     | Some a \<Rightarrow> do {
         n \<leftarrow> h a;
         if nkey n < key then walk h i key a else Some cur
       }
   }"

text \<open>The descent of \<open>insert_element\<close> and \<open>delete_element\<close>, recording the predecessors.\<close>

fun descend ::
  "('k::linorder, 'v) heap \<Rightarrow> 'k \<Rightarrow> nat \<Rightarrow> addr \<Rightarrow> addr list \<Rightarrow> (addr \<times> addr list) option" where
  "descend h key 0 cur update = Some (cur, update)"
| "descend h key (Suc i) cur update = do {
     c \<leftarrow> walk h i key cur;
     if i < length update then descend h key i c (update[i := c]) else None
   }"

fun seek :: "('k::linorder, 'v) heap \<Rightarrow> 'k \<Rightarrow> nat \<Rightarrow> addr \<Rightarrow> addr option" where
  "seek h key 0 cur = Some cur"
| "seek h key (Suc i) cur = do { c \<leftarrow> walk h i key cur; seek h key i c }"

fun splice :: "addr \<Rightarrow> addr list \<Rightarrow> nat list \<Rightarrow> ('k, 'v) heap \<Rightarrow> ('k, 'v) heap option" where
  "splice new update [] h = Some h"
| "splice new update (i # is) h = do {
     u \<leftarrow> nth_opt update i;
     nx \<leftarrow> load_next h u i;
     h1 \<leftarrow> store_next new i nx h;
     h2 \<leftarrow> store_next u i (Some new) h1;
     splice new update is h2
   }"

definition insert_element ::
  "(nat \<Rightarrow> bool) \<Rightarrow> 'k::linorder \<Rightarrow> 'v \<Rightarrow> ('k, 'v) SkipList \<Rightarrow> ('k, 'v) SkipList option" where
  "insert_element coin key val sl = do {
     (cur, update) \<leftarrow> descend (sl_heap sl) key (current_level sl) (sl_head sl)
                         (replicate (max_level sl) (sl_head sl));
     nx \<leftarrow> load_next (sl_heap sl) cur 0;
     found \<leftarrow> (case nx of None \<Rightarrow> Some None
               | Some a \<Rightarrow> do { n \<leftarrow> sl_heap sl a; Some (if nkey n = key then Some (a, n) else None) });
     case found of
       Some (a, n) \<Rightarrow> Some (sl\<lparr>sl_heap := (sl_heap sl)(a \<mapsto> n\<lparr>nval := val\<rparr>)\<rparr>)
     | None \<Rightarrow>
         (let level = get_random_level coin (max_level sl);
              update' = (if level > current_level sl
                         then fold (\<lambda>i u. u[i := sl_head sl]) [current_level sl..<level] update
                         else update);
              cl = (if level > current_level sl then level else current_level sl);
              new = sl_fresh sl
          in do {
            h \<leftarrow> splice new update' [0..<level] ((sl_heap sl)(new \<mapsto> new_Node key val level));
            Some (sl\<lparr>sl_heap := h, sl_fresh := new + 1, current_level := cl,
                     node_count := node_count sl + 1\<rparr>)
          })
   }"

definition search_element :: "'k::linorder \<Rightarrow> ('k, 'v) SkipList \<Rightarrow> 'v option option" where
  "search_element key sl = do {
     cur \<leftarrow> seek (sl_heap sl) key (current_level sl) (sl_head sl);
     nx \<leftarrow> load_next (sl_heap sl) cur 0;
     case nx of None \<Rightarrow> Some None
     | Some a \<Rightarrow> do { n \<leftarrow> sl_heap sl a; Some (if nkey n = key then Some (nval n) else None) }
   }"

fun unlink :: "addr \<Rightarrow> addr list \<Rightarrow> nat list \<Rightarrow> ('k, 'v) heap \<Rightarrow> ('k, 'v) heap option" where
  "unlink del update [] h = Some h"
| "unlink del update (i # is) h = do {
     u \<leftarrow> nth_opt update i;
     nx \<leftarrow> load_next h u i;
     if nx \<noteq> Some del then Some h
     else do {
       nx' \<leftarrow> load_next h del i;
       h' \<leftarrow> store_next u i nx' h;
       unlink del update is h'
     }
   }"

fun lower_level :: "('k, 'v) heap \<Rightarrow> addr \<Rightarrow> nat \<Rightarrow> nat option" where
  "lower_level h hd_addr 0 = Some 0"
| "lower_level h hd_addr (Suc n) = do {
     nx \<leftarrow> load_next h hd_addr n;
     if nx = None then lower_level h hd_addr n else Some (Suc n)
   }"

definition delete_element ::
  "'k::linorder \<Rightarrow> ('k, 'v) SkipList \<Rightarrow> (bool \<times> ('k, 'v) SkipList) option" where
  "delete_element key sl = do {
     (cur, update) \<leftarrow> descend (sl_heap sl) key (current_level sl) (sl_head sl)
                         (replicate (max_level sl) (sl_head sl));
     nx \<leftarrow> load_next (sl_heap sl) cur 0;
     found \<leftarrow> (case nx of None \<Rightarrow> Some None
               | Some a \<Rightarrow> do { n \<leftarrow> sl_heap sl a; Some (if nkey n = key then Some a else None) });
     case found of
       None \<Rightarrow> Some (False, sl)
     | Some del \<Rightarrow> do {
         h \<leftarrow> unlink del update [0..<current_level sl] (sl_heap sl);
         (let h' = h(del := None) in do {
            cl \<leftarrow> lower_level h' (sl_head sl) (current_level sl);
            Some (True, sl\<lparr>sl_heap := h', node_count := node_count sl - 1, current_level := cl\<rparr>)
          })
       }
   }"

definition sl_size :: "('k, 'v) SkipList \<Rightarrow> int" where
  "sl_size sl = sint (node_count sl)"

text \<open>The iterator: \<open>begin\<close>, \<open>Valid\<close>/\<open>key\<close>/\<open>value\<close>, \<open>Next\<close>, run to the end.\<close>

definition sl_begin :: "('k, 'v) SkipList \<Rightarrow> addr option option" where
  "sl_begin sl = load_next (sl_heap sl) (sl_head sl) 0"

partial_function (option) iterate :: "('k, 'v) heap \<Rightarrow> addr option \<Rightarrow> ('k \<times> 'v) list option" where
  "iterate h it =
     (case it of None \<Rightarrow> Some []
      | Some a \<Rightarrow> do {
          n \<leftarrow> h a;
          nx \<leftarrow> load_next h a 0;
          rest \<leftarrow> iterate h nx;
          Some ((nkey n, nval n) # rest)
        })"

definition sl_rows :: "('k, 'v) SkipList \<Rightarrow> ('k \<times> 'v) list option" where
  "sl_rows sl = do { it \<leftarrow> sl_begin sl; iterate (sl_heap sl) it }"

text \<open>
  The drawing of the list: one line per level, a key where the level has its node and dashes of the
  same width elsewhere. \<open>shw\<close> is the output operator of the key type.
\<close>

fun display_line :: "('k \<Rightarrow> string) \<Rightarrow> ('k, 'v) heap \<Rightarrow> nat \<Rightarrow> 'k list \<Rightarrow> addr option \<Rightarrow> string option" where
  "display_line shw h i [] cur = Some ''nullptr\<newline>''"
| "display_line shw h i (k # ks) cur = do {
     here \<leftarrow> (case cur of None \<Rightarrow> Some None | Some a \<Rightarrow> do { n \<leftarrow> h a; Some (if nkey n = k then Some a else None) });
     case here of
       Some a \<Rightarrow> do { nx \<leftarrow> load_next h a i; rest \<leftarrow> display_line shw h i ks nx; Some (shw k @ ''---'' @ rest) }
     | None \<Rightarrow> do { rest \<leftarrow> display_line shw h i ks cur; Some (replicate (length (shw k) + 3) CHR ''-'' @ rest) }
   }"

fun display_levels :: "('k \<Rightarrow> string) \<Rightarrow> (nat \<Rightarrow> string) \<Rightarrow> ('k, 'v) SkipList \<Rightarrow> 'k list \<Rightarrow> nat \<Rightarrow> string option" where
  "display_levels shw num sl keys 0 = Some []"
| "display_levels shw num sl keys (Suc i) = do {
     cur \<leftarrow> load_next (sl_heap sl) (sl_head sl) i;
     line \<leftarrow> display_line shw (sl_heap sl) i keys cur;
     rest \<leftarrow> display_levels shw num sl keys i;
     Some (''Level '' @ num i @ '': '' @ line @ rest)
   }"

definition display_list :: "('k \<Rightarrow> string) \<Rightarrow> (nat \<Rightarrow> string) \<Rightarrow> ('k, 'v) SkipList \<Rightarrow> string option" where
  "display_list shw num sl = do {
     base \<leftarrow> sl_rows sl;
     display_levels shw num sl (map fst base) (current_level sl)
   }"

text \<open>
  The destructor follows level 0; what remains is the heap it leaves. Reading or deleting a node that
  was deleted already is \<open>None\<close>.
\<close>

definition free_node :: "addr \<Rightarrow> ('k, 'v) heap \<Rightarrow> ('k, 'v) heap option" where
  "free_node a h = (case h a of None \<Rightarrow> None | Some n \<Rightarrow> Some (h(a := None)))"

partial_function (option) free_chain :: "addr option \<Rightarrow> ('k, 'v) heap \<Rightarrow> ('k, 'v) heap option" where
  "free_chain cur h =
     (case cur of None \<Rightarrow> Some h
      | Some a \<Rightarrow> do {
          next_node \<leftarrow> load_next h a 0;
          h' \<leftarrow> free_node a h;
          free_chain next_node h'
        })"

definition delete_SkipList :: "('k, 'v) SkipList \<Rightarrow> ('k, 'v) heap option" where
  "delete_SkipList sl = do {
     cur \<leftarrow> load_next (sl_heap sl) (sl_head sl) 0;
     h \<leftarrow> free_chain cur (sl_heap sl);
     free_node (sl_head sl) h
   }"

section \<open>Level bounds\<close>

lemma random_level_loop_bounds:
  "level \<le> random_level_loop coin maxl level"
  "level \<le> maxl \<Longrightarrow> random_level_loop coin maxl level \<le> maxl"
proof -
  show "level \<le> random_level_loop coin maxl level"
    by (induction coin maxl level rule: random_level_loop.induct)
       (subst random_level_loop.simps, auto)
  show "level \<le> maxl \<Longrightarrow> random_level_loop coin maxl level \<le> maxl"
    by (induction coin maxl level rule: random_level_loop.induct)
       (subst random_level_loop.simps, auto)
qed

lemma get_random_level_bounds:
  "1 \<le> get_random_level coin maxl" "1 \<le> maxl \<Longrightarrow> get_random_level coin maxl \<le> maxl"
  by (simp_all add: get_random_level_def random_level_loop_bounds)

section \<open>Chains\<close>

text \<open>\<open>chain h i p as\<close>: following \<open>next[i]\<close> from \<open>p\<close> visits exactly \<open>as\<close> and ends in a null pointer.\<close>

fun chain :: "('k, 'v) heap \<Rightarrow> nat \<Rightarrow> addr \<Rightarrow> addr list \<Rightarrow> bool" where
  "chain h i p [] \<longleftrightarrow> load_next h p i = Some None"
| "chain h i p (a # as) \<longleftrightarrow> load_next h p i = Some (Some a) \<and> chain h i a as"

definition key_at :: "('k, 'v) heap \<Rightarrow> addr \<Rightarrow> 'k" where
  "key_at h a = nkey (the (h a))"

definition val_at :: "('k, 'v) heap \<Rightarrow> addr \<Rightarrow> 'v" where
  "val_at h a = nval (the (h a))"

definition height :: "('k, 'v) heap \<Rightarrow> addr \<Rightarrow> nat" where
  "height h a = length (nnext (the (h a)))"

lemma load_next_SomeD: "load_next h a i = Some x \<Longrightarrow> h a \<noteq> None \<and> i < height h a"
  by (auto simp: load_next_def nth_opt_def height_def elim!: bind_eq_SomeE split: if_splits)

lemma chain_start: "chain h i p as \<Longrightarrow> \<exists>x. load_next h p i = Some x"
  by (cases as) auto

lemma chain_mem: "chain h i p as \<Longrightarrow> a \<in> set (p # as) \<Longrightarrow> h a \<noteq> None \<and> i < height h a"
proof (induction as arbitrary: p)
  case (Cons b as)
  then show ?case using load_next_SomeD [of h p i "Some b"] by auto
qed (auto dest: load_next_SomeD)

lemma chain_append: "chain h i p (as @ a # bs) \<Longrightarrow> chain h i a bs"
  by (induction as arbitrary: p) auto

lemma chain_next:
  "chain h i p (as @ bs) \<Longrightarrow>
   load_next h (last (p # as)) i = Some (case bs of [] \<Rightarrow> None | b # _ \<Rightarrow> Some b)"
  by (induction as arbitrary: p) (auto split: list.split)

lemma chain_cong:
  assumes "\<And>a. a \<in> set (p # as) \<Longrightarrow> load_next h' a i = load_next h a i"
  shows "chain h' i p as \<longleftrightarrow> chain h i p as"
  using assms by (induction as arbitrary: p) auto

lemma chain_insert:
  assumes "chain h i p (as @ bs)" "distinct (p # as @ bs)" "new \<notin> set (p # as @ bs)"
    and "load_next h' new i = load_next h (last (p # as)) i"
    and "load_next h' (last (p # as)) i = Some (Some new)"
    and "\<And>a. a \<in> set (p # as @ bs) \<Longrightarrow> a \<noteq> last (p # as) \<Longrightarrow> load_next h' a i = load_next h a i"
  shows "chain h' i p (as @ new # bs)"
  using assms
proof (induction as arbitrary: p)
  case Nil
  have "chain h' i new bs"
  proof (cases bs)
    case (Cons b bs')
    have "chain h' i b bs' \<longleftrightarrow> chain h i b bs'"
      using Nil.prems Cons by (intro chain_cong) auto
    with Nil.prems Cons show ?thesis by simp
  qed (use Nil.prems in simp)
  with Nil.prems show ?case by simp
next
  case (Cons a as)
  have "last (a # as) \<in> set (a # as)" by (rule last_in_set) simp
  then have "p \<noteq> last (a # as)" using Cons.prems(2) by auto
  then have "load_next h' p i = Some (Some a)" using Cons.prems(1,6) by auto
  moreover have "chain h' i a (as @ new # bs)"
    by (rule Cons.IH) (use Cons.prems in auto)
  ultimately show ?case by simp
qed

lemma chain_remove:
  assumes "chain h i p (as @ del # bs)" "distinct (p # as @ del # bs)"
    and "load_next h' (last (p # as)) i = load_next h del i"
    and "\<And>a. a \<in> set (p # as @ bs) \<Longrightarrow> a \<noteq> last (p # as) \<Longrightarrow> load_next h' a i = load_next h a i"
  shows "chain h' i p (as @ bs)"
  using assms
proof (induction as arbitrary: p)
  case Nil
  show ?case
  proof (cases bs)
    case (Cons b bs')
    have "chain h' i b bs' \<longleftrightarrow> chain h i b bs'"
      using Nil.prems Cons by (intro chain_cong) auto
    with Nil.prems Cons show ?thesis by simp
  qed (use Nil.prems in simp)
next
  case (Cons a as)
  have "last (a # as) \<in> set (a # as)" by (rule last_in_set) simp
  then have "p \<noteq> last (a # as)" using Cons.prems(2) by auto
  then have "load_next h' p i = Some (Some a)" using Cons.prems(1,4) by auto
  moreover have "chain h' i a (as @ bs)"
    by (rule Cons.IH) (use Cons.prems in auto)
  ultimately show ?case by simp
qed

lemma walk_chain:
  "chain h i p as \<Longrightarrow>
   walk h i key p = Some (last (p # takeWhile (\<lambda>a. key_at h a < key) as))"
proof (induction as arbitrary: p)
  case Nil
  then show ?case by (subst walk.simps) simp
next
  case (Cons a as)
  then obtain n where "h a = Some n" using chain_mem [of h i p "a # as" a] by auto
  with Cons show ?case by (subst walk.simps) (simp add: key_at_def)
qed

lemma iterate_chain:
  "chain h 0 p as \<Longrightarrow> load_next h p 0 = Some it \<Longrightarrow>
   iterate h it = Some (map (\<lambda>a. (key_at h a, val_at h a)) as)"
proof (induction as arbitrary: p it)
  case Nil
  then show ?case by (subst iterate.simps) simp
next
  case (Cons a as)
  then obtain n where n: "h a = Some n" using chain_mem [of h 0 p "a # as" a] by auto
  from Cons.prems have it: "it = Some a" and c: "chain h 0 a as" by auto
  obtain nx where nx: "load_next h a 0 = Some nx" using chain_start [OF c] by blast
  from Cons.IH [OF c nx] n nx show ?case
    by (subst iterate.simps) (simp add: it key_at_def val_at_def)
qed

section \<open>The invariant\<close>

text \<open>
  \<open>ns\<close> lists the nodes in key order. Level \<open>i\<close> links exactly the nodes whose pointer vector is
  longer than \<open>i\<close>, in that order. Nothing else is allocated.
\<close>

definition level_nodes :: "('k, 'v) heap \<Rightarrow> nat \<Rightarrow> addr list \<Rightarrow> addr list" where
  "level_nodes h i ns = filter (\<lambda>a. i < height h a) ns"

definition sl_inv :: "('k::linorder, 'v) SkipList \<Rightarrow> addr list \<Rightarrow> bool" where
  "sl_inv sl ns \<longleftrightarrow>
     1 \<le> max_level sl \<and> current_level sl \<le> max_level sl \<and>
     distinct (sl_head sl # ns) \<and>
     (\<forall>a. sl_heap sl a \<noteq> None \<longleftrightarrow> a \<in> set (sl_head sl # ns)) \<and>
     (\<forall>a. sl_heap sl a \<noteq> None \<longrightarrow> a < sl_fresh sl) \<and>
     height (sl_heap sl) (sl_head sl) = max_level sl \<and>
     (\<forall>a\<in>set ns. 1 \<le> height (sl_heap sl) a \<and> height (sl_heap sl) a \<le> current_level sl) \<and>
     sorted_wrt (<) (map (key_at (sl_heap sl)) ns) \<and>
     (\<forall>i < max_level sl. chain (sl_heap sl) i (sl_head sl) (level_nodes (sl_heap sl) i ns)) \<and>
     node_count sl = of_nat (length ns)"

definition sl_ok :: "('k::linorder, 'v) SkipList \<Rightarrow> bool" where
  "sl_ok sl \<longleftrightarrow> (\<exists>ns. sl_inv sl ns)"

definition rows_of :: "('k, 'v) heap \<Rightarrow> addr list \<Rightarrow> ('k \<times> 'v) list" where
  "rows_of h ns = map (\<lambda>a. (key_at h a, val_at h a)) ns"

text \<open>The contents: what the iterator yields.\<close>

definition sl_contents :: "('k, 'v) SkipList \<Rightarrow> ('k \<times> 'v) list" where
  "sl_contents sl = (case sl_rows sl of None \<Rightarrow> [] | Some rs \<Rightarrow> rs)"

lemma level_nodes_0: "\<forall>a\<in>set ns. 1 \<le> height h a \<Longrightarrow> level_nodes h 0 ns = ns"
  by (auto simp: level_nodes_def filter_id_conv)

lemma level_nodes_append: "level_nodes h i (as @ bs) = level_nodes h i as @ level_nodes h i bs"
  by (simp add: level_nodes_def)

lemma set_level_nodes [simp]: "set (level_nodes h i ns) = {a \<in> set ns. i < height h a}"
  by (simp add: level_nodes_def)

lemma sl_invD:
  assumes "sl_inv sl ns"
  shows "1 \<le> max_level sl" "current_level sl \<le> max_level sl" "distinct (sl_head sl # ns)"
    "\<And>a. a \<in> set (sl_head sl # ns) \<Longrightarrow> sl_heap sl a \<noteq> None"
    "\<And>a. sl_heap sl a \<noteq> None \<Longrightarrow> a < sl_fresh sl"
    "height (sl_heap sl) (sl_head sl) = max_level sl"
    "\<And>a. a \<in> set ns \<Longrightarrow> 1 \<le> height (sl_heap sl) a"
    "\<And>a. a \<in> set ns \<Longrightarrow> height (sl_heap sl) a \<le> current_level sl"
    "sorted_wrt (<) (map (key_at (sl_heap sl)) ns)"
    "\<And>i. i < max_level sl \<Longrightarrow>
       chain (sl_heap sl) i (sl_head sl) (level_nodes (sl_heap sl) i ns)"
    "node_count sl = of_nat (length ns)"
    "\<And>a. sl_heap sl a \<noteq> None \<Longrightarrow> a \<in> set (sl_head sl # ns)"
  using assms unfolding sl_inv_def by blast+

lemma sl_inv_chain0: "sl_inv sl ns \<Longrightarrow> chain (sl_heap sl) 0 (sl_head sl) ns"
  using sl_invD(10) [of sl ns 0] sl_invD(1,7) [of sl ns] level_nodes_0 [of ns "sl_heap sl"]
  by fastforce

lemma sl_inv_rows:
  assumes "sl_inv sl ns"
  shows "sl_rows sl = Some (rows_of (sl_heap sl) ns)" "sl_contents sl = rows_of (sl_heap sl) ns"
    "sorted_keys (sl_contents sl)"
proof -
  note c = sl_inv_chain0 [OF assms]
  then obtain it where "load_next (sl_heap sl) (sl_head sl) 0 = Some it"
    using chain_start by blast
  with iterate_chain [OF c this] show r: "sl_rows sl = Some (rows_of (sl_heap sl) ns)"
    by (simp add: sl_rows_def sl_begin_def rows_of_def)
  then show "sl_contents sl = rows_of (sl_heap sl) ns" by (simp add: sl_contents_def)
  then show "sorted_keys (sl_contents sl)"
    using sl_invD(9) [OF assms] by (simp add: sorted_keys_def rows_of_def comp_def)
qed

lemma sl_inv_new: "1 \<le> maxl \<Longrightarrow> sl_inv (new_SkipList k0 v0 maxl) []"
  by (simp add: sl_inv_def new_SkipList_def new_Node_def height_def level_nodes_def load_next_def
      nth_opt_def)

section \<open>The descent\<close>

text \<open>The predecessor of \<open>key\<close> on level \<open>i\<close>.\<close>

definition pred_at :: "('k::linorder, 'v) heap \<Rightarrow> addr \<Rightarrow> addr list \<Rightarrow> 'k \<Rightarrow> nat \<Rightarrow> addr" where
  "pred_at h hd_addr ns key i =
     last (hd_addr # filter (\<lambda>a. i < height h a \<and> key_at h a < key) ns)"

lemma takeWhile_sorted:
  "sorted_wrt (<) (map f xs) \<Longrightarrow> takeWhile (\<lambda>a. f a < (k::'k::linorder)) xs = filter (\<lambda>a. f a < k) xs"
proof (induction xs)
  case (Cons x xs)
  have "filter (\<lambda>a. f a < k) xs = []" if "\<not> f x < k"
    using Cons.prems that by (auto simp: filter_empty_conv)
  with Cons show ?case by auto
qed simp

lemma sorted_split:
  assumes "sorted_wrt (<) (map f xs)"
  shows "xs = filter (\<lambda>a. f a < (k::'k::linorder)) xs @ filter (\<lambda>a. \<not> f a < k) xs"
  using assms
proof (induction xs)
  case (Cons x xs)
  have "filter (\<lambda>a. f a < k) xs = []" "filter (\<lambda>a. \<not> f a < k) xs = xs" if "\<not> f x < k"
    using Cons.prems that by (auto simp: filter_empty_conv filter_id_conv)
  with Cons show ?case by auto
qed simp

definition walk_start :: "('k::linorder, 'v) heap \<Rightarrow> addr \<Rightarrow> addr list \<Rightarrow> 'k \<Rightarrow> nat \<Rightarrow> addr \<Rightarrow> bool" where
  "walk_start h hd_addr ns key i p \<longleftrightarrow>
     p = hd_addr \<or> (p \<in> set ns \<and> i < height h p \<and> key_at h p < key)"

lemma walk_start_pred: "walk_start h hd_addr ns key i (pred_at h hd_addr ns key i)"
proof -
  have "last (hd_addr # xs) = hd_addr \<or> last (hd_addr # xs) \<in> set xs" for xs by simp
  from this [of "filter (\<lambda>a. i < height h a \<and> key_at h a < key) ns"] show ?thesis
    unfolding walk_start_def pred_at_def by auto
qed

lemma walk_level:
  assumes inv: "sl_inv sl ns" and i: "i < max_level sl"
    and p: "walk_start (sl_heap sl) (sl_head sl) ns key i p"
  shows "walk (sl_heap sl) i key p = Some (pred_at (sl_heap sl) (sl_head sl) ns key i)"
proof -
  let ?h = "sl_heap sl" and ?hd = "sl_head sl"
  let ?P = "\<lambda>a. i < height ?h a \<and> key_at ?h a < key"
  note c = sl_invD(10) [OF inv i] and srt = sl_invD(9) [OF inv]
  have tw: "takeWhile (\<lambda>a. key_at ?h a < key) (level_nodes ?h i xs) = filter ?P xs"
    if "sorted_wrt (<) (map (key_at ?h) xs)" for xs
    using takeWhile_sorted [of "key_at ?h" "level_nodes ?h i xs" key] that
    by (simp add: level_nodes_def sorted_wrt_map sorted_wrt_filter conj_commute)
  show ?thesis
  proof (cases "p = ?hd")
    case True
    with walk_chain [OF c, of key] tw [OF srt] show ?thesis by (simp add: pred_at_def)
  next
    case False
    with p have pn: "p \<in> set ns" "?P p" by (auto simp: walk_start_def)
    then obtain as bs where ns: "ns = as @ p # bs" by (meson split_list)
    have "chain ?h i p (level_nodes ?h i bs)"
      using c pn by (auto simp: ns level_nodes_def intro: chain_append)
    from walk_chain [OF this, of key] tw [of bs] srt pn show ?thesis
      by (simp add: pred_at_def ns sorted_wrt_append)
  qed
qed

lemma descend_levels:
  assumes inv: "sl_inv sl ns"
  shows "j \<le> max_level sl \<Longrightarrow> length upd = max_level sl \<Longrightarrow>
    (j \<noteq> 0 \<Longrightarrow> walk_start (sl_heap sl) (sl_head sl) ns key (j - 1) p) \<Longrightarrow>
    \<exists>upd'. descend (sl_heap sl) key j p upd =
        Some (if j = 0 then p else pred_at (sl_heap sl) (sl_head sl) ns key 0, upd') \<and>
      length upd' = max_level sl \<and>
      (\<forall>i < max_level sl. upd' ! i =
         (if i < j then pred_at (sl_heap sl) (sl_head sl) ns key i else upd ! i))"
proof (induction j arbitrary: p upd)
  case (Suc j)
  let ?q = "pred_at (sl_heap sl) (sl_head sl) ns key j"
  have w: "walk (sl_heap sl) j key p = Some ?q"
    using Suc.prems by (intro walk_level [OF inv]) auto
  have ws: "j \<noteq> 0 \<Longrightarrow> walk_start (sl_heap sl) (sl_head sl) ns key (j - 1) ?q"
    using walk_start_pred [of "sl_heap sl" "sl_head sl" ns key j] by (auto simp: walk_start_def)
  obtain upd' where "descend (sl_heap sl) key j ?q (upd[j := ?q]) =
        Some (if j = 0 then ?q else pred_at (sl_heap sl) (sl_head sl) ns key 0, upd')"
      "length upd' = max_level sl"
      "\<forall>i < max_level sl. upd' ! i =
         (if i < j then pred_at (sl_heap sl) (sl_head sl) ns key i else upd[j := ?q] ! i)"
    using Suc.IH [of "upd[j := ?q]" ?q] Suc.prems ws by auto
  with w Suc.prems show ?case
    by (auto simp: less_Suc_eq nth_list_update)
qed simp

lemma seek_levels:
  assumes inv: "sl_inv sl ns"
  shows "j \<le> max_level sl \<Longrightarrow>
    (j \<noteq> 0 \<Longrightarrow> walk_start (sl_heap sl) (sl_head sl) ns key (j - 1) p) \<Longrightarrow>
    seek (sl_heap sl) key j p =
      Some (if j = 0 then p else pred_at (sl_heap sl) (sl_head sl) ns key 0)"
proof (induction j arbitrary: p)
  case (Suc j)
  let ?q = "pred_at (sl_heap sl) (sl_head sl) ns key j"
  have "walk (sl_heap sl) j key p = Some ?q"
    using Suc.prems by (intro walk_level [OF inv]) auto
  moreover have "j \<noteq> 0 \<Longrightarrow> walk_start (sl_heap sl) (sl_head sl) ns key (j - 1) ?q"
    using walk_start_pred [of "sl_heap sl" "sl_head sl" ns key j] by (auto simp: walk_start_def)
  ultimately show ?case using Suc.IH [of ?q] Suc.prems by auto
qed simp

lemma pred_at_high:
  assumes "sl_inv sl ns" "current_level sl \<le> i"
  shows "pred_at (sl_heap sl) (sl_head sl) ns key i = sl_head sl"
proof -
  have "filter (\<lambda>a. i < height (sl_heap sl) a \<and> key_at (sl_heap sl) a < key) ns = []"
    using sl_invD(8) [OF assms(1)] assms(2) by (fastforce simp: filter_empty_conv)
  then show ?thesis by (simp add: pred_at_def)
qed

lemma descend_head:
  assumes inv: "sl_inv sl ns"
  obtains upd where
    "descend (sl_heap sl) key (current_level sl) (sl_head sl) (replicate (max_level sl) (sl_head sl)) =
       Some (pred_at (sl_heap sl) (sl_head sl) ns key 0, upd)"
    "length upd = max_level sl"
    "\<And>i. i < max_level sl \<Longrightarrow> upd ! i = pred_at (sl_heap sl) (sl_head sl) ns key i"
proof -
  have "walk_start (sl_heap sl) (sl_head sl) ns key (current_level sl - 1) (sl_head sl)"
    by (simp add: walk_start_def)
  from descend_levels [OF inv, of "current_level sl" "replicate (max_level sl) (sl_head sl)"
      key "sl_head sl"] this sl_invD(2) [OF inv]
  obtain upd where *: "descend (sl_heap sl) key (current_level sl) (sl_head sl)
        (replicate (max_level sl) (sl_head sl)) =
        Some (if current_level sl = 0 then sl_head sl
              else pred_at (sl_heap sl) (sl_head sl) ns key 0, upd)"
      "length upd = max_level sl"
      "\<forall>i < max_level sl. upd ! i =
         (if i < current_level sl then pred_at (sl_heap sl) (sl_head sl) ns key i
          else replicate (max_level sl) (sl_head sl) ! i)"
    by auto
  show thesis
    by (rule that [of upd]) (use * pred_at_high [OF inv] in \<open>auto simp: not_less\<close>)
qed

lemma seek_head:
  assumes inv: "sl_inv sl ns"
  shows "seek (sl_heap sl) key (current_level sl) (sl_head sl) =
           Some (pred_at (sl_heap sl) (sl_head sl) ns key 0)"
  using seek_levels [OF inv, of "current_level sl" key "sl_head sl"] sl_invD(2) [OF inv]
    pred_at_high [OF inv, of 0 key] by (auto simp: walk_start_def)

lemma pred_at_chain:
  assumes inv: "sl_inv sl ns" and i: "i < max_level sl"
  shows "load_next (sl_heap sl) (pred_at (sl_heap sl) (sl_head sl) ns key i) i =
    Some (case level_nodes (sl_heap sl) i (filter (\<lambda>a. \<not> key_at (sl_heap sl) a < key) ns) of
            [] \<Rightarrow> None | b # _ \<Rightarrow> Some b)"
proof -
  let ?h = "sl_heap sl"
  let ?as = "filter (\<lambda>a. key_at ?h a < key) ns" and ?bs = "filter (\<lambda>a. \<not> key_at ?h a < key) ns"
  have "level_nodes ?h i ns = level_nodes ?h i ?as @ level_nodes ?h i ?bs"
    using sorted_split [OF sl_invD(9) [OF inv], of key] level_nodes_append by metis
  then have "chain ?h i (sl_head sl) (level_nodes ?h i ?as @ level_nodes ?h i ?bs)"
    using sl_invD(10) [OF inv i] by simp
  from chain_next [OF this] show ?thesis
    by (simp add: pred_at_def level_nodes_def conj_commute)
qed

lemma map_of_rows_of:
  assumes "sorted_wrt (<) (map (key_at h) ns)"
  shows "map_of (rows_of h ns) (key::'k::linorder) =
    (case filter (\<lambda>a. \<not> key_at h a < key) ns of [] \<Rightarrow> None
     | a # _ \<Rightarrow> if key_at h a = key then Some (val_at h a) else None)"
  using assms
proof (induction ns)
  case (Cons a ns)
  have "map_of (rows_of h ns) key = None" if lt: "key < key_at h a"
  proof -
    have "key_at h b \<noteq> key" if "b \<in> set ns" for b
    proof -
      have "key_at h a < key_at h b" using Cons.prems that by simp
      with lt show ?thesis by order
    qed
    then have "\<forall>b\<in>set ns. key_at h b \<noteq> key" by blast
    then show ?thesis by (auto simp: map_of_eq_None_iff rows_of_def)
  qed
  with Cons show ?case by (auto simp: rows_of_def)
qed (simp add: rows_of_def)

lemma search_element_inv:
  assumes inv: "sl_inv sl ns"
  shows "search_element key sl = Some (map_of (sl_contents sl) key)"
proof -
  let ?h = "sl_heap sl"
  let ?bs = "filter (\<lambda>a. \<not> key_at ?h a < key) ns"
  have bs0: "level_nodes ?h 0 ?bs = ?bs"
    using sl_invD(7) [OF inv] by (intro level_nodes_0) auto
  have nx: "load_next ?h (pred_at ?h (sl_head sl) ns key 0) 0 =
      Some (case ?bs of [] \<Rightarrow> None | b # _ \<Rightarrow> Some b)"
    using pred_at_chain [OF inv, of 0 key] sl_invD(1) [OF inv] by (simp add: bs0)
  have "search_element key sl = Some (case ?bs of [] \<Rightarrow> None
      | a # _ \<Rightarrow> if key_at ?h a = key then Some (val_at ?h a) else None)"
  proof (cases ?bs)
    case (Cons b bs)
    then have "b \<in> set ns" by (metis filter_is_subset in_mono list.set_intros(1))
    then obtain n where "?h b = Some n" using sl_invD(4) [OF inv, of b] by auto
    with Cons nx show ?thesis
      by (simp add: search_element_def seek_head [OF inv] key_at_def val_at_def)
  qed (use nx in \<open>simp add: search_element_def seek_head [OF inv]\<close>)
  then show ?thesis
    using map_of_rows_of [OF sl_invD(9) [OF inv], of key] sl_inv_rows(2) [OF inv] by simp
qed

section \<open>Relinking\<close>

text \<open>Two heaps that differ in successor pointers only.\<close>

definition same_nodes :: "('k, 'v) heap \<Rightarrow> ('k, 'v) heap \<Rightarrow> bool" where
  "same_nodes h h' \<longleftrightarrow>
     (\<forall>a. h' a = None \<longleftrightarrow> h a = None) \<and> key_at h' = key_at h \<and> val_at h' = val_at h \<and>
     height h' = height h"

lemma same_nodes_refl [simp]: "same_nodes h h"
  by (simp add: same_nodes_def)

lemma same_nodes_trans: "same_nodes h h' \<Longrightarrow> same_nodes h' h'' \<Longrightarrow> same_nodes h h''"
  by (simp add: same_nodes_def)

lemma store_next_ok:
  assumes "load_next h a i \<noteq> None"
  obtains h' where "store_next a i p h = Some h'" "same_nodes h h'"
    "\<And>b j. load_next h' b j = (if b = a \<and> j = i then Some p else load_next h b j)"
proof -
  obtain n where n: "h a = Some n" and i: "i < length (nnext n)"
    using assms by (cases "h a") (auto simp: load_next_def nth_opt_def split: if_splits)
  let ?h = "h(a \<mapsto> n\<lparr>nnext := (nnext n)[i := p]\<rparr>)"
  show thesis
  proof (rule that [of ?h])
    show "store_next a i p h = Some ?h" using n i by (simp add: store_next_def)
    show "same_nodes h ?h"
      using n by (auto simp: same_nodes_def key_at_def val_at_def height_def fun_eq_iff)
    show "load_next ?h b j = (if b = a \<and> j = i then Some p else load_next h b j)" for b j
      using n i by (auto simp: load_next_def nth_opt_def)
  qed
qed

lemma splice_ok:
  assumes "distinct is" "\<And>i. i \<in> set is \<Longrightarrow>
      i < length upd \<and> upd ! i \<noteq> new \<and> load_next g (upd ! i) i \<noteq> None \<and> load_next g new i \<noteq> None"
  shows "\<exists>h'. splice new upd is g = Some h' \<and> same_nodes g h' \<and>
    (\<forall>a i. load_next h' a i =
       (if i \<in> set is \<and> a = new then load_next g (upd ! i) i
        else if i \<in> set is \<and> a = upd ! i then Some (Some new) else load_next g a i))"
  using assms
proof (induction "is" arbitrary: g)
  case (Cons i "is")
  have i: "i < length upd" "upd ! i \<noteq> new" "load_next g new i \<noteq> None"
    using Cons.prems(2) [of i] by auto
  obtain nx where nx: "load_next g (upd ! i) i = Some nx" using Cons.prems(2) [of i] by auto
  obtain g1 where g1: "store_next new i nx g = Some g1" "same_nodes g g1"
      "\<And>b j. load_next g1 b j = (if b = new \<and> j = i then Some nx else load_next g b j)"
    using store_next_ok [OF i(3)] by blast
  then have "load_next g1 (upd ! i) i \<noteq> None" using nx by simp
  then obtain g2 where g2: "store_next (upd ! i) i (Some new) g1 = Some g2" "same_nodes g1 g2"
      "\<And>b j. load_next g2 b j = (if b = upd ! i \<and> j = i then Some (Some new) else load_next g1 b j)"
    using store_next_ok by blast
  obtain h' where h': "splice new upd is g2 = Some h'" "same_nodes g2 h'"
      "\<And>a j. load_next h' a j =
       (if j \<in> set is \<and> a = new then load_next g2 (upd ! j) j
        else if j \<in> set is \<and> a = upd ! j then Some (Some new) else load_next g2 a j)"
    using Cons.IH [of g2] Cons.prems g1(3) g2(3) by force
  have "splice new upd (i # is) g = Some h'"
    using nx i g1 g2 h' by (simp add: nth_opt_def)
  moreover have "same_nodes g h'"
    using g1(2) g2(2) h'(2) same_nodes_trans by blast
  moreover have "load_next h' a j =
       (if j \<in> set (i # is) \<and> a = new then load_next g (upd ! j) j
        else if j \<in> set (i # is) \<and> a = upd ! j then Some (Some new) else load_next g a j)" for a j
    using Cons.prems(1) Cons.prems(2) [of j] nx i by (auto simp: h'(3) g2(3) g1(3))
  ultimately show ?case by blast
qed simp

lemma fold_list_update_same:
  "(\<And>i. i \<in> set is \<Longrightarrow> i < length u \<Longrightarrow> u ! i = x) \<Longrightarrow> fold (\<lambda>i u. u[i := x]) is u = u"
proof (induction "is")
  case (Cons i "is")
  have "u[i := x] = u" using Cons.prems [of i] by (cases "i < length u") (auto simp: list_update_beyond)
  with Cons show ?case by simp
qed simp

section \<open>Insertion\<close>

lemma upsert_split:
  assumes "\<forall>a\<in>set as. key_at h a < key" "\<forall>a\<in>set bs. key < key_at h a"
  shows "upsert key v (rows_of h (as @ bs)) = rows_of h as @ (key, v) # rows_of h bs"
proof -
  have "upsert key v (rows_of h as @ rows_of h bs) = rows_of h as @ upsert key v (rows_of h bs)"
    using assms(1) by (intro upsert_append) (auto simp: rows_of_def)
  also have "upsert key v (rows_of h bs) = (key, v) # rows_of h bs"
    using assms(2) by (intro upsert_front) (auto simp: rows_of_def)
  finally show ?thesis by (simp add: rows_of_def)
qed

lemma insert_overwrite:
  assumes inv: "sl_inv sl ns" and ns: "ns = as @ a # bs"
    and as: "\<forall>x\<in>set as. key_at (sl_heap sl) x < key" and a: "sl_heap sl a = Some n" "nkey n = key"
    and sl': "sl' = sl\<lparr>sl_heap := (sl_heap sl)(a \<mapsto> n\<lparr>nval := v\<rparr>)\<rparr>"
  shows "sl_inv sl' ns" "sl_contents sl' = upsert key v (sl_contents sl)"
proof -
  let ?h = "sl_heap sl" and ?h' = "sl_heap sl'"
  have h': "?h' = ?h(a \<mapsto> n\<lparr>nval := v\<rparr>)" by (simp add: sl')
  have eqs: "load_next ?h' = load_next ?h" "key_at ?h' = key_at ?h" "height ?h' = height ?h"
    using a by (auto simp: h' fun_eq_iff load_next_def key_at_def height_def)
  have "chain ?h' i p xs \<longleftrightarrow> chain ?h i p xs" for i p xs by (rule chain_cong) (simp add: eqs)
  then show inv': "sl_inv sl' ns"
    using inv a unfolding sl_inv_def eqs by (auto simp: sl' level_nodes_def eqs [unfolded h'] h')
  have "val_at ?h' x = (if x = a then v else val_at ?h x)" for x by (simp add: h' val_at_def)
  moreover have "a \<notin> set as \<union> set bs" using sl_invD(3) [OF inv] by (auto simp: ns)
  ultimately have "rows_of ?h' ns = rows_of ?h as @ (key, v) # rows_of ?h bs"
    using a by (auto simp: rows_of_def ns eqs key_at_def)
  moreover have "upsert key v (rows_of ?h ns) = rows_of ?h as @ (key, v) # rows_of ?h bs"
  proof -
    have "upsert key v (rows_of ?h as @ rows_of ?h (a # bs)) =
        rows_of ?h as @ upsert key v (rows_of ?h (a # bs))"
      using as by (intro upsert_append) (auto simp: rows_of_def)
    then show ?thesis using a by (simp add: rows_of_def ns key_at_def)
  qed
  ultimately show "sl_contents sl' = upsert key v (sl_contents sl)"
    using sl_inv_rows(2) [OF inv'] sl_inv_rows(2) [OF inv] by simp
qed

lemma pred_at_last:
  "pred_at h hd_addr ns key i =
     last (hd_addr # level_nodes h i (filter (\<lambda>a. key_at h a < key) ns))"
  by (simp add: pred_at_def level_nodes_def conj_commute)

lemma pred_at_mem: "pred_at h hd_addr ns key i \<in> set (hd_addr # ns)"
  using walk_start_pred [of h hd_addr ns key i] by (auto simp: walk_start_def)

lemma load_next_new_node:
  "load_next (h(a \<mapsto> new_Node k v level)) b i =
     (if b = a then (if i < level then Some None else None) else load_next h b i)"
  by (simp add: load_next_def new_Node_def nth_opt_def)

lemma splice_new_node:
  assumes inv: "sl_inv sl ns" and level: "level \<le> max_level sl"
    and upd: "length upd = max_level sl"
      "\<And>i. i < max_level sl \<Longrightarrow> upd ! i = pred_at (sl_heap sl) (sl_head sl) ns key i"
  obtains h' where
    "splice (sl_fresh sl) upd [0..<level] ((sl_heap sl)(sl_fresh sl \<mapsto> new_Node key v level)) = Some h'"
    "same_nodes ((sl_heap sl)(sl_fresh sl \<mapsto> new_Node key v level)) h'"
    "\<And>i. i < level \<Longrightarrow> load_next h' (sl_fresh sl) i =
       load_next (sl_heap sl) (pred_at (sl_heap sl) (sl_head sl) ns key i) i"
    "\<And>i. i < level \<Longrightarrow> load_next h' (pred_at (sl_heap sl) (sl_head sl) ns key i) i = Some (Some (sl_fresh sl))"
    "\<And>a i. a \<noteq> sl_fresh sl \<Longrightarrow> i < level \<Longrightarrow> a \<noteq> pred_at (sl_heap sl) (sl_head sl) ns key i \<Longrightarrow>
       load_next h' a i = load_next (sl_heap sl) a i"
    "\<And>a i. a \<noteq> sl_fresh sl \<Longrightarrow> level \<le> i \<Longrightarrow> load_next h' a i = load_next (sl_heap sl) a i"
proof -
  let ?h = "sl_heap sl" and ?new = "sl_fresh sl" and ?p = "pred_at (sl_heap sl) (sl_head sl) ns key"
  let ?g = "?h(?new \<mapsto> new_Node key v level)"
  have pn: "?p i \<noteq> ?new" for i
    using pred_at_mem [of ?h "sl_head sl" ns key i] sl_invD(4,5) [OF inv] by (metis less_irrefl)
  have "\<exists>h'. splice ?new upd [0..<level] ?g = Some h' \<and> same_nodes ?g h' \<and>
    (\<forall>a i. load_next h' a i =
       (if i \<in> set [0..<level] \<and> a = ?new then load_next ?g (upd ! i) i
        else if i \<in> set [0..<level] \<and> a = upd ! i then Some (Some ?new) else load_next ?g a i))"
  proof (rule splice_ok)
    fix i assume "i \<in> set [0..<level]"
    then have i: "i < level" "i < max_level sl" using level by auto
    show "i < length upd \<and> upd ! i \<noteq> ?new \<and> load_next ?g (upd ! i) i \<noteq> None \<and>
        load_next ?g ?new i \<noteq> None"
      using i upd pn pred_at_chain [OF inv i(2), of key] by (simp add: load_next_new_node)
  qed simp
  then obtain h' where h': "splice ?new upd [0..<level] ?g = Some h'" "same_nodes ?g h'"
    "\<And>a i. load_next h' a i =
       (if i < level \<and> a = ?new then load_next ?g (upd ! i) i
        else if i < level \<and> a = upd ! i then Some (Some ?new) else load_next ?g a i)"
    by auto
  have u: "i < level \<Longrightarrow> upd ! i = ?p i" for i using upd level by simp
  show thesis
    by (rule that [OF h'(1,2)]) (simp_all add: h'(3) u pn load_next_new_node)
qed

lemma insert_chain:
  assumes c: "chain h i hd_addr (level_nodes h i (as @ bs))" and d: "distinct (hd_addr # as @ bs)"
    and new: "new \<notin> set (hd_addr # as @ bs)" and p: "p = last (hd_addr # level_nodes h i as)"
    and low: "i < level \<Longrightarrow> load_next h' new i = load_next h p i"
      "i < level \<Longrightarrow> load_next h' p i = Some (Some new)"
    and same: "\<And>a. a \<noteq> new \<Longrightarrow> i < level \<Longrightarrow> a \<noteq> p \<Longrightarrow> load_next h' a i = load_next h a i"
      "\<And>a. a \<noteq> new \<Longrightarrow> level \<le> i \<Longrightarrow> load_next h' a i = load_next h a i"
  shows "chain h' i hd_addr (level_nodes h i as @ (if i < level then [new] else []) @ level_nodes h i bs)"
proof (cases "i < level")
  case True
  have "chain h' i hd_addr (level_nodes h i as @ new # level_nodes h i bs)"
  proof (rule chain_insert [OF c [unfolded level_nodes_append], folded p])
    show "distinct (hd_addr # level_nodes h i as @ level_nodes h i bs)"
      using d by (auto simp: level_nodes_def)
    fix a assume "a \<in> set (hd_addr # level_nodes h i as @ level_nodes h i bs)" "a \<noteq> p"
    then show "load_next h' a i = load_next h a i" using new by (intro same(1) [OF _ True]) auto
  qed (use new low True in auto)
  with True show ?thesis by simp
next
  case False
  have "chain h' i hd_addr (level_nodes h i (as @ bs)) \<longleftrightarrow> chain h i hd_addr (level_nodes h i (as @ bs))"
    by (rule chain_cong, rule same(2)) (use new False in auto)
  with False c show ?thesis by (simp add: level_nodes_append)
qed

lemma insert_new:
  assumes inv: "sl_inv sl ns" and level: "1 \<le> level" "level \<le> max_level sl"
    and upd: "length upd = max_level sl"
      "\<And>i. i < max_level sl \<Longrightarrow> upd ! i = pred_at (sl_heap sl) (sl_head sl) ns key i"
    and absent: "\<forall>a\<in>set ns. key_at (sl_heap sl) a \<noteq> key"
  obtains h' ns' where
    "splice (sl_fresh sl) upd [0..<level] ((sl_heap sl)(sl_fresh sl \<mapsto> new_Node key v level)) = Some h'"
    "sl_inv (sl\<lparr>sl_heap := h', sl_fresh := sl_fresh sl + 1,
               current_level := max level (current_level sl), node_count := node_count sl + 1\<rparr>) ns'"
    "rows_of h' ns' = upsert key v (rows_of (sl_heap sl) ns)"
proof -
  let ?h = "sl_heap sl" and ?new = "sl_fresh sl" and ?hd = "sl_head sl"
  let ?p = "pred_at ?h ?hd ns key" and ?g = "?h(?new \<mapsto> new_Node key v level)"
  let ?as = "filter (\<lambda>a. key_at ?h a < key) ns" and ?bs = "filter (\<lambda>a. \<not> key_at ?h a < key) ns"
  let ?ns = "?as @ ?new # ?bs"
  note D = sl_invD [OF inv]
  have split: "ns = ?as @ ?bs" by (rule sorted_split [OF D(9)])
  have fresh: "?new \<notin> set (?hd # ns)" "?h ?new = None"
    using D(4,5) by (blast intro: less_irrefl)+
  have bs: "\<forall>a\<in>set ?bs. key < key_at ?h a" using absent by (auto simp: not_less order_less_le)
  obtain h' where h': "splice ?new upd [0..<level] ?g = Some h'" "same_nodes ?g h'"
    "\<And>i. i < level \<Longrightarrow> load_next h' ?new i = load_next ?h (?p i) i"
    "\<And>i. i < level \<Longrightarrow> load_next h' (?p i) i = Some (Some ?new)"
    "\<And>a i. a \<noteq> ?new \<Longrightarrow> i < level \<Longrightarrow> a \<noteq> ?p i \<Longrightarrow> load_next h' a i = load_next ?h a i"
    "\<And>a i. a \<noteq> ?new \<Longrightarrow> level \<le> i \<Longrightarrow> load_next h' a i = load_next ?h a i"
    using splice_new_node [OF inv level(2) upd] by blast
  have at: "key_at h' a = (if a = ?new then key else key_at ?h a)"
      "val_at h' a = (if a = ?new then v else val_at ?h a)"
      "height h' a = (if a = ?new then level else height ?h a)"
      "h' a = None \<longleftrightarrow> ?g a = None" for a
    using h'(2) by (auto simp: same_nodes_def key_at_def val_at_def height_def new_Node_def)
  have lv: "level_nodes h' i xs = level_nodes ?h i xs" if "?new \<notin> set xs" for i xs
    using that by (auto simp: level_nodes_def at intro!: filter_cong)
  have chains: "chain h' i ?hd (level_nodes h' i ?ns)" if i: "i < max_level sl" for i
  proof -
    have "level_nodes h' i ?ns =
        level_nodes ?h i ?as @ (if i < level then [?new] else []) @ level_nodes ?h i ?bs"
    proof -
      have "level_nodes h' i ?as = level_nodes ?h i ?as" "level_nodes h' i ?bs = level_nodes ?h i ?bs"
        using fresh by (auto intro!: lv)
      moreover have "level_nodes h' i ?ns =
          level_nodes h' i ?as @ (if i < level then [?new] else []) @ level_nodes h' i ?bs"
        by (simp add: level_nodes_def at)
      ultimately show ?thesis by simp
    qed
    moreover have "chain h' i ?hd
        (level_nodes ?h i ?as @ (if i < level then [?new] else []) @ level_nodes ?h i ?bs)"
    proof (rule insert_chain [OF _ _ _ pred_at_last h'(3-6)])
      show "chain ?h i ?hd (level_nodes ?h i (?as @ ?bs))" using D(10) [OF i] split by metis
      show "distinct (?hd # ?as @ ?bs)" using D(3) split by metis
      show "?new \<notin> set (?hd # ?as @ ?bs)" using fresh by auto
    qed
    ultimately show ?thesis by simp
  qed
  have keys: "map (key_at h') ?ns = map (key_at ?h) ?as @ key # map (key_at ?h) ?bs"
    using fresh by (auto simp: at)
  have srt: "sorted_wrt (<) (map (key_at h') ?ns)"
    using D(9) bs unfolding keys
    by (auto simp: sorted_wrt_append sorted_wrt_map sorted_wrt_filter intro: less_trans)
  have len: "length ns = length ?as + length ?bs" using split by (metis length_append)
  have "sl_inv (sl\<lparr>sl_heap := h', sl_fresh := ?new + 1,
      current_level := max level (current_level sl), node_count := node_count sl + 1\<rparr>) ?ns"
    unfolding sl_inv_def
  proof (intro conjI)
    show "distinct (sl_head (sl\<lparr>sl_heap := h', sl_fresh := ?new + 1,
        current_level := max level (current_level sl), node_count := node_count sl + 1\<rparr>) # ?ns)"
      using D(3) fresh by auto
    show "\<forall>a. sl_heap (sl\<lparr>sl_heap := h', sl_fresh := ?new + 1, current_level := max level (current_level sl),
        node_count := node_count sl + 1\<rparr>) a \<noteq> None \<longleftrightarrow>
      a \<in> set (sl_head (sl\<lparr>sl_heap := h', sl_fresh := ?new + 1, current_level := max level (current_level sl),
        node_count := node_count sl + 1\<rparr>) # ?ns)"
    proof
      fix a show "sl_heap (sl\<lparr>sl_heap := h', sl_fresh := ?new + 1, current_level := max level (current_level sl),
          node_count := node_count sl + 1\<rparr>) a \<noteq> None \<longleftrightarrow>
        a \<in> set (sl_head (sl\<lparr>sl_heap := h', sl_fresh := ?new + 1, current_level := max level (current_level sl),
          node_count := node_count sl + 1\<rparr>) # ?ns)"
        using at(4) [of a] D(4) [of a] D(12) [of a] by (cases "a = ?new") auto
    qed
  qed (use D level fresh srt chains len in \<open>auto simp: at intro: less_SucI le_max_iff_disj [THEN iffD2]\<close>)
  moreover have "rows_of h' ?ns = upsert key v (rows_of ?h ns)"
  proof -
    have "upsert key v (rows_of ?h (?as @ ?bs)) = rows_of ?h ?as @ (key, v) # rows_of ?h ?bs"
      using bs by (intro upsert_split) auto
    then show ?thesis using split fresh by (auto simp: rows_of_def at)
  qed
  ultimately show thesis using that h'(1) by blast
qed

lemma next_of_pred0:
  assumes inv: "sl_inv sl ns"
  shows "load_next (sl_heap sl) (pred_at (sl_heap sl) (sl_head sl) ns key 0) 0 =
    Some (case filter (\<lambda>a. \<not> key_at (sl_heap sl) a < key) ns of [] \<Rightarrow> None | b # _ \<Rightarrow> Some b)"
proof -
  have "level_nodes (sl_heap sl) 0 (filter (\<lambda>a. \<not> key_at (sl_heap sl) a < key) ns) =
      filter (\<lambda>a. \<not> key_at (sl_heap sl) a < key) ns"
    using sl_invD(7) [OF inv] by (intro level_nodes_0) auto
  with pred_at_chain [OF inv, of 0 key] sl_invD(1) [OF inv] show ?thesis by simp
qed

lemma absent_iff_first:
  assumes "sorted_wrt (<) (map f ns)"
  shows "(\<forall>a\<in>set ns. f a \<noteq> (key::'k::linorder)) \<longleftrightarrow>
    (case filter (\<lambda>a. \<not> f a < key) ns of [] \<Rightarrow> True | b # _ \<Rightarrow> f b \<noteq> key)"
proof (cases "filter (\<lambda>a. \<not> f a < key) ns")
  case Nil
  then show ?thesis by (auto simp: filter_empty_conv)
next
  case (Cons b bs)
  have ns: "ns = filter (\<lambda>a. f a < key) ns @ b # bs" using sorted_split [OF assms, of key] Cons by simp
  have "sorted_wrt (<) (map f (b # bs))" using assms by (subst (asm) ns) (simp add: sorted_wrt_append)
  moreover have "\<not> f b < key" using Cons by (metis filter_eq_ConsD)
  ultimately have "\<forall>a\<in>set bs. f a \<noteq> key" by fastforce
  then show ?thesis by (subst ns) (auto simp: Cons)
qed

lemma insert_element_ok:
  assumes inv: "sl_inv sl ns"
  shows "\<exists>sl' ns'. insert_element coin key v sl = Some sl' \<and> sl_inv sl' ns' \<and>
           sl_contents sl' = upsert key v (sl_contents sl) \<and> max_level sl' = max_level sl"
proof -
  let ?h = "sl_heap sl" and ?bs = "filter (\<lambda>a. \<not> key_at (sl_heap sl) a < key) ns"
  note D = sl_invD [OF inv]
  obtain upd where upd:
    "descend ?h key (current_level sl) (sl_head sl) (replicate (max_level sl) (sl_head sl)) =
       Some (pred_at ?h (sl_head sl) ns key 0, upd)"
    "length upd = max_level sl"
    "\<And>i. i < max_level sl \<Longrightarrow> upd ! i = pred_at ?h (sl_head sl) ns key i"
    using descend_head [OF inv, of key] by blast
  note nx = next_of_pred0 [OF inv, of key]
  show ?thesis
  proof (cases "\<forall>a\<in>set ns. key_at ?h a \<noteq> key")
    case True
    define level where "level = get_random_level coin (max_level sl)"
    have level: "1 \<le> level" "level \<le> max_level sl"
      using get_random_level_bounds D(1) by (auto simp: level_def)
    obtain h' ns' where h':
      "splice (sl_fresh sl) upd [0..<level] (?h(sl_fresh sl \<mapsto> new_Node key v level)) = Some h'"
      "sl_inv (sl\<lparr>sl_heap := h', sl_fresh := sl_fresh sl + 1,
               current_level := max level (current_level sl), node_count := node_count sl + 1\<rparr>) ns'"
      "rows_of h' ns' = upsert key v (rows_of ?h ns)"
      by (rule insert_new [OF inv level upd(2,3) True])
    have u: "fold (\<lambda>i u. u[i := sl_head sl]) [current_level sl..<level] upd = upd"
      using upd(2,3) level pred_at_high [OF inv, of _ key] by (intro fold_list_update_same) auto
    have first: "(case ?bs of [] \<Rightarrow> True | b # _ \<Rightarrow> key_at ?h b \<noteq> key)"
      using True absent_iff_first [OF D(9), of key] by simp
    have "insert_element coin key v sl = Some (sl\<lparr>sl_heap := h', sl_fresh := sl_fresh sl + 1,
               current_level := max level (current_level sl), node_count := node_count sl + 1\<rparr>)"
    proof (cases ?bs)
      case (Cons b bs)
      then have "b \<in> set ns" by (metis filter_is_subset in_mono list.set_intros(1))
      then obtain n where "?h b = Some n" using D(4) [of b] by auto
      with Cons first nx upd(1) u h'(1) show ?thesis
        by (simp add: insert_element_def key_at_def Let_def max_def level_def [symmetric])
    qed (use nx upd(1) u h'(1) in
          \<open>simp add: insert_element_def Let_def max_def level_def [symmetric]\<close>)
    with h' sl_inv_rows(2) [OF h'(2)] sl_inv_rows(2) [OF inv] show ?thesis by auto
  next
    case False
    then obtain b bs where bs: "?bs = b # bs" "key_at ?h b = key"
      using absent_iff_first [OF D(9), of key] by (auto split: list.splits)
    have ns: "ns = filter (\<lambda>a. key_at ?h a < key) ns @ b # bs"
      using sorted_split [OF D(9), of key] bs(1) by simp
    have "b \<in> set ns" using bs(1) by (metis filter_is_subset in_mono list.set_intros(1))
    then obtain n where n: "?h b = Some n" using D(4) [of b] by auto
    let ?sl = "sl\<lparr>sl_heap := ?h(b \<mapsto> n\<lparr>nval := v\<rparr>)\<rparr>"
    have "nkey n = key" using bs(2) n by (simp add: key_at_def)
    from insert_overwrite [OF inv ns _ n this refl, of v]
    have "sl_inv ?sl ns" "sl_contents ?sl = upsert key v (sl_contents sl)" by auto
    moreover have "insert_element coin key v sl = Some ?sl"
      using nx upd(1) bs n \<open>nkey n = key\<close> by (simp add: insert_element_def)
    ultimately show ?thesis by auto
  qed
qed

section \<open>Deletion\<close>

lemma unlink_ok:
  assumes "distinct is" "\<And>i. i \<in> set is \<Longrightarrow>
      i < length upd \<and> upd ! i \<noteq> del \<and> load_next g (upd ! i) i = Some (Some del) \<and>
      load_next g del i \<noteq> None"
    and stop: "js = [] \<or> (\<exists>j js'. js = j # js' \<and> j \<notin> set is \<and> j < length upd \<and>
      (\<exists>x. load_next g (upd ! j) j = Some x \<and> x \<noteq> Some del))"
  shows "\<exists>h'. unlink del upd (is @ js) g = Some h' \<and> same_nodes g h' \<and>
    (\<forall>a i. load_next h' a i =
       (if i \<in> set is \<and> a = upd ! i then load_next g del i else load_next g a i))"
  using assms
proof (induction "is" arbitrary: g)
  case Nil
  then show ?case by (auto simp: nth_opt_def)
next
  case (Cons i "is")
  have i: "i < length upd" "upd ! i \<noteq> del" "load_next g (upd ! i) i = Some (Some del)"
    using Cons.prems(2) [of i] by auto
  obtain nx where nx: "load_next g del i = Some nx" using Cons.prems(2) [of i] by auto
  have "load_next g (upd ! i) i \<noteq> None" using i(3) by simp
  then obtain g1 where g1: "store_next (upd ! i) i nx g = Some g1" "same_nodes g g1"
      "\<And>b j. load_next g1 b j = (if b = upd ! i \<and> j = i then Some nx else load_next g b j)"
    using store_next_ok by blast
  obtain h' where h': "unlink del upd (is @ js) g1 = Some h'" "same_nodes g1 h'"
      "\<And>a j. load_next h' a j =
       (if j \<in> set is \<and> a = upd ! j then load_next g1 del j else load_next g1 a j)"
    using Cons.IH [of g1] Cons.prems g1(3) by force
  have "unlink del upd ((i # is) @ js) g = Some h'"
    using i nx g1 h' by (simp add: nth_opt_def)
  moreover have "same_nodes g h'" using g1(2) h'(2) same_nodes_trans by blast
  moreover have "load_next h' a j =
       (if j \<in> set (i # is) \<and> a = upd ! j then load_next g del j else load_next g a j)" for a j
    using Cons.prems(1) i nx by (auto simp: h'(3) g1(3))
  ultimately show ?case by blast
qed

lemma lower_level_ok:
  assumes "\<And>i. i < n \<Longrightarrow> load_next h p i \<noteq> None"
  shows "\<exists>cl. lower_level h p n = Some cl \<and> cl \<le> n \<and> (\<forall>i. cl \<le> i \<and> i < n \<longrightarrow> load_next h p i = Some None)"
  using assms
proof (induction n)
  case (Suc n)
  obtain nx where nx: "load_next h p n = Some nx" using Suc.prems [of n] by auto
  obtain cl where "lower_level h p n = Some cl" "cl \<le> n"
      "\<forall>i. cl \<le> i \<and> i < n \<longrightarrow> load_next h p i = Some None"
    using Suc by auto
  with nx show ?case by (cases nx) (auto simp: less_Suc_eq)
qed simp

lemma unlink_node:
  assumes inv: "sl_inv sl ns" and ns: "ns = as @ del # bs"
    and as: "as = filter (\<lambda>a. key_at (sl_heap sl) a < key) ns"
    and upd: "length upd = max_level sl"
      "\<And>i. i < max_level sl \<Longrightarrow> upd ! i = pred_at (sl_heap sl) (sl_head sl) ns key i"
  obtains h' where
    "unlink del upd [0..<current_level sl] (sl_heap sl) = Some h'" "same_nodes (sl_heap sl) h'"
    "\<And>a i. load_next h' a i =
       (if i < height (sl_heap sl) del \<and> a = pred_at (sl_heap sl) (sl_head sl) ns key i
        then load_next (sl_heap sl) del i else load_next (sl_heap sl) a i)"
proof -
  let ?h = "sl_heap sl" and ?p = "pred_at (sl_heap sl) (sl_head sl) ns key"
  let ?k = "height ?h del"
  note D = sl_invD [OF inv]
  have k: "?k \<le> current_level sl" "?k \<le> max_level sl"
    using D(8) [of del] D(2) by (auto simp: ns)
  have bs: "filter (\<lambda>a. \<not> key_at ?h a < key) ns = del # bs"
    using sorted_split [OF D(9), of key] as ns by (metis append_same_eq same_append_eq)
  have pc: "load_next ?h (?p i) i = Some (case level_nodes ?h i (del # bs) of [] \<Rightarrow> None | b # _ \<Rightarrow> Some b)"
    if "i < max_level sl" for i
    using pred_at_chain [OF inv that, of key] by (simp add: bs)
  have pd: "?p i \<noteq> del" for i
  proof -
    have "?p i \<in> set (sl_head sl # as)"
      using walk_start_pred [of ?h "sl_head sl" ns key i] as by (auto simp: walk_start_def)
    then show ?thesis using D(3) by (auto simp: ns)
  qed
  have low: "load_next ?h (?p i) i = Some (Some del)" "load_next ?h del i \<noteq> None" if "i < ?k" for i
  proof -
    show "load_next ?h (?p i) i = Some (Some del)" using pc [of i] that k by (simp add: level_nodes_def)
    have "del \<in> set (level_nodes ?h i ns)" using that by (simp add: ns)
    then have "\<exists>xs ys. level_nodes ?h i ns = xs @ del # ys" by (meson split_list)
    then show "load_next ?h del i \<noteq> None"
      using D(10) [of i] that k chain_append chain_start by fastforce
  qed
  have hi: "\<exists>x. load_next ?h (?p ?k) ?k = Some x \<and> x \<noteq> Some del" if "?k < max_level sl"
  proof -
    have "del \<notin> set (level_nodes ?h ?k (del # bs))" by simp
    with pc [OF that] show ?thesis by (cases "level_nodes ?h ?k (del # bs)") auto
  qed
  have "\<exists>h'. unlink del upd ([0..<?k] @ [?k..<current_level sl]) ?h = Some h' \<and> same_nodes ?h h' \<and>
    (\<forall>a i. load_next h' a i =
       (if i \<in> set [0..<?k] \<and> a = upd ! i then load_next ?h del i else load_next ?h a i))"
  proof (rule unlink_ok)
    show "i < length upd \<and> upd ! i \<noteq> del \<and> load_next ?h (upd ! i) i = Some (Some del) \<and>
        load_next ?h del i \<noteq> None" if "i \<in> set [0..<?k]" for i
      using that k upd pd low by auto
    show "[?k..<current_level sl] = [] \<or> (\<exists>j js'. [?k..<current_level sl] = j # js' \<and>
        j \<notin> set [0..<?k] \<and> j < length upd \<and>
        (\<exists>x. load_next ?h (upd ! j) j = Some x \<and> x \<noteq> Some del))"
      using k upd hi D(2) by (cases "?k < current_level sl") (auto simp: upt_conv_Cons)
  qed simp
  moreover have "[0..<?k] @ [?k..<current_level sl] = [0..<current_level sl]"
    using k(1) by (metis le0 upt_add_eq_append le_add_diff_inverse)
  ultimately obtain h' where "unlink del upd [0..<current_level sl] ?h = Some h'" "same_nodes ?h h'"
    "\<And>a i. load_next h' a i = (if i < ?k \<and> a = upd ! i then load_next ?h del i else load_next ?h a i)"
    by auto
  then show thesis using that upd k by auto
qed

lemma delete_chain:
  assumes c: "chain h i hd_addr (level_nodes h i (as @ del # bs))"
    and d: "distinct (hd_addr # as @ del # bs)" and p: "p = last (hd_addr # level_nodes h i as)"
    and nx: "\<And>a. a \<noteq> del \<Longrightarrow> load_next h' a i =
      (if i < height h del \<and> a = p then load_next h del i else load_next h a i)"
  shows "chain h' i hd_addr (level_nodes h i (as @ bs))"
proof (cases "i < height h del")
  case True
  let ?la = "level_nodes h i as" and ?lb = "level_nodes h i bs"
  have lsp: "level_nodes h i (as @ del # bs) = ?la @ del # ?lb" using True by (simp add: level_nodes_def)
  have d': "distinct (hd_addr # ?la @ del # ?lb)" using d by (auto simp: level_nodes_def)
  have "p \<noteq> del" using p d' last_in_set [of "hd_addr # ?la"] by fastforce
  have "chain h' i hd_addr (?la @ ?lb)"
  proof (rule chain_remove [OF c [unfolded lsp] d', folded p])
    show "load_next h' p i = load_next h del i" using True nx [OF \<open>p \<noteq> del\<close>] by simp
    fix a assume a: "a \<in> set (hd_addr # ?la @ ?lb)" "a \<noteq> p"
    then have "a \<noteq> del" using d by auto
    with a(2) show "load_next h' a i = load_next h a i" by (simp add: nx)
  qed
  then show ?thesis by (simp add: level_nodes_append)
next
  case False
  then have lsp: "level_nodes h i (as @ del # bs) = level_nodes h i (as @ bs)"
    by (simp add: level_nodes_def)
  have "chain h' i hd_addr (level_nodes h i (as @ bs)) \<longleftrightarrow> chain h i hd_addr (level_nodes h i (as @ bs))"
  proof (rule chain_cong)
    fix a assume "a \<in> set (hd_addr # level_nodes h i (as @ bs))"
    then have "a \<noteq> del" using d by auto
    with False show "load_next h' a i = load_next h a i" by (simp add: nx)
  qed
  with c show ?thesis by (simp add: lsp)
qed

lemma delete_node:
  assumes inv: "sl_inv sl ns" and ns: "ns = as @ del # bs"
    and as: "as = filter (\<lambda>a. key_at (sl_heap sl) a < key) ns"
    and upd: "length upd = max_level sl"
      "\<And>i. i < max_level sl \<Longrightarrow> upd ! i = pred_at (sl_heap sl) (sl_head sl) ns key i"
  obtains h cl where
    "unlink del upd [0..<current_level sl] (sl_heap sl) = Some h"
    "lower_level (h(del := None)) (sl_head sl) (current_level sl) = Some cl"
    "sl_inv (sl\<lparr>sl_heap := h(del := None), node_count := node_count sl - 1, current_level := cl\<rparr>) (as @ bs)"
    "rows_of (h(del := None)) (as @ bs) = rows_of (sl_heap sl) as @ rows_of (sl_heap sl) bs"
proof -
  let ?h = "sl_heap sl" and ?hd = "sl_head sl" and ?p = "pred_at (sl_heap sl) (sl_head sl) ns key"
  let ?k = "height ?h del"
  note D = sl_invD [OF inv]
  obtain h1 where h1: "unlink del upd [0..<current_level sl] ?h = Some h1" "same_nodes ?h h1"
    "\<And>a i. load_next h1 a i = (if i < ?k \<and> a = ?p i then load_next ?h del i else load_next ?h a i)"
    using unlink_node [OF inv ns as upd] by blast
  define h' where "h' = h1(del := None)"
  have dist: "del \<notin> set (?hd # as @ bs)" "distinct (?hd # as @ bs)" using D(3) by (auto simp: ns)
  have at: "key_at h' a = key_at ?h a" "val_at h' a = val_at ?h a" "height h' a = height ?h a"
      "h' a \<noteq> None \<longleftrightarrow> ?h a \<noteq> None" "load_next h' a = load_next h1 a" if "a \<noteq> del" for a
    using that h1(2) by (auto simp: h'_def same_nodes_def key_at_def val_at_def height_def fun_eq_iff
        load_next_def)
  have lv: "level_nodes h' i xs = level_nodes ?h i xs" if "del \<notin> set xs" for i xs
    unfolding level_nodes_def
  proof (rule filter_cong [OF refl])
    fix a assume "a \<in> set xs"
    with that have "a \<noteq> del" by blast
    then show "i < height h' a \<longleftrightarrow> i < height ?h a" by (simp add: at(3))
  qed
  have pl: "last (?hd # level_nodes ?h i as) = ?p i" for i
    unfolding as by (rule pred_at_last [symmetric])
  have chains: "chain h' i ?hd (level_nodes h' i (as @ bs))" if i: "i < max_level sl" for i
  proof -
    have "chain h' i ?hd (level_nodes ?h i (as @ bs))"
    proof (rule delete_chain [OF _ _ pl [symmetric]])
      show "chain ?h i ?hd (level_nodes ?h i (as @ del # bs))" using D(10) [OF i] by (simp add: ns)
      show "distinct (?hd # as @ del # bs)" using D(3) by (simp add: ns)
      show "load_next h' a i = (if i < ?k \<and> a = ?p i then load_next ?h del i else load_next ?h a i)"
        if "a \<noteq> del" for a by (simp only: at(5) [OF that] h1(3))
    qed
    then show ?thesis using dist lv [of "as @ bs" i] by simp
  qed
  have "load_next h' ?hd i \<noteq> None" if "i < current_level sl" for i
    using chain_start [OF chains [of i]] that D(2) by auto
  then obtain cl where cl: "lower_level h' ?hd (current_level sl) = Some cl" "cl \<le> current_level sl"
      "\<forall>i. cl \<le> i \<and> i < current_level sl \<longrightarrow> load_next h' ?hd i = Some None"
    using lower_level_ok by blast
  have hcl: "height h' a \<le> cl" if a: "a \<in> set (as @ bs)" for a
  proof (rule ccontr)
    assume "\<not> height h' a \<le> cl"
    then have "a \<in> set (level_nodes h' cl (as @ bs))" using a by simp
    moreover have "a \<noteq> del" using a dist by auto
    then have "height h' a \<le> current_level sl" using D(8) [of a] a by (simp add: ns at(3))
    then have "cl < current_level sl" using \<open>\<not> height h' a \<le> cl\<close> by simp
    ultimately show False
      using chains [of cl] cl(3) D(2) by (cases "level_nodes h' cl (as @ bs)") auto
  qed
  let ?sl = "sl\<lparr>sl_heap := h', node_count := node_count sl - 1, current_level := cl\<rparr>"
  have mem: "a \<noteq> del \<and> ?h a \<noteq> None" if "a \<in> set (?hd # as @ bs)" for a
    using that dist D(4) [of a] by (auto simp: ns)
  have keys: "map (key_at h') (as @ bs) = map (key_at ?h) (as @ bs)" using mem at(1) by simp
  have "sl_inv ?sl (as @ bs)"
    unfolding sl_inv_def
  proof (intro conjI)
    have "sorted_wrt (<) (map (key_at ?h) (as @ bs))" using D(9) by (simp add: ns sorted_wrt_append)
    then show "sorted_wrt (<) (map (key_at (sl_heap ?sl)) (as @ bs))"
      unfolding keys [symmetric] by simp
    show "\<forall>a. sl_heap ?sl a \<noteq> None \<longrightarrow> a < sl_fresh ?sl"
    proof (intro allI impI)
      fix a assume "sl_heap ?sl a \<noteq> None"
      then have "?h a \<noteq> None"
        using h1(2) by (cases "a = del") (simp_all add: h'_def same_nodes_def del: not_None_eq)
      then show "a < sl_fresh ?sl" using D(5) [of a] by simp
    qed
    show "\<forall>a\<in>set (as @ bs). 1 \<le> height (sl_heap ?sl) a \<and> height (sl_heap ?sl) a \<le> current_level ?sl"
      using hcl D(7) at(3) mem by (auto simp: ns)
    show "\<forall>a. sl_heap ?sl a \<noteq> None \<longleftrightarrow> a \<in> set (sl_head ?sl # as @ bs)"
    proof
      fix a show "sl_heap ?sl a \<noteq> None \<longleftrightarrow> a \<in> set (sl_head ?sl # as @ bs)"
        using mem [of a] at(4) [of a] D(12) [of a] dist(1) by (cases "a = del") (auto simp: ns h'_def)
    qed
  qed (use D cl(2) dist chains at(3) [of ?hd] in \<open>auto simp: ns\<close>)
  moreover have "rows_of h' (as @ bs) = rows_of ?h as @ rows_of ?h bs"
    using mem at(1,2) by (auto simp: rows_of_def)
  ultimately show thesis using that h1(1) cl(1) unfolding h'_def by blast
qed

lemma filter_rows_split:
  assumes "sorted_wrt (<) (map (key_at h) (as @ a # bs))" "key_at h a = (key::'k::linorder)"
  shows "filter (\<lambda>(k, _). k \<noteq> key) (rows_of h (as @ a # bs)) = rows_of h as @ rows_of h bs"
proof -
  have "\<forall>x\<in>set as \<union> set bs. key_at h x \<noteq> key"
    using assms by (fastforce simp: sorted_wrt_append)
  then show ?thesis using assms(2) by (simp add: rows_of_def filter_id_conv)
qed

lemma delete_element_ok:
  assumes inv: "sl_inv sl ns"
  shows "\<exists>sl' ns'. delete_element key sl = Some (map_of (sl_contents sl) key \<noteq> None, sl') \<and>
           sl_inv sl' ns' \<and> sl_contents sl' = filter (\<lambda>(k, _). k \<noteq> key) (sl_contents sl)"
proof -
  let ?h = "sl_heap sl" and ?bs = "filter (\<lambda>a. \<not> key_at (sl_heap sl) a < key) ns"
  let ?as = "filter (\<lambda>a. key_at (sl_heap sl) a < key) ns"
  note D = sl_invD [OF inv] and nx = next_of_pred0 [OF inv, of key]
    and mo = map_of_rows_of [OF sl_invD(9) [OF inv], of key] and rows = sl_inv_rows(2) [OF inv]
  obtain upd where upd:
    "descend ?h key (current_level sl) (sl_head sl) (replicate (max_level sl) (sl_head sl)) =
       Some (pred_at ?h (sl_head sl) ns key 0, upd)"
    "length upd = max_level sl"
    "\<And>i. i < max_level sl \<Longrightarrow> upd ! i = pred_at ?h (sl_head sl) ns key i"
    using descend_head [OF inv, of key] by blast
  have bn: "\<exists>n. ?h b = Some n" if "?bs = b # bs" for b bs
  proof -
    have "b \<in> set ns" using that by (metis filter_is_subset in_mono list.set_intros(1))
    then show ?thesis using D(4) [of b] by auto
  qed
  show ?thesis
  proof (cases "\<forall>a\<in>set ns. key_at ?h a \<noteq> key")
    case True
    then have first: "(case ?bs of [] \<Rightarrow> True | b # _ \<Rightarrow> key_at ?h b \<noteq> key)"
      using absent_iff_first [OF D(9), of key] by simp
    then have "delete_element key sl = Some (False, sl)" "map_of (sl_contents sl) key = None"
      using nx upd(1) mo rows bn
      by (auto simp: delete_element_def key_at_def split: list.splits)
    moreover have "filter (\<lambda>(k, _). k \<noteq> key) (sl_contents sl) = sl_contents sl"
      using True by (auto simp: rows rows_of_def filter_id_conv)
    ultimately show ?thesis using inv by auto
  next
    case False
    then obtain del bs where bs: "?bs = del # bs" "key_at ?h del = key"
      using absent_iff_first [OF D(9), of key] by (auto split: list.splits)
    have ns: "ns = ?as @ del # bs" using sorted_split [OF D(9), of key] bs(1) by simp
    obtain h cl where h: "unlink del upd [0..<current_level sl] ?h = Some h"
      "lower_level (h(del := None)) (sl_head sl) (current_level sl) = Some cl"
      "sl_inv (sl\<lparr>sl_heap := h(del := None), node_count := node_count sl - 1, current_level := cl\<rparr>) (?as @ bs)"
      "rows_of (h(del := None)) (?as @ bs) = rows_of ?h ?as @ rows_of ?h bs"
      by (rule delete_node [OF inv ns refl upd(2,3)])
    obtain n where n: "?h del = Some n" using bn [OF bs(1)] by blast
    have "delete_element key sl = Some (True,
        sl\<lparr>sl_heap := h(del := None), node_count := node_count sl - 1, current_level := cl\<rparr>)"
      using nx upd(1) bs n h(1,2) by (simp add: delete_element_def key_at_def)
    moreover have "map_of (sl_contents sl) key \<noteq> None" using mo bs by (simp add: rows)
    moreover have "sl_contents (sl\<lparr>sl_heap := h(del := None), node_count := node_count sl - 1,
        current_level := cl\<rparr>) = filter (\<lambda>(k, _). k \<noteq> key) (sl_contents sl)"
      using filter_rows_split [of ?h ?as del bs key] D(9) ns bs(2) h(4) sl_inv_rows(2) [OF h(3)] rows
      by simp
    ultimately show ?thesis using h(3) by auto
  qed
qed

section \<open>Drawing\<close>

definition level_line :: "('k \<Rightarrow> string) \<Rightarrow> ('k, 'v) heap \<Rightarrow> nat \<Rightarrow> addr list \<Rightarrow> string" where
  "level_line shw h i ns = concat (map (\<lambda>a. if i < height h a then shw (key_at h a) @ ''---''
     else replicate (length (shw (key_at h a)) + 3) CHR ''-'') ns) @ ''nullptr\<newline>''"

lemma display_line_ok:
  fixes h :: "('k::linorder, 'v) heap"
  assumes "sorted_wrt (<) (map (key_at h) ns)" "\<forall>a\<in>set ns. h a \<noteq> None"
    and "case level_nodes h i ns of [] \<Rightarrow> cur = None | a # as \<Rightarrow> cur = Some a \<and> chain h i a as"
  shows "display_line shw h i (map (key_at h) ns) cur = Some (level_line shw h i ns)"
  using assms
proof (induction ns arbitrary: cur)
  case (Cons a ns)
  have sorted: "sorted_wrt (<) (map (key_at h) ns)" "\<forall>b\<in>set ns. key_at h a < key_at h b" and al: "\<forall>a\<in>set ns. h a \<noteq> None"
    using Cons.prems(1,2) by auto
  obtain n where n: "h a = Some n" using Cons.prems(2) by auto
  show ?case
  proof (cases "i < height h a")
    case True
    then have c: "cur = Some a" "chain h i a (level_nodes h i ns)" using Cons.prems(3) by (simp_all add: level_nodes_def)
    then obtain nx where nx: "load_next h a i = Some nx" using chain_start by blast
    have "case level_nodes h i ns of [] \<Rightarrow> nx = None | b # bs \<Rightarrow> nx = Some b \<and> chain h i b bs"
      using c(2) nx by (cases "level_nodes h i ns") auto
    from Cons.IH [OF sorted(1) al this] show ?thesis using True c(1) n nx by (simp add: key_at_def level_line_def)
  next
    case False
    then have cur: "case level_nodes h i ns of [] \<Rightarrow> cur = None | b # bs \<Rightarrow> cur = Some b \<and> chain h i b bs"
      using Cons.prems(3) by (simp add: level_nodes_def)
    have "\<exists>m. h b = Some m \<and> nkey m \<noteq> key_at h a" if "cur = Some b" for b
    proof -
      have "b \<in> set (level_nodes h i ns)" using cur that by (cases "level_nodes h i ns") auto
      then have "b \<in> set ns" by simp
      then obtain m where "h b = Some m" "key_at h a < key_at h b" using al sorted(2) by auto
      then show ?thesis by (auto simp: key_at_def)
    qed
    then have "(case cur of None \<Rightarrow> Some None | Some b \<Rightarrow> h b \<bind> (\<lambda>n. Some (if nkey n = key_at h a then Some b else None))) = Some None"
      by (cases cur) auto
    then show ?thesis using Cons.IH [OF sorted(1) al cur] False by (simp add: level_line_def)
  qed
qed (simp add: level_nodes_def level_line_def)

text \<open>Every level shows all keys in order, the ones it has a node for by name.\<close>

lemma display_list_ok:
  assumes inv: "sl_inv sl ns"
  shows "display_list shw num sl =
    Some (concat (map (\<lambda>i. ''Level '' @ num i @ '': '' @ level_line shw (sl_heap sl) i ns) (rev [0..<current_level sl])))"
proof -
  let ?h = "sl_heap sl"
  note D = sl_invD [OF inv]
  have line: "\<exists>cur. load_next ?h (sl_head sl) i = Some cur \<and> display_line shw ?h i (map (key_at ?h) ns) cur = Some (level_line shw ?h i ns)"
    if i: "i < max_level sl" for i
  proof -
    have c: "chain ?h i (sl_head sl) (level_nodes ?h i ns)" by (rule D(10) [OF i])
    obtain cur where cur: "load_next ?h (sl_head sl) i = Some cur" using chain_start [OF c] by blast
    have "case level_nodes ?h i ns of [] \<Rightarrow> cur = None | a # as \<Rightarrow> cur = Some a \<and> chain ?h i a as"
      using c cur by (cases "level_nodes ?h i ns") auto
    then show ?thesis using display_line_ok [OF D(9)] D(4) cur by auto
  qed
  have "display_levels shw num sl (map (key_at ?h) ns) k =
      Some (concat (map (\<lambda>i. ''Level '' @ num i @ '': '' @ level_line shw ?h i ns) (rev [0..<k])))" if "k \<le> max_level sl" for k
    using that
  proof (induction k)
    case (Suc k)
    obtain cur where "load_next ?h (sl_head sl) k = Some cur" "display_line shw ?h k (map (key_at ?h) ns) cur = Some (level_line shw ?h k ns)"
      using line [of k] Suc.prems by auto
    then show ?case using Suc by simp
  qed simp
  then show ?thesis using D(2) sl_inv_rows(1) [OF inv] by (simp add: display_list_def rows_of_def comp_def)
qed

section \<open>Destruction\<close>

lemma free_chain_ok:
  "(case as of [] \<Rightarrow> True | a # bs \<Rightarrow> chain h 0 a bs) \<Longrightarrow> distinct as \<Longrightarrow>
   free_chain (case as of [] \<Rightarrow> None | a # _ \<Rightarrow> Some a) h = Some (h |` (- set as))"
proof (induction as arbitrary: h)
  case Nil
  then show ?case by (subst free_chain.simps) (simp add: restrict_map_def)
next
  case (Cons a as)
  have c: "chain h 0 a as" using Cons.prems(1) by simp
  obtain n where n: "h a = Some n" using chain_mem [OF c, of a] by auto
  let ?h = "h(a := None)"
  have nx: "load_next h a 0 = Some (case as of [] \<Rightarrow> None | b # _ \<Rightarrow> Some b)" using c by (cases as) auto
  have "chain ?h 0 b bs" if "as = b # bs" for b bs
  proof -
    have "chain ?h 0 b bs \<longleftrightarrow> chain h 0 b bs"
      by (rule chain_cong) (use Cons.prems(2) that in \<open>auto simp: load_next_def\<close>)
    then show ?thesis using c that by simp
  qed
  then have "case as of [] \<Rightarrow> True | b # bs \<Rightarrow> chain ?h 0 b bs" by (cases as) auto
  then have "free_chain (case as of [] \<Rightarrow> None | b # _ \<Rightarrow> Some b) ?h = Some (?h |` (- set as))"
    by (rule Cons.IH) (use Cons.prems(2) in simp)
  then show ?case using n nx by (subst free_chain.simps) (auto simp: free_node_def fun_eq_iff restrict_map_def)
qed

lemma delete_SkipList_ok:
  assumes "sl_inv sl ns"
  shows "delete_SkipList sl = Some Map.empty"
proof -
  let ?h = "sl_heap sl" and ?hd = "sl_head sl"
  note c = sl_inv_chain0 [OF assms] and D = sl_invD [OF assms]
  have nx: "load_next ?h ?hd 0 = Some (case ns of [] \<Rightarrow> None | a # _ \<Rightarrow> Some a)" using c by (cases ns) auto
  have f: "free_chain (case ns of [] \<Rightarrow> None | a # _ \<Rightarrow> Some a) ?h = Some (?h |` (- set ns))"
    using c D(3) by (intro free_chain_ok) (auto split: list.split)
  obtain n where n: "?h ?hd = Some n" using D(4) [of ?hd] by auto
  have "((?h |` (- set ns))(?hd := None)) a = None" for a
    using D(12) [of a] by (cases "?h a") (auto simp: restrict_map_def)
  then have "(?h |` (- set ns))(?hd := None) = Map.empty" by (simp add: fun_eq_iff)
  then show ?thesis using D(3) n by (simp add: delete_SkipList_def nx f free_node_def restrict_map_def)
qed

section \<open>The interface of an ordered index\<close>

text \<open>
  What the memtable relies on: a state with a sorted contents list, an insertion that updates
  it, a search that looks it up and an enumeration that lists it. Insertion takes the coin
  tosses it may use; the contents do not depend on them.
\<close>

fun insert_all :: "('c \<Rightarrow> 'k \<Rightarrow> 'v \<Rightarrow> 's \<Rightarrow> 's option) \<Rightarrow> 'c \<Rightarrow> ('k \<times> 'v) list \<Rightarrow> 's \<Rightarrow> 's option" where
  "insert_all ins c [] s = Some s"
| "insert_all ins c ((k, v) # rs) s = do { s' \<leftarrow> ins c k v s; insert_all ins c rs s' }"

locale ordered_index =
  fixes inv :: "'s \<Rightarrow> bool"
    and contents :: "'s \<Rightarrow> ('k::linorder \<times> 'v) list"
    and ins :: "'c \<Rightarrow> 'k \<Rightarrow> 'v \<Rightarrow> 's \<Rightarrow> 's option"
    and search :: "'k \<Rightarrow> 's \<Rightarrow> 'v option option"
    and rows :: "'s \<Rightarrow> ('k \<times> 'v) list option"
  assumes contents_sorted: "inv s \<Longrightarrow> sorted_keys (contents s)"
    and ins_law: "inv s \<Longrightarrow> \<exists>s'. ins c k v s = Some s' \<and> inv s' \<and> contents s' = upsert k v (contents s)"
    and search_law: "inv s \<Longrightarrow> search k s = Some (map_of (contents s) k)"
    and rows_law: "inv s \<Longrightarrow> rows s = Some (contents s)"
begin

lemma ins_obtain:
  assumes "inv s"
  obtains s' where "ins c k v s = Some s'" "inv s'" "contents s' = upsert k v (contents s)"
  using ins_law [OF assms] by blast

lemma search_ins:
  assumes "inv s" "ins c k v s = Some s'"
  shows "search x s' = (if x = k then Some (Some v) else search x s)"
proof -
  have "inv s'" "contents s' = upsert k v (contents s)"
    using ins_law [OF assms(1), of c k v] assms(2) by auto
  then show ?thesis
    using contents_sorted [OF assms(1)] assms(1) by (simp add: search_law map_of_upsert)
qed

lemma insert_all_ok:
  "inv s \<Longrightarrow> \<exists>s'. insert_all ins c rs s = Some s' \<and> inv s' \<and> contents s' = upsert_all rs (contents s)"
proof (induction rs arbitrary: s)
  case (Cons r rs)
  obtain k v where r: "r = (k, v)" by (cases r)
  obtain s1 where "ins c k v s = Some s1" "inv s1" "contents s1 = upsert k v (contents s)"
    by (rule ins_obtain [OF Cons.prems])
  with Cons.IH [of s1] show ?case by (simp add: r)
qed simp

end

lemma sl_ok_new: "1 \<le> maxl \<Longrightarrow> sl_ok (new_SkipList k0 v0 maxl)"
  unfolding sl_ok_def by (rule exI) (rule sl_inv_new)

lemma sl_contents_new [simp]:
  "1 \<le> maxl \<Longrightarrow> sl_contents (new_SkipList (k0::'k::linorder) v0 maxl) = []"
  by (simp add: sl_inv_rows(2) [OF sl_inv_new] rows_of_def)

lemma sl_size_contents: "sl_ok sl \<Longrightarrow> sl_size sl = sint (of_nat (length (sl_contents sl)) :: u32)"
  unfolding sl_ok_def sl_size_def
  by (elim exE) (simp add: sl_inv_rows(2) sl_invD(11) rows_of_def)

lemma sint_of_nat_small: "n < 2 ^ 31 \<Longrightarrow> sint (of_nat n :: u32) = int n"
  by (simp add: signed_of_nat signed_take_bit_int_eq_self)

interpretation skl: ordered_index sl_ok sl_contents insert_element search_element sl_rows
proof
  fix s :: "('a::linorder, 'b) SkipList" and c k v
  assume "sl_ok s"
  then obtain ns where ns: "sl_inv s ns" by (auto simp: sl_ok_def)
  show "sorted_keys (sl_contents s)" by (rule sl_inv_rows(3) [OF ns])
  show "\<exists>s'. insert_element c k v s = Some s' \<and> sl_ok s' \<and> sl_contents s' = upsert k v (sl_contents s)"
    using insert_element_ok [OF ns, of c k v] by (auto simp: sl_ok_def)
  show "search_element k s = Some (map_of (sl_contents s) k)" by (rule search_element_inv [OF ns])
  show "sl_rows s = Some (sl_contents s)" using sl_inv_rows [OF ns] by simp
qed

text \<open>A sequence of insertions and deletions, each insertion with coin tosses of its own.\<close>

fun sl_ops :: "(nat \<Rightarrow> nat \<Rightarrow> bool) \<Rightarrow> (('k::linorder \<times> 'v) + 'k) list \<Rightarrow> ('k, 'v) SkipList \<Rightarrow> ('k, 'v) SkipList option" where
  "sl_ops coins [] sl = Some sl"
| "sl_ops coins (Inl (k, v) # ops) sl = do { sl' \<leftarrow> insert_element (coins (length ops)) k v sl; sl_ops coins ops sl' }"
| "sl_ops coins (Inr k # ops) sl = do { (found, sl') \<leftarrow> delete_element k sl; sl_ops coins ops sl' }"

lemma sl_ops_ok: "sl_ok sl \<Longrightarrow> \<exists>sl'. sl_ops coins ops sl = Some sl' \<and> sl_ok sl'"
proof (induction ops arbitrary: sl)
  case (Cons op ops)
  show ?case
  proof (cases op)
    case (Inl r)
    obtain sl' where "insert_element (coins (length ops)) (fst r) (snd r) sl = Some sl'" "sl_ok sl'"
      using skl.ins_obtain [OF Cons.prems] by blast
    then show ?thesis using Cons.IH Inl by (cases r) simp
  next
    case (Inr k)
    obtain ns where "sl_inv sl ns" using Cons.prems by (auto simp: sl_ok_def)
    then obtain sl' ns' b where d: "delete_element k sl = Some (b, sl')" "sl_inv sl' ns'" using delete_element_ok by blast
    then have "sl_ok sl'" by (auto simp: sl_ok_def)
    then show ?thesis using Cons.IH Inr d(1) by simp
  qed
qed simp

section \<open>Properties\<close>

text \<open>
  C15: insertion never follows a dangling pointer or leaves a pointer vector, whatever levels the
  coin tosses choose; it keeps the invariant, and the enumeration afterwards is the old one with
  the key's row inserted in order, or its value replaced when the key was present. \<open>size\<close> is the
  number of rows as a 32-bit signed integer: exact below \<open>2 ^ 31\<close> rows, wrapped around beyond.
\<close>

theorem insert_element_refines:
  assumes "sl_ok sl"
  shows "\<exists>sl'. insert_element coin key v sl = Some sl' \<and> sl_ok sl' \<and>
           sl_rows sl' = Some (upsert key v (sl_contents sl)) \<and>
           sl_size sl' = sint (of_nat (length (upsert key v (sl_contents sl))) :: u32) \<and>
           (length (upsert key v (sl_contents sl)) < 2 ^ 31 \<longrightarrow>
            sl_size sl' = int (length (upsert key v (sl_contents sl))))"
proof -
  obtain sl' where "insert_element coin key v sl = Some sl'" "sl_ok sl'"
      "sl_contents sl' = upsert key v (sl_contents sl)"
    by (rule skl.ins_obtain [OF assms])
  then show ?thesis by (simp add: skl.rows_law sl_size_contents sint_of_nat_small)
qed

theorem insert_element_refines_witness:
  "\<exists>sl'. insert_element (\<lambda>i. i < 3) (5::nat) ''five'' (new_SkipList 0 [] 16) = Some sl' \<and> sl_ok sl' \<and>
     sl_rows sl' = Some [(5, ''five'')] \<and> sl_size sl' = 1"
  using insert_element_refines [OF sl_ok_new, of 16 "\<lambda>i. i < 3" "5::nat" "''five''" 0 "[]"] by simp

text \<open>
  C25: nothing leaks and nothing is freed twice. After any sequence of insertions and deletions, each of
  them memory safe, the destructor follows no dangling pointer and leaves the heap empty.
\<close>

theorem skiplist_frees_all:
  assumes "1 \<le> maxl"
  shows "\<exists>sl. sl_ops coins ops (new_SkipList k0 v0 maxl) = Some sl \<and> delete_SkipList sl = Some Map.empty"
proof -
  obtain sl where "sl_ops coins ops (new_SkipList k0 v0 maxl) = Some sl" "sl_ok sl"
    using sl_ops_ok [OF sl_ok_new [OF assms, of k0 v0], of coins ops] by blast
  then show ?thesis using delete_SkipList_ok by (auto simp: sl_ok_def)
qed

theorem skiplist_frees_all_witness:
  "\<exists>sl. sl_ops (\<lambda>_ l. l < 3) [Inl (5::nat, ''five''), Inl (7, ''seven''), Inr 5] (new_SkipList 0 [] 16) = Some sl \<and>
     delete_SkipList sl = Some Map.empty"
  by (rule skiplist_frees_all) simp

text \<open>
  A search after an insertion finds the inserted value under its key and is unchanged
  elsewhere.
\<close>

theorem search_element_insert:
  assumes "sl_ok sl" "insert_element coin key v sl = Some sl'"
  shows "search_element x sl' = (if x = key then Some (Some v) else Some (map_of (sl_contents sl) x))"
  using skl.search_ins [OF assms] skl.search_law [OF assms(1)] by simp

theorem search_element_insert_witness:
  "\<exists>sl'. insert_element (\<lambda>_. False) (5::nat) ''five'' (new_SkipList 0 [] 16) = Some sl' \<and>
     search_element 5 sl' = Some (Some ''five'') \<and> search_element 6 sl' = Some None"
proof -
  have ok: "sl_ok (new_SkipList (0::nat) ([]::string) 16)" by (rule sl_ok_new) simp
  obtain sl' where i: "insert_element (\<lambda>_. False) (5::nat) ''five'' (new_SkipList 0 [] 16) = Some sl'"
    by (rule skl.ins_obtain [OF ok])
  from search_element_insert [OF ok i] i show ?thesis by simp
qed

text \<open>
  C26: deletion reports whether the key was present, keeps the invariant and removes exactly that
  key from the enumeration.
\<close>

theorem delete_element_refines:
  assumes "sl_ok sl"
  shows "\<exists>sl'. delete_element key sl = Some (map_of (sl_contents sl) key \<noteq> None, sl') \<and> sl_ok sl' \<and>
           sl_rows sl' = Some (filter (\<lambda>(k, _). k \<noteq> key) (sl_contents sl))"
proof -
  obtain ns where "sl_inv sl ns" using assms by (auto simp: sl_ok_def)
  then obtain sl' ns' where "delete_element key sl = Some (map_of (sl_contents sl) key \<noteq> None, sl')"
      "sl_inv sl' ns'" "sl_contents sl' = filter (\<lambda>(k, _). k \<noteq> key) (sl_contents sl)"
    using delete_element_ok by blast
  moreover have "sl_ok sl'" using \<open>sl_inv sl' ns'\<close> by (auto simp: sl_ok_def)
  ultimately show ?thesis by (simp add: skl.rows_law)
qed

theorem delete_element_refines_witness:
  "\<exists>sl'. insert_element (\<lambda>_. True) (3::nat) (7::nat) (new_SkipList 0 0 4) = Some sl' \<and>
     (\<exists>sl''. delete_element 3 sl' = Some (True, sl'') \<and> sl_ok sl'' \<and> sl_rows sl'' = Some [])"
proof -
  have ok: "sl_ok (new_SkipList (0::nat) (0::nat) 4)" by (rule sl_ok_new) simp
  obtain sl' where i: "insert_element (\<lambda>_. True) (3::nat) (7::nat) (new_SkipList 0 0 4) = Some sl'" "sl_ok sl'"
      "sl_contents sl' = upsert 3 7 (sl_contents (new_SkipList 0 0 4))"
    by (rule skl.ins_obtain [OF ok])
  from delete_element_refines [OF i(2), of 3] i show ?thesis by simp
qed

end
