(* ===== verification/FileSystem.thy ===== *)
theory FileSystem
  imports Decimal
begin

text \<open>
  The database directory as the code sees it through \<open>std::filesystem\<close> and the stream classes:
  an association list from file names to contents, in the order a directory iterator yields
  them. \<open>can_write\<close> says for which names an output stream can be opened, so that the code's
  reactions to a failed open are part of the model. Every entry is a regular file; the
  directory itself always exists once \<open>DBImpl\<close> has created it.
\<close>

section \<open>The directory\<close>

record fsys =
  entries :: "(string \<times> bytes) list"
  can_write :: "string \<Rightarrow> bool"

definition empty_fs :: fsys where
  "empty_fs = \<lparr>entries = [], can_write = (\<lambda>_. True)\<rparr>"

definition fs_read :: "fsys \<Rightarrow> string \<Rightarrow> bytes option" where
  "fs_read fs n = map_of (entries fs) n"

definition fs_exists :: "fsys \<Rightarrow> string \<Rightarrow> bool" where
  "fs_exists fs n \<longleftrightarrow> fs_read fs n \<noteq> None"

fun set_entry :: "string \<Rightarrow> bytes \<Rightarrow> (string \<times> bytes) list \<Rightarrow> (string \<times> bytes) list" where
  "set_entry n b [] = [(n, b)]"
| "set_entry n b ((m, c) # es) = (if m = n then (n, b) # es else (m, c) # set_entry n b es)"

definition fs_write :: "string \<Rightarrow> bytes \<Rightarrow> fsys \<Rightarrow> fsys" where
  "fs_write n b fs = fs\<lparr>entries := set_entry n b (entries fs)\<rparr>"

definition fs_remove :: "string \<Rightarrow> fsys \<Rightarrow> fsys" where
  "fs_remove n fs = fs\<lparr>entries := filter (\<lambda>(m, _). m \<noteq> n) (entries fs)\<rparr>"

text \<open>Opening for append creates a missing file; appending goes to the end of its contents.\<close>

definition fs_touch :: "string \<Rightarrow> fsys \<Rightarrow> fsys" where
  "fs_touch n fs = (case fs_read fs n of None \<Rightarrow> fs_write n [] fs | Some _ \<Rightarrow> fs)"

text \<open>
  A write through a stream that was opened earlier: if the name was unlinked meanwhile the
  bytes go to the nameless file and the directory does not change.
\<close>

definition fs_append :: "string \<Rightarrow> bytes \<Rightarrow> fsys \<Rightarrow> fsys" where
  "fs_append n b fs = (case fs_read fs n of None \<Rightarrow> fs | Some c \<Rightarrow> fs_write n (c @ b) fs)"

definition fs_rename :: "string \<Rightarrow> string \<Rightarrow> fsys \<Rightarrow> fsys" where
  "fs_rename a b fs =
     (case fs_read fs a of None \<Rightarrow> fs | Some c \<Rightarrow> fs_write b c (fs_remove a fs))"

section \<open>Sequences of writes\<close>

text \<open>
  What a function does to the directory, as the sequence of its system calls: opening for append,
  truncating or creating with given contents, writing to an open stream, renaming. A crash stops the
  sequence before any of them, or in the middle of a write to a stream.
\<close>

datatype fs_op = OpTouch string | OpTrunc string | OpAppend string bytes | OpRename string string

fun do_op :: "fs_op \<Rightarrow> fsys \<Rightarrow> fsys" where
  "do_op (OpTouch n) fs = fs_touch n fs"
| "do_op (OpTrunc n) fs = fs_write n [] fs"
| "do_op (OpAppend n b) fs = fs_append n b fs"
| "do_op (OpRename a b) fs = fs_rename a b fs"

definition do_ops :: "fs_op list \<Rightarrow> fsys \<Rightarrow> fsys" where
  "do_ops ops fs = fold do_op ops fs"

text \<open>The result of a function and the directory after its writes.\<close>

definition run_ops :: "'r \<times> fs_op list \<Rightarrow> fsys \<Rightarrow> 'r \<times> fsys" where
  "run_ops x fs = (fst x, do_ops (snd x) fs)"

inductive crash_in :: "fs_op list \<Rightarrow> fsys \<Rightarrow> fsys \<Rightarrow> bool" where
  crash_before: "crash_in ops fs fs"
| crash_torn: "crash_in (OpAppend n b # ops) fs (fs_append n (take k b) fs)"
| crash_later: "crash_in ops (do_op op fs) fs' \<Longrightarrow> crash_in (op # ops) fs fs'"

inductive_cases crash_in_Nil [elim!]: "crash_in [] fs fs'"
inductive_cases crash_in_Cons: "crash_in (op # ops) fs fs'"

section \<open>File names\<close>

definition wal_name :: "u64 \<Rightarrow> string" where
  "wal_name i = to_string (unat i) @ ''.wal''"

definition sst_name :: "u64 \<Rightarrow> string" where
  "sst_name i = to_string (unat i) @ ''.sst''"

text \<open>
  \<open>fs::path::extension\<close> and \<open>stem\<close> of a file name: the part from the last dot, unless that dot
  is the first character.
\<close>

definition path_ext :: "string \<Rightarrow> string" where
  "path_ext n =
     (let suf = takeWhile (\<lambda>c. c \<noteq> CHR ''.'') (rev n)
      in if length suf + 1 < length n then CHR ''.'' # rev suf else [])"

definition path_stem :: "string \<Rightarrow> string" where
  "path_stem n = take (length n - length (path_ext n)) n"

section \<open>Laws\<close>

lemma map_of_set_entry [simp]: "map_of (set_entry n b es) = (map_of es)(n \<mapsto> b)"
  by (induction n b es rule: set_entry.induct) (auto simp: fun_eq_iff)

lemma fs_read_write [simp]:
  "fs_read (fs_write n b fs) m = (if m = n then Some b else fs_read fs m)"
  by (simp add: fs_read_def fs_write_def)

lemma map_of_filter_name: "map_of (filter (\<lambda>(m, _). m \<noteq> n) es) x = (if x = n then None else map_of es x)"
  by (induction es) auto

lemma fs_read_remove [simp]:
  "fs_read (fs_remove n fs) m = (if m = n then None else fs_read fs m)"
  by (simp add: fs_read_def fs_remove_def map_of_filter_name)

lemma fs_read_touch [simp]:
  "fs_read (fs_touch n fs) m =
     (if m = n then (case fs_read fs n of None \<Rightarrow> Some [] | Some c \<Rightarrow> Some c) else fs_read fs m)"
  by (auto simp: fs_touch_def split: option.splits)

lemma fs_read_append [simp]:
  "fs_read (fs_append n b fs) m =
     (if m = n then map_option (\<lambda>c. c @ b) (fs_read fs n) else fs_read fs m)"
  by (auto simp: fs_append_def split: option.splits)

lemma fs_read_rename [simp]:
  "a \<noteq> b \<Longrightarrow> fs_read (fs_rename a b fs) m =
     (case fs_read fs a of None \<Rightarrow> fs_read fs m
      | Some c \<Rightarrow> if m = b then Some c else if m = a then None else fs_read fs m)"
  by (auto simp: fs_rename_def split: option.splits)

lemma set_entry_twice [simp]: "set_entry n b (set_entry n c es) = set_entry n b es"
  by (induction n c es rule: set_entry.induct) auto

lemma fs_append_created [simp]: "fs_append n b (fs_write n c fs) = fs_write n (c @ b) fs"
  by (simp add: fs_append_def) (simp add: fs_write_def)

lemma do_ops_simps [simp]:
  "do_ops [] fs = fs" "do_ops (op # ops) fs = do_ops ops (do_op op fs)" "do_ops (xs @ ys) fs = do_ops ys (do_ops xs fs)"
  by (simp_all add: do_ops_def)

lemma crash_in_append:
  "crash_in (xs @ ys) fs fs' \<Longrightarrow> crash_in xs fs fs' \<or> crash_in ys (do_ops xs fs) fs'"
proof (induction xs arbitrary: fs)
  case (Cons op xs)
  from Cons.prems have "crash_in (op # xs @ ys) fs fs'" by simp
  then have "fs' = fs \<or> (\<exists>n b k. op = OpAppend n b \<and> fs' = fs_append n (take k b) fs) \<or>
      crash_in (xs @ ys) (do_op op fs) fs'"
    by (rule crash_in_Cons) auto
  with Cons.IH [of "do_op op fs"] show ?case by (auto intro: crash_in.intros)
qed simp

lemma crash_in_Append:
  assumes "crash_in (OpAppend n b # ops) fs fs'"
  obtains k where "fs' = fs_append n (take k b) fs" | "fs' = fs" | "crash_in ops (fs_append n b fs) fs'"
  using assms by (rule crash_in_Cons) (auto intro: that)

lemma can_write_simps [simp]:
  "can_write (fs_write n b fs) = can_write fs"
  "can_write (fs_remove n fs) = can_write fs"
  "can_write (fs_touch n fs) = can_write fs"
  "can_write (fs_append n b fs) = can_write fs"
  "can_write (fs_rename n m fs) = can_write fs"
  by (auto simp: fs_write_def fs_remove_def fs_touch_def fs_append_def fs_rename_def
      split: option.splits)

lemma path_ext_name:
  assumes "s \<noteq> []" "CHR ''.'' \<notin> set e"
  shows "path_ext (s @ CHR ''.'' # e) = CHR ''.'' # e" "path_stem (s @ CHR ''.'' # e) = s"
proof -
  have "takeWhile (\<lambda>c. c \<noteq> CHR ''.'') (rev (s @ CHR ''.'' # e)) = rev e"
    using assms(2) by (simp add: takeWhile_append takeWhile_eq_all_conv)
  then show "path_ext (s @ CHR ''.'' # e) = CHR ''.'' # e"
    using assms(1) by (simp add: path_ext_def Let_def)
  then show "path_stem (s @ CHR ''.'' # e) = s" by (simp add: path_stem_def)
qed

lemma path_wal_name [simp]:
  "path_ext (wal_name i) = ''.wal''" "path_stem (wal_name i) = to_string (unat i)"
  using path_ext_name [of "to_string (unat i)" "''wal''"] by (simp_all add: wal_name_def)

lemma path_sst_name [simp]:
  "path_ext (sst_name i) = ''.sst''" "path_stem (sst_name i) = to_string (unat i)"
  using path_ext_name [of "to_string (unat i)" "''sst''"] by (simp_all add: sst_name_def)

lemma file_name_inj [simp]:
  "wal_name i = wal_name j \<longleftrightarrow> i = j" "sst_name i = sst_name j \<longleftrightarrow> i = j"
  by (simp_all add: wal_name_def sst_name_def word_unat_eq_iff)

lemma wal_ne_sst [simp]: "wal_name i \<noteq> sst_name j" "sst_name j \<noteq> wal_name i"
proof -
  have "path_ext (wal_name i) \<noteq> path_ext (sst_name j)" by simp
  then show "wal_name i \<noteq> sst_name j" "sst_name j \<noteq> wal_name i" by fastforce+
qed

end
