(* ===== verification/WalHandler.thy ===== *)
theory WalHandler
  imports Storage FileSystem BlockBuilder
begin

unbundle bit_operations_syntax

text \<open>
  The write-ahead log (\<open>include/WalHandler.h\<close>, \<open>src/WalHandler.cpp\<close>): the table-driven CRC-32,
  the record writer and the recovery scan.
\<close>

section \<open>CRC-32\<close>

definition crc_bit :: "u32 \<Rightarrow> u32" where
  "crc_bit crc = drop_bit 1 crc XOR (if crc AND 1 \<noteq> 0 then 0xEDB88320 else 0)"

definition crc_table :: "u32 list" where
  "crc_table = map (\<lambda>i. (crc_bit ^^ 8) (of_nat i)) [0..<256]"

definition char_to_byte :: "char \<Rightarrow> u32" where
  "char_to_byte c = of_nat (of_char c)"

definition crc_update :: "u32 \<Rightarrow> char \<Rightarrow> u32" where
  "crc_update crc c = drop_bit 8 crc XOR crc_table ! unat ((crc XOR char_to_byte c) AND 0xFF)"

definition CalculateCRC32 :: "bytes \<Rightarrow> u32" where
  "CalculateCRC32 d = foldl crc_update 0xFFFFFFFF d XOR 0xFFFFFFFF"

text \<open>The bit-serial definition of CRC-32 (reflected polynomial \<open>0xEDB88320\<close>), as a reference.\<close>

definition crc32_bitwise :: "bytes \<Rightarrow> u32" where
  "crc32_bitwise d = foldl (\<lambda>crc c. (crc_bit ^^ 8) (crc XOR char_to_byte c)) 0xFFFFFFFF d XOR 0xFFFFFFFF"

section \<open>Handler\<close>

record WalHandler =
  filename :: string
  is_open :: bool

definition new_WalHandler :: "string \<Rightarrow> fsys \<Rightarrow> WalHandler \<times> fsys" where
  "new_WalHandler n fs =
     (if can_write fs n then (\<lparr>filename = n, is_open = True\<rparr>, fs_touch n fs)
      else (\<lparr>filename = n, is_open = False\<rparr>, fs))"

definition wal_payload :: "bytes \<Rightarrow> bytes \<Rightarrow> ValueType \<Rightarrow> bytes" where
  "wal_payload key val type =
     enc_u8 (type_to_u8 type) @ enc_u32 (of_nat (length key)) @ key
       @ enc_u32 (of_nat (length val)) @ val"

definition wal_record :: "row \<Rightarrow> bytes" where
  "wal_record r =
     (let payload = wal_payload (fst r) (rvalue (snd r)) (vtype (snd r))
      in enc_u32 (CalculateCRC32 payload) @ payload)"

definition AddLog :: "WalHandler \<Rightarrow> bytes \<Rightarrow> bytes \<Rightarrow> ValueType \<Rightarrow> fsys \<Rightarrow> fsys" where
  "AddLog w key val type fs =
     (let payload = wal_payload key val type;
          crc = CalculateCRC32 payload
      in if is_open w then fs_append (filename w) (enc_u32 crc @ payload) fs else fs)"

text \<open>
  \<open>istream::read\<close> of \<open>n\<close> bytes into a variable that holds the bytes \<open>init\<close>: a short read
  overwrites only the first bytes and leaves the stream at its end.
\<close>

definition stream_read :: "nat \<Rightarrow> bytes \<Rightarrow> bytes \<Rightarrow> bytes \<times> bytes" where
  "stream_read n init s = (take n s @ drop (length (take n s)) init, drop n s)"

text \<open>
  The field reads of one pass of the recovery loop: the body as read, the record it denotes and
  the rest of the stream. \<open>t\<close>, \<open>k_len\<close> and \<open>v_len\<close> are not initialised in the source, so what
  they hold before a short read is the parameter \<open>junk\<close>.
\<close>

type_synonym junk = "bytes \<times> bytes \<times> bytes"

definition read_body :: "junk \<Rightarrow> bytes \<Rightarrow> bytes \<times> row \<times> bytes" where
  "read_body junk s =
     (let (jt, jk, jv) = junk;
          (t, s1) = stream_read 1 jt s;
          (kl, s2) = stream_read 4 jk s1;
          k_len = unat (dec_u32 kl);
          (key, s3) = stream_read k_len (replicate k_len (CHR 0x00)) s2;
          (vl, s4) = stream_read 4 jv s3;
          v_len = unat (dec_u32 vl);
          (val, s5) = stream_read v_len (replicate v_len (CHR 0x00)) s4
      in (t @ kl @ key @ vl @ val, (key, \<lparr>vtype = u8_to_type (dec_u8 t), rvalue = val\<rparr>), s5))"

lemma stream_read_rest: "stream_read n i s = (a, s') \<Longrightarrow> length s' \<le> length s"
  by (auto simp: stream_read_def)

lemma read_body_rest_le: "length (snd (snd (read_body junk s))) \<le> length s"
  unfolding read_body_def Let_def
  by (auto split: prod.split dest!: stream_read_rest)

lemma read_body_rest: "read_body junk s = (body, r, rest) \<Longrightarrow> length rest \<le> length s"
  using read_body_rest_le [of junk s] by simp

function load_log :: "junk \<Rightarrow> bytes \<Rightarrow> row list" where
  "load_log junk s =
     (if length s < 4 then []
      else
        let saved_crc = dec_u32 (take 4 s)
        in case read_body junk (drop 4 s) of (body, r, rest) \<Rightarrow>
             if CalculateCRC32 body \<noteq> saved_crc then []
             else r # load_log junk rest)"
  by pat_completeness auto
termination
  by (relation "measure (\<lambda>(j, s). length s)") (auto dest!: sym [THEN read_body_rest])

declare load_log.simps [simp del]

text \<open>\<open>LoadLog\<close>: the records handed to the callback, in order; a missing file yields none.\<close>

definition LoadLog :: "junk \<Rightarrow> WalHandler \<Rightarrow> fsys \<Rightarrow> row list" where
  "LoadLog junk w fs =
     (case fs_read fs (filename w) of None \<Rightarrow> [] | Some s \<Rightarrow> load_log junk s)"

section \<open>The CRC table is the bit-serial CRC\<close>

lemma crc_bit_xor: "crc_bit (x XOR y) = crc_bit x XOR crc_bit y"
proof -
  have *: "x AND 1 \<noteq> 0 \<longleftrightarrow> bit x 0" for x :: u32
    by (simp add: and_one_eq bit_0 odd_iff_mod_2_eq_one)
  show ?thesis
    unfolding crc_bit_def *
    by (rule bit_word_eqI) (auto simp: bit_simps)
qed

lemma crc_bit_pow_xor: "(crc_bit ^^ n) (x XOR y) = (crc_bit ^^ n) x XOR (crc_bit ^^ n) y"
  by (induction n) (simp_all add: crc_bit_xor)

lemma crc_bit_pow_high:
  "(\<forall>i<n. \<not> bit x i) \<Longrightarrow> (crc_bit ^^ n) x = drop_bit n x"
proof (induction n)
  case (Suc n)
  have "\<not> bit (drop_bit n x) 0" using Suc.prems by (simp add: bit_drop_bit_eq)
  then have "drop_bit n x AND 1 = 0" by (simp add: and_one_eq bit_0 even_iff_mod_2_eq_zero)
  with Suc show ?case by (simp add: crc_bit_def)
qed simp

lemma crc_bit_8: "(crc_bit ^^ 8) x = drop_bit 8 x XOR (crc_bit ^^ 8) (x AND 0xFF)"
proof -
  have mask: "(0xFF :: u32) = mask 8" by (simp add: mask_eq_exp_minus_1)
  have x: "x = (x AND NOT 0xFF) XOR (x AND 0xFF)"
    by (rule bit_word_eqI) (auto simp: bit_simps)
  have "(crc_bit ^^ 8) (x AND NOT 0xFF) = drop_bit 8 (x AND NOT 0xFF)"
    by (rule crc_bit_pow_high) (auto simp: bit_simps mask)
  also have "\<dots> = drop_bit 8 x"
    unfolding mask by (rule bit_word_eqI) (auto simp: bit_simps dest: bit_imp_le_length)
  finally show ?thesis
    by (subst x) (simp only: crc_bit_pow_xor)
qed

lemma crc_update_bitwise: "crc_update crc c = (crc_bit ^^ 8) (crc XOR char_to_byte c)"
proof -
  let ?x = "crc XOR char_to_byte c"
  have "unat (?x AND 0xFF) < 256"
    using word_and_le1 [of ?x "0xFF"] by (simp add: word_le_nat_alt)
  then have "crc_table ! unat (?x AND 0xFF) = (crc_bit ^^ 8) (?x AND 0xFF)"
    by (simp add: crc_table_def del: funpow.simps)
  moreover have "drop_bit 8 (char_to_byte c) = 0"
  proof -
    have "of_char c mod 4294967296 div 256 = (0::nat)" using of_char_less [of c] by linarith
    then show ?thesis
      by (simp add: word_unat_eq_iff drop_bit_eq_div unat_div char_to_byte_def unat_of_nat)
  qed
  ultimately show ?thesis
    by (simp add: crc_update_def crc_bit_8 [of ?x] drop_bit_xor del: funpow.simps)
qed

lemma crc_bits_8: "(crc_bit ^^ 8) x = crc_bit (crc_bit (crc_bit (crc_bit (crc_bit (crc_bit (crc_bit (crc_bit x)))))))"
  by (simp add: numeral_eq_Suc)

lemma crc32_check: "crc32_bitwise ''123456789'' = 0xCBF43926"
  unfolding crc32_bitwise_def foldl.simps by (simp add: crc_bits_8 crc_bit_def char_to_byte_def)

lemma CalculateCRC32_bitwise_aux: "CalculateCRC32 d = crc32_bitwise d"
proof -
  have "crc_update = (\<lambda>crc c. (crc_bit ^^ 8) (crc XOR char_to_byte c))"
    by (intro ext) (rule crc_update_bitwise)
  then show ?thesis by (simp add: CalculateCRC32_def crc32_bitwise_def)
qed

section \<open>Recovery reads back what was logged\<close>

lemma stream_read_full [simp]: "length a = n \<Longrightarrow> stream_read n init (a @ s) = (a, s)"
  if "length init = n"
  using that by (simp add: stream_read_def)

definition junk_ok :: "junk \<Rightarrow> bool" where
  "junk_ok j \<longleftrightarrow> (case j of (jt, jk, jv) \<Rightarrow> length jt = 1 \<and> length jk = 4 \<and> length jv = 4)"

lemma read_body_payload:
  assumes "row_ok r" "junk_ok junk"
  shows "read_body junk (wal_payload (fst r) (rvalue (snd r)) (vtype (snd r)) @ s) =
           (wal_payload (fst r) (rvalue (snd r)) (vtype (snd r)), r, s)"
  using assms
  by (cases r; cases junk)
     (simp add: read_body_def wal_payload_def row_ok_def junk_ok_def unat_u32_length Let_def)

lemma load_log_record:
  assumes "row_ok r" "junk_ok junk"
  shows "load_log junk (wal_record r @ s) = r # load_log junk s"
  by (subst load_log.simps)
     (simp add: wal_record_def Let_def read_body_payload [OF assms])

lemma load_log_append_aux:
  assumes "\<forall>r\<in>set rs. row_ok r" "junk_ok junk"
  shows "load_log junk (concat (map wal_record rs) @ tail) = rs @ load_log junk tail"
  using assms by (induction rs) (simp_all add: load_log_record)

lemma load_log_short: "length s < 4 \<Longrightarrow> load_log junk s = []"
  by (subst load_log.simps) simp

lemma fs_read_AddLog:
  "fs_read (AddLog w k v t fs) n =
     (if is_open w \<and> n = filename w
      then map_option (\<lambda>c. c @ wal_record (k, \<lparr>vtype = t, rvalue = v\<rparr>)) (fs_read fs n)
      else fs_read fs n)"
  by (auto simp: AddLog_def wal_record_def Let_def)

lemma can_write_AddLog [simp]: "can_write (AddLog w k v t fs) = can_write fs"
  by (simp add: AddLog_def Let_def)

subsection \<open>Torn tails\<close>

lemma stream_read_extend:
  "stream_read n i s = (a, s') \<Longrightarrow> s' \<noteq> [] \<Longrightarrow> stream_read n i (s @ m) = (a, s' @ m)"
  by (auto simp: stream_read_def)

lemma stream_read_nonempty: "stream_read n i s = (a, s') \<Longrightarrow> s' \<noteq> [] \<Longrightarrow> s \<noteq> []"
  by (auto simp: stream_read_def)

lemma read_body_extend:
  assumes "read_body junk s = (b, r, rest)" "rest \<noteq> []"
  shows "read_body junk (s @ m) = (b, r, rest @ m)"
proof -
  obtain jt jk jv where j: "junk = (jt, jk, jv)" by (cases junk)
  obtain t s1 where 1: "stream_read (Suc 0) jt s = (t, s1)" by (cases "stream_read (Suc 0) jt s")
  obtain kl s2 where 2: "stream_read 4 jk s1 = (kl, s2)" by (cases "stream_read 4 jk s1")
  let ?k = "unat (dec_u32 kl)"
  obtain key s3 where 3: "stream_read ?k (replicate ?k (CHR 0x00)) s2 = (key, s3)"
    by (cases "stream_read ?k (replicate ?k (CHR 0x00)) s2")
  obtain vl s4 where 4: "stream_read 4 jv s3 = (vl, s4)" by (cases "stream_read 4 jv s3")
  let ?v = "unat (dec_u32 vl)"
  obtain val s5 where 5: "stream_read ?v (replicate ?v (CHR 0x00)) s4 = (val, s5)"
    by (cases "stream_read ?v (replicate ?v (CHR 0x00)) s4")
  note eqs = 1 2 3 4 5
  have "s5 = rest" using assms(1) by (simp add: read_body_def j eqs)
  with assms(2) have "s5 \<noteq> []" "s4 \<noteq> []" "s3 \<noteq> []" "s2 \<noteq> []" "s1 \<noteq> []"
    using eqs by (auto dest: stream_read_nonempty)
  note ext = eqs [THEN stream_read_extend, of m]
  show ?thesis
    using assms(1) \<open>s1 \<noteq> []\<close> \<open>s2 \<noteq> []\<close> \<open>s3 \<noteq> []\<close> \<open>s4 \<noteq> []\<close> \<open>s5 \<noteq> []\<close>
    by (simp add: read_body_def j eqs ext)
qed

lemma load_log_torn_record:
  assumes "row_ok r" "junk_ok junk" "n < length (wal_record r)"
  shows "length (load_log junk (take n (wal_record r))) \<le> 1"
proof (cases "n < 4")
  case True
  then show ?thesis by (simp add: load_log_short)
next
  case False
  let ?p = "wal_payload (fst r) (rvalue (snd r)) (vtype (snd r))"
  let ?s = "take (n - 4) ?p" and ?m = "drop (n - 4) ?p"
  have w: "wal_record r = enc_u32 (CalculateCRC32 ?p) @ ?p" by (simp add: wal_record_def Let_def)
  have m: "?m \<noteq> []" using assms(3) False by (simp add: w)
  obtain b x rest where rb: "read_body junk ?s = (b, x, rest)" by (cases "read_body junk ?s")
  have "rest = []"
  proof (rule ccontr)
    assume "rest \<noteq> []"
    from read_body_extend [OF rb this, of ?m] read_body_payload [OF assms(1,2), of "[]"] m
    show False by simp
  qed
  moreover have "drop 4 (take n (wal_record r)) = ?s" using False by (simp add: w)
  ultimately show ?thesis
    using rb by (subst load_log.simps) (simp add: Let_def load_log_short)
qed

definition add_logs :: "WalHandler \<Rightarrow> row list \<Rightarrow> fsys \<Rightarrow> fsys" where
  "add_logs w rs fs = fold (\<lambda>(k, v). AddLog w k (rvalue v) (vtype v)) rs fs"

lemma fs_read_add_logs:
  "is_open w \<Longrightarrow> fs_read fs (filename w) = Some c \<Longrightarrow>
   fs_read (add_logs w rs fs) (filename w) = Some (c @ concat (map wal_record rs))"
  by (induction rs arbitrary: fs c) (auto simp: add_logs_def fs_read_AddLog)

section \<open>Properties\<close>

text \<open>
  C28: the table-driven CRC agrees with the bit-serial CRC-32 of the reflected polynomial
  \<open>0xEDB88320\<close> on every input, and gives the published check value of CRC-32 on the standard
  check string.
\<close>

theorem CalculateCRC32_bitwise:
  "CalculateCRC32 d = crc32_bitwise d \<and> CalculateCRC32 ''123456789'' = 0xCBF43926"
  by (simp add: CalculateCRC32_bitwise_aux crc32_check)

text \<open>
  C24: loading a log returns the records it held before and then every record that was added to
  it, in order, each with its key, value and type.
\<close>

theorem wal_roundtrip:
  assumes "junk_ok junk" "is_open w" "\<forall>r\<in>set (old @ rs). row_ok r"
    and "fs_read fs (filename w) = Some (concat (map wal_record old))"
  shows "LoadLog junk w (add_logs w rs fs) = old @ rs"
  using load_log_append_aux [OF assms(3,1), of "[]"] fs_read_add_logs [OF assms(2,4), of rs]
  by (simp add: LoadLog_def load_log_short)

theorem wal_roundtrip_witness:
  "LoadLog (''?'', ''????'', ''????'') \<lparr>filename = ''1.wal'', is_open = True\<rparr>
     (add_logs \<lparr>filename = ''1.wal'', is_open = True\<rparr>
       [(''k'', \<lparr>vtype = kValue, rvalue = ''v''\<rparr>), (''k'', \<lparr>vtype = kDeletion, rvalue = ''''\<rparr>)]
       (fs_write ''1.wal'' [] empty_fs)) =
   [(''k'', \<lparr>vtype = kValue, rvalue = ''v''\<rparr>), (''k'', \<lparr>vtype = kDeletion, rvalue = ''''\<rparr>)]"
  using wal_roundtrip [of "(''?'', ''????'', ''????'')" "\<lparr>filename = ''1.wal'', is_open = True\<rparr>" "[]"
      "[(''k'', \<lparr>vtype = kValue, rvalue = ''v''\<rparr>), (''k'', \<lparr>vtype = kDeletion, rvalue = ''''\<rparr>)]"
      "fs_write ''1.wal'' [] empty_fs"]
  by (simp add: junk_ok_def row_ok_def)

text \<open>
  C27: when a crash leaves a proper prefix of the last record, loading returns every complete
  record before it and at most one record more (the checksum decides), and stops there.
\<close>

theorem wal_torn_tail:
  assumes "junk_ok junk" "\<forall>r\<in>set rs. row_ok r" "row_ok r" "n < length (wal_record r)"
  shows "\<exists>extra. load_log junk (concat (map wal_record rs) @ take n (wal_record r)) = rs @ extra \<and>
           length extra \<le> 1"
  using load_log_append_aux [OF assms(2,1)] load_log_torn_record [OF assms(3,1,4)] by blast

theorem wal_torn_tail_witness:
  "\<exists>extra. load_log (''?'', ''????'', ''????'')
       (concat (map wal_record [(''a'', \<lparr>vtype = kValue, rvalue = ''1''\<rparr>)])
        @ take 6 (wal_record (''b'', \<lparr>vtype = kValue, rvalue = ''2''\<rparr>))) =
     [(''a'', \<lparr>vtype = kValue, rvalue = ''1''\<rparr>)] @ extra \<and> length extra \<le> 1"
  by (rule wal_torn_tail) (simp_all add: junk_ok_def row_ok_def wal_record_def wal_payload_def Let_def)

end
