(* ===== verification/MemTable.thy ===== *)
theory MemTable
  imports SkipList WalHandler
begin

text \<open>
  The memtable (\<open>include/MemTable.h\<close>): a write-ahead log in front of a skip list. Every operation
  runs under the table's \<open>rw_lock_\<close>, so it is one atomic step on the pair of the table and the
  directory. \<open>None\<close> stands for undefined behaviour of the skip list; it is shown never to occur.
\<close>

record MemTable =
  wal :: WalHandler
  table :: "(bytes, ValueRecord) SkipList"

definition ValueRecord_default :: ValueRecord where
  "ValueRecord_default = \<lparr>vtype = kValue, rvalue = []\<rparr>"

text \<open>The default argument \<open>max_level = 16\<close>.\<close>

definition memtable_max_level :: nat where
  "memtable_max_level = 16"

definition new_MemTable :: "string \<Rightarrow> nat \<Rightarrow> fsys \<Rightarrow> MemTable \<times> fsys" where
  "new_MemTable wal_file maxl fs =
     (case new_WalHandler wal_file fs of (w, fs') \<Rightarrow>
        (\<lparr>wal = w, table = new_SkipList [] ValueRecord_default maxl\<rparr>, fs'))"

definition MemTable_Put ::
  "(nat \<Rightarrow> bool) \<Rightarrow> bytes \<Rightarrow> ValueRecord \<Rightarrow> MemTable \<times> fsys \<Rightarrow> (MemTable \<times> fsys) option" where
  "MemTable_Put coin key val mf =
     (case mf of (m, fs) \<Rightarrow>
        let fs' = AddLog (wal m) key (rvalue val) (vtype val) fs
        in do {
          t \<leftarrow> insert_element coin key val (table m);
          Some (m\<lparr>table := t\<rparr>, fs')
        })"

definition MemTable_Get :: "MemTable \<Rightarrow> bytes \<Rightarrow> ValueRecord option option" where
  "MemTable_Get m key = search_element key (table m)"

definition MemTable_Remove ::
  "(nat \<Rightarrow> bool) \<Rightarrow> bytes \<Rightarrow> MemTable \<times> fsys \<Rightarrow> (MemTable \<times> fsys) option" where
  "MemTable_Remove coin key mf =
     (case mf of (m, fs) \<Rightarrow>
        let fs' = AddLog (wal m) key [] kDeletion fs
        in do {
          t \<leftarrow> insert_element coin key \<lparr>vtype = kDeletion, rvalue = []\<rparr> (table m);
          Some (m\<lparr>table := t\<rparr>, fs')
        })"

definition MemTable_Count :: "MemTable \<Rightarrow> int" where
  "MemTable_Count m = sl_size (table m)"

definition MemTable_Snapshot :: "MemTable \<Rightarrow> row list option" where
  "MemTable_Snapshot m = sl_rows (table m)"

definition ApplyWithoutWal ::
  "(nat \<Rightarrow> bool) \<Rightarrow> bytes \<Rightarrow> ValueRecord \<Rightarrow> MemTable \<Rightarrow> MemTable option" where
  "ApplyWithoutWal coin key val m = do {
     t \<leftarrow> insert_element coin key val (table m);
     Some (m\<lparr>table := t\<rparr>)
   }"

text \<open>The product is an \<open>int\<close>, undefined out of its range, converted to \<open>size_t\<close>.\<close>

definition ApproximateMemoryUsage :: "MemTable \<Rightarrow> u64 option" where
  "ApproximateMemoryUsage m =
     (let n = sl_size (table m) * 128 in if - (2 ^ 31) \<le> n \<and> n < 2 ^ 31 then Some (of_int n) else None)"

definition GetWalPath :: "MemTable \<Rightarrow> string" where
  "GetWalPath m = filename (wal m)"

section \<open>Contents and invariant\<close>

definition mem_ok :: "MemTable \<Rightarrow> bool" where
  "mem_ok m \<longleftrightarrow> sl_ok (table m)"

definition mem_rows :: "MemTable \<Rightarrow> row list" where
  "mem_rows m = sl_contents (table m)"

interpretation mem: ordered_index mem_ok mem_rows ApplyWithoutWal "\<lambda>k m. MemTable_Get m k" MemTable_Snapshot
proof (unfold_locales)
  fix m :: MemTable and c k v
  assume "mem_ok m"
  then have ok: "sl_ok (table m)" by (simp add: mem_ok_def)
  show "sorted_keys (mem_rows m)" unfolding mem_rows_def by (rule skl.contents_sorted [OF ok])
  obtain t where "insert_element c k v (table m) = Some t" "sl_ok t"
      "sl_contents t = upsert k v (sl_contents (table m))"
    by (rule skl.ins_obtain [OF ok])
  then show "\<exists>m'. ApplyWithoutWal c k v m = Some m' \<and> mem_ok m' \<and> mem_rows m' = upsert k v (mem_rows m)"
    by (simp add: ApplyWithoutWal_def mem_ok_def mem_rows_def)
  show "MemTable_Get m k = Some (map_of (mem_rows m) k)"
    unfolding MemTable_Get_def mem_rows_def by (rule skl.search_law [OF ok])
  show "MemTable_Snapshot m = Some (mem_rows m)"
    unfolding MemTable_Snapshot_def mem_rows_def by (rule skl.rows_law [OF ok])
qed

lemma MemTable_Count_rows: "mem_ok m \<Longrightarrow> MemTable_Count m = sint (of_nat (length (mem_rows m)) :: u32)"
  by (simp add: MemTable_Count_def mem_rows_def mem_ok_def sl_size_contents)

lemma MemTable_Count_small: "mem_ok m \<Longrightarrow> length (mem_rows m) < 2 ^ 31 \<Longrightarrow> MemTable_Count m = int (length (mem_rows m))"
  by (simp add: MemTable_Count_rows sint_of_nat_small)

lemma new_MemTable_ok:
  assumes "new_MemTable f memtable_max_level fs = (m, fs')"
  shows "mem_ok m" "mem_rows m = []" "filename (wal m) = f" "is_open (wal m) = can_write fs f"
    "fs' = (if can_write fs f then fs_touch f fs else fs)"
  using assms
  by (auto simp: new_MemTable_def new_WalHandler_def mem_ok_def mem_rows_def memtable_max_level_def
      sl_ok_new split: if_splits)

lemma ApplyWithoutWal_wal: "ApplyWithoutWal c k v m = Some m' \<Longrightarrow> wal m' = wal m"
  by (auto simp: ApplyWithoutWal_def elim!: bind_eq_SomeE)

lemma MemTable_Put_eq:
  "MemTable_Put c k v (m, fs) =
     map_option (\<lambda>m'. (m', AddLog (wal m) k (rvalue v) (vtype v) fs)) (ApplyWithoutWal c k v m)"
  by (cases "insert_element c k v (table m)") (simp_all add: MemTable_Put_def ApplyWithoutWal_def)

lemma MemTable_Remove_eq:
  "MemTable_Remove c k mf = MemTable_Put c k \<lparr>vtype = kDeletion, rvalue = []\<rparr> mf"
  by (simp add: MemTable_Remove_def MemTable_Put_def)

lemma MemTable_Put_ok:
  assumes "mem_ok m"
  obtains m' where "MemTable_Put c k v (m, fs) = Some (m', AddLog (wal m) k (rvalue v) (vtype v) fs)"
    "mem_ok m'" "mem_rows m' = upsert k v (mem_rows m)" "wal m' = wal m"
proof -
  obtain m' where "ApplyWithoutWal c k v m = Some m'" "mem_ok m'" "mem_rows m' = upsert k v (mem_rows m)"
    by (rule mem.ins_obtain [OF assms])
  then show thesis by (intro that [of m']) (simp_all add: MemTable_Put_eq ApplyWithoutWal_wal)
qed

end
