(* ===== verification/ManifestManager.thy ===== *)
theory ManifestManager
  imports FileSystem
begin

text \<open>
  The manifest (\<open>include/ManifestManager.h\<close>, \<open>src/ManifestManager.cpp\<close>): the set of live SST and
  WAL files and the file-number counter, kept as a snapshot file \<open>MANIFEST\<close> and a log of edits
  \<open>MANIFEST.log\<close>. The theory models every operation on the directory's bytes and shows that what
  \<open>Load\<close> and \<open>ReplayLog\<close> rebuild is the in-memory state, also when a crash interrupts an append
  or a checkpoint.

  \<open>sst_levels\<close> and \<open>live_wals\<close> are unordered containers; the model lists them in ascending order.
  \<open>PersistState\<close> sorts the SST entries itself; the order in which it enumerates the WAL ids is
  unspecified, and \<open>load_wals_order\<close> shows that loading does not depend on it.
\<close>

section \<open>State\<close>

datatype ManifestOp = SetNextFileNumber | AddSST | DelSST | AddWAL | DelWAL

record ManifestState =
  next_file_number :: u64
  sst_levels :: "(u64, u32) omap"
  live_wals :: "u64 list"

record ManifestManager =
  edits_since_checkpoint :: u32
  mstate :: ManifestState

definition empty_state :: ManifestState where
  "empty_state = \<lparr>next_file_number = 0, sst_levels = [], live_wals = []\<rparr>"

definition new_ManifestManager :: ManifestManager where
  "new_ManifestManager = \<lparr>edits_since_checkpoint = 0, mstate = empty_state\<rparr>"

definition kManifestMagic :: u32 where "kManifestMagic = 0x12345678"

definition kManifestVersion :: u32 where "kManifestVersion = 1"

definition kManifestCheckpointThreshold :: u32 where "kManifestCheckpointThreshold = 100"

definition manifest_path :: string where "manifest_path = ''MANIFEST''"

definition manifest_tmp_path :: string where "manifest_tmp_path = ''MANIFEST.tmp''"

definition manifest_log_path :: string where "manifest_log_path = ''MANIFEST.log''"

definition omap_erase :: "'k \<Rightarrow> ('k \<times> 'v) list \<Rightarrow> ('k \<times> 'v) list" where
  "omap_erase k m = filter (\<lambda>(a, _). a \<noteq> k) m"

definition oset_insert :: "'a::linorder \<Rightarrow> 'a list \<Rightarrow> 'a list" where
  "oset_insert x xs = (if x \<in> set xs then xs else insort x xs)"

definition oset_erase :: "'a \<Rightarrow> 'a list \<Rightarrow> 'a list" where
  "oset_erase x xs = removeAll x xs"

fun op_to_u8 :: "ManifestOp \<Rightarrow> u8" where
  "op_to_u8 SetNextFileNumber = 1"
| "op_to_u8 AddSST = 2"
| "op_to_u8 DelSST = 3"
| "op_to_u8 AddWAL = 4"
| "op_to_u8 DelWAL = 5"

text \<open>The cast of \<open>op_raw\<close> with the range check that follows it.\<close>

definition u8_to_op :: "u8 \<Rightarrow> ManifestOp option" where
  "u8_to_op b =
     (if b = 1 then Some SetNextFileNumber else if b = 2 then Some AddSST
      else if b = 3 then Some DelSST else if b = 4 then Some AddWAL
      else if b = 5 then Some DelWAL else None)"

fun op_payload_size :: "ManifestOp \<Rightarrow> u32" where
  "op_payload_size SetNextFileNumber = 8"
| "op_payload_size AddSST = 8 + 4"
| "op_payload_size DelSST = 8"
| "op_payload_size AddWAL = 8"
| "op_payload_size DelWAL = 8"

section \<open>Edits\<close>

fun ApplyEdit :: "ManifestOp \<Rightarrow> u64 \<Rightarrow> u32 \<Rightarrow> ManifestState \<Rightarrow> ManifestState" where
  "ApplyEdit SetNextFileNumber i level st = st\<lparr>next_file_number := i\<rparr>"
| "ApplyEdit DelSST i level st = st\<lparr>sst_levels := omap_erase i (sst_levels st)\<rparr>"
| "ApplyEdit AddWAL i level st = st\<lparr>live_wals := oset_insert i (live_wals st)\<rparr>"
| "ApplyEdit DelWAL i level st = st\<lparr>live_wals := oset_erase i (live_wals st)\<rparr>"
| "ApplyEdit AddSST i level st = st\<lparr>sst_levels := upsert i level (sst_levels st)\<rparr>"

definition edit_bytes :: "ManifestOp \<Rightarrow> u64 \<Rightarrow> u32 \<Rightarrow> bytes" where
  "edit_bytes op i level =
     enc_u32 kManifestMagic @ enc_u32 kManifestVersion @ enc_u8 (op_to_u8 op)
       @ enc_u32 (op_payload_size op)
       @ (if op = AddSST then enc_u64 i @ enc_u32 level else enc_u64 i)"

text \<open>
  The operations that write are given by their result and the sequence of their writes, so that the
  states a crash can leave behind are those of the very same definitions.
\<close>

definition AppendEdit_ops :: "ManifestOp \<Rightarrow> u64 \<Rightarrow> u32 \<Rightarrow> fsys \<Rightarrow> bool \<times> fs_op list" where
  "AppendEdit_ops op i level fs =
     (if can_write fs manifest_log_path
      then (True, [OpTouch manifest_log_path, OpAppend manifest_log_path (edit_bytes op i level)])
      else (False, []))"

definition AppendEdit :: "ManifestOp \<Rightarrow> u64 \<Rightarrow> u32 \<Rightarrow> fsys \<Rightarrow> bool \<times> fsys" where
  "AppendEdit op i level fs = run_ops (AppendEdit_ops op i level fs) fs"

lemma AppendEdit_eq:
  "AppendEdit op i level fs =
     (if can_write fs manifest_log_path
      then (True, fs_append manifest_log_path (edit_bytes op i level) (fs_touch manifest_log_path fs))
      else (False, fs))"
  by (simp add: AppendEdit_def AppendEdit_ops_def run_ops_def)

text \<open>\<open>istream::read\<close>: fails when fewer bytes are left.\<close>

definition stream_get :: "nat \<Rightarrow> bytes \<Rightarrow> (bytes \<times> bytes) option" where
  "stream_get n s = (if n \<le> length s then Some (take n s, drop n s) else None)"

lemma rd_rest: "stream_get n s = Some (a, s') \<Longrightarrow> length s' + n = length s \<and> length a = n"
  by (auto simp: stream_get_def split: if_splits)

lemma rd_append [simp]: "length a = n \<Longrightarrow> stream_get n (a @ s) = Some (a, s)"
  by (simp add: stream_get_def)

lemma rd_short: "length s < n \<Longrightarrow> stream_get n s = None"
  by (simp add: stream_get_def)

text \<open>One pass of the replay loop: stop with a result, or an edit and the rest of the log.\<close>

datatype replay_step = ReplayStop bool | ReplayEdit ManifestOp u64 u32 bytes

definition read_payload :: "ManifestOp \<Rightarrow> bytes \<Rightarrow> (u64 \<times> u32 \<times> bytes) option" where
  "read_payload op s =
     (if op = AddSST then do {
        (i, s1) \<leftarrow> stream_get 8 s;
        (l, s2) \<leftarrow> stream_get 4 s1;
        Some (dec_u64 i, dec_u32 l, s2)
      }
      else do { (i, s1) \<leftarrow> stream_get 8 s; Some (dec_u64 i, 0, s1) })"

definition replay_one :: "bytes \<Rightarrow> replay_step" where
  "replay_one s =
     (case stream_get 4 s of
        None \<Rightarrow> ReplayStop True
      | Some (magic, s1) \<Rightarrow>
          if dec_u32 magic \<noteq> kManifestMagic then ReplayStop False
          else
            (case do { (version, s2) \<leftarrow> stream_get 4 s1; (op_raw, s3) \<leftarrow> stream_get 1 s2; (sz, s4) \<leftarrow> stream_get 4 s3;
                       Some (dec_u32 version, dec_u8 op_raw, dec_u32 sz, s4) } of
               None \<Rightarrow> ReplayStop True
             | Some (version, op_raw, sz, s4) \<Rightarrow>
                 (case u8_to_op op_raw of
                    None \<Rightarrow> ReplayStop False
                  | Some op \<Rightarrow>
                      if sz \<noteq> op_payload_size op then ReplayStop False
                      else if version \<noteq> kManifestVersion then ReplayStop False
                      else
                        (case read_payload op s4 of
                           None \<Rightarrow> ReplayStop True
                         | Some (i, level, rest) \<Rightarrow> ReplayEdit op i level rest))))"

lemma read_payload_rest: "read_payload op s = Some (i, l, rest) \<Longrightarrow> length rest < length s"
  by (auto simp: read_payload_def elim!: bind_eq_SomeE split: if_splits dest!: rd_rest)

lemma replay_one_rest:
  assumes "replay_one s = ReplayEdit op i l rest"
  shows "length rest < length s"
proof -
  from assms obtain s4 where "read_payload op s4 = Some (i, l, rest)" "length s4 \<le> length s"
    by (auto simp: replay_one_def elim!: bind_eq_SomeE split: option.splits if_splits prod.splits
        dest!: rd_rest)
  then show ?thesis using read_payload_rest by fastforce
qed

function replay_loop :: "bytes \<Rightarrow> ManifestState \<Rightarrow> bool \<times> ManifestState" where
  "replay_loop s st =
     (case replay_one s of
        ReplayStop b \<Rightarrow> (b, st)
      | ReplayEdit op i level rest \<Rightarrow> replay_loop rest (ApplyEdit op i level st))"
  by pat_completeness auto
termination
  by (relation "measure (\<lambda>(s, st). length s)") (auto dest: replay_one_rest)

declare replay_loop.simps [simp del]

definition ReplayLog :: "fsys \<Rightarrow> ManifestManager \<Rightarrow> bool \<times> ManifestManager" where
  "ReplayLog fs m =
     (case fs_read fs manifest_log_path of
        None \<Rightarrow> (True, m)
      | Some s \<Rightarrow> (case replay_loop s (mstate m) of (ok, st) \<Rightarrow> (ok, m\<lparr>mstate := st\<rparr>)))"

section \<open>Snapshots\<close>

definition sst_entry_bytes :: "u64 \<times> u32 \<Rightarrow> bytes" where
  "sst_entry_bytes e = enc_u64 (fst e) @ enc_u32 (snd e)"

definition snapshot_bytes :: "ManifestState \<Rightarrow> bytes" where
  "snapshot_bytes st =
     enc_u32 kManifestMagic @ enc_u32 kManifestVersion @ enc_u64 (next_file_number st)
       @ enc_u32 (of_nat (length (sst_levels st))) @ concat (map sst_entry_bytes (sst_levels st))
       @ enc_u32 (of_nat (length (live_wals st))) @ concat (map enc_u64 (live_wals st))"

definition PersistState_ops :: "ManifestState \<Rightarrow> fsys \<Rightarrow> bool \<times> fs_op list" where
  "PersistState_ops st fs =
     (if can_write fs manifest_tmp_path
      then (True, [OpTrunc manifest_tmp_path, OpAppend manifest_tmp_path (snapshot_bytes st), OpRename manifest_tmp_path manifest_path])
      else (False, []))"

definition PersistState :: "ManifestState \<Rightarrow> fsys \<Rightarrow> bool \<times> fsys" where
  "PersistState st fs = run_ops (PersistState_ops st fs) fs"

lemma PersistState_eq:
  "PersistState st fs =
     (if can_write fs manifest_tmp_path
      then (True, fs_rename manifest_tmp_path manifest_path
                    (fs_write manifest_tmp_path (snapshot_bytes st) fs))
      else (False, fs))"
  by (simp add: PersistState_def PersistState_ops_def run_ops_def)

fun load_ssts :: "nat \<Rightarrow> bytes \<Rightarrow> (u64, u32) omap \<Rightarrow> bytes option \<times> (u64, u32) omap" where
  "load_ssts 0 s m = (Some s, m)"
| "load_ssts (Suc n) s m =
     (case stream_get 8 s of
        None \<Rightarrow> (None, m)
      | Some (i, s1) \<Rightarrow>
          (case stream_get 4 s1 of
             None \<Rightarrow> (None, m)
           | Some (l, s2) \<Rightarrow> load_ssts n s2 (upsert (dec_u64 i) (dec_u32 l) m)))"

fun load_wals :: "nat \<Rightarrow> bytes \<Rightarrow> u64 list \<Rightarrow> bool \<times> u64 list" where
  "load_wals 0 s ws = (True, ws)"
| "load_wals (Suc n) s ws =
     (case stream_get 8 s of
        None \<Rightarrow> (False, ws)
      | Some (i, s1) \<Rightarrow> load_wals n s1 (oset_insert (dec_u64 i) ws))"

text \<open>The header of a snapshot: the checks up to the number of SSTs.\<close>

definition load_header :: "bytes \<Rightarrow> (u64 \<times> u32 \<times> bytes) option" where
  "load_header s = do {
     (magic, s1) \<leftarrow> stream_get 4 s;
     if dec_u32 magic \<noteq> kManifestMagic then None
     else do {
       (version, s2) \<leftarrow> stream_get 4 s1;
       if dec_u32 version \<noteq> kManifestVersion then None
       else do {
         (nfn, s3) \<leftarrow> stream_get 8 s2;
         (cnt, s4) \<leftarrow> stream_get 4 s3;
         Some (dec_u64 nfn, dec_u32 cnt, s4)
       }
     }
   }"

text \<open>A failure after the header leaves the state partly overwritten, as in the source.\<close>

definition load_snapshot :: "bytes \<Rightarrow> ManifestState \<Rightarrow> bool \<times> ManifestState" where
  "load_snapshot s st =
     (case load_header s of
        None \<Rightarrow> (False, st)
      | Some (nfn, cnt, s4) \<Rightarrow>
          (case load_ssts (unat cnt) s4 [] of
             (None, m) \<Rightarrow> (False, st\<lparr>next_file_number := nfn, sst_levels := m\<rparr>)
           | (Some s5, m) \<Rightarrow>
               (let st1 = st\<lparr>next_file_number := nfn, sst_levels := m, live_wals := []\<rparr>
                in case stream_get 4 s5 of
                     None \<Rightarrow> (False, st1)
                   | Some (wc, s6) \<Rightarrow>
                       (case load_wals (unat (dec_u32 wc)) s6 [] of
                          (ok, ws) \<Rightarrow> (ok, st1\<lparr>live_wals := ws\<rparr>)))))"

definition LoadState :: "fsys \<Rightarrow> ManifestState \<Rightarrow> bool \<times> ManifestState" where
  "LoadState fs st =
     (case fs_read fs manifest_path of None \<Rightarrow> (False, st) | Some s \<Rightarrow> load_snapshot s st)"

definition Load :: "fsys \<Rightarrow> ManifestManager \<Rightarrow> bool \<times> ManifestManager" where
  "Load fs m =
     (case LoadState fs (mstate m) of
        (ok, st) \<Rightarrow> (ok, m\<lparr>edits_since_checkpoint := 0, mstate := st\<rparr>))"

definition Persist :: "ManifestManager \<Rightarrow> fsys \<Rightarrow> bool \<times> fsys" where
  "Persist m fs = PersistState (mstate m) fs"

definition TruncateLog_ops :: "fsys \<Rightarrow> bool \<times> fs_op list" where
  "TruncateLog_ops fs =
     (if \<not> fs_exists fs manifest_log_path then (False, [])
      else if can_write fs manifest_log_path then (True, [OpTrunc manifest_log_path])
      else (False, []))"

definition TruncateLog :: "fsys \<Rightarrow> bool \<times> fsys" where
  "TruncateLog fs = run_ops (TruncateLog_ops fs) fs"

lemma TruncateLog_eq:
  "TruncateLog fs =
     (if \<not> fs_exists fs manifest_log_path then (False, fs)
      else if can_write fs manifest_log_path then (True, fs_write manifest_log_path [] fs)
      else (False, fs))"
  by (simp add: TruncateLog_def TruncateLog_ops_def run_ops_def)

section \<open>Operations\<close>

definition MaybeCheckpoint_ops :: "ManifestManager \<times> fsys \<Rightarrow> ManifestManager \<times> fs_op list" where
  "MaybeCheckpoint_ops mf =
     (case mf of (m, fs) \<Rightarrow>
        if edits_since_checkpoint m < kManifestCheckpointThreshold then (m, [])
        else
          (case PersistState_ops (mstate m) fs of
             (False, ops1) \<Rightarrow> (m, ops1)
           | (True, ops1) \<Rightarrow>
               (case TruncateLog_ops (do_ops ops1 fs) of
                  (False, ops2) \<Rightarrow> (m, ops1 @ ops2)
                | (True, ops2) \<Rightarrow> (m\<lparr>edits_since_checkpoint := 0\<rparr>, ops1 @ ops2))))"

definition MaybeCheckpoint :: "ManifestManager \<times> fsys \<Rightarrow> ManifestManager \<times> fsys" where
  "MaybeCheckpoint mf = run_ops (MaybeCheckpoint_ops mf) (snd mf)"

definition RecordEdit_ops ::
  "ManifestOp \<Rightarrow> u64 \<Rightarrow> u32 \<Rightarrow> ManifestManager \<times> fsys \<Rightarrow> ManifestManager \<times> fs_op list" where
  "RecordEdit_ops op i level mf =
     (case mf of (m, fs) \<Rightarrow>
        (case AppendEdit_ops op i level fs of
           (False, ops1) \<Rightarrow> (case PersistState_ops (mstate m) (do_ops ops1 fs) of (_, ops2) \<Rightarrow> (m, ops1 @ ops2))
         | (True, ops1) \<Rightarrow>
             (case MaybeCheckpoint_ops (m\<lparr>edits_since_checkpoint := edits_since_checkpoint m + 1\<rparr>, do_ops ops1 fs) of
                (m', ops2) \<Rightarrow> (m', ops1 @ ops2))))"

definition RecordEdit ::
  "ManifestOp \<Rightarrow> u64 \<Rightarrow> u32 \<Rightarrow> ManifestManager \<times> fsys \<Rightarrow> ManifestManager \<times> fsys" where
  "RecordEdit op i level mf = run_ops (RecordEdit_ops op i level mf) (snd mf)"

text \<open>The same functions in terms of the ones they call.\<close>

lemma MaybeCheckpoint_eq:
  "MaybeCheckpoint mf =
     (case mf of (m, fs) \<Rightarrow>
        if edits_since_checkpoint m < kManifestCheckpointThreshold then (m, fs)
        else
          (case Persist m fs of
             (False, fs1) \<Rightarrow> (m, fs1)
           | (True, fs1) \<Rightarrow>
               (case TruncateLog fs1 of
                  (False, fs2) \<Rightarrow> (m, fs2)
                | (True, fs2) \<Rightarrow> (m\<lparr>edits_since_checkpoint := 0\<rparr>, fs2))))"
proof (cases mf)
  case (Pair m fs)
  obtain b ops1 where p: "PersistState_ops (mstate m) fs = (b, ops1)" by fastforce
  obtain c ops2 where t: "TruncateLog_ops (do_ops ops1 fs) = (c, ops2)" by fastforce
  show ?thesis
    by (cases b; cases c)
       (simp_all add: Pair p t MaybeCheckpoint_def MaybeCheckpoint_ops_def run_ops_def Persist_def PersistState_def TruncateLog_def)
qed

lemma RecordEdit_eq:
  "RecordEdit op i level mf =
     (case mf of (m, fs) \<Rightarrow>
        (case AppendEdit op i level fs of
           (False, fs1) \<Rightarrow> (case Persist m fs1 of (_, fs2) \<Rightarrow> (m, fs2))
         | (True, fs1) \<Rightarrow>
             MaybeCheckpoint (m\<lparr>edits_since_checkpoint := edits_since_checkpoint m + 1\<rparr>, fs1)))"
proof (cases mf)
  case (Pair m fs)
  obtain b ops1 where a: "AppendEdit_ops op i level fs = (b, ops1)" by fastforce
  show ?thesis
    by (cases b)
       (simp_all add: Pair a RecordEdit_def RecordEdit_ops_def run_ops_def AppendEdit_def Persist_def PersistState_def
         MaybeCheckpoint_def split: prod.split)
qed

definition upd_state :: "(ManifestState \<Rightarrow> ManifestState) \<Rightarrow> ManifestManager \<Rightarrow> ManifestManager" where
  "upd_state f m = m\<lparr>mstate := f (mstate m)\<rparr>"

definition AllocateFileNumber :: "ManifestManager \<times> fsys \<Rightarrow> u64 \<times> (ManifestManager \<times> fsys)" where
  "AllocateFileNumber mf =
     (case mf of (m, fs) \<Rightarrow>
        let m1 = upd_state (\<lambda>st. st\<lparr>next_file_number := next_file_number st + 1\<rparr>) m;
            n = next_file_number (mstate m1)
        in (n, RecordEdit SetNextFileNumber n 0 (m1, fs)))"

definition AddWal :: "u64 \<Rightarrow> ManifestManager \<times> fsys \<Rightarrow> bool \<times> (ManifestManager \<times> fsys)" where
  "AddWal w mf =
     (case mf of (m, fs) \<Rightarrow>
        if w \<in> set (live_wals (mstate m)) then (False, (m, fs))
        else (True, RecordEdit AddWAL w 0
                      (upd_state (\<lambda>st. st\<lparr>live_wals := oset_insert w (live_wals st)\<rparr>) m, fs)))"

definition RemoveWal :: "u64 \<Rightarrow> ManifestManager \<times> fsys \<Rightarrow> bool \<times> (ManifestManager \<times> fsys)" where
  "RemoveWal w mf =
     (case mf of (m, fs) \<Rightarrow>
        if w \<notin> set (live_wals (mstate m)) then (False, (m, fs))
        else (True, RecordEdit DelWAL w 0
                      (upd_state (\<lambda>st. st\<lparr>live_wals := oset_erase w (live_wals st)\<rparr>) m, fs)))"

definition AddSst :: "u64 \<Rightarrow> u32 \<Rightarrow> ManifestManager \<times> fsys \<Rightarrow> ManifestManager \<times> fsys" where
  "AddSst i level mf =
     (case mf of (m, fs) \<Rightarrow>
        RecordEdit AddSST i level
          (upd_state (\<lambda>st. st\<lparr>sst_levels := upsert i level (sst_levels st)\<rparr>) m, fs))"

definition RemoveSst :: "u64 \<Rightarrow> ManifestManager \<times> fsys \<Rightarrow> ManifestManager \<times> fsys" where
  "RemoveSst i mf =
     (case mf of (m, fs) \<Rightarrow>
        RecordEdit DelSST i 0
          (upd_state (\<lambda>st. st\<lparr>sst_levels := omap_erase i (sst_levels st)\<rparr>) m, fs))"

definition SetNextFileNumberWithoutEdit :: "u64 \<Rightarrow> ManifestManager \<Rightarrow> ManifestManager" where
  "SetNextFileNumberWithoutEdit n m = upd_state (\<lambda>st. st\<lparr>next_file_number := n\<rparr>) m"

definition SetSstLevelWithoutEdit :: "u64 \<Rightarrow> u32 \<Rightarrow> ManifestManager \<Rightarrow> ManifestManager" where
  "SetSstLevelWithoutEdit i level m =
     upd_state (\<lambda>st. st\<lparr>sst_levels := upsert i level (sst_levels st)\<rparr>) m"

definition SstLevels :: "ManifestManager \<Rightarrow> (u64, u32) omap" where
  "SstLevels m = sst_levels (mstate m)"

definition LiveWals :: "ManifestManager \<Rightarrow> u64 list" where
  "LiveWals m = live_wals (mstate m)"

section \<open>Well-formed states\<close>

definition state_ok :: "ManifestState \<Rightarrow> bool" where
  "state_ok st \<longleftrightarrow> sorted_keys (sst_levels st) \<and> sorted (live_wals st) \<and> distinct (live_wals st)"

text \<open>The counts written to a snapshot fit their 32-bit fields.\<close>

definition state_fits :: "ManifestState \<Rightarrow> bool" where
  "state_fits st \<longleftrightarrow> length (sst_levels st) < 2 ^ 32 \<and> length (live_wals st) < 2 ^ 32"

lemma sorted_keys_erase [simp]: "sorted_keys m \<Longrightarrow> sorted_keys (omap_erase k m)"
  by (simp add: omap_erase_def sorted_keys_filter)

lemma map_of_erase [simp]: "map_of (omap_erase k m) x = (if x = k then None else map_of m x)"
  by (induction m) (auto simp: omap_erase_def)

lemma oset_insert_simps [simp]:
  "set (oset_insert x xs) = insert x (set xs)"
  "sorted xs \<Longrightarrow> sorted (oset_insert x xs)"
  "distinct xs \<Longrightarrow> distinct (oset_insert x xs)"
  by (auto simp: oset_insert_def set_insort_key sorted_insort distinct_insort)

lemma oset_erase_simps [simp]:
  "set (oset_erase x xs) = set xs - {x}"
  "sorted xs \<Longrightarrow> sorted (oset_erase x xs)"
  "distinct xs \<Longrightarrow> distinct (oset_erase x xs)"
  by (auto simp: oset_erase_def distinct_removeAll removeAll_filter_not_eq sorted_filter [of id, simplified]
      sorted_wrt_filter)

lemma state_ok_empty [simp]: "state_ok empty_state"
  by (simp add: state_ok_def empty_state_def)

lemma ApplyEdit_ok [simp]: "state_ok st \<Longrightarrow> state_ok (ApplyEdit op i l st)"
  by (cases op) (simp_all add: state_ok_def)

lemma state_ok_eqI:
  assumes "state_ok a" "state_ok b" "next_file_number a = next_file_number b"
    and "map_of (sst_levels a) = map_of (sst_levels b)" "set (live_wals a) = set (live_wals b)"
  shows "a = b"
proof -
  have "sst_levels a = sst_levels b" using assms by (intro sorted_keys_eqI) (auto simp: state_ok_def)
  moreover have "live_wals a = live_wals b"
    using assms by (intro sorted_distinct_set_unique) (auto simp: state_ok_def)
  ultimately show ?thesis using assms(3) by simp
qed

section \<open>Sequences of edits\<close>

type_synonym edit = "ManifestOp \<times> u64 \<times> u32"

definition apply_edit :: "edit \<Rightarrow> ManifestState \<Rightarrow> ManifestState" where
  "apply_edit e = (case e of (op, i, l) \<Rightarrow> ApplyEdit op i l)"

definition apply_edits :: "edit list \<Rightarrow> ManifestState \<Rightarrow> ManifestState" where
  "apply_edits es = fold apply_edit es"

definition log_bytes :: "edit list \<Rightarrow> bytes" where
  "log_bytes es = concat (map (\<lambda>(op, i, l). edit_bytes op i l) es)"

lemma apply_edits_simps [simp]:
  "apply_edits [] st = st"
  "apply_edits (e # es) st = apply_edits es (apply_edit e st)"
  "apply_edits (as @ bs) st = apply_edits bs (apply_edits as st)"
  by (simp_all add: apply_edits_def)

lemma log_bytes_simps [simp]:
  "log_bytes [] = []"
  "log_bytes ((op, i, l) # es) = edit_bytes op i l @ log_bytes es"
  "log_bytes (as @ bs) = log_bytes as @ log_bytes bs"
  by (simp_all add: log_bytes_def)

lemma apply_edit_ok [simp]: "state_ok st \<Longrightarrow> state_ok (apply_edit e st)"
  by (cases e) (simp add: apply_edit_def)

lemma apply_edits_ok [simp]: "state_ok st \<Longrightarrow> state_ok (apply_edits es st)"
  by (induction es arbitrary: st) simp_all

text \<open>
  Per component an edit sequence either overwrites with a value that does not depend on the state
  it is applied to, or keeps what is there. Hence applying it twice is applying it once.
\<close>

lemma apply_edits_next:
  "\<exists>c. \<forall>st. next_file_number (apply_edits es st) = (case c of None \<Rightarrow> next_file_number st | Some n \<Rightarrow> n)"
proof (induction es)
  case (Cons e es)
  obtain op i l where e: "e = (op, i, l)" by (cases e)
  from Cons obtain c where
    c: "\<And>st. next_file_number (apply_edits es st) = (case c of None \<Rightarrow> next_file_number st | Some n \<Rightarrow> n)"
    by blast
  show ?case
  proof (cases "op = SetNextFileNumber \<and> c = None")
    case True
    then show ?thesis by (intro exI [of _ "Some i"]) (simp add: e c apply_edit_def)
  next
    case False
    then show ?thesis
      by (intro exI [of _ c]) (cases op; auto simp: e c apply_edit_def split: option.split)
  qed
qed (simp add: exI [of _ None])

lemma apply_edits_ssts:
  "\<exists>c. \<forall>st. state_ok st \<longrightarrow>
     map_of (sst_levels (apply_edits es st)) i = (case c of None \<Rightarrow> map_of (sst_levels st) i | Some r \<Rightarrow> r)"
proof (induction es)
  case (Cons e es)
  obtain op j l where e: "e = (op, j, l)" by (cases e)
  from Cons obtain c where c: "\<And>st. state_ok st \<Longrightarrow> map_of (sst_levels (apply_edits es st)) i =
      (case c of None \<Rightarrow> map_of (sst_levels st) i | Some r \<Rightarrow> r)"
    by blast
  let ?c = "case c of Some r \<Rightarrow> Some r
    | None \<Rightarrow> if op = AddSST \<and> j = i then Some (Some l) else if op = DelSST \<and> j = i then Some None else None"
  have "map_of (sst_levels (apply_edits (e # es) st)) i =
      (case ?c of None \<Rightarrow> map_of (sst_levels st) i | Some r \<Rightarrow> r)" if "state_ok st" for st
    using that c [of "apply_edit e st"]
    by (cases op) (auto simp: e apply_edit_def map_of_upsert state_ok_def split: option.split)
  then show ?case by blast
qed (simp add: exI [of _ None])

lemma apply_edits_wals:
  "\<exists>c. \<forall>st. (i \<in> set (live_wals (apply_edits es st))) = (case c of None \<Rightarrow> i \<in> set (live_wals st) | Some b \<Rightarrow> b)"
proof (induction es)
  case (Cons e es)
  obtain op j l where e: "e = (op, j, l)" by (cases e)
  from Cons obtain c where c: "\<And>st. (i \<in> set (live_wals (apply_edits es st))) =
      (case c of None \<Rightarrow> i \<in> set (live_wals st) | Some b \<Rightarrow> b)"
    by blast
  let ?c = "case c of Some b \<Rightarrow> Some b
    | None \<Rightarrow> if op = AddWAL \<and> j = i then Some True else if op = DelWAL \<and> j = i then Some False else None"
  have "(i \<in> set (live_wals (apply_edits (e # es) st))) =
      (case ?c of None \<Rightarrow> i \<in> set (live_wals st) | Some b \<Rightarrow> b)" for st
    using c [of "apply_edit e st"] by (cases op) (auto simp: e apply_edit_def split: option.split)
  then show ?case by blast
qed (simp add: exI [of _ None])

lemma overwrite_idem:
  assumes "\<exists>c. \<forall>st. P st \<longrightarrow> f (g st) = (case c of None \<Rightarrow> f st | Some r \<Rightarrow> r)" "P st" "P (g st)"
  shows "f (g (g st)) = f (g st)"
proof -
  obtain c where "\<forall>st. P st \<longrightarrow> f (g st) = (case c of None \<Rightarrow> f st | Some r \<Rightarrow> r)"
    using assms(1) by blast
  then show ?thesis using assms(2,3) by (cases c) simp_all
qed

lemma apply_edits_idem:
  assumes "state_ok st"
  shows "apply_edits es (apply_edits es st) = apply_edits es st"
proof (rule state_ok_eqI)
  show "next_file_number (apply_edits es (apply_edits es st)) = next_file_number (apply_edits es st)"
    by (rule overwrite_idem [where P = "\<lambda>_. True"]) (use apply_edits_next [of es] in simp_all)
  have "map_of (sst_levels (apply_edits es (apply_edits es st))) i = map_of (sst_levels (apply_edits es st)) i" for i
    by (rule overwrite_idem [where P = state_ok and f = "\<lambda>st. map_of (sst_levels st) i"])
       (use apply_edits_ssts [of es i] assms in simp_all)
  then show "map_of (sst_levels (apply_edits es (apply_edits es st))) = map_of (sst_levels (apply_edits es st))"
    by (rule ext)
  have "(i \<in> set (live_wals (apply_edits es (apply_edits es st)))) = (i \<in> set (live_wals (apply_edits es st)))" for i
    by (rule overwrite_idem [where P = "\<lambda>_. True" and f = "\<lambda>st. i \<in> set (live_wals st)"])
       (use apply_edits_wals [of i es] in simp_all)
  then show "set (live_wals (apply_edits es (apply_edits es st))) = set (live_wals (apply_edits es st))"
    by blast
qed (simp_all add: assms)

section \<open>Replaying a log\<close>

lemma u8_to_op_inverse [simp, codec_simps]: "u8_to_op (op_to_u8 op) = Some op"
  by (cases op) (simp_all add: u8_to_op_def)

lemma replay_one_edit:
  "replay_one (edit_bytes op i l @ s) = ReplayEdit op i (if op = AddSST then l else 0) s"
  by (simp add: replay_one_def edit_bytes_def read_payload_def)

lemma replay_loop_edit: "replay_loop (edit_bytes op i l @ s) st = replay_loop s (ApplyEdit op i l st)"
  by (subst replay_loop.simps) (cases op; simp add: replay_one_edit)

lemma replay_loop_log: "replay_loop (log_bytes es @ s) st = replay_loop s (apply_edits es st)"
  by (induction es arbitrary: st) (auto simp: replay_loop_edit apply_edit_def)

lemma replay_loop_Nil [simp]: "replay_loop [] st = (True, st)"
  by (subst replay_loop.simps) (simp add: replay_one_def stream_get_def)

lemma length_edit_bytes: "length (edit_bytes op i l) = (if op = AddSST then 25 else 21)"
  by (simp add: edit_bytes_def)

lemma replay_one_header_short:
  "length s < 9 \<Longrightarrow> replay_one (enc_u32 kManifestMagic @ s) = ReplayStop True"
  by (auto simp: replay_one_def stream_get_def [of _ s] stream_get_def [of _ "drop _ s"] stream_get_def [of _ "drop _ (drop _ s)"])

lemma replay_one_torn:
  assumes "n < length (edit_bytes op i l)"
  shows "replay_one (take n (edit_bytes op i l)) = ReplayStop True"
proof -
  let ?h = "enc_u32 kManifestVersion @ enc_u8 (op_to_u8 op) @ enc_u32 (op_payload_size op)"
  let ?b = "if op = AddSST then enc_u64 i @ enc_u32 l else enc_u64 i"
  have e: "edit_bytes op i l = enc_u32 kManifestMagic @ ?h @ ?b" by (simp add: edit_bytes_def)
  consider "n < 4" | "4 \<le> n" "n < 13" | "13 \<le> n" by linarith
  then show ?thesis
  proof cases
    case 1
    then show ?thesis by (simp add: replay_one_def stream_get_def)
  next
    case 2
    have "take n (edit_bytes op i l) = enc_u32 kManifestMagic @ take (n - 4) (?h @ ?b)"
      unfolding e using 2 by simp
    moreover have "length (take (n - 4) (?h @ ?b)) < 9" using 2 by simp
    ultimately show ?thesis by (simp only: replay_one_header_short)
  next
    case 3
    have "take n (edit_bytes op i l) = enc_u32 kManifestMagic @ ?h @ take (n - 13) ?b"
      unfolding e using 3 by simp
    moreover have "read_payload op (take (n - 13) ?b) = None"
      using assms 3 by (auto simp: length_edit_bytes read_payload_def stream_get_def split: if_splits)
    ultimately show ?thesis by (simp add: replay_one_def)
  qed
qed

lemma replay_loop_torn:
  "n < length (edit_bytes op i l) \<Longrightarrow> replay_loop (take n (edit_bytes op i l)) st = (True, st)"
  by (subst replay_loop.simps) (simp add: replay_one_torn)

text \<open>
  An edit behind a torn record. The first byte of an edit occurs nowhere else in the header of one, so
  wherever the record was cut, the bytes that follow are not taken for a header.
\<close>

definition edit_header :: "ManifestOp \<Rightarrow> bytes" where
  "edit_header op =
     enc_u32 kManifestMagic @ enc_u32 kManifestVersion @ enc_u8 (op_to_u8 op) @ enc_u32 (op_payload_size op)"

lemma length_edit_header [simp]: "length (edit_header op) = 13"
  by (simp add: edit_header_def)

lemma edit_header_bytes: "\<exists>b. edit_bytes op i l = edit_header op @ b \<and> length b = unat (op_payload_size op)"
  by (cases op) (simp_all add: edit_bytes_def edit_header_def)

lemma le_bytes_4: "le_bytes 4 m = [char_of m, char_of (m div 256), char_of (m div 256 div 256), char_of (m div 256 div 256 div 256)]"
proof -
  have "(4 :: nat) = Suc (Suc (Suc (Suc 0)))" by simp
  then show ?thesis by (simp only: le_bytes.simps)
qed

lemma edit_header_eq:
  "edit_header op = map char_of [0x78, 0x56, 0x34, 0x12, 1, 0, 0, 0, unat (op_to_u8 op), unat (op_payload_size op), 0, 0, 0 :: nat]"
  by (cases op) (simp_all add: edit_header_def enc_u32_def enc_u8_def le_bytes_4 kManifestMagic_def kManifestVersion_def)

lemma edit_header_first:
  assumes "0 < j" "j < 13"
  shows "edit_header op ! j \<noteq> edit_header op' ! 0"
proof -
  have "j = 1 \<or> j = 2 \<or> j = 3 \<or> j = 4 \<or> j = 5 \<or> j = 6 \<or> j = 7 \<or> j = 8 \<or> j = 9 \<or> j = 10 \<or> j = 11 \<or> j = 12"
    using assms by presburger
  then show ?thesis unfolding edit_header_eq by (cases op) (auto simp: of_char_eq_iff)
qed

lemma replay_one_no_header:
  assumes "13 \<le> length s" "\<And>op. take 13 s \<noteq> edit_header op"
  shows "replay_one s = ReplayStop False"
proof -
  obtain a b c d r where s: "s = a @ b @ c @ d @ r" and n: "length a = 4" "length b = 4" "length c = 1" "length d = 4"
  proof (rule that)
    show "s = take 4 s @ take 4 (drop 4 s) @ take 1 (drop 8 s) @ take 4 (drop 9 s) @ drop 13 s"
      using append_take_drop_id [of 4 s] append_take_drop_id [of 4 "drop 4 s"]
        append_take_drop_id [of 1 "drop 8 s"] append_take_drop_id [of 4 "drop 9 s"] by simp
  qed (use assms(1) in simp_all)
  have "False" if "a = enc_u32 kManifestMagic" "b = enc_u32 kManifestVersion" "u8_to_op (dec_u8 c) = Some op"
      "d = enc_u32 (op_payload_size op)" for op
  proof -
    have "dec_u8 c = op_to_u8 op" using that(3) by (auto simp: u8_to_op_def split: if_splits)
    then have "c = enc_u8 (op_to_u8 op)" using enc_dec_u8 [OF n(3)] by simp
    then show False using assms(2) [of op] that n by (simp add: s edit_header_def)
  qed
  then show ?thesis
    using n by (auto simp: replay_one_def s dec_u32_eq_iff split: option.split)
qed

lemma replay_one_no_magic:
  assumes "4 \<le> length s" "s ! 0 \<noteq> edit_header op ! 0"
  shows "replay_one s = ReplayStop False"
proof -
  have "take 4 s \<noteq> enc_u32 kManifestMagic"
  proof
    assume t: "take 4 s = enc_u32 kManifestMagic"
    have "s ! 0 = take 4 s ! 0" by simp
    then show False using assms(2) by (simp add: t edit_header_def nth_append)
  qed
  then show ?thesis using assms(1) by (simp add: replay_one_def stream_get_def dec_u32_eq_iff)
qed

lemma read_payload_drop:
  "unat (op_payload_size op) \<le> length s \<Longrightarrow>
   \<exists>i l. read_payload op s = Some (i, l, drop (unat (op_payload_size op)) s)"
  by (cases op) (simp_all add: read_payload_def stream_get_def)

lemma replay_one_header: "replay_one (edit_header op @ s) =
    (case read_payload op s of None \<Rightarrow> ReplayStop True | Some (i, level, rest) \<Rightarrow> ReplayEdit op i level rest)"
  by (simp add: replay_one_def edit_header_def)

lemma replay_torn_then_edit:
  assumes n: "0 < n" "n < length (edit_bytes op i l)"
  shows "fst (replay_loop (take n (edit_bytes op i l) @ edit_bytes op' i' l') st) = False"
proof -
  obtain b where b: "edit_bytes op i l = edit_header op @ b" "length b = unat (op_payload_size op)"
    using edit_header_bytes by blast
  obtain b' where b': "edit_bytes op' i' l' = edit_header op' @ b'" "length b' = unat (op_payload_size op')"
    using edit_header_bytes by blast
  have sz: "8 \<le> unat (op_payload_size o')" "unat (op_payload_size o') \<le> 12" for o' by (cases o'; simp)+
  let ?s = "take n (edit_bytes op i l) @ edit_bytes op' i' l'"
  show ?thesis
  proof (cases "n < 13")
    case True
    have "take 13 ?s ! n = edit_header op' ! 0" using True b b' by (simp add: nth_append)
    then have "take 13 ?s \<noteq> edit_header o'" for o' using edit_header_first [OF n(1) True, of o' op'] by metis
    moreover have "13 \<le> length ?s" using b' by simp
    ultimately have "replay_one ?s = ReplayStop False" by (intro replay_one_no_header)
    then show ?thesis by (subst replay_loop.simps) simp
  next
    case False
    define k where "k = unat (op_payload_size op) - (n - 13)"
    let ?p = "take (n - 13) b @ edit_bytes op' i' l'"
    have k: "0 < k" "k < 13" using n b sz [of op] False by (auto simp: k_def)
    have s: "?s = edit_header op @ ?p" using False b by simp
    have lp: "length (take (n - 13) b) = n - 13" using n b False by simp
    have "drop (unat (op_payload_size op)) ?p = drop k (edit_bytes op' i' l')" using lp b(2) by (simp add: k_def)
    moreover have "unat (op_payload_size op) \<le> length ?p" using lp k sz [of op] b' sz [of op'] by (simp add: k_def)
    ultimately obtain x y where r: "replay_one ?s = ReplayEdit op x y (drop k (edit_bytes op' i' l'))"
      using read_payload_drop [of op ?p] by (auto simp: s replay_one_header)
    have "replay_one (drop k (edit_bytes op' i' l')) = ReplayStop False"
      using k b' edit_header_first [OF k, of op' op'] sz [of op']
      by (intro replay_one_no_magic [of _ op']) (simp_all add: nth_append)
    then show ?thesis by (subst replay_loop.simps, subst r, simp, subst replay_loop.simps) simp
  qed
qed

section \<open>Loading a snapshot\<close>

lemma load_ssts_entries:
  "load_ssts (length es) (concat (map sst_entry_bytes es) @ s) m = (Some s, upsert_all es m)"
  by (induction es arbitrary: m) (auto simp: sst_entry_bytes_def)

lemma load_wals_ids:
  "load_wals (length ws) (concat (map enc_u64 ws) @ s) acc = (True, fold oset_insert ws acc)"
  by (induction ws arbitrary: acc) auto

lemma fold_oset_insert:
  "set (fold oset_insert ws acc) = set ws \<union> set acc"
  "sorted acc \<Longrightarrow> sorted (fold oset_insert ws acc)"
  "distinct acc \<Longrightarrow> distinct (fold oset_insert ws acc)"
  by (induction ws arbitrary: acc) auto

lemma load_wals_order:
  assumes "set ws = set vs" "sorted vs" "distinct vs"
  shows "load_wals (length ws) (concat (map enc_u64 ws)) [] = (True, vs)"
proof -
  have "fold oset_insert ws [] = vs"
    using assms by (intro sorted_distinct_set_unique) (simp_all add: fold_oset_insert)
  then show ?thesis using load_wals_ids [of ws "[]" "[]"] by simp
qed

lemma load_snapshot_bytes:
  assumes "state_ok st" "state_fits st"
  shows "load_snapshot (snapshot_bytes st) st0 = (True, st)"
proof -
  let ?s = "sst_levels st" and ?w = "live_wals st"
  have n: "unat (of_nat (length ?s) :: u32) = length ?s" "unat (of_nat (length ?w) :: u32) = length ?w"
    using assms(2) by (simp_all add: state_fits_def unat_of_nat)
  have "upsert_all ?s [] = ?s" using assms(1) upsert_all_sorted [of "[]" ?s] by (simp add: state_ok_def)
  moreover have "load_wals (length ?w) (concat (map enc_u64 ?w)) [] = (True, ?w)"
    using assms(1) by (intro load_wals_order) (simp_all add: state_ok_def)
  ultimately show ?thesis
    by (simp add: load_snapshot_def load_header_def snapshot_bytes_def load_ssts_entries n)
qed

section \<open>The directory mirrors the state\<close>

definition manifest_names :: "string set" where
  "manifest_names = {manifest_path, manifest_tmp_path, manifest_log_path}"

lemma manifest_names_distinct [simp]:
  "manifest_path \<noteq> manifest_tmp_path" "manifest_tmp_path \<noteq> manifest_path"
  "manifest_path \<noteq> manifest_log_path" "manifest_log_path \<noteq> manifest_path"
  "manifest_tmp_path \<noteq> manifest_log_path" "manifest_log_path \<noteq> manifest_tmp_path"
  by (simp_all add: manifest_path_def manifest_tmp_path_def manifest_log_path_def)

text \<open>
  The bytes in the directory denote \<open>st\<close>: a loadable snapshot and a log of whole edits whose
  application to it gives \<open>st\<close>.
\<close>

definition snapshot_of :: "fsys \<Rightarrow> ManifestState \<Rightarrow> bool" where
  "snapshot_of fs base \<longleftrightarrow> state_ok base \<and>
     (\<exists>s. fs_read fs manifest_path = Some s \<and> (\<forall>st0. load_snapshot s st0 = (True, base)))"

definition log_of :: "fsys \<Rightarrow> edit list \<Rightarrow> bool" where
  "log_of fs es \<longleftrightarrow> (case fs_read fs manifest_log_path of None \<Rightarrow> es = [] | Some s \<Rightarrow> s = log_bytes es)"

definition denotes :: "fsys \<Rightarrow> ManifestState \<Rightarrow> bool" where
  "denotes fs st \<longleftrightarrow> (\<exists>base es. snapshot_of fs base \<and> log_of fs es \<and> st = apply_edits es base)"

text \<open>What the constructor of \<open>DBImpl\<close> reads back when there is a manifest.\<close>

definition recover_manifest :: "fsys \<Rightarrow> bool \<times> ManifestManager" where
  "recover_manifest fs =
     (case Load fs new_ManifestManager of (ok, m) \<Rightarrow> if ok then ReplayLog fs m else (False, m))"

lemma recover_base:
  assumes "snapshot_of fs base"
  shows "recover_manifest fs = ReplayLog fs \<lparr>edits_since_checkpoint = 0, mstate = base\<rparr>"
  using assms
  by (auto simp: snapshot_of_def recover_manifest_def Load_def LoadState_def new_ManifestManager_def)

lemma recover_denotes:
  assumes "denotes fs st"
  shows "recover_manifest fs = (True, \<lparr>edits_since_checkpoint = 0, mstate = st\<rparr>)"
proof -
  obtain base es where b: "snapshot_of fs base" "log_of fs es" "st = apply_edits es base"
    using assms by (auto simp: denotes_def)
  have "replay_loop (log_bytes es) base = (True, st)" using replay_loop_log [of es "[]" base] b(3) by simp
  then show ?thesis
    using b by (auto simp: recover_base [OF b(1)] log_of_def ReplayLog_def split: option.splits)
qed

lemma denotes_ok: "denotes fs st \<Longrightarrow> state_ok st"
  by (auto simp: denotes_def snapshot_of_def)

lemma denotes_cong:
  assumes "fs_read fs' manifest_path = fs_read fs manifest_path"
    "fs_read fs' manifest_log_path = fs_read fs manifest_log_path"
  shows "denotes fs' st \<longleftrightarrow> denotes fs st"
  using assms by (simp add: denotes_def snapshot_of_def log_of_def)

lemma AppendEdit_denotes:
  assumes "denotes fs st" "can_write fs manifest_log_path"
  obtains fs' where "AppendEdit op i l fs = (True, fs')" "denotes fs' (ApplyEdit op i l st)"
    "\<And>n. n \<noteq> manifest_log_path \<Longrightarrow> fs_read fs' n = fs_read fs n" "can_write fs' = can_write fs"
    "fs_exists fs' manifest_log_path"
proof -
  obtain base es where b: "snapshot_of fs base" "log_of fs es" "st = apply_edits es base"
    using assms by (auto simp: denotes_def)
  let ?fs = "fs_append manifest_log_path (edit_bytes op i l) (fs_touch manifest_log_path fs)"
  have "log_of ?fs (es @ [(op, i, l)])"
    using b(2) by (auto simp: log_of_def split: option.splits)
  moreover have "snapshot_of ?fs base" using b(1) by (simp add: snapshot_of_def)
  ultimately have "denotes ?fs (ApplyEdit op i l st)"
    using b(3) unfolding denotes_def
    by (intro exI [of _ base] exI [of _ "es @ [(op, i, l)]"]) (simp add: apply_edit_def)
  then show thesis
    using assms(2) by (intro that [of ?fs]) (auto simp: AppendEdit_eq fs_exists_def split: option.split)
qed

lemma AppendEdit_denotes_dest:
  assumes "AppendEdit op i l fs = (True, fs1)" "denotes fs st"
  shows "denotes fs1 (ApplyEdit op i l st)"
proof -
  have "can_write fs manifest_log_path" using assms(1) by (auto simp: AppendEdit_eq split: if_splits)
  then show ?thesis using AppendEdit_denotes [OF assms(2), of op i l] assms(1) by (metis prod.inject)
qed

lemma PersistState_snapshot:
  assumes "state_ok st" "state_fits st" "can_write fs manifest_tmp_path"
  obtains fs' where "PersistState st fs = (True, fs')" "snapshot_of fs' st"
    "\<And>n. n \<noteq> manifest_path \<Longrightarrow> n \<noteq> manifest_tmp_path \<Longrightarrow> fs_read fs' n = fs_read fs n"
    "can_write fs' = can_write fs"
  using assms that by (simp add: PersistState_eq snapshot_of_def load_snapshot_bytes)

lemma Persist_denotes:
  assumes "denotes fs st" "state_fits st" "PersistState st fs = (True, fs')"
  shows "denotes fs' st" "snapshot_of fs' st"
proof -
  obtain base es where b: "snapshot_of fs base" "log_of fs es" "st = apply_edits es base"
    using assms(1) by (auto simp: denotes_def)
  have ok: "state_ok st" by (rule denotes_ok [OF assms(1)])
  have w: "can_write fs manifest_tmp_path" using assms(3) by (auto simp: PersistState_eq split: if_splits)
  show s: "snapshot_of fs' st"
    using PersistState_snapshot [OF ok assms(2) w] assms(3) by (metis prod.inject)
  have "fs_read fs' manifest_log_path = fs_read fs manifest_log_path"
    using assms(3) w by (auto simp: PersistState_eq)
  then have "log_of fs' es" using b(2) by (simp add: log_of_def)
  moreover have "apply_edits es st = st" using apply_edits_idem b by (auto simp: snapshot_of_def)
  ultimately show "denotes fs' st" using s unfolding denotes_def by metis
qed

lemma TruncateLog_denotes:
  assumes "snapshot_of fs st" "TruncateLog fs = (True, fs')"
  shows "denotes fs' st"
  using assms unfolding denotes_def
  by (intro exI [of _ st] exI [of _ "[]"])
     (auto simp: TruncateLog_eq snapshot_of_def log_of_def split: if_splits)

lemma MaybeCheckpoint_mirror:
  assumes "denotes fs (mstate m)" "state_fits (mstate m)"
  shows "mstate (fst (MaybeCheckpoint (m, fs))) = mstate m"
    "denotes (snd (MaybeCheckpoint (m, fs))) (mstate m)"
    "\<And>n. n \<notin> manifest_names \<Longrightarrow> fs_read (snd (MaybeCheckpoint (m, fs))) n = fs_read fs n"
    "can_write (snd (MaybeCheckpoint (m, fs))) = can_write fs"
proof -
  obtain b fs1 where p: "PersistState (mstate m) fs = (b, fs1)" by fastforce
  obtain c fs2 where t: "TruncateLog fs1 = (c, fs2)" by fastforce
  have p': "Persist m fs = (b, fs1)" using p by (simp add: Persist_def)
  have fr: "fs_read fs1 n = fs_read fs n \<and> fs_read fs2 n = fs_read fs n" if "n \<notin> manifest_names" for n
    using p t that by (auto simp: PersistState_eq TruncateLog_eq manifest_names_def split: if_splits)
  have cw: "can_write fs1 = can_write fs" "can_write fs2 = can_write fs"
    using p t by (auto simp: PersistState_eq TruncateLog_eq split: if_splits)
  have unch: "\<not> b \<Longrightarrow> fs1 = fs" "\<not> c \<Longrightarrow> fs2 = fs1"
    using p t by (auto simp: PersistState_eq TruncateLog_eq split: if_splits)
  show "mstate (fst (MaybeCheckpoint (m, fs))) = mstate m"
    by (auto simp: MaybeCheckpoint_eq p' t split: bool.split)
  show "fs_read (snd (MaybeCheckpoint (m, fs))) n = fs_read fs n" if "n \<notin> manifest_names" for n
    using fr [OF that] by (auto simp: MaybeCheckpoint_eq p' t split: bool.split)
  show "can_write (snd (MaybeCheckpoint (m, fs))) = can_write fs"
    using cw by (auto simp: MaybeCheckpoint_eq p' t split: bool.split)
  show "denotes (snd (MaybeCheckpoint (m, fs))) (mstate m)"
  proof (cases "b \<and> \<not> edits_since_checkpoint m < kManifestCheckpointThreshold")
    case True
    then have "denotes fs1 (mstate m)" "snapshot_of fs1 (mstate m)"
      using Persist_denotes [OF assms] p by auto
    then have "denotes fs2 (mstate m)" using TruncateLog_denotes [of fs1 _ fs2] t unch(2) by (cases c) auto
    then show ?thesis using True t by (auto simp: MaybeCheckpoint_eq p' split: bool.split)
  next
    case False
    then show ?thesis using assms(1) unch(1) by (auto simp: MaybeCheckpoint_eq p' split: bool.split)
  qed
qed

lemma RecordEdit_mirror:
  assumes d: "denotes fs st" and w: "can_write fs manifest_log_path"
    and m: "mstate m = ApplyEdit op i l st" and fits: "state_fits (mstate m)"
    and r: "RecordEdit op i l (m, fs) = (m', fs')"
  shows "mstate m' = mstate m" "denotes fs' (mstate m)"
    "\<And>n. n \<notin> manifest_names \<Longrightarrow> fs_read fs' n = fs_read fs n" "can_write fs' = can_write fs"
proof -
  obtain fs1 where a: "AppendEdit op i l fs = (True, fs1)" "denotes fs1 (ApplyEdit op i l st)"
    "\<And>n. n \<noteq> manifest_log_path \<Longrightarrow> fs_read fs1 n = fs_read fs n" "can_write fs1 = can_write fs"
    using AppendEdit_denotes [OF d w] by metis
  let ?m = "m\<lparr>edits_since_checkpoint := edits_since_checkpoint m + 1\<rparr>"
  have c: "MaybeCheckpoint (?m, fs1) = (m', fs')" using r a(1) by (simp add: RecordEdit_eq)
  have "denotes fs1 (mstate ?m)" "state_fits (mstate ?m)" using a(2) m fits by simp_all
  note M = MaybeCheckpoint_mirror [OF this, unfolded c, simplified]
  show "mstate m' = mstate m" "denotes fs' (mstate m)" "can_write fs' = can_write fs"
    using M(1,2,4) a(4) by simp_all
  show "fs_read fs' n = fs_read fs n" if "n \<notin> manifest_names" for n
    using M(3) [OF that] a(3) [of n] that by (auto simp: manifest_names_def)
qed

section \<open>Operations keep the mirror\<close>

text \<open>
  The directory denotes the state in memory and the log can be opened for writing. When it cannot,
  \<open>RecordEdit\<close> falls back to a snapshot beside the old log, and the directory no longer denotes the
  state (\<open>fallback_recovers\<close> below says what it denotes). \<open>MANIFEST.tmp\<close> may be unwritable: the
  checkpoints then fail and the log grows.
\<close>

definition mirrored :: "ManifestManager \<times> fsys \<Rightarrow> bool" where
  "mirrored mf \<longleftrightarrow> denotes (snd mf) (mstate (fst mf)) \<and> can_write (snd mf) manifest_log_path"

definition same_files :: "fsys \<Rightarrow> fsys \<Rightarrow> bool" where
  "same_files fs fs' \<longleftrightarrow> (\<forall>n. n \<notin> manifest_names \<longrightarrow> fs_read fs' n = fs_read fs n) \<and> can_write fs' = can_write fs"

lemma same_files_refl [simp]: "same_files fs fs"
  by (simp add: same_files_def)

lemma same_files_trans: "same_files a b \<Longrightarrow> same_files b c \<Longrightarrow> same_files a c"
  by (simp add: same_files_def)

lemma RecordEdit_mirrored:
  assumes "mirrored (m0, fs)" "mstate m = ApplyEdit op i l (mstate m0)" "state_fits (mstate m)"
    and "RecordEdit op i l (m, fs) = (m', fs')"
  shows "mirrored (m', fs') \<and> mstate m' = mstate m \<and> same_files fs fs'"
proof -
  have d: "denotes fs (mstate m0)" "can_write fs manifest_log_path" using assms(1) by (simp_all add: mirrored_def)
  note R = RecordEdit_mirror [OF d assms(2-4)]
  show ?thesis using R d(2) by (simp add: mirrored_def same_files_def)
qed

lemma mstate_upd_state [simp]: "mstate (upd_state f m) = f (mstate m)"
  by (simp add: upd_state_def)

lemma RecordEdit_upd:
  assumes "RecordEdit op i l (upd_state f m, fs) = (m', fs')" "mirrored (m, fs)"
    and "f (mstate m) = ApplyEdit op i l (mstate m)" "state_fits (f (mstate m))"
  shows "mirrored (m', fs') \<and> mstate m' = f (mstate m) \<and> same_files fs fs'"
  using RecordEdit_mirrored [OF assms(2) _ _ assms(1)] assms(3,4) by simp

lemma AllocateFileNumber_mirrored:
  assumes "mirrored (m, fs)" "state_fits (mstate m)" "AllocateFileNumber (m, fs) = (n, m', fs')"
  shows "mirrored (m', fs') \<and> n = next_file_number (mstate m) + 1 \<and>
         mstate m' = (mstate m)\<lparr>next_file_number := n\<rparr> \<and> same_files fs fs'"
  using assms RecordEdit_upd [of SetNextFileNumber n 0
      "\<lambda>st. st\<lparr>next_file_number := next_file_number st + 1\<rparr>" m fs m' fs']
  by (auto simp: AllocateFileNumber_def Let_def state_fits_def)

lemma AddSst_mirrored:
  assumes "mirrored (m, fs)" "AddSst i l (m, fs) = (m', fs')"
    and "state_fits (ApplyEdit AddSST i l (mstate m))"
  shows "mirrored (m', fs') \<and> mstate m' = ApplyEdit AddSST i l (mstate m) \<and> same_files fs fs'"
  using assms by (auto simp: AddSst_def dest!: RecordEdit_upd)

lemma length_erase_le [simp]: "length (omap_erase k m) \<le> length m" "length (oset_erase x xs) \<le> length xs"
  by (simp_all add: omap_erase_def oset_erase_def length_removeAll_less_eq)

lemma state_fits_erase:
  "state_fits st \<Longrightarrow> state_fits (ApplyEdit DelSST i l st)" "state_fits st \<Longrightarrow> state_fits (ApplyEdit DelWAL i l st)"
  using length_erase_le(1) [of i "sst_levels st"] length_erase_le(2) [of i "live_wals st"]
  by (auto simp: state_fits_def simp del: length_erase_le)

lemma RemoveSst_mirrored:
  assumes "mirrored (m, fs)" "RemoveSst i (m, fs) = (m', fs')" "state_fits (mstate m)"
  shows "mirrored (m', fs') \<and> mstate m' = ApplyEdit DelSST i 0 (mstate m) \<and> same_files fs fs'"
  using assms state_fits_erase(1) [of "mstate m" i 0] by (auto simp: RemoveSst_def dest!: RecordEdit_upd)

lemma oset_present: "w \<in> set ws \<Longrightarrow> oset_insert w ws = ws"
  by (simp add: oset_insert_def)

lemma oset_absent: "w \<notin> set ws \<Longrightarrow> oset_erase w ws = ws"
  by (simp add: oset_erase_def)

lemma AddWal_mirrored:
  assumes "mirrored (m, fs)" "AddWal w (m, fs) = (b, m', fs')"
    and "state_fits (ApplyEdit AddWAL w 0 (mstate m))"
  shows "mirrored (m', fs') \<and> mstate m' = ApplyEdit AddWAL w 0 (mstate m) \<and> same_files fs fs' \<and>
         (b \<longleftrightarrow> w \<notin> set (live_wals (mstate m)))"
proof (cases "w \<in> set (live_wals (mstate m))")
  case True
  then show ?thesis using assms by (simp add: AddWal_def oset_present)
next
  case False
  then show ?thesis
    using assms by (auto simp: AddWal_def dest!: RecordEdit_upd)
qed

lemma RemoveWal_mirrored:
  assumes "mirrored (m, fs)" "RemoveWal w (m, fs) = (b, m', fs')" "state_fits (mstate m)"
  shows "mirrored (m', fs') \<and> mstate m' = ApplyEdit DelWAL w 0 (mstate m) \<and> same_files fs fs' \<and>
         (b \<longleftrightarrow> w \<in> set (live_wals (mstate m)))"
proof (cases "w \<in> set (live_wals (mstate m))")
  case False
  then show ?thesis using assms by (simp add: RemoveWal_def oset_absent)
next
  case True
  then show ?thesis
    using assms state_fits_erase(2) [of "mstate m" w 0] by (auto simp: RemoveWal_def dest!: RecordEdit_upd)
qed

text \<open>A client's calls, one after the other.\<close>

datatype manifest_call = CallAllocate | CallAddWal u64 | CallRemoveWal u64 | CallAddSst u64 u32 | CallRemoveSst u64

fun run_call :: "manifest_call \<Rightarrow> ManifestManager \<times> fsys \<Rightarrow> ManifestManager \<times> fsys" where
  "run_call CallAllocate mf = snd (AllocateFileNumber mf)"
| "run_call (CallAddWal w) mf = snd (AddWal w mf)"
| "run_call (CallRemoveWal w) mf = snd (RemoveWal w mf)"
| "run_call (CallAddSst i l) mf = AddSst i l mf"
| "run_call (CallRemoveSst i) mf = RemoveSst i mf"

text \<open>What the calls mean for the state.\<close>

fun call_effect :: "manifest_call \<Rightarrow> ManifestState \<Rightarrow> ManifestState" where
  "call_effect CallAllocate st = st\<lparr>next_file_number := next_file_number st + 1\<rparr>"
| "call_effect (CallAddWal w) st = st\<lparr>live_wals := oset_insert w (live_wals st)\<rparr>"
| "call_effect (CallRemoveWal w) st = st\<lparr>live_wals := oset_erase w (live_wals st)\<rparr>"
| "call_effect (CallAddSst i l) st = st\<lparr>sst_levels := upsert i l (sst_levels st)\<rparr>"
| "call_effect (CallRemoveSst i) st = st\<lparr>sst_levels := omap_erase i (sst_levels st)\<rparr>"

definition state_size :: "ManifestState \<Rightarrow> nat" where
  "state_size st = length (sst_levels st) + length (live_wals st)"

lemma length_upsert_le: "length (upsert k v m) \<le> length m + 1"
  by (induction k v m rule: upsert.induct) auto

lemma length_oset_insert_le: "length (oset_insert x xs) \<le> length xs + 1"
  by (simp add: oset_insert_def)

lemma state_size_effect: "state_size (call_effect c st) \<le> state_size st + 1"
  using length_upsert_le [of _ _ "sst_levels st"] length_oset_insert_le [of _ "live_wals st"]
  by (cases c) (simp_all add: state_size_def le_SucI)

lemma run_call_mirrored:
  assumes "mirrored (m, fs)" "state_size (mstate m) + 1 < 2 ^ 32" "run_call c (m, fs) = (m', fs')"
  shows "mirrored (m', fs') \<and> mstate m' = call_effect c (mstate m)"
proof -
  have fits: "state_fits (mstate m)" using assms(2) by (simp add: state_size_def state_fits_def)
  have fits': "state_fits (call_effect c (mstate m))"
    using state_size_effect [of c "mstate m"] assms(2) by (simp add: state_size_def state_fits_def)
  show ?thesis
  proof (cases c)
    case CallAllocate
    then obtain n where "AllocateFileNumber (m, fs) = (n, m', fs')"
      using assms(3) by (cases "AllocateFileNumber (m, fs)") auto
    from AllocateFileNumber_mirrored [OF assms(1) fits this] CallAllocate show ?thesis by simp
  next
    case (CallAddWal w)
    then obtain b where "AddWal w (m, fs) = (b, m', fs')" using assms(3) by (cases "AddWal w (m, fs)") auto
    from AddWal_mirrored [OF assms(1) this] fits' CallAddWal show ?thesis by simp
  next
    case (CallRemoveWal w)
    then obtain b where "RemoveWal w (m, fs) = (b, m', fs')" using assms(3) by (cases "RemoveWal w (m, fs)") auto
    from RemoveWal_mirrored [OF assms(1) this fits] CallRemoveWal show ?thesis by simp
  next
    case (CallAddSst i l)
    then have "AddSst i l (m, fs) = (m', fs')" using assms(3) by simp
    from AddSst_mirrored [OF assms(1) this] fits' CallAddSst show ?thesis by simp
  next
    case (CallRemoveSst i)
    then have "RemoveSst i (m, fs) = (m', fs')" using assms(3) by simp
    from RemoveSst_mirrored [OF assms(1) this fits] CallRemoveSst show ?thesis by simp
  qed
qed

lemma run_calls_mirrored:
  "mirrored (m, fs) \<Longrightarrow> state_size (mstate m) + length cs < 2 ^ 32 \<Longrightarrow> fold run_call cs (m, fs) = (m', fs') \<Longrightarrow>
   mirrored (m', fs') \<and> mstate m' = fold call_effect cs (mstate m)"
proof (induction cs arbitrary: m fs)
  case (Cons c cs)
  obtain m1 fs1 where c: "run_call c (m, fs) = (m1, fs1)" by fastforce
  have 1: "mirrored (m1, fs1)" "mstate m1 = call_effect c (mstate m)"
    using run_call_mirrored [OF Cons.prems(1) _ c] Cons.prems(2) by simp_all
  have "state_size (mstate m1) + length cs < 2 ^ 32"
    using state_size_effect [of c "mstate m"] Cons.prems(2) 1(2) by simp
  from Cons.IH [OF 1(1) this] Cons.prems(3) 1(2) c show ?case by simp
qed simp

section \<open>Crashes\<close>

text \<open>
  A crash inside an operation leaves one of the states \<open>crash_in\<close> its own sequence of writes.
\<close>

lemma recover_torn:
  assumes d: "denotes fs st" and n: "n < length (edit_bytes op i l)"
    and log: "fs_read fs' manifest_log_path =
      Some ((case fs_read fs manifest_log_path of None \<Rightarrow> [] | Some c \<Rightarrow> c) @ take n (edit_bytes op i l))"
    and snap: "fs_read fs' manifest_path = fs_read fs manifest_path"
  shows "recover_manifest fs' = (True, \<lparr>edits_since_checkpoint = 0, mstate = st\<rparr>)"
proof -
  obtain base es where b: "snapshot_of fs base" "log_of fs es" "st = apply_edits es base"
    using d by (auto simp: denotes_def)
  have "fs_read fs' manifest_log_path = Some (log_bytes es @ take n (edit_bytes op i l))"
    using b(2) log by (auto simp: log_of_def split: option.splits)
  moreover have "snapshot_of fs' base" using b(1) snap by (simp add: snapshot_of_def)
  ultimately show ?thesis
    using b(3) n by (simp add: recover_base ReplayLog_def replay_loop_log replay_loop_torn)
qed

lemma AppendEdit_crash:
  assumes "crash_in (snd (AppendEdit_ops op i l fs)) fs fs'" "denotes fs st"
  shows "recover_manifest fs' = (True, \<lparr>edits_since_checkpoint = 0, mstate = st\<rparr>) \<or>
         AppendEdit op i l fs = (True, fs')"
proof (cases "fs' = fs")
  case True
  then show ?thesis using recover_denotes [OF assms(2)] by simp
next
  case False
  have w: "can_write fs manifest_log_path"
    using assms(1) False by (auto simp: AppendEdit_ops_def split: if_splits)
  then have c: "crash_in [OpTouch manifest_log_path, OpAppend manifest_log_path (edit_bytes op i l)] fs fs'"
    using assms(1) by (simp add: AppendEdit_ops_def)
  let ?t = "fs_touch manifest_log_path fs"
  have "fs' = ?t \<or> (\<exists>n. fs' = fs_append manifest_log_path (take n (edit_bytes op i l)) ?t)"
    using c False by (auto elim!: crash_in_Cons) (metis take_all order_refl)
  then consider "fs' = ?t" | n where "n < length (edit_bytes op i l)"
      "fs' = fs_append manifest_log_path (take n (edit_bytes op i l)) ?t"
    | "fs' = fs_append manifest_log_path (edit_bytes op i l) ?t"
    by (metis not_less take_all)
  then show ?thesis
  proof cases
    case 1
    have "0 < length (edit_bytes op i l)" by (simp add: length_edit_bytes)
    then show ?thesis using recover_torn [OF assms(2), of 0 op i l fs'] 1 by (simp split: option.split)
  next
    case (2 n)
    then show ?thesis using recover_torn [OF assms(2), of n op i l fs'] by (simp split: option.split)
  next
    case 3
    then show ?thesis using w by (simp add: AppendEdit_eq)
  qed
qed

lemma PersistState_crash:
  assumes "crash_in (snd (PersistState_ops st fs)) fs fs'"
  shows "fs_read fs' manifest_path = fs_read fs manifest_path \<or> PersistState st fs = (True, fs')"
    "fs_read fs' manifest_log_path = fs_read fs manifest_log_path"
  using assms by (auto simp: PersistState_ops_def PersistState_eq split: if_splits elim!: crash_in_Cons)

lemma TruncateLog_crash:
  assumes "crash_in (snd (TruncateLog_ops fs)) fs fs'"
  shows "fs' = fs \<or> TruncateLog fs = (True, fs')"
  using assms by (auto simp: TruncateLog_ops_def TruncateLog_eq split: if_splits elim!: crash_in_Cons)

lemma MaybeCheckpoint_crash:
  assumes c: "crash_in (snd (MaybeCheckpoint_ops (m, fs))) fs fs'"
    and d: "denotes fs (mstate m)" and fits: "state_fits (mstate m)"
  shows "denotes fs' (mstate m)"
proof -
  obtain b ops1 where p: "PersistState_ops (mstate m) fs = (b, ops1)" by fastforce
  let ?fs = "do_ops ops1 fs"
  have p': "PersistState (mstate m) fs = (b, ?fs)" by (simp add: PersistState_def p run_ops_def)
  obtain t ops2 where t: "TruncateLog_ops ?fs = (t, ops2)" by fastforce
  have "fs' = fs \<or> crash_in ops1 fs fs' \<or> (b \<and> crash_in ops2 ?fs fs')"
    using c by (cases b; cases t) (auto simp: MaybeCheckpoint_ops_def p t dest: crash_in_append split: if_splits)
  then consider "fs' = fs" | "crash_in ops1 fs fs'" | "b" "crash_in ops2 ?fs fs'" by blast
  then show ?thesis
  proof cases
    case 2
    then have "fs_read fs' manifest_path = fs_read fs manifest_path \<or> PersistState (mstate m) fs = (True, fs')"
      "fs_read fs' manifest_log_path = fs_read fs manifest_log_path"
      using PersistState_crash [of "mstate m" fs fs'] p by simp_all
    then show ?thesis using d denotes_cong [of fs' fs] Persist_denotes(1) [OF d fits] by blast
  next
    case 3
    then have "fs' = ?fs \<or> TruncateLog ?fs = (True, fs')" using TruncateLog_crash [of ?fs fs'] t by simp
    then show ?thesis using Persist_denotes [OF d fits, of ?fs] TruncateLog_denotes p' \<open>b\<close> by auto
  qed (use d in simp)
qed

text \<open>
  The fallback of \<open>RecordEdit\<close>: the snapshot of the new state is beside the log of the old one, whose
  edits are applied once more when the directory is read.
\<close>

lemma fallback_recovers:
  assumes "log_of fs es" "state_ok st" "state_fits st" "PersistState st fs = (True, fs')"
  shows "recover_manifest fs' = (True, \<lparr>edits_since_checkpoint = 0, mstate = apply_edits es st\<rparr>)"
proof -
  have w: "can_write fs manifest_tmp_path" using assms(4) by (auto simp: PersistState_eq split: if_splits)
  have "snapshot_of fs' st" using PersistState_snapshot [OF assms(2,3) w] assms(4) by (metis prod.inject)
  moreover have "log_of fs' es" using assms(1,4) w by (auto simp: PersistState_eq log_of_def)
  ultimately have "denotes fs' (apply_edits es st)" by (auto simp: denotes_def)
  then show ?thesis by (rule recover_denotes)
qed

lemma fallback_crash:
  assumes "crash_in (snd (PersistState_ops st' fs)) fs fs'" "snapshot_of fs base" "log_of fs es"
    and "state_ok st'" "state_fits st'"
  shows "\<exists>r. recover_manifest fs' = (True, \<lparr>edits_since_checkpoint = 0, mstate = r\<rparr>) \<and>
           (r = apply_edits es base \<or> r = apply_edits es st')"
proof -
  have d: "denotes fs (apply_edits es base)" using assms(2,3) by (auto simp: denotes_def)
  from PersistState_crash [OF assms(1)]
  consider "denotes fs' (apply_edits es base)" | "PersistState st' fs = (True, fs')"
    using d denotes_cong [of fs' fs] by blast
  then show ?thesis using recover_denotes fallback_recovers [OF assms(3-5)] by cases blast+
qed

lemma record_crash_recovers_aux:
  assumes c: "crash_in (snd (RecordEdit_ops op i l (m, fs))) fs fs'"
    and b: "snapshot_of fs base" "log_of fs es" "mstate m = ApplyEdit op i l (apply_edits es base)"
    and fits: "state_fits (mstate m)"
  shows "\<exists>r. recover_manifest fs' = (True, \<lparr>edits_since_checkpoint = 0, mstate = r\<rparr>) \<and>
           (r = apply_edits es base \<or>
            r = (if can_write fs manifest_log_path then mstate m else apply_edits es (mstate m)))"
proof (cases "can_write fs manifest_log_path")
  case False
  have "state_ok (mstate m)" using b by (simp add: snapshot_of_def)
  from fallback_crash [OF _ b(1,2) this fits] c False show ?thesis
    by (auto simp: RecordEdit_ops_def AppendEdit_ops_def split: prod.splits)
next
  case True
  have d: "denotes fs (apply_edits es base)" using b by (auto simp: denotes_def)
  obtain ops1 where a: "AppendEdit_ops op i l fs = (True, ops1)" using True by (simp add: AppendEdit_ops_def)
  let ?fs = "do_ops ops1 fs" and ?m = "m\<lparr>edits_since_checkpoint := edits_since_checkpoint m + 1\<rparr>"
  have "denotes ?fs (mstate ?m)"
    using AppendEdit_denotes_dest [OF _ d, of op i l ?fs] b(3) by (simp add: AppendEdit_def a run_ops_def)
  note late = MaybeCheckpoint_crash [OF _ this] and app = this
  have "crash_in ops1 fs fs' \<or> crash_in (snd (MaybeCheckpoint_ops (?m, ?fs))) ?fs fs'"
    using c by (auto simp: RecordEdit_ops_def a dest: crash_in_append split: prod.splits)
  then have "recover_manifest fs' = (True, \<lparr>edits_since_checkpoint = 0, mstate = apply_edits es base\<rparr>) \<or>
      denotes fs' (mstate m)"
    using AppendEdit_crash [of op i l fs fs', OF _ d] late fits app by (auto simp: AppendEdit_def a run_ops_def)
  then show ?thesis using True recover_denotes by auto
qed

section \<open>Properties\<close>

lemma mirrored_initial:
  assumes "state_ok st" "state_fits st" "can_write fs manifest_log_path" "fs_read fs manifest_log_path = None"
    and "PersistState st fs = (True, fs')" "mstate m = st"
  shows "mirrored (m, fs')"
proof -
  have w: "can_write fs manifest_tmp_path" using assms(5) by (simp add: PersistState_eq split: if_splits)
  have s: "snapshot_of fs' st"
    using PersistState_snapshot [OF assms(1,2) w] assms(5) by (metis prod.inject)
  have "fs_read fs' manifest_log_path = None" "can_write fs' = can_write fs"
    using assms(4,5) w by (auto simp: PersistState_eq)
  moreover from this s have "denotes fs' st"
    unfolding denotes_def by (intro exI [of _ st] exI [of _ "[]"]) (simp add: log_of_def)
  ultimately show ?thesis using assms(3,6) by (simp add: mirrored_def)
qed

lemma fs_read_empty: "fs_read empty_fs n = None"
  by (simp add: fs_read_def empty_fs_def)

lemma mirrored_new:
  assumes "PersistState empty_state empty_fs = (True, fs')"
  shows "mirrored (new_ManifestManager, fs')"
proof (rule mirrored_initial [OF state_ok_empty _ _ _ assms])
  show "state_fits empty_state" by (simp add: state_fits_def empty_state_def)
qed (simp_all add: empty_fs_def fs_read_def new_ManifestManager_def)

text \<open>
  A snapshot written by \<open>PersistState\<close> is read back by \<open>LoadState\<close> as exactly the state that
  was written, whatever the state held before the load.
\<close>

theorem manifest_snapshot_roundtrip:
  assumes "state_ok st" "state_fits st" "can_write fs manifest_tmp_path"
  shows "\<exists>fs'. PersistState st fs = (True, fs') \<and> LoadState fs' st0 = (True, st)"
  using assms by (simp add: PersistState_eq LoadState_def load_snapshot_bytes)

theorem manifest_snapshot_roundtrip_witness:
  "\<exists>fs'. PersistState \<lparr>next_file_number = 9, sst_levels = [(3, 1), (8, 0)], live_wals = [7, 9]\<rparr> empty_fs = (True, fs') \<and>
     LoadState fs' empty_state =
       (True, \<lparr>next_file_number = 9, sst_levels = [(3, 1), (8, 0)], live_wals = [7, 9]\<rparr>)"
  by (rule manifest_snapshot_roundtrip) (simp_all add: state_ok_def state_fits_def empty_fs_def)

text \<open>
  C17: when the directory denotes the state in memory and \<open>MANIFEST.log\<close> can be opened for writing,
  any sequence of calls (allocating numbers, adding and removing WALs and SSTs, with the checkpoints
  they trigger, also checkpoints whose snapshot cannot be written) has its effect on the state in
  memory, and reloading the directory rebuilds exactly that state.
\<close>

theorem manifest_calls_recover:
  assumes "denotes fs (mstate m)" "can_write fs manifest_log_path"
    and "state_size (mstate m) + length cs < 2 ^ 32" "fold run_call cs (m, fs) = (m', fs')"
  shows "mstate m' = fold call_effect cs (mstate m) \<and>
         recover_manifest fs' = (True, \<lparr>edits_since_checkpoint = 0, mstate = mstate m'\<rparr>)"
proof -
  have "mirrored (m, fs)" using assms(1,2) by (simp add: mirrored_def)
  from run_calls_mirrored [OF this assms(3,4)] show ?thesis
    using recover_denotes by (auto simp: mirrored_def)
qed

theorem manifest_calls_recover_witness:
  "\<exists>fs' m2 fs2. PersistState empty_state empty_fs = (True, fs') \<and>
     fold run_call [CallAllocate, CallAddWal 1, CallAddSst 2 0, CallRemoveWal 1] (new_ManifestManager, fs') = (m2, fs2) \<and>
     mstate m2 = \<lparr>next_file_number = 1, sst_levels = [(2, 0)], live_wals = []\<rparr> \<and>
     recover_manifest fs2 = (True, \<lparr>edits_since_checkpoint = 0, mstate = mstate m2\<rparr>)"
proof -
  let ?cs = "[CallAllocate, CallAddWal 1, CallAddSst 2 0, CallRemoveWal 1]"
  obtain fs' where p: "PersistState empty_state empty_fs = (True, fs')"
    by (simp add: PersistState_eq empty_fs_def)
  obtain m2 fs2 where r: "fold run_call ?cs (new_ManifestManager, fs') = (m2, fs2)" by fastforce
  have "denotes fs' (mstate new_ManifestManager)" "can_write fs' manifest_log_path"
    using mirrored_new [OF p] by (simp_all add: mirrored_def)
  from manifest_calls_recover [OF this _ r] show ?thesis using p r
    by (auto simp: state_size_def new_ManifestManager_def empty_state_def oset_insert_def oset_erase_def)
qed

text \<open>
  C21: the directory holds a loadable snapshot and a log of whole edits. A crash at any moment between
  the file operations of \<open>RecordEdit\<close>, or in the middle of one of its stream writes, leaves a directory from which the manifest is rebuilt successfully: as the state
  before the edit or the state after it when \<open>MANIFEST.log\<close> can be opened, and otherwise as the state
  before the edit or as the new snapshot with the edits of the old log applied once more.
\<close>

theorem record_crash_recovers:
  assumes "crash_in (snd (RecordEdit_ops op i l (m, fs))) fs fs'"
    and "snapshot_of fs base" "log_of fs es" "mstate m = ApplyEdit op i l (apply_edits es base)"
    and "state_fits (mstate m)"
  shows "\<exists>r. recover_manifest fs' = (True, \<lparr>edits_since_checkpoint = 0, mstate = r\<rparr>) \<and>
           (r = apply_edits es base \<or>
            r = (if can_write fs manifest_log_path then mstate m else apply_edits es (mstate m)))"
  using record_crash_recovers_aux [OF assms] .

theorem record_crash_recovers_witness:
  "\<exists>fs0 r. PersistState empty_state empty_fs = (True, fs0) \<and>
     recover_manifest (fs_append manifest_log_path (take 7 (edit_bytes AddWAL 5 0)) (fs_touch manifest_log_path fs0)) =
       (True, \<lparr>edits_since_checkpoint = 0, mstate = r\<rparr>) \<and>
     (r = empty_state \<or> r = ApplyEdit AddWAL 5 0 empty_state)"
proof -
  obtain fs0 where p: "PersistState empty_state empty_fs = (True, fs0)"
    by (simp add: PersistState_eq empty_fs_def)
  have fits: "state_fits empty_state" by (simp add: state_fits_def empty_state_def)
  have w: "can_write fs0 manifest_log_path" "log_of fs0 []"
    using mirrored_new [OF p] p by (auto simp: mirrored_def PersistState_eq log_of_def fs_read_empty split: if_splits)
  have s: "snapshot_of fs0 empty_state"
    using p fits by (auto simp: PersistState_eq snapshot_of_def load_snapshot_bytes split: if_splits)
  let ?m = "\<lparr>edits_since_checkpoint = 0, mstate = ApplyEdit AddWAL 5 0 empty_state\<rparr>"
  let ?fs = "fs_append manifest_log_path (take 7 (edit_bytes AddWAL 5 0)) (fs_touch manifest_log_path fs0)"
  have "crash_in (snd (RecordEdit_ops AddWAL 5 0 (?m, fs0))) fs0 ?fs"
  proof -
    have "\<exists>ops. snd (RecordEdit_ops AddWAL 5 0 (?m, fs0)) =
        OpTouch manifest_log_path # OpAppend manifest_log_path (edit_bytes AddWAL 5 0) # ops"
      using w(1) by (simp add: RecordEdit_ops_def AppendEdit_ops_def split: prod.split)
    moreover have "crash_in (OpAppend manifest_log_path (edit_bytes AddWAL 5 0) # ops)
        (do_op (OpTouch manifest_log_path) fs0) ?fs" for ops by (simp add: crash_in.crash_torn)
    ultimately show ?thesis using crash_in.crash_later by auto
  qed
  from record_crash_recovers [OF this s w(2)] w(1) p show ?thesis
    by (auto simp: state_fits_def empty_state_def oset_insert_def)
qed

text \<open>
  C29: a torn record at the end of the log, cut off anywhere, is ignored by a replay but stays in the
  file. When a session then appends any edit, the next replay fails, and with it the constructor of
  \<open>DBImpl\<close>.
\<close>

theorem torn_log_then_append_fails:
  assumes "0 < n" "n < length (edit_bytes op i l)"
    and log: "fs_read fs manifest_log_path = Some (log_bytes es @ take n (edit_bytes op i l))"
    and append: "AppendEdit op' i' l' fs = (True, fs')"
  shows "ReplayLog fs m = (True, m\<lparr>mstate := apply_edits es (mstate m)\<rparr>) \<and> fst (ReplayLog fs' m) = False"
proof
  show "ReplayLog fs m = (True, m\<lparr>mstate := apply_edits es (mstate m)\<rparr>)"
    using assms(2) log by (simp add: ReplayLog_def replay_loop_log replay_loop_torn)
  have "fs_read fs' manifest_log_path = Some (log_bytes es @ take n (edit_bytes op i l) @ edit_bytes op' i' l')"
    using append log by (auto simp: AppendEdit_eq split: if_splits)
  then show "fst (ReplayLog fs' m) = False"
    using replay_torn_then_edit [OF assms(1,2), of op' i' l' "apply_edits es (mstate m)"]
    by (auto simp: ReplayLog_def replay_loop_log split: prod.split)
qed

theorem torn_log_then_append_fails_witness:
  "\<exists>fs fs'. fs = fs_write manifest_log_path (edit_bytes AddWAL 1 0 @ take 17 (edit_bytes DelWAL 1 0)) empty_fs \<and>
     AppendEdit AddWAL 2 0 fs = (True, fs') \<and> fst (ReplayLog fs new_ManifestManager) \<and>
     \<not> fst (ReplayLog fs' new_ManifestManager)"
proof -
  let ?fs = "fs_write manifest_log_path (edit_bytes AddWAL 1 0 @ take 17 (edit_bytes DelWAL 1 0)) empty_fs"
  obtain fs' where a: "AppendEdit AddWAL 2 0 ?fs = (True, fs')" by (simp add: AppendEdit_eq empty_fs_def)
  have "fs_read ?fs manifest_log_path = Some (log_bytes [(AddWAL, 1, 0)] @ take 17 (edit_bytes DelWAL 1 0))" by simp
  from torn_log_then_append_fails [OF _ _ this a, of new_ManifestManager] a show ?thesis
    by (auto simp: length_edit_bytes)
qed

end
