(* ===== verification/CompactionEngine.thy ===== *)
theory CompactionEngine
  imports SSTableReader MemTable ManifestManager
begin

text \<open>
  Compaction (\<open>include/CompactionEngine.h\<close>, \<open>src/CompactionEngine.cpp\<close>): flushing a memtable to a
  level-0 table, and merging all of level 0 into one level-1 table in three phases, of which only
  the first and the last run under the database lock. \<open>None\<close> is a read outside a mapped table.
\<close>

section \<open>Levels and contexts\<close>

record Levels =
  level0 :: "SSTableReader list"
  level1 :: "SSTableReader list"

record MinorCtx =
  flushing_imm :: "MemTable option"
  old_wal_id :: u64
  old_wal_path :: string
  minor_sst_id :: u64
  minor_sst_path :: string

record L0ToL1Ctx =
  merged_l0_records :: "(bytes, ValueRecord) omap"
  output_records :: "(bytes, ValueRecord) omap"
  l0_input_ids :: "u64 list"
  expected_l0_reader_count :: nat
  new_sst_id :: u64
  new_sst_path :: string
  has_output :: bool

definition empty_L0ToL1Ctx :: L0ToL1Ctx where
  "empty_L0ToL1Ctx =
     \<lparr>merged_l0_records = [], output_records = [], l0_input_ids = [], expected_l0_reader_count = 0,
      new_sst_id = 0, new_sst_path = [], has_output = False\<rparr>"

section \<open>Table files\<close>

text \<open>
  \<open>WritableFile\<close> opens for append, so a builder writes behind what a file already holds; when the
  file cannot be opened its writes are lost. \<open>SSTableReader::Open\<close> on a missing file is null.
\<close>

definition write_sst :: "string \<Rightarrow> row list \<Rightarrow> fsys \<Rightarrow> fsys" where
  "write_sst path rs fs =
     (if can_write fs path then
        let old = (case fs_read fs path of None \<Rightarrow> [] | Some c \<Rightarrow> c);
            sb = SSTableBuilder_Finish (add_rows rs (new_SSTableBuilder (new_WritableFile old)))
        in fs_write path (contents (sb_file sb)) fs
      else fs)"

definition open_sst :: "string \<Rightarrow> fsys \<Rightarrow> SSTableReader option option" where
  "open_sst path fs = (case fs_read fs path of None \<Rightarrow> Some None | Some c \<Rightarrow> SSTableReader_Open c)"

text \<open>
  The part the two builders share: remove a stale file, write the rows, open the result, and remove
  the file again when it does not open. Removing an existing file always succeeds in the model.
\<close>

definition build_sst :: "string \<Rightarrow> row list \<Rightarrow> fsys \<Rightarrow> (SSTableReader option \<times> fsys) option" where
  "build_sst path rs fs =
     (let fs1 = (if fs_exists fs path then fs_remove path fs else fs);
          fs2 = write_sst path rs fs1
      in do {
        r \<leftarrow> open_sst path fs2;
        Some (case r of None \<Rightarrow> (None, fs_remove path fs2) | Some rd \<Rightarrow> (Some rd, fs2))
      })"

definition BuildMinorSST :: "MinorCtx \<Rightarrow> fsys \<Rightarrow> (SSTableReader option \<times> fsys) option" where
  "BuildMinorSST ctx fs =
     (case flushing_imm ctx of
        None \<Rightarrow> Some (None, fs)
      | Some m \<Rightarrow>
          if minor_sst_path ctx = [] then Some (None, fs)
          else do { rs \<leftarrow> MemTable_Snapshot m; build_sst (minor_sst_path ctx) rs fs })"

section \<open>Level 0 to level 1\<close>

definition HasVisibleValueInL1 :: "SSTableReader list \<Rightarrow> bytes \<Rightarrow> bool option" where
  "HasVisibleValueInL1 l1 key = do {
     res \<leftarrow> first_hit GetRecord (rev l1) key;
     Some (case res of None \<Rightarrow> False | Some rec \<Rightarrow> vtype rec \<noteq> kDeletion)
   }"

fun select_output ::
  "SSTableReader list \<Rightarrow> row list \<Rightarrow> (bytes, ValueRecord) omap \<Rightarrow> (bytes, ValueRecord) omap option" where
  "select_output l1 [] out = Some out"
| "select_output l1 ((key, rec) # rs) out =
     (if vtype rec = kValue then select_output l1 rs (try_emplace key rec out)
      else do {
        b \<leftarrow> HasVisibleValueInL1 l1 key;
        select_output l1 rs
          (if b then try_emplace key \<lparr>vtype = kDeletion, rvalue = []\<rparr> out else out)
      })"

definition merge_tables :: "row list list \<Rightarrow> (bytes, ValueRecord) omap" where
  "merge_tables ts = fold try_emplace_all ts []"

definition l0_ids :: "ManifestManager \<Rightarrow> u64 list" where
  "l0_ids m = map fst (filter (\<lambda>(_, level). level = 0) (SstLevels m))"

definition PrepareL0ToL1 ::
  "Levels \<Rightarrow> ManifestManager \<times> fsys \<Rightarrow> (bool \<times> L0ToL1Ctx \<times> (ManifestManager \<times> fsys)) option" where
  "PrepareL0ToL1 lv mf =
     (if level0 lv = [] then Some (False, empty_L0ToL1Ctx, mf)
      else do {
        ts \<leftarrow> each_table ForEach (rev (level0 lv));
        (let merged = merge_tables ts;
             ctx = empty_L0ToL1Ctx\<lparr>merged_l0_records := merged, l0_input_ids := l0_ids (fst mf),
                                   expected_l0_reader_count := length (level0 lv)\<rparr>
         in if length (l0_input_ids ctx) \<noteq> expected_l0_reader_count ctx then Some (False, ctx, mf)
            else if merged = [] then Some (True, ctx, mf)
            else
              (case AllocateFileNumber mf of (n, mf') \<Rightarrow> do {
                 out \<leftarrow> select_output (level1 lv) merged [];
                 Some (True, ctx\<lparr>new_sst_id := n, new_sst_path := sst_name n,
                                 output_records := out, has_output := (out \<noteq> [])\<rparr>, mf')
               }))
      })"

definition BuildL0ToL1SST :: "L0ToL1Ctx \<Rightarrow> fsys \<Rightarrow> (SSTableReader option \<times> fsys) option" where
  "BuildL0ToL1SST ctx fs =
     (if \<not> has_output ctx then Some (None, fs)
      else if new_sst_path ctx = [] then Some (None, fs)
      else build_sst (new_sst_path ctx) (output_records ctx) fs)"

definition consume_l0 :: "u64 list \<Rightarrow> ManifestManager \<times> fsys \<Rightarrow> ManifestManager \<times> fsys" where
  "consume_l0 ids mf =
     fold (\<lambda>i mf. case RemoveSst i mf of (m, fs) \<Rightarrow> (m, fs_remove (sst_name i) fs)) ids mf"

definition InstallL0ToL1 ::
  "L0ToL1Ctx \<Rightarrow> SSTableReader option \<Rightarrow> Levels \<Rightarrow> ManifestManager \<times> fsys
   \<Rightarrow> bool \<times> Levels \<times> (ManifestManager \<times> fsys)" where
  "InstallL0ToL1 ctx reader lv mf =
     (if length (level0 lv) \<noteq> expected_l0_reader_count ctx then (False, lv, mf)
      else if sort (l0_input_ids ctx) \<noteq> sort (l0_ids (fst mf)) then (False, lv, mf)
      else if merged_l0_records ctx = [] \<or> \<not> has_output ctx
      then (True, lv\<lparr>level0 := []\<rparr>, consume_l0 (l0_input_ids ctx) mf)
      else
        (case reader of
           None \<Rightarrow> (False, lv, mf)
         | Some rd \<Rightarrow>
             (True, lv\<lparr>level1 := level1 lv @ [rd], level0 := []\<rparr>,
              consume_l0 (l0_input_ids ctx) (AddSst (new_sst_id ctx) 1 mf))))"

section \<open>Visibility\<close>

text \<open>
  The value a reader of the database sees for a record: only a \<open>kValue\<close> record is visible.
  Layers are concatenated from the newest to the oldest, so that \<^const>\<open>map_of\<close> finds the newest.
\<close>

definition live :: "ValueRecord option \<Rightarrow> bytes option" where
  "live r = (case r of Some rec \<Rightarrow> if vtype rec = kValue then Some (rvalue rec) else None | None \<Rightarrow> None)"

definition plain_row :: "row \<Rightarrow> bool" where
  "plain_row r \<longleftrightarrow> vtype (snd r) = kValue \<or> vtype (snd r) = kDeletion"

definition newest_first :: "SSTableReader list \<Rightarrow> row list" where
  "newest_first l = concat (map reader_rows (rev l))"

lemma live_shown [simp]: "live (map_option shown_record r) = live r"
  by (cases r) (simp_all add: live_def shown_record_def)

lemma live_simps [simp]:
  "live None = None" "live (Some \<lparr>vtype = kDeletion, rvalue = v\<rparr>) = None"
  by (simp_all add: live_def)

subsection \<open>Merging\<close>

lemma try_emplace_all_subset: "set (try_emplace_all kvs m) \<subseteq> set kvs \<union> set m"
proof (induction kvs arbitrary: m)
  case (Cons kv kvs)
  obtain k v where kv: "kv = (k, v)" by (cases kv)
  have "set (try_emplace k v m) \<subseteq> insert (k, v) (set m)"
    by (induction k v m rule: try_emplace.induct) auto
  with Cons.IH [of "try_emplace k v m"] show ?case by (auto simp: kv try_emplace_all_def)
qed (simp add: try_emplace_all_def)

lemma rows_size_try_emplace_all: "rows_size (try_emplace_all kvs m) \<le> rows_size kvs + rows_size m"
proof (induction kvs arbitrary: m)
  case (Cons kv kvs)
  obtain k v where kv: "kv = (k, v)" by (cases kv)
  have "rows_size (try_emplace k v m) \<le> row_size (k, v) + rows_size m"
    by (induction k v m rule: try_emplace.induct) auto
  with Cons.IH [of "try_emplace k v m"] show ?case by (simp add: kv try_emplace_all_def)
qed (simp add: try_emplace_all_def)

lemma merge_tables_sorted_aux: "sorted_keys m \<Longrightarrow> sorted_keys (fold try_emplace_all ts m)"
  by (induction ts arbitrary: m) auto

lemma merge_tables_sorted [simp]: "sorted_keys (merge_tables ts)"
  by (simp add: merge_tables_def merge_tables_sorted_aux)

lemma map_of_merge_aux:
  "sorted_keys m \<Longrightarrow> map_of (fold try_emplace_all ts m) k = map_of (m @ concat ts) k"
  by (induction ts arbitrary: m) (auto simp: map_of_try_emplace_all map_add_def split: option.split)

lemma map_of_merge_tables [assoc_simps]: "map_of (merge_tables ts) = map_of (concat ts)"
  by (rule ext) (simp add: merge_tables_def map_of_merge_aux)

lemma set_merge_tables: "set (merge_tables ts) \<subseteq> set (concat ts)"
proof -
  have "set (fold try_emplace_all ts m) \<subseteq> set (concat ts) \<union> set m" for m
  proof (induction ts arbitrary: m)
    case (Cons t ts)
    show ?case using Cons.IH [of "try_emplace_all t m"] try_emplace_all_subset [of t m] by auto
  qed simp
  from this [of "[]"] show ?thesis by (simp add: merge_tables_def)
qed

lemma rows_size_merge_tables: "rows_size (merge_tables ts) \<le> rows_size (concat ts)"
proof -
  have "rows_size (fold try_emplace_all ts m) \<le> rows_size (concat ts) + rows_size m" for m
  proof (induction ts arbitrary: m)
    case (Cons t ts)
    show ?case using Cons.IH [of "try_emplace_all t m"] rows_size_try_emplace_all [of t m] by simp
  qed simp
  from this [of "[]"] show ?thesis by (simp add: merge_tables_def)
qed

subsection \<open>Selecting the output\<close>

lemma try_emplace_last: "\<forall>a\<in>fst ` set m. a < k \<Longrightarrow> try_emplace k v m = m @ [(k, v)]"
  by (induction m) (auto dest: less_asym)

lemma HasVisibleValueInL1_ok:
  assumes "\<forall>r\<in>set l1. reader_ok r"
  shows "HasVisibleValueInL1 l1 key =
    Some (case map_of (newest_first l1) key of None \<Rightarrow> False | Some rec \<Rightarrow> vtype rec \<noteq> kDeletion)"
  using assms
  by (simp add: HasVisibleValueInL1_def sst.first_hit_newest newest_first_def shown_record_def
      split: option.split)

text \<open>
  \<open>out\<close> may replace \<open>rs\<close> in front of level 1: it is sorted, no larger, and every key shows the same
  value.
\<close>

definition replaces :: "SSTableReader list \<Rightarrow> row list \<Rightarrow> row list \<Rightarrow> bool" where
  "replaces l1 rs out \<longleftrightarrow>
     sorted_keys out \<and> fst ` set out \<subseteq> fst ` set rs \<and> rows_size out \<le> rows_size rs \<and>
     ((\<forall>r\<in>set rs. row_ok r) \<longrightarrow> (\<forall>r\<in>set out. row_ok r)) \<and> (\<forall>r\<in>set out. plain_row r) \<and>
     (\<forall>k. live (map_of (out @ newest_first l1) k) = live (map_of (rs @ newest_first l1) k))"

lemma replaces_Nil [simp]: "replaces l1 [] []"
  by (simp add: replaces_def)

lemma replaces_above: "replaces l1 rs out \<Longrightarrow> \<forall>a\<in>fst ` set rs. k < a \<Longrightarrow> \<forall>a\<in>fst ` set out. k < a"
  unfolding replaces_def by blast

lemma replaces_keep:
  assumes "replaces l1 rs out" "\<forall>a\<in>fst ` set rs. k < a" "vtype rec = kValue"
  shows "replaces l1 ((k, rec) # rs) ((k, rec) # out)"
  using assms(1,3) replaces_above [OF assms(1,2)] unfolding replaces_def
  by (simp add: plain_row_def) auto

lemma replaces_mark:
  assumes "replaces l1 rs out" "\<forall>a\<in>fst ` set rs. k < a" "vtype rec \<noteq> kValue"
  shows "replaces l1 ((k, rec) # rs) ((k, \<lparr>vtype = kDeletion, rvalue = []\<rparr>) # out)"
proof -
  have "live (map_of (((k, \<lparr>vtype = kDeletion, rvalue = []\<rparr>) # out) @ newest_first l1) x) =
      live (map_of (((k, rec) # rs) @ newest_first l1) x)" for x
    using assms(1,3) by (cases "x = k") (simp_all add: replaces_def live_def)
  moreover have "row_ok (k, \<lparr>vtype = kDeletion, rvalue = []\<rparr>)" if "row_ok (k, rec)"
    using that by (simp add: row_ok_def)
  moreover have "plain_row (k, \<lparr>vtype = kDeletion, rvalue = []\<rparr>)" by (simp add: plain_row_def)
  moreover have "row_size (k, \<lparr>vtype = kDeletion, rvalue = []\<rparr>) \<le> row_size (k, rec)" by (simp add: row_size_def)
  ultimately show ?thesis
    using assms(1) replaces_above [OF assms(1,2)] unfolding replaces_def
    by (simp del: append_Cons) (simp add: subset_insertI2 add_mono)
qed

lemma replaces_drop:
  assumes "replaces l1 rs out" "\<forall>a\<in>fst ` set rs. k < a" "vtype rec \<noteq> kValue"
    and "live (map_of (newest_first l1) k) = None"
  shows "replaces l1 ((k, rec) # rs) out"
proof -
  have "k \<notin> fst ` set out" using replaces_above [OF assms(1,2)] by blast
  then have "map_of out k = None" by (simp add: map_of_eq_None_iff)
  then have "live (map_of (out @ newest_first l1) x) = live (map_of (((k, rec) # rs) @ newest_first l1) x)" for x
    using assms(1,3,4) by (cases "x = k") (auto simp: replaces_def live_def map_add_def split: option.split)
  then show ?thesis using assms(1) by (auto simp: replaces_def)
qed

lemma select_output_replaces:
  assumes "\<forall>r\<in>set l1. reader_ok r" "sorted_keys rs"
    and "\<forall>a\<in>fst ` set out. \<forall>b\<in>fst ` set rs. a < b"
  shows "\<exists>o'. select_output l1 rs out = Some (out @ o') \<and> replaces l1 rs o'"
  using assms(2,3)
proof (induction rs arbitrary: out)
  case (Cons r rs)
  obtain k rec where r: "r = (k, rec)" by (cases r)
  have lt: "\<forall>a\<in>fst ` set rs. k < a" and srt: "sorted_keys rs" using Cons.prems by (auto simp: r)
  have emp: "try_emplace k x out = out @ [(k, x)]" for x using Cons.prems by (intro try_emplace_last) (auto simp: r)
  have IH: "\<exists>o'. select_output l1 rs out' = Some (out' @ o') \<and> replaces l1 rs o'"
    if "out' = out \<or> (\<exists>x. out' = out @ [(k, x)])" for out'
  proof (rule Cons.IH [OF srt])
    have "fst ` set out' \<subseteq> insert k (fst ` set out)" using that by auto
    then show "\<forall>a\<in>fst ` set out'. \<forall>b\<in>fst ` set rs. a < b" using lt Cons.prems(2) by (fastforce simp: r)
  qed
  show ?case
  proof (cases "vtype rec = kValue")
    case True
    obtain o' where "select_output l1 rs (out @ [(k, rec)]) = Some ((out @ [(k, rec)]) @ o')" "replaces l1 rs o'"
      using IH by blast
    then show ?thesis using replaces_keep [OF _ lt True] by (auto simp: r True emp)
  next
    case False
    define b where "b = (case map_of (newest_first l1) k of None \<Rightarrow> False | Some rec \<Rightarrow> vtype rec \<noteq> kDeletion)"
    have v: "HasVisibleValueInL1 l1 k = Some b" by (simp add: HasVisibleValueInL1_ok [OF assms(1)] b_def)
    show ?thesis
    proof (cases b)
      case True
      let ?d = "\<lparr>vtype = kDeletion, rvalue = []\<rparr>"
      obtain o' where "select_output l1 rs (out @ [(k, ?d)]) = Some ((out @ [(k, ?d)]) @ o')" "replaces l1 rs o'"
        using IH by blast
      then show ?thesis using replaces_mark [OF _ lt False] v True False by (auto simp: r emp)
    next
      case nb: False
      then have "live (map_of (newest_first l1) k) = None"
        by (auto simp: b_def live_def split: option.splits)
      moreover obtain o' where "select_output l1 rs out = Some (out @ o')" "replaces l1 rs o'" using IH by blast
      ultimately show ?thesis using replaces_drop [OF _ lt False] v nb False by (auto simp: r)
    qed
  qed
qed auto

subsection \<open>Building\<close>

lemma build_sst_ok:
  assumes "table_ok rs" "can_write fs path"
  obtains fs' where "build_sst path rs fs = Some (Some (opened rs), fs')"
    "fs_read fs' path = Some (build_table rs)"
    "\<And>n. n \<noteq> path \<Longrightarrow> fs_read fs' n = fs_read fs n" "can_write fs' = can_write fs"
proof -
  let ?fs1 = "if fs_exists fs path then fs_remove path fs else fs"
  have r: "fs_read ?fs1 path = None" "can_write ?fs1 = can_write fs"
      "\<And>n. n \<noteq> path \<Longrightarrow> fs_read ?fs1 n = fs_read fs n"
    by (auto simp: fs_exists_def)
  then have "write_sst path rs ?fs1 = fs_write path (build_table rs) ?fs1"
    using assms(2) by (simp add: write_sst_def build_table_def Let_def)
  then have "build_sst path rs fs = Some (Some (opened rs), fs_write path (build_table rs) ?fs1)"
    by (simp add: build_sst_def Let_def open_sst_def Open_build_table_aux [OF assms(1)])
  then show thesis using that r by (simp add: fs_exists_def)
qed

subsection \<open>Consuming level 0\<close>

lemma consume_l0_simps:
  "consume_l0 [] mf = mf"
  "consume_l0 (i # is) mf =
     consume_l0 is (case RemoveSst i mf of (m, fs) \<Rightarrow> (m, fs_remove (sst_name i) fs))"
  by (simp_all add: consume_l0_def)

definition erase_ssts :: "u64 list \<Rightarrow> ManifestState \<Rightarrow> ManifestState" where
  "erase_ssts is st = st\<lparr>sst_levels := filter (\<lambda>(i, _). i \<notin> set is) (sst_levels st)\<rparr>"

lemma sst_name_not_manifest [simp]: "sst_name i \<notin> manifest_names" "wal_name i \<notin> manifest_names"
proof -
  have "path_ext n \<in> {'''', ''.tmp'', ''.log''}" if "n \<in> manifest_names" for n
    using that by (auto simp: manifest_names_def manifest_path_def manifest_tmp_path_def manifest_log_path_def
        path_ext_def)
  then show "sst_name i \<notin> manifest_names" "wal_name i \<notin> manifest_names" by fastforce+
qed

lemma sst_name_ne_manifest [simp]:
  "sst_name i \<noteq> manifest_path" "sst_name i \<noteq> manifest_log_path"
  "wal_name i \<noteq> manifest_path" "wal_name i \<noteq> manifest_log_path"
  "manifest_path \<noteq> sst_name i" "manifest_log_path \<noteq> sst_name i"
  "manifest_path \<noteq> wal_name i" "manifest_log_path \<noteq> wal_name i"
  using sst_name_not_manifest [of i] by (auto simp: manifest_names_def)

lemma mirrored_other_file:
  assumes "mirrored (m, fs)" "fs_read fs' manifest_path = fs_read fs manifest_path"
    "fs_read fs' manifest_log_path = fs_read fs manifest_log_path" "can_write fs' = can_write fs"
  shows "mirrored (m, fs')"
  using assms denotes_cong [of fs' fs] by (simp add: mirrored_def)

lemma consume_l0_ok:
  assumes "mirrored (m, fs)" "state_fits (mstate m)"
  shows "\<exists>m' fs'. consume_l0 is (m, fs) = (m', fs') \<and> mirrored (m', fs') \<and>
    mstate m' = erase_ssts is (mstate m) \<and> can_write fs' = can_write fs \<and>
    (\<forall>n. n \<notin> manifest_names \<longrightarrow> fs_read fs' n = (if n \<in> sst_name ` set is then None else fs_read fs n))"
  using assms
proof (induction "is" arbitrary: m fs)
  case Nil
  then show ?case by (simp add: consume_l0_simps erase_ssts_def)
next
  case (Cons i "is")
  obtain m1 fs1 where r: "RemoveSst i (m, fs) = (m1, fs1)" by fastforce
  note R = RemoveSst_mirrored [OF Cons.prems(1) r Cons.prems(2)]
  have m1: "mirrored (m1, fs_remove (sst_name i) fs1)"
    by (rule mirrored_other_file [of m1 fs1]) (use R in simp_all)
  have f1: "state_fits (mstate m1)" using R state_fits_erase(1) [OF Cons.prems(2)] by simp
  obtain m' fs' where c: "consume_l0 is (m1, fs_remove (sst_name i) fs1) = (m', fs')" "mirrored (m', fs')"
    "mstate m' = erase_ssts is (mstate m1)" "can_write fs' = can_write (fs_remove (sst_name i) fs1)"
    "\<And>n. n \<notin> manifest_names \<Longrightarrow> fs_read fs' n =
       (if n \<in> sst_name ` set is then None else fs_read (fs_remove (sst_name i) fs1) n)"
    using Cons.IH [OF m1 f1] by blast
  have "mstate m' = erase_ssts (i # is) (mstate m)"
    using c(3) R by (simp add: erase_ssts_def omap_erase_def filter_filter case_prod_unfold conj_commute)
  moreover have "fs_read fs' n = (if n \<in> sst_name ` set (i # is) then None else fs_read fs n)"
    if "n \<notin> manifest_names" for n
    using c(5) [OF that] R that by (auto simp: same_files_def)
  moreover have "consume_l0 (i # is) (m, fs) = (m', fs')" using c(1) r by (simp add: consume_l0_simps)
  ultimately show ?case using c(2,4) R by (simp add: same_files_def)
qed

end
