(* ===== verification/RecoveryLoader.thy ===== *)
theory RecoveryLoader
  imports CompactionEngine "HOL-Library.Product_Lexorder"
begin

text \<open>
  Recovery (\<open>include/RecoveryLoader.h\<close>, \<open>src/RecoveryLoader.cpp\<close>): finding the file-number counter
  when there is no manifest, opening the tables the manifest lists, and replaying the write-ahead
  logs into the memtable. \<open>None\<close> stands for an exception of \<open>std::stoi\<close> or \<open>std::stoull\<close>, or for a
  read outside a table.
\<close>

section \<open>Operations\<close>

text \<open>The files of the directory with a given extension and a stem of digits, in iteration order.\<close>

definition numbered_files :: "string list \<Rightarrow> fsys \<Rightarrow> string list" where
  "numbered_files exts fs =
     filter (\<lambda>n. path_ext n \<in> set exts \<and> list_all is_digit (path_stem n)) (map fst (entries fs))"

fun max_file_id :: "string list \<Rightarrow> int \<Rightarrow> int option" where
  "max_file_id [] m = Some m"
| "max_file_id (n # ns) m = do { i \<leftarrow> stoi (path_stem n); max_file_id ns (max m i) }"

definition InitNextFileNumberFromDisk :: "ManifestManager \<times> fsys \<Rightarrow> ManifestManager option" where
  "InitNextFileNumberFromDisk mf =
     (case mf of (m, fs) \<Rightarrow> do {
        max_id \<leftarrow> max_file_id (numbered_files [''.sst'', ''.wal''] fs) 0;
        Some (SetNextFileNumberWithoutEdit (of_int max_id) m)
      })"

definition push_level :: "u32 \<Rightarrow> SSTableReader \<Rightarrow> Levels \<Rightarrow> Levels" where
  "push_level level r lv =
     (if level = 0 then lv\<lparr>level0 := level0 lv @ [r]\<rparr> else lv\<lparr>level1 := level1 lv @ [r]\<rparr>)"

fun load_listed :: "fsys \<Rightarrow> (u64 \<times> u32) list \<Rightarrow> Levels \<Rightarrow> Levels option" where
  "load_listed fs [] lv = Some lv"
| "load_listed fs ((i, level) # es) lv =
     (if level \<ge> 2 then load_listed fs es lv
      else if \<not> fs_exists fs (sst_name i) then load_listed fs es lv
      else do {
        r \<leftarrow> open_sst (sst_name i) fs;
        case r of None \<Rightarrow> load_listed fs es lv
        | Some rd \<Rightarrow> load_listed fs es (push_level level rd lv)
      })"

text \<open>Without listed tables every numbered \<open>.sst\<close> file is taken into level 0.\<close>

fun scan_ids :: "string list \<Rightarrow> (int \<times> string) list option" where
  "scan_ids [] = Some []"
| "scan_ids (n # ns) = do {
     i \<leftarrow> stoull (path_stem n);
     rest \<leftarrow> scan_ids ns;
     Some ((sint (ucast i :: u32), n) # rest)
   }"

fun load_scanned ::
  "fsys \<Rightarrow> (int \<times> string) list \<Rightarrow> Levels \<times> ManifestManager \<Rightarrow> (Levels \<times> ManifestManager) option" where
  "load_scanned fs [] lm = Some lm"
| "load_scanned fs ((i, n) # es) lm = do {
     r \<leftarrow> open_sst n fs;
     case r of None \<Rightarrow> load_scanned fs es lm
     | Some rd \<Rightarrow> load_scanned fs es
         (push_level 0 rd (fst lm), SetSstLevelWithoutEdit (of_int i) 0 (snd lm))
   }"

definition LoadSSTables :: "ManifestManager \<times> fsys \<Rightarrow> (Levels \<times> (ManifestManager \<times> fsys)) option" where
  "LoadSSTables mf =
     (case mf of (m, fs) \<Rightarrow>
        if SstLevels m \<noteq> [] then do {
          lv \<leftarrow> load_listed fs (SstLevels m) \<lparr>level0 = [], level1 = []\<rparr>;
          Some (lv, (m, fs))
        }
        else do {
          ids \<leftarrow> scan_ids (numbered_files [''.sst''] fs);
          (lv, m') \<leftarrow> load_scanned fs (sort ids) (\<lparr>level0 = [], level1 = []\<rparr>, m);
          Some (lv, (m', if SstLevels m' \<noteq> [] then snd (Persist m' fs) else fs))
        })"

fun add_found_wals :: "string list \<Rightarrow> ManifestManager \<times> fsys \<Rightarrow> (ManifestManager \<times> fsys) option" where
  "add_found_wals [] mf = Some mf"
| "add_found_wals (n # ns) mf = do {
     i \<leftarrow> stoull (path_stem n);
     add_found_wals ns (snd (AddWal i mf))
   }"

fun replay_wals ::
  "junk \<Rightarrow> (nat \<Rightarrow> bool) \<Rightarrow> u64 list \<Rightarrow> MemTable \<times> fsys \<Rightarrow> (MemTable \<times> fsys) option" where
  "replay_wals junk coin [] mf = Some mf"
| "replay_wals junk coin (i # is) mf =
     (case mf of (mt, fs) \<Rightarrow>
        if \<not> fs_exists fs (wal_name i) then replay_wals junk coin is (mt, fs)
        else
          (case new_WalHandler (wal_name i) fs of (w, fs') \<Rightarrow> do {
             mt' \<leftarrow> insert_all ApplyWithoutWal coin (LoadLog junk w fs') mt;
             replay_wals junk coin is (mt', fs')
           }))"

definition RecoverFromWals ::
  "junk \<Rightarrow> (nat \<Rightarrow> bool) \<Rightarrow> MemTable \<Rightarrow> ManifestManager \<times> fsys
   \<Rightarrow> (MemTable \<times> (ManifestManager \<times> fsys)) option" where
  "RecoverFromWals junk coin mt mf = do {
     (m, fs) \<leftarrow> add_found_wals (numbered_files [''.wal''] (snd mf)) mf;
     (mt', fs') \<leftarrow> replay_wals junk coin (sort (LiveWals m)) (mt, fs);
     Some (mt', (m, fs'))
   }"

end
