(* ===== verification/DBIterator.thy ===== *)
theory DBIterator
  imports Prelude
begin

text \<open>
  The database iterator (\<open>include/DBIterator.h\<close>, \<open>src/DBIterator.cpp\<close>): a cursor over the sorted
  rows that \<open>DBImpl::NewIterator\<close> hands it. Reading through an invalid cursor trips an assertion
  in the source and is \<open>None\<close> here.
\<close>

record DBIterator =
  it_rows :: "(bytes \<times> bytes) list"
  it_pos :: nat

definition new_DBIterator :: "(bytes \<times> bytes) list \<Rightarrow> DBIterator" where
  "new_DBIterator rows = \<lparr>it_rows = rows, it_pos = 0\<rparr>"

definition Seek :: "bytes \<Rightarrow> DBIterator \<Rightarrow> DBIterator" where
  "Seek start_key it = it\<lparr>it_pos := lower_bound (\<lambda>e. fst e < start_key) (it_rows it)\<rparr>"

definition Valid :: "DBIterator \<Rightarrow> bool" where
  "Valid it \<longleftrightarrow> it_pos it < length (it_rows it)"

definition Next :: "DBIterator \<Rightarrow> DBIterator" where
  "Next it = (if Valid it then it\<lparr>it_pos := it_pos it + 1\<rparr> else it)"

definition it_key :: "DBIterator \<Rightarrow> bytes option" where
  "it_key it = (if Valid it then Some (fst (it_rows it ! it_pos it)) else None)"

definition it_value :: "DBIterator \<Rightarrow> bytes option" where
  "it_value it = (if Valid it then Some (snd (it_rows it ! it_pos it)) else None)"

text \<open>A client's loop \<open>while (it->Valid()) { ... it->Next(); }\<close>, collecting what it sees.\<close>

function iter_collect :: "DBIterator \<Rightarrow> (bytes \<times> bytes) list option" where
  "iter_collect it =
     (if Valid it then do {
        k \<leftarrow> it_key it;
        v \<leftarrow> it_value it;
        rest \<leftarrow> iter_collect (Next it);
        Some ((k, v) # rest)
      } else Some [])"
  by pat_completeness auto
termination
  by (relation "measure (\<lambda>it. length (it_rows it) - it_pos it)") (auto simp: Valid_def Next_def)

declare iter_collect.simps [simp del]

lemma iter_collect_drop: "iter_collect it = Some (drop (it_pos it) (it_rows it))"
proof (induction it rule: iter_collect.induct)
  case (1 it)
  show ?case
  proof (cases "Valid it")
    case True
    have "drop (it_pos it) (it_rows it) = it_rows it ! it_pos it # drop (Suc (it_pos it)) (it_rows it)"
      using True by (simp add: Valid_def Cons_nth_drop_Suc)
    moreover have "iter_collect (Next it) = Some (drop (Suc (it_pos it)) (it_rows it))"
      using "1.IH" [OF True] True by (simp add: it_key_def it_value_def Next_def)
    ultimately show ?thesis
      using True by (subst iter_collect.simps) (simp add: it_key_def it_value_def)
  qed (simp add: iter_collect.simps Valid_def)
qed

lemma drop_takeWhile_sorted:
  "sorted_keys rows \<Longrightarrow>
   drop (length (takeWhile (\<lambda>e. fst e < k) rows)) rows = filter (\<lambda>e. k \<le> fst e) rows"
proof (induction rows)
  case (Cons r rows)
  obtain a b where r: "r = (a, b)" by (cases r)
  show ?case
  proof (cases "a < k")
    case False
    then have "\<forall>e\<in>set rows. k \<le> fst e" using Cons.prems by (force simp: r)
    with False show ?thesis by (simp add: r not_less filter_id_conv)
  qed (use Cons in \<open>simp add: r not_le\<close>)
qed simp

text \<open>
  On the sorted rows the database provides, \<open>Seek\<close> followed by a loop over \<open>Valid\<close> and
  \<open>Next\<close> visits exactly the rows whose key is not below the start key, in ascending order.
\<close>

theorem seek_then_scan:
  assumes "sorted_keys (it_rows it)"
  shows "iter_collect (Seek k it) = Some (filter (\<lambda>e. k \<le> fst e) (it_rows it))"
  using lower_bound_sorted [of fst "it_rows it" k] drop_takeWhile_sorted [OF assms, of k] assms
  by (simp add: iter_collect_drop Seek_def sorted_keys_def)

theorem seek_then_scan_witness:
  "iter_collect (Seek ''b'' (new_DBIterator [(''a'', ''1''), (''c'', ''3'')])) = Some [(''c'', ''3'')]"
  using seek_then_scan [of "new_DBIterator [(''a'', ''1''), (''c'', ''3'')]" "''b''"]
  by (simp add: new_DBIterator_def less_char_def less_eq_char_def)

end
