(* ===== verification/DBImpl.thy ===== *)
theory DBImpl
  imports RecoveryLoader DBIterator
begin

text \<open>
  The database (\<open>include/DBImpl.h\<close>, \<open>src/DBImpl.cpp\<close>). Every critical section of the source is one
  function here: the two halves of \<open>Put\<close>, the lookup, the iterator, the three phases of the minor
  compaction and of the level-0 compaction, the constructor and the destructor. The theory
  \<open>DBSteps\<close> interleaves them.

  \<open>None\<close> stands for undefined behaviour (a null memtable, a skip list or table read out of bounds)
  or an exception. The out parameter of \<open>Get\<close> is modelled only when \<open>Get\<close> returns true.
\<close>

section \<open>State\<close>

record DBImpl =
  db_manifest :: ManifestManager
  db_levels :: Levels
  db_mem :: "MemTable option"
  db_imm :: "MemTable option"
  active_wal_id :: u64
  imm_wal_id :: u64
  minor_compact_count :: u64
  bg_stopped :: bool
  bg_compaction_scheduled :: bool
  db_dir :: fsys

definition db_mf :: "DBImpl \<Rightarrow> ManifestManager \<times> fsys" where
  "db_mf db = (db_manifest db, db_dir db)"

definition set_mf :: "ManifestManager \<times> fsys \<Rightarrow> DBImpl \<Rightarrow> DBImpl" where
  "set_mf mf db = db\<lparr>db_manifest := fst mf, db_dir := snd mf\<rparr>"

definition memtable_limit :: int where "memtable_limit = 10000"

section \<open>Lookup and iteration\<close>

definition mem_lookup :: "MemTable option \<Rightarrow> bytes \<Rightarrow> ValueRecord option option" where
  "mem_lookup m key = (case m of None \<Rightarrow> Some None | Some mt \<Rightarrow> MemTable_Get mt key)"

definition DBImpl_Get :: "DBImpl \<Rightarrow> bytes \<Rightarrow> ValueRecord option option" where
  "DBImpl_Get db key = do {
     r1 \<leftarrow> mem_lookup (db_mem db) key;
     case r1 of
       Some rec \<Rightarrow> Some (if vtype rec = kValue then Some rec else None)
     | None \<Rightarrow> do {
         r2 \<leftarrow> mem_lookup (db_imm db) key;
         case r2 of
           Some rec \<Rightarrow> Some (if vtype rec = kValue then Some rec else None)
         | None \<Rightarrow> do {
             r3 \<leftarrow> first_hit GetRecord (rev (level0 (db_levels db))) key;
             case r3 of
               Some rec \<Rightarrow> Some (if vtype rec = kDeletion then None else Some rec)
             | None \<Rightarrow> do {
                 r4 \<leftarrow> first_hit GetRecord (rev (level1 (db_levels db))) key;
                 Some (case r4 of
                         Some rec \<Rightarrow> if vtype rec = kDeletion then None else Some rec
                       | None \<Rightarrow> None)
               }
           }
       }
   }"

definition mem_snapshot :: "MemTable option \<Rightarrow> row list option" where
  "mem_snapshot m = (case m of None \<Rightarrow> Some [] | Some mt \<Rightarrow> MemTable_Snapshot mt)"

definition NewIterator :: "DBImpl \<Rightarrow> DBIterator option" where
  "NewIterator db = do {
     s1 \<leftarrow> mem_snapshot (db_mem db);
     s2 \<leftarrow> mem_snapshot (db_imm db);
     t0 \<leftarrow> each_table ForEach (rev (level0 (db_levels db)));
     t1 \<leftarrow> each_table ForEach (rev (level1 (db_levels db)));
     (let seen = merge_tables (s1 # s2 # t0 @ t1);
          rows = map (\<lambda>(k, rec). (k, rvalue rec)) (filter (\<lambda>(k, rec). vtype rec = kValue) seen)
      in Some (new_DBIterator rows))
   }"

section \<open>Put\<close>

text \<open>The loop under the state lock: wait for the background thread, or make room and go on.\<close>

datatype rotate_result = RotateWait | RotateDone DBImpl

definition rotate_memtable :: "MemTable \<Rightarrow> DBImpl \<Rightarrow> DBImpl" where
  "rotate_memtable m db =
     (case AllocateFileNumber (db_mf db) of (n, (man, fs)) \<Rightarrow>
      case new_MemTable (wal_name n) memtable_max_level fs of (m', fs') \<Rightarrow>
      case AddWal n (man, fs') of (_, mf) \<Rightarrow>
        (set_mf mf db)\<lparr>imm_wal_id := active_wal_id db, db_imm := Some m, db_mem := Some m',
                      active_wal_id := n, bg_compaction_scheduled := True\<rparr>)"

definition Put_rotate :: "DBImpl \<Rightarrow> rotate_result option" where
  "Put_rotate db = do {
     m \<leftarrow> db_mem db;
     Some (if MemTable_Count m < memtable_limit then RotateDone db
           else if db_imm db \<noteq> None then RotateWait
           else RotateDone (rotate_memtable m db))
   }"

definition Put_write :: "(nat \<Rightarrow> bool) \<Rightarrow> bytes \<Rightarrow> ValueRecord \<Rightarrow> DBImpl \<Rightarrow> DBImpl option" where
  "Put_write coin key val db = do {
     m \<leftarrow> db_mem db;
     (m', fs) \<leftarrow> MemTable_Put coin key val (m, db_dir db);
     Some (db\<lparr>db_mem := Some m', db_dir := fs\<rparr>)
   }"

text \<open>An uncontended call; \<open>Some None\<close> is a call that blocks.\<close>

definition DBImpl_Put :: "(nat \<Rightarrow> bool) \<Rightarrow> bytes \<Rightarrow> ValueRecord \<Rightarrow> DBImpl \<Rightarrow> DBImpl option option" where
  "DBImpl_Put coin key val db = do {
     r \<leftarrow> Put_rotate db;
     case r of
       RotateWait \<Rightarrow> Some None
     | RotateDone db' \<Rightarrow> do { db'' \<leftarrow> Put_write coin key val db'; Some (Some db'') }
   }"

section \<open>Compaction\<close>

definition Minor_prepare :: "DBImpl \<Rightarrow> MinorCtx option \<times> DBImpl" where
  "Minor_prepare db =
     (case db_imm db of
        None \<Rightarrow> (None, db)
      | Some m \<Rightarrow>
          (case AllocateFileNumber (db_mf db) of (n, mf) \<Rightarrow>
             (Some \<lparr>flushing_imm = Some m, old_wal_id = imm_wal_id db, old_wal_path = wal_name (imm_wal_id db),
                    minor_sst_id = n, minor_sst_path = sst_name n\<rparr>, set_mf mf db)))"

definition Minor_build :: "MinorCtx \<Rightarrow> DBImpl \<Rightarrow> (SSTableReader option \<times> DBImpl) option" where
  "Minor_build ctx db = do {
     (r, fs) \<leftarrow> BuildMinorSST ctx (db_dir db);
     Some (r, db\<lparr>db_dir := fs, minor_compact_count := minor_compact_count db + 1\<rparr>)
   }"

text \<open>Installing the flushed table; the result says whether to compact level 0.\<close>

definition Minor_install :: "MinorCtx \<Rightarrow> SSTableReader option \<Rightarrow> DBImpl \<Rightarrow> bool \<times> DBImpl" where
  "Minor_install ctx reader db =
     (case reader of
        None \<Rightarrow> (False, db)
      | Some rd \<Rightarrow>
          (let lv = (db_levels db)\<lparr>level0 := level0 (db_levels db) @ [rd]\<rparr>;
               mf1 = AddSst (minor_sst_id ctx) 0 (db_mf db);
               mf2 = snd (RemoveWal (old_wal_id ctx) mf1);
               mf3 = (fst mf2, fs_remove (old_wal_path ctx) (snd mf2))
           in (length (level0 lv) \<ge> 2, (set_mf mf3 db)\<lparr>db_levels := lv, db_imm := None, imm_wal_id := 0\<rparr>)))"

definition Compact_prepare :: "DBImpl \<Rightarrow> (L0ToL1Ctx option \<times> DBImpl) option" where
  "Compact_prepare db = do {
     (ok, ctx, mf) \<leftarrow> PrepareL0ToL1 (db_levels db) (db_mf db);
     Some (if ok then Some ctx else None, set_mf mf db)
   }"

text \<open>The build phase; \<open>None\<close> in the first component aborts the compaction.\<close>

definition Compact_build ::
  "L0ToL1Ctx \<Rightarrow> DBImpl \<Rightarrow> (SSTableReader option option \<times> DBImpl) option" where
  "Compact_build ctx db =
     (if has_output ctx then do {
        (r, fs) \<leftarrow> BuildL0ToL1SST ctx (db_dir db);
        Some (if r = None then None else Some r, db\<lparr>db_dir := fs\<rparr>)
      } else Some (Some None, db))"

definition Compact_install :: "L0ToL1Ctx \<Rightarrow> SSTableReader option \<Rightarrow> DBImpl \<Rightarrow> DBImpl" where
  "Compact_install ctx reader db =
     (case InstallL0ToL1 ctx reader (db_levels db) (db_mf db) of
        (True, lv, mf) \<Rightarrow> (set_mf mf db)\<lparr>db_levels := lv\<rparr>
      | (False, lv, mf) \<Rightarrow>
          (let mf' = (if new_sst_path ctx \<noteq> [] then (fst mf, fs_remove (new_sst_path ctx) (snd mf)) else mf)
           in (set_mf mf' db)\<lparr>db_levels := lv\<rparr>))"

text \<open>The two compactions run without interference.\<close>

definition CompactL0ToL1 :: "DBImpl \<Rightarrow> DBImpl option" where
  "CompactL0ToL1 db = do {
     (c, db1) \<leftarrow> Compact_prepare db;
     case c of
       None \<Rightarrow> Some db1
     | Some ctx \<Rightarrow> do {
         (r, db2) \<leftarrow> Compact_build ctx db1;
         Some (case r of None \<Rightarrow> db2 | Some reader \<Rightarrow> Compact_install ctx reader db2)
       }
   }"

definition MinorCompaction :: "DBImpl \<Rightarrow> DBImpl option" where
  "MinorCompaction db =
     (case Minor_prepare db of
        (None, db1) \<Rightarrow> Some db1
      | (Some ctx, db1) \<Rightarrow> do {
          (r, db2) \<leftarrow> Minor_build ctx db1;
          (case Minor_install ctx r db2 of
             (trigger, db3) \<Rightarrow> if trigger then CompactL0ToL1 db3 else Some db3)
        })"

section \<open>Waiting, status\<close>

text \<open>The predicates of the waits in \<open>BackgroundLoop\<close> and \<open>Sync\<close>.\<close>

definition bg_ready :: "DBImpl \<Rightarrow> bool" where
  "bg_ready db \<longleftrightarrow> bg_stopped db \<or> bg_compaction_scheduled db"

definition sync_ready :: "DBImpl \<Rightarrow> bool" where
  "sync_ready db \<longleftrightarrow> db_imm db = None \<and> \<not> bg_compaction_scheduled db"

text \<open>One round of \<open>BackgroundLoop\<close>: \<open>None\<close> inside when the loop ends.\<close>

definition BackgroundRound :: "DBImpl \<Rightarrow> DBImpl option option" where
  "BackgroundRound db =
     (if bg_stopped db then Some None
      else do { db' \<leftarrow> MinorCompaction db; Some (Some (db'\<lparr>bg_compaction_scheduled := False\<rparr>)) })"

definition LevelSize :: "nat \<Rightarrow> DBImpl \<Rightarrow> nat" where
  "LevelSize level db =
     (if level \<ge> 2 then 0
      else if level = 0 then length (level0 (db_levels db)) else length (level1 (db_levels db)))"

record DBStatus =
  mem_count :: int
  imm_count :: int
  l0_count :: nat
  l1_count :: nat
  st_minor_compact_count :: u64

definition GetStatus :: "DBImpl \<Rightarrow> DBStatus" where
  "GetStatus db =
     \<lparr>mem_count = (case db_mem db of None \<Rightarrow> 0 | Some m \<Rightarrow> MemTable_Count m),
      imm_count = (case db_imm db of None \<Rightarrow> 0 | Some m \<Rightarrow> MemTable_Count m),
      l0_count = length (level0 (db_levels db)), l1_count = length (level1 (db_levels db)),
      st_minor_compact_count = minor_compact_count db\<rparr>"

section \<open>Opening and closing\<close>

definition new_DBImpl :: "junk \<Rightarrow> (nat \<Rightarrow> bool) \<Rightarrow> fsys \<Rightarrow> DBImpl option" where
  "new_DBImpl junk coin fs0 = do {
     (m1, fs1) \<leftarrow>
       (case Load fs0 new_ManifestManager of
          (True, m) \<Rightarrow> Some (m, fs0)
        | (False, m) \<Rightarrow> do {
            m' \<leftarrow> InitNextFileNumberFromDisk (m, fs0);
            Some (m', snd (Persist m' fs0))
          });
     (case ReplayLog fs1 m1 of
        (False, m2) \<Rightarrow> None
      | (True, m2) \<Rightarrow> do {
          (lv, mf3) \<leftarrow> LoadSSTables (m2, fs1);
          (case AllocateFileNumber mf3 of (n, (m4, fs4)) \<Rightarrow>
           case new_MemTable (wal_name n) memtable_max_level fs4 of (mt, fs5) \<Rightarrow>
           case AddWal n (m4, fs5) of (_, mf6) \<Rightarrow> do {
             (mt', (m7, fs7)) \<leftarrow> RecoverFromWals junk coin mt mf6;
             Some \<lparr>db_manifest = m7, db_levels = lv, db_mem = Some mt', db_imm = None,
                   active_wal_id = n, imm_wal_id = 0, minor_compact_count = 0, bg_stopped = False,
                   bg_compaction_scheduled = False, db_dir = fs7\<rparr>
           })
        })
   }"

text \<open>
  The destructor after the background thread was joined: a last flush of the active memtable; what
  remains of the database is its directory.
\<close>

definition close_DBImpl :: "DBImpl \<Rightarrow> fsys option" where
  "close_DBImpl db =
     (case db_mem db of
        Some m \<Rightarrow>
          if MemTable_Count m > 0
          then do {
            db' \<leftarrow> MinorCompaction
              (db\<lparr>bg_stopped := True, db_imm := Some m, imm_wal_id := active_wal_id db, db_mem := None\<rparr>);
            Some (db_dir db')
          }
          else Some (db_dir db)
      | None \<Rightarrow> Some (db_dir db))"

end
