(* ===== verification/DBInv.thy ===== *)
theory DBInv
  imports DBImpl
begin

text \<open>
  What the database holds: the map that a reader sees, the invariant that ties memtables, tables,
  manifest and directory together, and for each critical section of \<open>DBImpl\<close> that it keeps the
  invariant and how it changes the map.
\<close>

section \<open>The visible map\<close>

definition opt_rows :: "MemTable option \<Rightarrow> row list" where
  "opt_rows m = (case m of None \<Rightarrow> [] | Some mt \<Rightarrow> mem_rows mt)"

text \<open>All rows, the newest layer first.\<close>

definition layers :: "DBImpl \<Rightarrow> row list" where
  "layers db = opt_rows (db_mem db) @ opt_rows (db_imm db)
     @ newest_first (level0 (db_levels db)) @ newest_first (level1 (db_levels db))"

definition view :: "DBImpl \<Rightarrow> bytes \<Rightarrow> bytes option" where
  "view db key = live (map_of (layers db) key)"

definition mem_fine :: "MemTable \<Rightarrow> bool" where
  "mem_fine mt \<longleftrightarrow> mem_ok mt \<and> (\<forall>r\<in>set (mem_rows mt). row_ok r \<and> plain_row r)"

definition reader_fine :: "SSTableReader \<Rightarrow> bool" where
  "reader_fine r \<longleftrightarrow> reader_ok r \<and> (\<forall>x\<in>set (reader_rows r). plain_row x)"

definition parts_fine :: "DBImpl \<Rightarrow> bool" where
  "parts_fine db \<longleftrightarrow>
     (\<forall>mt. db_mem db = Some mt \<longrightarrow> mem_fine mt) \<and> (\<forall>mt. db_imm db = Some mt \<longrightarrow> mem_fine mt) \<and>
     (\<forall>r\<in>set (level0 (db_levels db)) \<union> set (level1 (db_levels db)). reader_fine r)"

lemma mem_lookup_rows:
  "(\<forall>mt. m = Some mt \<longrightarrow> mem_fine mt) \<Longrightarrow> mem_lookup m key = Some (map_of (opt_rows m) key)"
  by (cases m) (simp_all add: mem_lookup_def opt_rows_def mem_fine_def mem.search_law)

lemma mem_snapshot_rows:
  "(\<forall>mt. m = Some mt \<longrightarrow> mem_fine mt) \<Longrightarrow> mem_snapshot m = Some (opt_rows m)"
  by (cases m) (simp_all add: mem_snapshot_def opt_rows_def mem_fine_def mem.rows_law)

lemma first_hit_level:
  "\<forall>r\<in>set l. reader_fine r \<Longrightarrow>
   first_hit GetRecord (rev l) key = Some (map_option shown_record (map_of (newest_first l) key))"
  by (simp add: sst.first_hit_newest reader_fine_def newest_first_def)

lemma each_table_level:
  "\<forall>r\<in>set l. reader_fine r \<Longrightarrow> each_table ForEach (rev l) = Some (map reader_rows (rev l))"
  by (simp add: sst.each_table_rows reader_fine_def)

definition as_value :: "bytes option \<Rightarrow> ValueRecord option" where
  "as_value v = map_option (\<lambda>s. \<lparr>vtype = kValue, rvalue = s\<rparr>) v"

lemma live_of_value: "(if vtype rec = kValue then Some rec else None) = as_value (live (Some rec))"
  by (simp add: as_value_def live_def)

lemma live_of_plain:
  assumes "vtype rec = kValue \<or> vtype rec = kDeletion"
  shows "(if vtype (shown_record rec) = kDeletion then None else Some (shown_record rec)) = as_value (live (Some rec))"
  using assms by (auto simp: as_value_def live_def shown_record_def)

lemma plain_lookup: "\<forall>r\<in>set rs. plain_row r \<Longrightarrow> map_of rs k = Some rec \<Longrightarrow> vtype rec = kValue \<or> vtype rec = kDeletion"
  by (auto simp: plain_row_def dest!: map_of_SomeD)

lemma DBImpl_Get_view:
  assumes "parts_fine db"
  shows "DBImpl_Get db key = Some (as_value (view db key))"
proof -
  let ?l0 = "level0 (db_levels db)" and ?l1 = "level1 (db_levels db)"
  have m: "mem_lookup (db_mem db) key = Some (map_of (opt_rows (db_mem db)) key)"
    "mem_lookup (db_imm db) key = Some (map_of (opt_rows (db_imm db)) key)"
    using assms by (intro mem_lookup_rows; simp add: parts_fine_def)+
  have l: "first_hit GetRecord (rev ?l0) key = Some (map_option shown_record (map_of (newest_first ?l0) key))"
    "first_hit GetRecord (rev ?l1) key = Some (map_option shown_record (map_of (newest_first ?l1) key))"
    using assms by (intro first_hit_level; simp add: parts_fine_def)+
  have pl: "\<forall>r\<in>set (newest_first ?l0) \<union> set (newest_first ?l1). plain_row r"
    using assms by (auto simp: parts_fine_def reader_fine_def newest_first_def)
  have p: "vtype rec = kValue \<or> vtype rec = kDeletion"
    if "map_of (newest_first ?l0) key = Some rec \<or> map_of (newest_first ?l1) key = Some rec" for rec
    using that pl plain_lookup by (metis Un_iff)
  show ?thesis
    unfolding DBImpl_Get_def m l view_def layers_def
    by (auto simp: map_add_def live_of_value live_of_plain p as_value_def split: option.split)
qed

lemma live_filter_rows:
  "map_of (map (\<lambda>(k, rec). (k, rvalue rec)) (filter (\<lambda>(k, rec). vtype rec = kValue) rs)) k = live (map_of rs k)"
  if "sorted_keys rs"
  using that
proof (induction rs)
  case (Cons r rs)
  obtain a rec where r: "r = (a, rec)" by (cases r)
  have "map_of rs a = None" using Cons.prems by (auto simp: r map_of_eq_None_iff)
  with Cons show ?case by (auto simp: r live_def split: option.splits)
qed simp

lemma NewIterator_view:
  assumes "parts_fine db"
  shows "\<exists>rows. NewIterator db = Some (new_DBIterator rows) \<and> sorted_keys rows \<and> map_of rows = view db"
proof -
  let ?l0 = "level0 (db_levels db)" and ?l1 = "level1 (db_levels db)"
  let ?seen = "merge_tables (opt_rows (db_mem db) # opt_rows (db_imm db) # map reader_rows (rev ?l0) @ map reader_rows (rev ?l1))"
  let ?rows = "map (\<lambda>(k, rec). (k, rvalue rec)) (filter (\<lambda>(k, rec). vtype rec = kValue) ?seen)"
  have m: "mem_snapshot (db_mem db) = Some (opt_rows (db_mem db))" "mem_snapshot (db_imm db) = Some (opt_rows (db_imm db))"
    using assms by (intro mem_snapshot_rows; simp add: parts_fine_def)+
  have l: "each_table ForEach (rev ?l0) = Some (map reader_rows (rev ?l0))"
    "each_table ForEach (rev ?l1) = Some (map reader_rows (rev ?l1))"
    using assms by (intro each_table_level; simp add: parts_fine_def)+
  have "map_of ?rows = view db"
    by (rule ext) (simp add: live_filter_rows map_of_merge_tables view_def layers_def newest_first_def)
  moreover have "sorted_keys ?rows"
    using sorted_keys_filter [OF merge_tables_sorted]
    by (simp add: sorted_keys_def comp_def case_prod_unfold)
  moreover have "NewIterator db = Some (new_DBIterator ?rows)"
    unfolding NewIterator_def m l by (simp add: Let_def)
  ultimately show ?thesis by blast
qed

section \<open>The invariant\<close>

definition db_state :: "DBImpl \<Rightarrow> ManifestState" where
  "db_state db = mstate (db_manifest db)"

definition ids_at :: "u32 \<Rightarrow> ManifestState \<Rightarrow> u64 list" where
  "ids_at level st = map fst (filter (\<lambda>(_, l). l = level) (sst_levels st))"

definition sst_ids :: "ManifestState \<Rightarrow> u64 set" where
  "sst_ids st = fst ` set (sst_levels st)"

text \<open>The files of the listed tables hold what the open readers show.\<close>

definition dir_matches :: "fsys \<Rightarrow> u64 list \<Rightarrow> SSTableReader list \<Rightarrow> bool" where
  "dir_matches fs ids rs \<longleftrightarrow>
     list_all2 (\<lambda>i r. fs_read fs (sst_name i) = Some (build_table (reader_rows r))) ids rs"

text \<open>
  The invariant of a database whose files can all be opened for writing (the last conjunct). With a
  file that cannot be opened the code behaves differently: a table that cannot be written leaves the
  immutable memtable where it is (\<open>failed_flush_stalls\<close> in \<open>DBSteps\<close>), a manifest log that cannot be
  opened makes \<open>RecordEdit\<close> fall back to a snapshot (\<open>fallback_recovers\<close> in \<open>ManifestManager\<close>).
\<close>

definition db_inv :: "DBImpl \<Rightarrow> bool" where
  "db_inv db \<longleftrightarrow>
     parts_fine db \<and> db_mem db \<noteq> None \<and> (\<forall>mt. db_imm db = Some mt \<longrightarrow> mem_rows mt \<noteq> []) \<and>
     (\<forall>mt. db_mem db = Some mt \<longrightarrow> filename (wal mt) = wal_name (active_wal_id db)) \<and>
     mirrored (db_mf db) \<and>
     (\<forall>i\<in>sst_ids (db_state db). i \<le> next_file_number (db_state db)) \<and>
     (\<forall>l\<in>snd ` set (sst_levels (db_state db)). l = 0 \<or> l = 1) \<and>
     dir_matches (db_dir db) (ids_at 0 (db_state db)) (level0 (db_levels db)) \<and>
     dir_matches (db_dir db) (ids_at 1 (db_state db)) (level1 (db_levels db)) \<and>
     can_write (db_dir db) = (\<lambda>_. True)"

text \<open>
  Room for one more step: the data fits the 64-bit offsets of a table, the manifest's counts fit
  their 32-bit fields, and the file-number counter does not wrap.
\<close>

definition fits :: "DBImpl \<Rightarrow> bool" where
  "fits db \<longleftrightarrow> rows_size (layers db) < 2 ^ 56 \<and> state_size (db_state db) + 2 < 2 ^ 32 \<and>
     unat (next_file_number (db_state db)) + 1 < 2 ^ 64"

lemma db_invD:
  assumes "db_inv db"
  shows "parts_fine db" "\<exists>mt. db_mem db = Some mt" "\<And>mt. db_imm db = Some mt \<Longrightarrow> mem_rows mt \<noteq> []"
    "mirrored (db_mf db)" "\<And>i. i \<in> sst_ids (db_state db) \<Longrightarrow> i \<le> next_file_number (db_state db)"
    "\<And>l. l \<in> snd ` set (sst_levels (db_state db)) \<Longrightarrow> l = 0 \<or> l = 1"
    "dir_matches (db_dir db) (ids_at 0 (db_state db)) (level0 (db_levels db))"
    "dir_matches (db_dir db) (ids_at 1 (db_state db)) (level1 (db_levels db))"
    "can_write (db_dir db) = (\<lambda>_. True)" "state_ok (db_state db)"
    "\<And>mt. db_mem db = Some mt \<Longrightarrow> filename (wal mt) = wal_name (active_wal_id db)"
  using assms unfolding db_inv_def by (auto simp: mirrored_def db_mf_def db_state_def dest: denotes_ok)

lemma dir_matches_cong:
  assumes "\<And>i. i \<in> set ids \<Longrightarrow> fs_read fs' (sst_name i) = fs_read fs (sst_name i)"
  shows "dir_matches fs' ids rs = dir_matches fs ids rs"
  unfolding dir_matches_def by (rule list.rel_cong) (use assms in auto)

lemma ids_at_subset: "set (ids_at l st) \<subseteq> sst_ids st"
  by (auto simp: ids_at_def sst_ids_def)

text \<open>A step that leaves memory and the list of tables alone keeps the invariant.\<close>

lemma db_inv_frame:
  assumes inv: "db_inv db"
    and same: "db_mem db' = db_mem db" "db_imm db' = db_imm db" "db_levels db' = db_levels db"
      "active_wal_id db' = active_wal_id db"
      "sst_levels (db_state db') = sst_levels (db_state db)" "can_write (db_dir db') = can_write (db_dir db)"
    and mir: "mirrored (db_mf db')" and nx: "next_file_number (db_state db) \<le> next_file_number (db_state db')"
    and files: "\<And>i. i \<in> sst_ids (db_state db) \<Longrightarrow> fs_read (db_dir db') (sst_name i) = fs_read (db_dir db) (sst_name i)"
  shows "db_inv db'" "view db' = view db" "layers db' = layers db"
proof -
  note D = db_invD [OF inv]
  have ids: "ids_at l (db_state db') = ids_at l (db_state db)" "sst_ids (db_state db') = sst_ids (db_state db)" for l
    using same by (simp_all add: ids_at_def sst_ids_def)
  have dm: "dir_matches (db_dir db') (ids_at l (db_state db)) rs = dir_matches (db_dir db) (ids_at l (db_state db)) rs" for l rs
    using files ids_at_subset [of l "db_state db"] by (intro dir_matches_cong) auto
  show "layers db' = layers db" using same by (simp add: layers_def)
  then show "view db' = view db" by (simp add: view_def fun_eq_iff)
  have "\<forall>i\<in>sst_ids (db_state db'). i \<le> next_file_number (db_state db')"
    using D(5) nx ids by (auto intro: order_trans)
  then show "db_inv db'"
    using D mir unfolding db_inv_def by (simp add: same ids dm parts_fine_def)
qed

lemma fits_state: "fits db \<Longrightarrow> state_fits (db_state db)"
  by (simp add: fits_def state_fits_def state_size_def)

lemma next_number:
  assumes "fits db"
  shows "next_file_number (db_state db) < next_file_number (db_state db) + 1"
proof -
  have "unat (next_file_number (db_state db) + 1) = unat (next_file_number (db_state db)) + 1"
    using assms by (subst unat_add_lem [THEN iffD1]) (simp_all add: fits_def)
  then show ?thesis by (simp add: word_less_nat_alt)
qed

section \<open>Steps that leave the tables alone\<close>

text \<open>\<open>quiet X db db'\<close>: the step changed neither the tables nor their list, and of the table files only those in \<open>X\<close>.\<close>

definition quiet :: "u64 set \<Rightarrow> DBImpl \<Rightarrow> DBImpl \<Rightarrow> bool" where
  "quiet X db db' \<longleftrightarrow>
     db_levels db' = db_levels db \<and> sst_levels (db_state db') = sst_levels (db_state db) \<and>
     next_file_number (db_state db) \<le> next_file_number (db_state db') \<and>
     (\<forall>i. i \<notin> X \<longrightarrow> fs_read (db_dir db') (sst_name i) = fs_read (db_dir db) (sst_name i))"

lemma quiet_refl [simp]: "quiet X db db"
  by (simp add: quiet_def)

lemma set_mf_simps [simp]:
  "db_manifest (set_mf mf db) = fst mf" "db_dir (set_mf mf db) = snd mf" "db_levels (set_mf mf db) = db_levels db"
  "db_mem (set_mf mf db) = db_mem db" "db_imm (set_mf mf db) = db_imm db" "db_mf (set_mf mf db) = mf"
  "db_state (set_mf mf db) = mstate (fst mf)" "imm_wal_id (set_mf mf db) = imm_wal_id db"
  "active_wal_id (set_mf mf db) = active_wal_id db"
  "bg_compaction_scheduled (set_mf mf db) = bg_compaction_scheduled db" "bg_stopped (set_mf mf db) = bg_stopped db"
  by (simp_all add: set_mf_def db_mf_def db_state_def)

lemma db_mf_eq: "db_mf db = (db_manifest db, db_dir db)"
  by (simp add: db_mf_def)

lemma allocate_db:
  assumes inv: "db_inv db" and fits: "fits db" and a: "AllocateFileNumber (db_mf db) = (n, mf)"
  shows "db_inv (set_mf mf db)" "view (set_mf mf db) = view db" "layers (set_mf mf db) = layers db"
    "quiet {} db (set_mf mf db)" "n = next_file_number (db_state db) + 1"
    "mstate (fst mf) = (db_state db)\<lparr>next_file_number := n\<rparr>" "\<And>i. i \<in> sst_ids (db_state db) \<Longrightarrow> i < n"
    "same_files (db_dir db) (snd mf)"
proof -
  note D = db_invD [OF inv]
  obtain m' fs' where mf: "mf = (m', fs')" by (cases mf)
  have "mirrored (m', fs') \<and> n = next_file_number (db_state db) + 1 \<and>
      mstate m' = (db_state db)\<lparr>next_file_number := n\<rparr> \<and> same_files (db_dir db) fs'"
    unfolding db_state_def
    by (rule AllocateFileNumber_mirrored)
       (use D(4) fits_state [OF fits] a mf in \<open>simp_all add: db_mf_def db_state_def\<close>)
  then have A: "mirrored mf" "n = next_file_number (db_state db) + 1"
      "mstate (fst mf) = (db_state db)\<lparr>next_file_number := n\<rparr>" "same_files (db_dir db) (snd mf)"
    by (simp_all add: mf)
  show "n = next_file_number (db_state db) + 1" "mstate (fst mf) = (db_state db)\<lparr>next_file_number := n\<rparr>"
    "same_files (db_dir db) (snd mf)" using A by simp_all
  have lt: "next_file_number (db_state db) < n" using next_number [OF fits] A(2) by simp
  show "\<And>i. i \<in> sst_ids (db_state db) \<Longrightarrow> i < n" using D(5) lt by (meson order_le_less_trans)
  have files: "fs_read (snd mf) (sst_name i) = fs_read (db_dir db) (sst_name i)" for i
    using A(4) by (simp add: same_files_def)
  show "quiet {} db (set_mf mf db)" using A lt files by (simp add: quiet_def less_imp_le)
  show "db_inv (set_mf mf db)" "view (set_mf mf db) = view db" "layers (set_mf mf db) = layers db"
    by (rule db_inv_frame [OF inv]; use A lt files in \<open>simp add: same_files_def less_imp_le\<close>)+
qed

lemma parts_fine_new:
  assumes "mem_fine m'" "parts_fine db" "db_mem db = Some m" "db_imm db = None"
  shows "parts_fine (db\<lparr>db_mem := Some m', db_imm := Some m\<rparr>)"
  using assms by (auto simp: parts_fine_def)

text \<open>The state after a rotation, component by component.\<close>

lemma rotate_memtable_eq:
  assumes inv: "db_inv db" and fits: "fits db" and n: "n = next_file_number (db_state db) + 1"
  shows "\<exists>m' man fs.
    rotate_memtable m db = (set_mf (man, fs) db)\<lparr>imm_wal_id := active_wal_id db, db_imm := Some m,
      db_mem := Some m', active_wal_id := n, bg_compaction_scheduled := True\<rparr> \<and>
    mem_ok m' \<and> mem_rows m' = [] \<and> wal m' = \<lparr>filename = wal_name n, is_open = True\<rparr> \<and> mirrored (man, fs) \<and>
    mstate man = (db_state db)\<lparr>next_file_number := n, live_wals := oset_insert n (live_wals (db_state db))\<rparr> \<and>
    can_write fs = can_write (db_dir db) \<and>
    (\<forall>f. f \<notin> manifest_names \<longrightarrow> fs_read fs f =
       (if f = wal_name n then (case fs_read (db_dir db) f of None \<Rightarrow> Some [] | Some c \<Rightarrow> Some c) else fs_read (db_dir db) f))"
proof -
  obtain n' man1 fs1 where a: "AllocateFileNumber (db_mf db) = (n', man1, fs1)"
    by (cases "AllocateFileNumber (db_mf db)") auto
  note A = allocate_db [OF inv fits a]
  have n': "n' = n" using A(5) n by simp
  have cw: "can_write fs1 = (\<lambda>_. True)" using db_invD(9) [OF A(1)] by simp
  obtain m' fs2 where nm: "new_MemTable (wal_name n) memtable_max_level fs1 = (m', fs2)"
    by (cases "new_MemTable (wal_name n) memtable_max_level fs1")
  note N = new_MemTable_ok [OF nm]
  have fs2: "fs2 = fs_touch (wal_name n) fs1" using N(5) cw by simp
  obtain b man fs where w: "AddWal n (man1, fs2) = (b, man, fs)" by (cases "AddWal n (man1, fs2)") auto
  have mir: "mirrored (man1, fs2)"
    by (rule mirrored_other_file [of man1 fs1]) (use db_invD(4) [OF A(1)] in \<open>simp_all add: fs2\<close>)
  have fit: "state_fits (ApplyEdit AddWAL n 0 (mstate man1))"
    using A(6) fits length_oset_insert_le [of n "live_wals (db_state db)"]
    by (simp add: fits_def state_fits_def state_size_def)
  note W = AddWal_mirrored [OF mir w fit]
  have "rotate_memtable m db = (set_mf (man, fs) db)\<lparr>imm_wal_id := active_wal_id db, db_imm := Some m,
      db_mem := Some m', active_wal_id := n, bg_compaction_scheduled := True\<rparr>"
    using a nm w n' by (simp add: rotate_memtable_def)
  moreover have "mstate man = (db_state db)\<lparr>next_file_number := n, live_wals := oset_insert n (live_wals (db_state db))\<rparr>"
    using W A(6) n' by simp
  moreover have "fs_read fs f = (if f = wal_name n then (case fs_read (db_dir db) f of None \<Rightarrow> Some [] | Some c \<Rightarrow> Some c)
      else fs_read (db_dir db) f)" if "f \<notin> manifest_names" for f
    using W A(8) that by (auto simp: same_files_def fs2 split: option.splits)
  moreover have "wal m' = \<lparr>filename = wal_name n, is_open = True\<rparr>" using N(3,4) cw by simp
  moreover have "can_write fs = can_write (db_dir db)" using W A(8) by (simp add: same_files_def fs2)
  ultimately show ?thesis using N(1,2) W by blast
qed

lemma rotate_memtable_ok:
  assumes inv: "db_inv db" and fits: "fits db" and m: "db_mem db = Some m" "mem_rows m \<noteq> []" "db_imm db = None"
  shows "db_inv (rotate_memtable m db)" "view (rotate_memtable m db) = view db" "quiet {} db (rotate_memtable m db)"
proof -
  let ?r = "rotate_memtable m db" and ?n = "next_file_number (db_state db) + 1"
  obtain m' man fs where rot: "?r = (set_mf (man, fs) db)\<lparr>imm_wal_id := active_wal_id db, db_imm := Some m,
      db_mem := Some m', active_wal_id := ?n, bg_compaction_scheduled := True\<rparr>"
    and m': "mem_ok m'" "mem_rows m' = []" "wal m' = \<lparr>filename = wal_name ?n, is_open = True\<rparr>" and mir: "mirrored (man, fs)"
    and st: "mstate man = (db_state db)\<lparr>next_file_number := ?n, live_wals := oset_insert ?n (live_wals (db_state db))\<rparr>"
    and cw: "can_write fs = can_write (db_dir db)"
    and rd: "\<forall>f. f \<notin> manifest_names \<longrightarrow> fs_read fs f =
       (if f = wal_name ?n then (case fs_read (db_dir db) f of None \<Rightarrow> Some [] | Some c \<Rightarrow> Some c) else fs_read (db_dir db) f)"
    using rotate_memtable_eq [OF inv fits refl, of m] by blast
  note D = db_invD [OF inv]
  have ds: "db_state ?r = mstate man" by (simp add: rot db_state_def)
  have ids: "ids_at l (db_state ?r) = ids_at l (db_state db)" "sst_ids (db_state ?r) = sst_ids (db_state db)" for l
    by (simp_all add: ds st ids_at_def sst_ids_def)
  have files: "fs_read (db_dir ?r) (sst_name i) = fs_read (db_dir db) (sst_name i)" for i by (simp add: rot rd)
  have lt: "next_file_number (db_state db) < next_file_number (db_state ?r)" using next_number [OF fits] by (simp add: ds st)
  show "quiet {} db ?r" using lt files by (simp add: quiet_def ds st less_imp_le) (simp add: rot)
  show "view ?r = view db" using m m' by (simp add: view_def layers_def rot opt_rows_def fun_eq_iff)
  have pf: "parts_fine ?r" using D(1) m m' by (auto simp: parts_fine_def rot mem_fine_def)
  have dm: "dir_matches (db_dir ?r) (ids_at l (db_state ?r)) rs = dir_matches (db_dir db) (ids_at l (db_state db)) rs" for l rs
    unfolding ids by (rule dir_matches_cong) (rule files)
  have le: "\<forall>i\<in>sst_ids (db_state ?r). i \<le> next_file_number (db_state ?r)"
    using D(5) lt unfolding ids by (meson less_imp_le order_trans)
  show "db_inv ?r"
    unfolding db_inv_def dm using pf le D mir m m' cw by (simp add: rot ds db_mf_def) (simp add: st ds [unfolded rot])
qed

lemma layers_upsert:
  assumes "db_mem db = Some m" "sorted_keys (mem_rows m)" "mem_rows m' = upsert k v (mem_rows m)"
  shows "view (db\<lparr>db_mem := Some m', db_dir := fs\<rparr>) = (view db)(k := live (Some v))"
  using assms by (auto simp: view_def layers_def opt_rows_def map_of_upsert fun_eq_iff)

lemma upsert_subset: "set (upsert k v m) \<subseteq> insert (k, v) (set m)"
  by (induction k v m rule: upsert.induct) auto

lemma Put_write_ok:
  assumes inv: "db_inv db" and row: "row_ok (k, v)" "plain_row (k, v)"
  shows "\<exists>m m'. db_mem db = Some m \<and> mem_rows m' = upsert k v (mem_rows m) \<and> wal m' = wal m \<and>
    Put_write coin k v db = Some (db\<lparr>db_mem := Some m', db_dir := AddLog (wal m) k (rvalue v) (vtype v) (db_dir db)\<rparr>)"
    "Put_write coin k v db = Some db' \<Longrightarrow>
      db_inv db' \<and> view db' = (view db)(k := live (Some v)) \<and> quiet {} db db' \<and> db_manifest db' = db_manifest db"
proof -
  note D = db_invD [OF inv]
  obtain mt where mt: "db_mem db = Some mt" using D(2) by blast
  then have fine: "mem_ok mt" "\<forall>r\<in>set (mem_rows mt). row_ok r \<and> plain_row r"
    using D(1) by (auto simp: parts_fine_def mem_fine_def)
  obtain m' where p: "MemTable_Put coin k v (mt, db_dir db) = Some (m', AddLog (wal mt) k (rvalue v) (vtype v) (db_dir db))"
    "mem_ok m'" "mem_rows m' = upsert k v (mem_rows mt)" "wal m' = wal mt"
    by (rule MemTable_Put_ok [OF fine(1)])
  let ?fs = "AddLog (wal mt) k (rvalue v) (vtype v) (db_dir db)"
  let ?db = "db\<lparr>db_mem := Some m', db_dir := ?fs\<rparr>"
  have pw: "Put_write coin k v db = Some ?db" using mt p(1) by (simp add: Put_write_def)
  then show "\<exists>m m'. db_mem db = Some m \<and> mem_rows m' = upsert k v (mem_rows m) \<and> wal m' = wal m \<and>
    Put_write coin k v db = Some (db\<lparr>db_mem := Some m', db_dir := AddLog (wal m) k (rvalue v) (vtype v) (db_dir db)\<rparr>)"
    using mt p by blast
  assume a: "Put_write coin k v db = Some db'"
  have db': "db' = ?db" using a pw mt by auto
  have fn: "filename (wal mt) = wal_name (active_wal_id db)" by (rule D(11) [OF mt])
  have rd: "fs_read ?fs n = fs_read (db_dir db) n" if "n \<noteq> filename (wal mt)" for n
    using that by (simp add: fs_read_AddLog)
  have files: "fs_read ?fs (sst_name i) = fs_read (db_dir db) (sst_name i)" for i
    using rd fn by simp
  have ds: "db_state ?db = db_state db" by (simp add: db_state_def)
  have mf: "mem_fine m'"
    using p fine row upsert_subset [of k v "mem_rows mt"] by (auto simp: mem_fine_def)
  then have pf: "parts_fine ?db" using D(1) by (simp add: parts_fine_def)
  have mir: "mirrored (db_manifest db, ?fs)"
    by (rule mirrored_other_file [of _ "db_dir db"])
       (use D(4) fn rd in \<open>auto simp: db_mf_def\<close>)
  have dm: "dir_matches ?fs ids rs = dir_matches (db_dir db) ids rs" for ids rs
    by (rule dir_matches_cong) (rule files)
  have "db_inv ?db" using D pf mir p(4) fn unfolding db_inv_def ds by (simp add: dm db_mf_def)
  moreover have "view ?db = (view db)(k := live (Some v))"
    by (rule layers_upsert [OF mt mem.contents_sorted [OF fine(1)] p(3)])
  moreover have "quiet {} db ?db" using files by (simp add: quiet_def ds)
  ultimately show "db_inv db' \<and> view db' = (view db)(k := live (Some v)) \<and> quiet {} db db' \<and> db_manifest db' = db_manifest db"
    unfolding db' by simp
qed

section \<open>Minor compaction\<close>

subsection \<open>The list of tables\<close>

lemma filter_upsert_other:
  "k \<notin> fst ` set m \<Longrightarrow> \<not> P v \<Longrightarrow> filter (\<lambda>(_, l). P l) (upsert k v m) = filter (\<lambda>(_, l). P l) m"
  by (induction k v m rule: upsert.induct) auto

lemma filter_upsert_last:
  assumes "sorted_keys m" "k \<notin> fst ` set m" "P v" "\<forall>(a, b)\<in>set m. P b \<longrightarrow> a < k"
  shows "filter (\<lambda>(_, l). P l) (upsert k v m) = filter (\<lambda>(_, l). P l) m @ [(k, v)]"
  using assms
proof (induction k v m rule: upsert.induct)
  case (2 k v a b m)
  show ?case
  proof (cases "k < a")
    case True
    then have "\<forall>(x, y)\<in>set ((a, b) # m). \<not> P y" using "2.prems"(1,4) by fastforce
    then have "filter (\<lambda>(_, l). P l) ((a, b) # m) = []" by (auto simp: filter_empty_conv)
    with True "2.prems"(3) show ?thesis by simp
  qed (use 2 in auto)
qed simp

lemma ids_at_AddSst:
  assumes "state_ok st" "i \<notin> sst_ids st" "\<And>j. j \<in> set (ids_at l st) \<Longrightarrow> j < i"
  shows "ids_at l (ApplyEdit AddSST i l st) = ids_at l st @ [i]"
    "l' \<noteq> l \<Longrightarrow> ids_at l' (ApplyEdit AddSST i l st) = ids_at l' st"
    "sst_ids (ApplyEdit AddSST i l st) = insert i (sst_ids st)"
proof -
  have "filter (\<lambda>(_, x). x = l) (upsert i l (sst_levels st)) = filter (\<lambda>(_, x). x = l) (sst_levels st) @ [(i, l)]"
    by (rule filter_upsert_last) (use assms in \<open>force simp: state_ok_def sst_ids_def ids_at_def\<close>)+
  then show "ids_at l (ApplyEdit AddSST i l st) = ids_at l st @ [i]" by (simp add: ids_at_def)
  show "ids_at l' (ApplyEdit AddSST i l st) = ids_at l' st" if "l' \<noteq> l"
    using filter_upsert_other [of i "sst_levels st" "\<lambda>x. x = l'" l] assms(2) that
    by (simp add: ids_at_def sst_ids_def)
qed (simp add: sst_ids_def)

lemma snd_upsert_subset: "snd ` set (upsert k v m) \<subseteq> insert v (snd ` set m)"
  using upsert_subset [of k v m] by auto

lemma dir_matches_snoc:
  assumes "dir_matches fs ids rs" "fs_read fs (sst_name i) = Some (build_table (reader_rows r))"
  shows "dir_matches fs (ids @ [i]) (rs @ [r])"
  using assms by (simp add: dir_matches_def list_all2_appendI)

subsection \<open>Phases\<close>

text \<open>A flush in progress: the context describes the immutable memtable and owns a fresh table number.\<close>

definition minor_pending :: "DBImpl \<Rightarrow> MinorCtx \<Rightarrow> bool" where
  "minor_pending db ctx \<longleftrightarrow>
     flushing_imm ctx = db_imm db \<and> db_imm db \<noteq> None \<and> table_ok (opt_rows (db_imm db)) \<and>
     old_wal_id ctx = imm_wal_id db \<and> old_wal_path ctx = wal_name (imm_wal_id db) \<and>
     minor_sst_path ctx = sst_name (minor_sst_id ctx) \<and> minor_sst_id ctx \<notin> sst_ids (db_state db) \<and>
     minor_sst_id ctx \<le> next_file_number (db_state db) \<and>
     (\<forall>i\<in>set (ids_at 0 (db_state db)). i < minor_sst_id ctx)"

definition minor_built :: "DBImpl \<Rightarrow> MinorCtx \<Rightarrow> SSTableReader option \<Rightarrow> bool" where
  "minor_built db ctx r \<longleftrightarrow>
     minor_pending db ctx \<and> r = Some (opened (opt_rows (db_imm db))) \<and>
     fs_read (db_dir db) (sst_name (minor_sst_id ctx)) = Some (build_table (opt_rows (db_imm db)))"

lemma fine_table_ok:
  assumes "mem_fine mt" "mem_rows mt \<noteq> []" "rows_size (mem_rows mt) < 2 ^ 56"
  shows "table_ok (mem_rows mt)" "sorted_keys (mem_rows mt)"
  using assms by (auto simp: table_ok_def mem_fine_def intro: mem.contents_sorted)

lemma Minor_prepare_ok:
  assumes inv: "db_inv db" and fits: "fits db" and p: "Minor_prepare db = (c, db')"
  shows "db_inv db'" "view db' = view db" "quiet {} db db'" "c = Some ctx \<Longrightarrow> minor_pending db' ctx"
    "c = Some ctx \<Longrightarrow> next_file_number (db_state db) < minor_sst_id ctx" "c = None \<Longrightarrow> db' = db"
    "c = None \<longleftrightarrow> db_imm db = None" "db_mem db' = db_mem db" "db_imm db' = db_imm db"
proof -
  have *: "db_inv db' \<and> view db' = view db \<and> quiet {} db db' \<and>
      (\<forall>ctx. c = Some ctx \<longrightarrow> minor_pending db' ctx \<and> next_file_number (db_state db) < minor_sst_id ctx) \<and>
      (c = None \<longrightarrow> db' = db) \<and> (c = None \<longleftrightarrow> db_imm db = None) \<and> db_mem db' = db_mem db \<and> db_imm db' = db_imm db"
  proof (cases "db_imm db")
    case None
    then show ?thesis using p inv by (auto simp: Minor_prepare_def quiet_def)
  next
    case (Some mt)
    obtain n mf where a: "AllocateFileNumber (db_mf db) = (n, mf)" by (cases "AllocateFileNumber (db_mf db)")
    note A = allocate_db [OF inv fits a]
    note D = db_invD [OF inv]
    have c: "c = Some \<lparr>flushing_imm = Some mt, old_wal_id = imm_wal_id db, old_wal_path = wal_name (imm_wal_id db),
        minor_sst_id = n, minor_sst_path = sst_name n\<rparr>" "db' = set_mf mf db"
      using p Some a by (simp_all add: Minor_prepare_def)
    have sz: "rows_size (mem_rows mt) < 2 ^ 56" using fits Some by (simp add: fits_def layers_def opt_rows_def)
    have fine: "mem_fine mt" "mem_rows mt \<noteq> []" using D(1,3) Some by (auto simp: parts_fine_def)
    have ids: "ids_at l (mstate (fst mf)) = ids_at l (db_state db)" "sst_ids (mstate (fst mf)) = sst_ids (db_state db)" for l
      by (simp_all add: A(6) ids_at_def sst_ids_def)
    have "\<forall>i\<in>set (ids_at 0 (db_state db)). i < n" using A(7) ids_at_subset by blast
    moreover have "n \<notin> sst_ids (db_state db)" using A(7) by blast
    ultimately show ?thesis
      using A(1-4) fine_table_ok [OF fine sz] Some next_number [OF fits] A(5)
      by (auto simp: c minor_pending_def opt_rows_def ids) (simp_all add: A(6))
  qed
  then show "db_inv db'" "view db' = view db" "quiet {} db db'" "c = Some ctx \<Longrightarrow> minor_pending db' ctx"
    "c = Some ctx \<Longrightarrow> next_file_number (db_state db) < minor_sst_id ctx" "c = None \<Longrightarrow> db' = db"
    "c = None \<longleftrightarrow> db_imm db = None" "db_mem db' = db_mem db" "db_imm db' = db_imm db" by auto
qed

lemma Minor_build_ok:
  assumes inv: "db_inv db" and p: "minor_pending db ctx"
  shows "\<exists>r db'. Minor_build ctx db = Some (r, db') \<and> db_inv db' \<and> view db' = view db \<and> minor_built db' ctx r \<and>
    quiet {minor_sst_id ctx} db db' \<and> db_manifest db' = db_manifest db \<and> db_mem db' = db_mem db \<and> db_imm db' = db_imm db \<and>
    (\<forall>n. n \<noteq> sst_name (minor_sst_id ctx) \<longrightarrow> fs_read (db_dir db') n = fs_read (db_dir db) n)"
proof -
  note D = db_invD [OF inv]
  obtain mt where mt: "db_imm db = Some mt" using p by (auto simp: minor_pending_def)
  have ok: "table_ok (mem_rows mt)" using p mt by (simp add: minor_pending_def opt_rows_def)
  have "mem_fine mt" using D(1) mt by (simp add: parts_fine_def)
  then have snap: "MemTable_Snapshot mt = Some (mem_rows mt)" by (simp add: mem_fine_def mem.rows_law)
  obtain fs' where b: "build_sst (sst_name (minor_sst_id ctx)) (mem_rows mt) (db_dir db) = Some (Some (opened (mem_rows mt)), fs')"
    "fs_read fs' (sst_name (minor_sst_id ctx)) = Some (build_table (mem_rows mt))"
    "\<And>n. n \<noteq> sst_name (minor_sst_id ctx) \<Longrightarrow> fs_read fs' n = fs_read (db_dir db) n" "can_write fs' = can_write (db_dir db)"
    by (rule build_sst_ok [OF ok, of "db_dir db" "sst_name (minor_sst_id ctx)"]) (simp_all add: D(9))
  let ?db = "db\<lparr>db_dir := fs', minor_compact_count := minor_compact_count db + 1\<rparr>"
  have "sst_name (minor_sst_id ctx) \<noteq> []" by (simp add: sst_name_def)
  then have mb: "Minor_build ctx db = Some (Some (opened (mem_rows mt)), ?db)"
    using p mt snap b(1) by (simp add: Minor_build_def BuildMinorSST_def minor_pending_def)
  have ds: "db_state ?db = db_state db" by (simp add: db_state_def)
  have mir: "mirrored (db_mf ?db)"
    using mirrored_other_file [of "db_manifest db" "db_dir db" fs'] D(4) b by (simp add: db_mf_def)
  have files: "fs_read fs' (sst_name i) = fs_read (db_dir db) (sst_name i)" if "i \<in> sst_ids (db_state db)" for i
  proof -
    have "i \<noteq> minor_sst_id ctx" using that p by (auto simp: minor_pending_def)
    then show ?thesis by (intro b(3)) simp
  qed
  have "db_inv ?db" "view ?db = view db"
    by (rule db_inv_frame [OF inv]; simp add: ds mir b(4) files)+
  moreover have "minor_built ?db ctx (Some (opened (mem_rows mt)))"
    using p mt b(2) by (simp add: minor_built_def minor_pending_def ds opt_rows_def)
  moreover have "quiet {minor_sst_id ctx} db ?db" using b(3) by (simp add: quiet_def ds)
  ultimately show ?thesis using mb b(3) by auto
qed

lemma Minor_install_eq:
  assumes inv: "db_inv db" and fits: "fits db" and b: "minor_built db ctx r"
  shows "\<exists>man fs. mirrored (man, fs) \<and> can_write fs = can_write (db_dir db) \<and>
    mstate man = ApplyEdit DelWAL (imm_wal_id db) 0 (ApplyEdit AddSST (minor_sst_id ctx) 0 (db_state db)) \<and>
    (\<forall>n. n \<notin> manifest_names \<longrightarrow> fs_read fs n = (if n = wal_name (imm_wal_id db) then None else fs_read (db_dir db) n)) \<and>
    Minor_install ctx r db =
      (length (level0 (db_levels db)) \<ge> 1,
       (set_mf (man, fs) db)\<lparr>db_levels := (db_levels db)\<lparr>level0 := level0 (db_levels db) @ [opened (opt_rows (db_imm db))]\<rparr>,
          db_imm := None, imm_wal_id := 0\<rparr>)"
proof -
  note D = db_invD [OF inv]
  have ctx: "old_wal_id ctx = imm_wal_id db" "old_wal_path ctx = wal_name (imm_wal_id db)"
    "r = Some (opened (opt_rows (db_imm db)))"
    using b by (simp_all add: minor_built_def minor_pending_def)
  obtain m1 fs1 where a1: "AddSst (minor_sst_id ctx) 0 (db_mf db) = (m1, fs1)"
    by (cases "AddSst (minor_sst_id ctx) 0 (db_mf db)")
  have fit: "state_fits (ApplyEdit AddSST (minor_sst_id ctx) 0 (mstate (db_manifest db)))"
    using fits length_upsert_le [of "minor_sst_id ctx" 0 "sst_levels (db_state db)"]
    by (simp add: fits_def state_fits_def state_size_def db_state_def)
  note A1 = AddSst_mirrored [OF D(4) [unfolded db_mf_def] a1 [unfolded db_mf_def] fit]
  obtain x m2 fs2 where a2: "RemoveWal (imm_wal_id db) (m1, fs1) = (x, m2, fs2)"
    by (cases "RemoveWal (imm_wal_id db) (m1, fs1)") auto
  have "mirrored (m1, fs1)" "state_fits (mstate m1)" using A1 fit by simp_all
  note A2 = RemoveWal_mirrored [OF this(1) a2 this(2)]
  let ?fs = "fs_remove (wal_name (imm_wal_id db)) fs2"
  have "mirrored (m2, ?fs)" by (rule mirrored_other_file [of m2 fs2]) (use A2 in simp_all)
  moreover have "mstate m2 = ApplyEdit DelWAL (imm_wal_id db) 0 (ApplyEdit AddSST (minor_sst_id ctx) 0 (db_state db))"
    using A1 A2 by (simp add: db_state_def)
  moreover have "fs_read ?fs n = (if n = wal_name (imm_wal_id db) then None else fs_read (db_dir db) n)"
    if "n \<notin> manifest_names" for n using A1 A2 that by (simp add: same_files_def)
  moreover have "can_write ?fs = can_write (db_dir db)" using A1 A2 by (simp add: same_files_def)
  moreover have "Minor_install ctx r db =
      (length (level0 (db_levels db)) \<ge> 1,
       (set_mf (m2, ?fs) db)\<lparr>db_levels := (db_levels db)\<lparr>level0 := level0 (db_levels db) @ [opened (opt_rows (db_imm db))]\<rparr>,
          db_imm := None, imm_wal_id := 0\<rparr>)"
    using a1 a2 ctx by (simp add: Minor_install_def Let_def)
  ultimately show ?thesis by blast
qed

lemma newest_first_snoc: "newest_first (l @ [r]) = reader_rows r @ newest_first l"
  by (simp add: newest_first_def)

lemma Minor_install_ok:
  assumes inv: "db_inv db" and fits: "fits db" and b: "minor_built db ctx r" and i: "Minor_install ctx r db = (t, db')"
  shows "db_inv db'" "layers db' = layers db" "view db' = view db" "ids_at 0 (db_state db') = ids_at 0 (db_state db) @ [minor_sst_id ctx]"
    "ids_at 1 (db_state db') = ids_at 1 (db_state db)" "sst_ids (db_state db') = insert (minor_sst_id ctx) (sst_ids (db_state db))"
    "next_file_number (db_state db') = next_file_number (db_state db)" "db_imm db' = None" "db_mem db' = db_mem db"
    "level1 (db_levels db') = level1 (db_levels db)"
    "\<And>j. fs_read (db_dir db') (sst_name j) = fs_read (db_dir db) (sst_name j)"
proof -
  note D = db_invD [OF inv]
  let ?id = "minor_sst_id ctx" and ?r = "opened (opt_rows (db_imm db))"
  obtain man fs where mir: "mirrored (man, fs)" and cw: "can_write fs = can_write (db_dir db)"
    and st: "mstate man = ApplyEdit DelWAL (imm_wal_id db) 0 (ApplyEdit AddSST ?id 0 (db_state db))"
    and rd: "\<forall>n. n \<notin> manifest_names \<longrightarrow> fs_read fs n = (if n = wal_name (imm_wal_id db) then None else fs_read (db_dir db) n)"
    and db': "db' = (set_mf (man, fs) db)\<lparr>db_levels := (db_levels db)\<lparr>level0 := level0 (db_levels db) @ [?r]\<rparr>,
          db_imm := None, imm_wal_id := 0\<rparr>"
    using Minor_install_eq [OF inv fits b] i by auto
  have p: "table_ok (opt_rows (db_imm db))" "?id \<notin> sst_ids (db_state db)" "?id \<le> next_file_number (db_state db)"
    "\<And>j. j \<in> set (ids_at 0 (db_state db)) \<Longrightarrow> j < ?id" "fs_read (db_dir db) (sst_name ?id) = Some (build_table (opt_rows (db_imm db)))"
    using b by (auto simp: minor_built_def minor_pending_def)
  obtain mt where mt: "db_imm db = Some mt" using b by (auto simp: minor_built_def minor_pending_def)
  have rows: "reader_rows ?r = opt_rows (db_imm db)" by (rule reader_rows_opened [OF p(1)])
  have fine: "mem_fine mt" using D(1) mt by (simp add: parts_fine_def)
  then have rf: "reader_fine ?r"
    using p(1) mt rows mem.contents_sorted [of mt] reader_ok_opened
    by (auto simp: reader_fine_def opt_rows_def mem_fine_def)
  have ds: "db_state db' = mstate man" by (simp add: db' db_state_def)
  have sl: "sst_levels (mstate man) = sst_levels (ApplyEdit AddSST ?id 0 (db_state db))" by (simp add: st)
  then have ida: "ids_at l (mstate man) = ids_at l (ApplyEdit AddSST ?id 0 (db_state db))" "sst_ids (mstate man) = sst_ids (ApplyEdit AddSST ?id 0 (db_state db))" for l
    by (simp_all add: ids_at_def sst_ids_def)
  note ids = ids_at_AddSst [OF D(10) p(2), of 0, OF p(4)]
  show i0: "ids_at 0 (db_state db') = ids_at 0 (db_state db) @ [?id]" using ids(1) by (simp only: ds ida)
  show i1: "ids_at 1 (db_state db') = ids_at 1 (db_state db)" using ids(2) [of 1] by (simp only: ds ida) simp
  show i2: "sst_ids (db_state db') = insert ?id (sst_ids (db_state db))" using ids(3) by (simp only: ds ida)
  show nx: "next_file_number (db_state db') = next_file_number (db_state db)" by (simp add: ds st)
  show files: "fs_read (db_dir db') (sst_name j) = fs_read (db_dir db) (sst_name j)" for j by (simp add: db' rd)
  show "db_imm db' = None" "db_mem db' = db_mem db" "level1 (db_levels db') = level1 (db_levels db)" by (simp_all add: db')
  show lay: "layers db' = layers db" by (simp add: layers_def db' newest_first_snoc rows) (simp add: opt_rows_def)
  show "view db' = view db" using lay by (simp add: view_def fun_eq_iff)
  have pf: "parts_fine db'" using D(1) rf by (auto simp: parts_fine_def db')
  have cong: "dir_matches (db_dir db') is rs = dir_matches (db_dir db) is rs" for "is" rs
    by (rule dir_matches_cong) (rule files)
  have "dir_matches (db_dir db') (ids_at 0 (db_state db')) (level0 (db_levels db'))"
    unfolding i0 cong using dir_matches_snoc [OF D(7), of ?id ?r] p(5) rows by (simp add: db')
  moreover have "dir_matches (db_dir db') (ids_at 1 (db_state db')) (level1 (db_levels db'))"
    unfolding i1 cong using D(8) by (simp add: db')
  moreover have "\<forall>j\<in>sst_ids (db_state db'). j \<le> next_file_number (db_state db')" using D(5) p(3) by (simp add: i2 nx)
  moreover have "\<forall>l\<in>snd ` set (sst_levels (db_state db')). l = 0 \<or> l = 1"
    using D(6) snd_upsert_subset [of ?id 0 "sst_levels (db_state db)"] by (auto simp: ds st dest!: subsetD)
  ultimately show "db_inv db'"
    using pf D mir cw unfolding db_inv_def by (simp add: db' db_mf_def)
qed

section \<open>Level-0 compaction\<close>

text \<open>
  A compaction in progress. The last clause is what makes the unlocked build phase safe: as long as
  the manifest still lists the same level-0 tables, the context describes them and level 1 as they are.
\<close>

definition job_ctx :: "L0ToL1Ctx \<Rightarrow> bool" where
  "job_ctx ctx \<longleftrightarrow>
     l0_input_ids ctx \<noteq> [] \<and> sorted (l0_input_ids ctx) \<and> expected_l0_reader_count ctx = length (l0_input_ids ctx) \<and>
     (has_output ctx \<longleftrightarrow> output_records ctx \<noteq> []) \<and>
     (has_output ctx \<longrightarrow> table_ok (output_records ctx) \<and> sorted_keys (output_records ctx) \<and>
        (\<forall>r\<in>set (output_records ctx). plain_row r) \<and> new_sst_path ctx \<noteq> [] \<and> merged_l0_records ctx \<noteq> [])"

definition job_pending :: "DBImpl \<Rightarrow> L0ToL1Ctx \<Rightarrow> bool" where
  "job_pending db ctx \<longleftrightarrow>
     job_ctx ctx \<and>
     (new_sst_path ctx \<noteq> [] \<longrightarrow> new_sst_path ctx = sst_name (new_sst_id ctx) \<and>
        new_sst_id ctx \<notin> sst_ids (db_state db) \<and> new_sst_id ctx \<le> next_file_number (db_state db)) \<and>
     (\<forall>i\<in>set (l0_input_ids ctx). i \<le> next_file_number (db_state db)) \<and>
     (ids_at 0 (db_state db) = l0_input_ids ctx \<longrightarrow>
        merged_l0_records ctx = merge_tables (map reader_rows (rev (level0 (db_levels db)))) \<and>
        replaces (level1 (db_levels db)) (merged_l0_records ctx) (output_records ctx) \<and>
        (has_output ctx \<longrightarrow> (\<forall>i\<in>set (ids_at 1 (db_state db)). i < new_sst_id ctx)))"

definition job_built :: "DBImpl \<Rightarrow> L0ToL1Ctx \<Rightarrow> SSTableReader option \<Rightarrow> bool" where
  "job_built db ctx r \<longleftrightarrow>
     job_pending db ctx \<and>
     (has_output ctx \<longrightarrow> r = Some (opened (output_records ctx)) \<and>
        fs_read (db_dir db) (sst_name (new_sst_id ctx)) = Some (build_table (output_records ctx)))"

lemma ids_at_sorted: "state_ok st \<Longrightarrow> sorted (ids_at l st) \<and> distinct (ids_at l st)"
  using sorted_keys_filter [of "sst_levels st" "\<lambda>(_, x). x = l"] sorted_keys_distinct
  by (fastforce simp: state_ok_def ids_at_def sorted_keys_def strict_sorted_iff)

lemma l0_ids_at: "l0_ids (db_manifest db) = ids_at 0 (db_state db)"
  by (simp add: l0_ids_def ids_at_def SstLevels_def db_state_def)

lemma level_rows_ok:
  "\<forall>r\<in>set l. reader_fine r \<Longrightarrow> x \<in> set (newest_first l) \<Longrightarrow> row_ok x \<and> plain_row x"
  by (auto simp: newest_first_def reader_fine_def table_ok_def dest!: reader_ok_rows)

lemma merged_ok:
  assumes "db_inv db" "fits db" and m: "m = merge_tables (map reader_rows (rev (level0 (db_levels db))))"
    and r: "replaces (level1 (db_levels db)) m out" "out \<noteq> []"
  shows "table_ok out" "sorted_keys out" "\<forall>x\<in>set out. plain_row x"
proof -
  let ?nf = "newest_first (level0 (db_levels db))"
  have fine: "\<forall>r\<in>set (level0 (db_levels db)). reader_fine r"
    using db_invD(1) [OF assms(1)] by (simp add: parts_fine_def)
  have "set m \<subseteq> set ?nf" "rows_size m \<le> rows_size ?nf"
    using set_merge_tables [of "map reader_rows (rev (level0 (db_levels db)))"] rows_size_merge_tables
    by (auto simp: m newest_first_def)
  moreover have "rows_size ?nf < 2 ^ 56" using assms(2) by (simp add: fits_def layers_def)
  ultimately show "table_ok out" "sorted_keys out" "\<forall>x\<in>set out. plain_row x"
    using r level_rows_ok [OF fine] by (auto simp: table_ok_def replaces_def)
qed

lemma PrepareL0ToL1_ok:
  assumes inv: "db_inv db" and fits: "fits db" and ne: "level0 (db_levels db) \<noteq> []"
  shows "\<exists>ctx mf. PrepareL0ToL1 (db_levels db) (db_mf db) = Some (True, ctx, mf) \<and>
    db_inv (set_mf mf db) \<and> view (set_mf mf db) = view db \<and> quiet {} db (set_mf mf db) \<and>
    job_pending (set_mf mf db) ctx \<and> (new_sst_path ctx \<noteq> [] \<longrightarrow> next_file_number (db_state db) < new_sst_id ctx)"
proof -
  note D = db_invD [OF inv]
  let ?l0 = "level0 (db_levels db)" and ?l1 = "level1 (db_levels db)"
  define m where "m = merge_tables (map reader_rows (rev ?l0))"
  have fine0: "\<forall>r\<in>set ?l0. reader_fine r" and fine1: "\<forall>r\<in>set ?l1. reader_fine r"
    using D(1) by (simp_all add: parts_fine_def)
  have ts: "each_table ForEach (rev ?l0) = Some (map reader_rows (rev ?l0))" by (rule each_table_level [OF fine0])
  have len: "length (ids_at 0 (db_state db)) = length ?l0" using D(7) by (simp add: dir_matches_def list_all2_lengthD)
  then have ids: "ids_at 0 (db_state db) \<noteq> []" "sorted (ids_at 0 (db_state db))"
    using ne ids_at_sorted [OF D(10)] by auto
  obtain out where out: "select_output ?l1 m [] = Some out" "replaces ?l1 m out"
    using select_output_replaces [of ?l1 m "[]"] fine1 by (auto simp: m_def reader_fine_def)
  obtain n mf where a: "AllocateFileNumber (db_mf db) = (n, mf)" by (cases "AllocateFileNumber (db_mf db)")
  note A = allocate_db [OF inv fits a]
  have st: "ids_at l (mstate (fst mf)) = ids_at l (db_state db)" "sst_ids (mstate (fst mf)) = sst_ids (db_state db)" for l
    by (simp_all add: A(6) ids_at_def sst_ids_def)
  have le: "\<forall>i\<in>set (ids_at 0 (db_state db)). i \<le> next_file_number (db_state db)"
    using D(5) ids_at_subset by blast
  show ?thesis
  proof (cases "m = []")
    case True
    let ?ctx = "empty_L0ToL1Ctx\<lparr>merged_l0_records := m, l0_input_ids := ids_at 0 (db_state db),
        expected_l0_reader_count := length ?l0\<rparr>"
    have p: "PrepareL0ToL1 (db_levels db) (db_mf db) = Some (True, ?ctx, db_mf db)"
      using ne ts len True by (simp add: PrepareL0ToL1_def Let_def m_def db_mf_def l0_ids_at empty_L0ToL1Ctx_def)
    have s: "set_mf (db_mf db) db = db" by (simp add: set_mf_def db_mf_def)
    have "job_pending db ?ctx"
      using ids len le True by (simp add: job_pending_def job_ctx_def empty_L0ToL1Ctx_def m_def)
    then show ?thesis
      using p s inv by (intro exI [of _ ?ctx] exI [of _ "db_mf db"]) (simp add: empty_L0ToL1Ctx_def del: set_mf_simps)
  next
    case False
    let ?ctx = "empty_L0ToL1Ctx\<lparr>merged_l0_records := m, l0_input_ids := ids_at 0 (db_state db),
        expected_l0_reader_count := length ?l0, new_sst_id := n, new_sst_path := sst_name n,
        output_records := out, has_output := (out \<noteq> [])\<rparr>"
    have p: "PrepareL0ToL1 (db_levels db) (db_mf db) = Some (True, ?ctx, mf)"
      using ne ts len False a out(1) by (simp add: PrepareL0ToL1_def Let_def m_def db_mf_def l0_ids_at empty_L0ToL1Ctx_def)
    have nn: "n \<notin> sst_ids (db_state db)" "\<forall>i\<in>set (ids_at 1 (db_state db)). i < n"
      using A(7) ids_at_subset by blast+
    have le': "\<forall>i\<in>set (ids_at 0 (db_state db)). i \<le> n"
      using A(7) ids_at_subset by (meson in_mono less_imp_le)
    have jc: "job_ctx ?ctx"
      using ids len False merged_ok [OF inv fits m_def out(2)]
      by (simp add: job_ctx_def sst_name_def)
    have "job_pending (set_mf mf db) ?ctx"
      using jc nn le' out(2) unfolding job_pending_def set_mf_simps st by (simp add: A(6) m_def)
    moreover have "next_file_number (db_state db) < n" using next_number [OF fits] A(5) by simp
    ultimately show ?thesis using p A(1-4) by auto
  qed
qed

lemma Compact_prepare_ok:
  assumes inv: "db_inv db" and fits: "fits db"
  shows "\<exists>c db'. Compact_prepare db = Some (c, db') \<and> db_inv db' \<and> view db' = view db \<and> quiet {} db db' \<and>
    db_imm db' = db_imm db \<and> db_mem db' = db_mem db \<and> imm_wal_id db' = imm_wal_id db \<and> (c = None \<longleftrightarrow> level0 (db_levels db) = []) \<and>
    (\<forall>ctx. c = Some ctx \<longrightarrow> job_pending db' ctx \<and> (new_sst_path ctx \<noteq> [] \<longrightarrow> next_file_number (db_state db) < new_sst_id ctx))"
proof (cases "level0 (db_levels db) = []")
  case True
  have s: "set_mf (db_mf db) db = db" by (simp add: set_mf_def db_mf_def)
  have "Compact_prepare db = Some (None, db)" using True by (simp add: Compact_prepare_def PrepareL0ToL1_def s)
  then show ?thesis using True inv by (auto simp: quiet_def)
next
  case False
  then obtain ctx mf where "PrepareL0ToL1 (db_levels db) (db_mf db) = Some (True, ctx, mf)"
    "db_inv (set_mf mf db)" "view (set_mf mf db) = view db" "quiet {} db (set_mf mf db)"
    "job_pending (set_mf mf db) ctx" "new_sst_path ctx \<noteq> [] \<longrightarrow> next_file_number (db_state db) < new_sst_id ctx"
    using PrepareL0ToL1_ok [OF inv fits] by blast
  then show ?thesis using False by (auto simp: Compact_prepare_def)
qed

lemma Compact_build_ok:
  assumes inv: "db_inv db" and p: "job_pending db ctx"
  shows "\<exists>r db'. Compact_build ctx db = Some (Some r, db') \<and> db_inv db' \<and> view db' = view db \<and> job_built db' ctx r \<and>
    quiet (if has_output ctx then {new_sst_id ctx} else {}) db db' \<and> db_manifest db' = db_manifest db \<and>
    db_mem db' = db_mem db \<and> db_imm db' = db_imm db \<and> imm_wal_id db' = imm_wal_id db \<and>
    (\<forall>n. n \<noteq> sst_name (new_sst_id ctx) \<longrightarrow> fs_read (db_dir db') n = fs_read (db_dir db) n)"
proof (cases "has_output ctx")
  case False
  then show ?thesis using inv p by (auto simp: Compact_build_def job_built_def quiet_def)
next
  case True
  note D = db_invD [OF inv]
  let ?id = "new_sst_id ctx"
  have ctx: "table_ok (output_records ctx)" "new_sst_path ctx = sst_name ?id" "sst_name ?id \<noteq> []" "?id \<notin> sst_ids (db_state db)"
    using p True by (auto simp: job_pending_def job_ctx_def)
  obtain fs' where b: "build_sst (sst_name ?id) (output_records ctx) (db_dir db) = Some (Some (opened (output_records ctx)), fs')"
    "fs_read fs' (sst_name ?id) = Some (build_table (output_records ctx))"
    "\<And>n. n \<noteq> sst_name ?id \<Longrightarrow> fs_read fs' n = fs_read (db_dir db) n" "can_write fs' = can_write (db_dir db)"
    by (rule build_sst_ok [OF ctx(1), of "db_dir db" "sst_name ?id"]) (simp_all add: D(9))
  let ?db = "db\<lparr>db_dir := fs'\<rparr>"
  have cb: "Compact_build ctx db = Some (Some (Some (opened (output_records ctx))), ?db)"
    using True ctx b(1) by (simp add: Compact_build_def BuildL0ToL1SST_def)
  have ds: "db_state ?db = db_state db" by (simp add: db_state_def)
  have mir: "mirrored (db_mf ?db)"
    using mirrored_other_file [of "db_manifest db" "db_dir db" fs'] D(4) b by (simp add: db_mf_def)
  have files: "fs_read fs' (sst_name i) = fs_read (db_dir db) (sst_name i)" if "i \<in> sst_ids (db_state db)" for i
    using that ctx(4) by (intro b(3)) auto
  have "db_inv ?db" "view ?db = view db"
    by (rule db_inv_frame [OF inv]; simp add: ds mir b(4) files)+
  moreover have "job_built ?db ctx (Some (opened (output_records ctx)))"
    using p b(2) by (auto simp: job_built_def job_pending_def ds)
  moreover have "quiet {?id} db ?db" using b(3) by (simp add: quiet_def ds)
  ultimately show ?thesis using cb b(3) True by auto
qed

subsection \<open>Installing\<close>

text \<open>Level 1 after the install, and the manifest before level 0 is consumed.\<close>

definition merged_level1 :: "L0ToL1Ctx \<Rightarrow> SSTableReader list \<Rightarrow> SSTableReader list" where
  "merged_level1 ctx l1 = (if has_output ctx then l1 @ [opened (output_records ctx)] else l1)"

definition merged_state :: "L0ToL1Ctx \<Rightarrow> ManifestState \<Rightarrow> ManifestState" where
  "merged_state ctx st = erase_ssts (l0_input_ids ctx)
     (if has_output ctx then ApplyEdit AddSST (new_sst_id ctx) 1 st else st)"

lemma job_matches:
  assumes "db_inv db" "job_pending db ctx"
  shows "length (level0 (db_levels db)) \<noteq> expected_l0_reader_count ctx \<or> sort (l0_input_ids ctx) \<noteq> sort (ids_at 0 (db_state db))
    \<longleftrightarrow> ids_at 0 (db_state db) \<noteq> l0_input_ids ctx"
proof -
  have "length (ids_at 0 (db_state db)) = length (level0 (db_levels db))"
    using db_invD(7) [OF assms(1)] by (simp add: dir_matches_def list_all2_lengthD)
  moreover have "sorted (ids_at 0 (db_state db))" "sorted (l0_input_ids ctx)" "expected_l0_reader_count ctx = length (l0_input_ids ctx)"
    using ids_at_sorted db_invD(10) [OF assms(1)] assms(2) by (auto simp: job_pending_def job_ctx_def)
  ultimately show ?thesis by (auto simp: sorted_sort_id)
qed

lemma Compact_install_mismatch:
  assumes inv: "db_inv db" and p: "job_pending db ctx" and ne: "ids_at 0 (db_state db) \<noteq> l0_input_ids ctx"
  shows "Compact_install ctx r db =
      db\<lparr>db_dir := if new_sst_path ctx \<noteq> [] then fs_remove (new_sst_path ctx) (db_dir db) else db_dir db\<rparr>"
    "db_inv (Compact_install ctx r db)" "view (Compact_install ctx r db) = view db"
    "quiet (if new_sst_path ctx \<noteq> [] then {new_sst_id ctx} else {}) db (Compact_install ctx r db)"
proof -
  let ?fs = "if new_sst_path ctx \<noteq> [] then fs_remove (new_sst_path ctx) (db_dir db) else db_dir db"
  have "InstallL0ToL1 ctx r (db_levels db) (db_mf db) = (False, db_levels db, db_mf db)"
    using job_matches [OF inv p] ne by (auto simp: InstallL0ToL1_def db_mf_def l0_ids_at)
  then show eq: "Compact_install ctx r db = db\<lparr>db_dir := ?fs\<rparr>"
    by (simp add: Compact_install_def Let_def set_mf_def db_mf_def)
  have ds: "db_state (db\<lparr>db_dir := ?fs\<rparr>) = db_state db" by (simp add: db_state_def)
  have path: "new_sst_path ctx \<noteq> [] \<Longrightarrow> new_sst_path ctx = sst_name (new_sst_id ctx) \<and> new_sst_id ctx \<notin> sst_ids (db_state db)"
    using p by (simp add: job_pending_def)
  have mir: "mirrored (db_mf (db\<lparr>db_dir := ?fs\<rparr>))"
    using mirrored_other_file [of "db_manifest db" "db_dir db" ?fs] db_invD(4) [OF inv] path by (auto simp: db_mf_def)
  have files: "fs_read ?fs (sst_name i) = fs_read (db_dir db) (sst_name i)"
    if "i \<in> sst_ids (db_state db)" for i using that path by auto
  show "db_inv (Compact_install ctx r db)" "view (Compact_install ctx r db) = view db"
    unfolding eq by (rule db_inv_frame [OF inv]; use mir files in \<open>simp add: ds\<close>)+
  show "quiet (if new_sst_path ctx \<noteq> [] then {new_sst_id ctx} else {}) db (Compact_install ctx r db)"
    unfolding eq quiet_def ds using path by auto
qed

lemma Compact_install_match:
  assumes inv: "db_inv db" and fits: "fits db" and b: "job_built db ctx r" and eq: "ids_at 0 (db_state db) = l0_input_ids ctx"
  shows "\<exists>man fs. mirrored (man, fs) \<and> can_write fs = can_write (db_dir db) \<and> mstate man = merged_state ctx (db_state db) \<and>
    (\<forall>n. n \<notin> manifest_names \<longrightarrow> fs_read fs n = (if n \<in> sst_name ` set (l0_input_ids ctx) then None else fs_read (db_dir db) n)) \<and>
    Compact_install ctx r db = (set_mf (man, fs) db)\<lparr>db_levels := \<lparr>level0 = [], level1 = merged_level1 ctx (level1 (db_levels db))\<rparr>\<rparr>"
proof -
  note D = db_invD [OF inv]
  have p: "job_pending db ctx" using b by (simp add: job_built_def)
  have guards: "\<not> (length (level0 (db_levels db)) \<noteq> expected_l0_reader_count ctx)" "sort (l0_input_ids ctx) = sort (l0_ids (db_manifest db))"
    using job_matches [OF inv p] eq by (auto simp: l0_ids_at)
  have lv: "\<lparr>level0 = [], level1 = l\<rparr> = lv\<lparr>level1 := l, level0 := []\<rparr>" for l and lv :: Levels by simp
  define mf1 where "mf1 = (if has_output ctx then AddSst (new_sst_id ctx) 1 (db_mf db) else db_mf db)"
  obtain m1 fs1 where mf1: "mf1 = (m1, fs1)" by (cases mf1)
  have fit: "state_fits (ApplyEdit AddSST (new_sst_id ctx) 1 (mstate (db_manifest db)))"
    using fits length_upsert_le [of "new_sst_id ctx" 1 "sst_levels (db_state db)"]
    by (simp add: fits_def state_fits_def state_size_def db_state_def)
  have A: "mirrored (m1, fs1)" "mstate m1 = (if has_output ctx then ApplyEdit AddSST (new_sst_id ctx) 1 (db_state db) else db_state db)"
    "same_files (db_dir db) fs1" "state_fits (mstate m1)"
    using AddSst_mirrored [OF D(4) [unfolded db_mf_def], of "new_sst_id ctx" 1 m1 fs1] mf1 fit fits_state [OF fits] D(4)
    by (auto simp: mf1_def db_mf_def db_state_def split: if_splits)
  obtain man fs where c: "consume_l0 (l0_input_ids ctx) (m1, fs1) = (man, fs)" "mirrored (man, fs)"
    "mstate man = erase_ssts (l0_input_ids ctx) (mstate m1)" "can_write fs = can_write fs1"
    "\<forall>n. n \<notin> manifest_names \<longrightarrow> fs_read fs n = (if n \<in> sst_name ` set (l0_input_ids ctx) then None else fs_read fs1 n)"
    using consume_l0_ok [OF A(1,4), of "l0_input_ids ctx"] by blast
  have "InstallL0ToL1 ctx r (db_levels db) (db_mf db) =
      (True, \<lparr>level0 = [], level1 = merged_level1 ctx (level1 (db_levels db))\<rparr>, (man, fs))"
  proof (cases "has_output ctx")
    case True
    then have "merged_l0_records ctx \<noteq> []" "r = Some (opened (output_records ctx))"
      using b by (auto simp: job_built_def job_pending_def job_ctx_def)
    with True guards c(1) mf1 show ?thesis
      by (simp add: InstallL0ToL1_def db_mf_def mf1_def merged_level1_def)
  next
    case False
    with guards c(1) mf1 show ?thesis by (simp add: InstallL0ToL1_def db_mf_def mf1_def merged_level1_def)
  qed
  then have "Compact_install ctx r db = (set_mf (man, fs) db)\<lparr>db_levels := \<lparr>level0 = [], level1 = merged_level1 ctx (level1 (db_levels db))\<rparr>\<rparr>"
    by (simp add: Compact_install_def)
  moreover have "mstate man = merged_state ctx (db_state db)" using c(3) A(2) by (simp add: merged_state_def)
  moreover have "\<forall>n. n \<notin> manifest_names \<longrightarrow>
      fs_read fs n = (if n \<in> sst_name ` set (l0_input_ids ctx) then None else fs_read (db_dir db) n)"
    using c(5) A(3) by (simp add: same_files_def)
  moreover have "can_write fs = can_write (db_dir db)" using c(4) A(3) by (simp add: same_files_def)
  ultimately show ?thesis using c(2) by blast
qed

lemma ids_at_erase:
  assumes "state_ok st" "is = ids_at 0 st"
  shows "ids_at 0 (erase_ssts is st) = []" "ids_at 1 (erase_ssts is st) = ids_at 1 st"
    "sst_ids (erase_ssts is st) = sst_ids st - set is"
proof -
  have d: "distinct (map fst (sst_levels st))" using assms(1) by (simp add: state_ok_def sorted_keys_distinct)
  have "i \<notin> set is" if "(i, l) \<in> set (sst_levels st)" "l \<noteq> 0" for i l
    using that d assms(2) by (auto simp: ids_at_def dest: eq_key_imp_eq_value)
  moreover have "i \<in> set is" if "(i, 0) \<in> set (sst_levels st)" for i
    using that assms(2) by (force simp: ids_at_def)
  ultimately show "ids_at 0 (erase_ssts is st) = []" "ids_at 1 (erase_ssts is st) = ids_at 1 st"
    by (auto simp: ids_at_def erase_ssts_def filter_empty_conv intro!: arg_cong [of _ _ "map fst"] filter_cong)
  show "sst_ids (erase_ssts is st) = sst_ids st - set is"
    by (force simp: sst_ids_def erase_ssts_def)
qed

lemma merged_state_ids:
  assumes "state_ok st" "l0_input_ids ctx = ids_at 0 st"
    and "has_output ctx \<Longrightarrow> new_sst_id ctx \<notin> sst_ids st \<and> (\<forall>i\<in>set (ids_at 1 st). i < new_sst_id ctx)"
  shows "ids_at 0 (merged_state ctx st) = []"
    "ids_at 1 (merged_state ctx st) = (if has_output ctx then ids_at 1 st @ [new_sst_id ctx] else ids_at 1 st)"
    "sst_ids (merged_state ctx st) = (if has_output ctx then insert (new_sst_id ctx) (sst_ids st) else sst_ids st) - set (ids_at 0 st)"
proof -
  let ?st = "if has_output ctx then ApplyEdit AddSST (new_sst_id ctx) 1 st else st"
  have ids: "ids_at 0 ?st = ids_at 0 st" "ids_at 1 ?st = (if has_output ctx then ids_at 1 st @ [new_sst_id ctx] else ids_at 1 st)"
    "sst_ids ?st = (if has_output ctx then insert (new_sst_id ctx) (sst_ids st) else sst_ids st)"
    using ids_at_AddSst [OF assms(1), of "new_sst_id ctx" 1] assms(3) by auto
  have ok: "state_ok ?st" using assms(1) ApplyEdit_ok [OF assms(1), of AddSST "new_sst_id ctx" 1] by simp
  have m: "merged_state ctx st = erase_ssts (ids_at 0 ?st) ?st" using ids(1) assms(2) by (simp add: merged_state_def)
  show "ids_at 0 (merged_state ctx st) = []"
    "ids_at 1 (merged_state ctx st) = (if has_output ctx then ids_at 1 st @ [new_sst_id ctx] else ids_at 1 st)"
    "sst_ids (merged_state ctx st) = (if has_output ctx then insert (new_sst_id ctx) (sst_ids st) else sst_ids st) - set (ids_at 0 st)"
    using ids_at_erase [OF ok refl] ids unfolding m by (simp_all only: refl)
qed

lemma view_merged:
  assumes "m = merge_tables (map reader_rows (rev l0))" "replaces l1 m out"
    and "layers db = a @ newest_first l0 @ newest_first l1" "layers db' = a @ out @ newest_first l1"
  shows "view db' = view db"
proof
  fix k
  have "map_of m = map_of (newest_first l0)" by (simp add: assms(1) map_of_merge_tables newest_first_def)
  then have "live (map_of (out @ newest_first l1) k) = live (map_of (newest_first l0 @ newest_first l1) k)"
    using assms(2) by (simp add: replaces_def)
  then show "view db' k = view db k"
    unfolding view_def assms(3,4) by (cases "map_of a k") (simp_all add: map_add_def)
qed

lemma Compact_install_ok:
  assumes inv: "db_inv db" and fits: "fits db" and b: "job_built db ctx r" and eq: "ids_at 0 (db_state db) = l0_input_ids ctx"
    and db': "db' = Compact_install ctx r db"
  shows "db_inv db'" "view db' = view db" "ids_at 0 (db_state db') = []" "level0 (db_levels db') = []"
    "sst_ids (db_state db') \<subseteq> (if has_output ctx then insert (new_sst_id ctx) (sst_ids (db_state db)) else sst_ids (db_state db))"
    "next_file_number (db_state db') = next_file_number (db_state db)" "db_mem db' = db_mem db" "db_imm db' = db_imm db"
    "imm_wal_id db' = imm_wal_id db"
    "\<And>j. j \<notin> set (l0_input_ids ctx) \<Longrightarrow> fs_read (db_dir db') (sst_name j) = fs_read (db_dir db) (sst_name j)"
proof -
  note D = db_invD [OF inv]
  let ?id = "new_sst_id ctx" and ?out = "output_records ctx"
  have p: "job_pending db ctx" using b by (simp add: job_built_def)
  then have jc: "job_ctx ctx" unfolding job_pending_def by blast
  obtain man fs where mir: "mirrored (man, fs)" and cw: "can_write fs = can_write (db_dir db)"
    and st: "mstate man = merged_state ctx (db_state db)"
    and rd: "\<forall>n. n \<notin> manifest_names \<longrightarrow> fs_read fs n = (if n \<in> sst_name ` set (l0_input_ids ctx) then None else fs_read (db_dir db) n)"
    and eqn: "db' = (set_mf (man, fs) db)\<lparr>db_levels := \<lparr>level0 = [], level1 = merged_level1 ctx (level1 (db_levels db))\<rparr>\<rparr>"
    using Compact_install_match [OF inv fits b eq] db' by blast
  have P: "merged_l0_records ctx = merge_tables (map reader_rows (rev (level0 (db_levels db))))"
    "replaces (level1 (db_levels db)) (merged_l0_records ctx) ?out"
    "has_output ctx \<Longrightarrow> ?id \<notin> sst_ids (db_state db) \<and> ?id \<le> next_file_number (db_state db) \<and> (\<forall>i\<in>set (ids_at 1 (db_state db)). i < ?id)"
    using p eq jc by (auto simp: job_pending_def job_ctx_def)
  have O: "table_ok ?out" "sorted_keys ?out" "\<forall>x\<in>set ?out. plain_row x"
    "fs_read (db_dir db) (sst_name ?id) = Some (build_table ?out)" if "has_output ctx"
    using jc b that by (auto simp: job_ctx_def job_built_def)
  have ds: "db_state db' = merged_state ctx (db_state db)" unfolding eqn st [symmetric] by (simp add: db_state_def)
  note ids = merged_state_ids [OF D(10) eq [symmetric], folded ds]
  have ids0: "ids_at 0 (db_state db') = []" using ids(1) P(3) by blast
  have ids1: "ids_at 1 (db_state db') = (if has_output ctx then ids_at 1 (db_state db) @ [?id] else ids_at 1 (db_state db))"
    using ids(2) P(3) by blast
  have ids2: "sst_ids (db_state db') = (if has_output ctx then insert ?id (sst_ids (db_state db)) else sst_ids (db_state db)) - set (l0_input_ids ctx)"
    using ids(3) P(3) eq by metis
  show "ids_at 0 (db_state db') = []" by (rule ids0)
  show "sst_ids (db_state db') \<subseteq> (if has_output ctx then insert ?id (sst_ids (db_state db)) else sst_ids (db_state db))"
    using ids2 by auto
  show nx: "next_file_number (db_state db') = next_file_number (db_state db)"
    by (simp add: ds merged_state_def erase_ssts_def)
  show "level0 (db_levels db') = []" "db_mem db' = db_mem db" "db_imm db' = db_imm db" "imm_wal_id db' = imm_wal_id db"
    by (simp_all add: eqn)
  show files: "fs_read (db_dir db') (sst_name j) = fs_read (db_dir db) (sst_name j)" if "j \<notin> set (l0_input_ids ctx)" for j
    using that rd by (auto simp: eqn)
  have no: "out = [] \<longleftrightarrow> \<not> has_output ctx" if "out = ?out" for out using jc that by (auto simp: job_ctx_def)
  have nf: "newest_first (merged_level1 ctx (level1 (db_levels db))) = ?out @ newest_first (level1 (db_levels db))"
    using no O(1) by (simp add: merged_level1_def newest_first_snoc reader_rows_opened)
  show "view db' = view db"
    by (rule view_merged [OF P(1,2), where a = "opt_rows (db_mem db) @ opt_rows (db_imm db)"])
       (simp_all add: layers_def eqn nf newest_first_def [of "[]"])
  have rf: "reader_fine (opened ?out)" if "has_output ctx"
    using O [OF that] reader_ok_opened by (simp add: reader_fine_def reader_rows_opened)
  then have pf: "parts_fine db'" using D(1) by (auto simp: parts_fine_def eqn merged_level1_def)
  have notin: "j \<notin> set (l0_input_ids ctx)" if "j \<in> sst_ids (db_state db')" for j using that ids2 by auto
  have "dir_matches (db_dir db') (ids_at 1 (db_state db')) (merged_level1 ctx (level1 (db_levels db)))"
  proof -
    have "dir_matches (db_dir db) (ids_at 1 (db_state db')) (merged_level1 ctx (level1 (db_levels db)))"
      using D(8) O(1,4) by (auto simp: ids1 merged_level1_def reader_rows_opened intro!: dir_matches_snoc)
    then show ?thesis
      using dir_matches_cong [of "ids_at 1 (db_state db')" "db_dir db'" "db_dir db"] files notin ids_at_subset [of 1 "db_state db'"]
      by blast
  qed
  moreover have "dir_matches (db_dir db') (ids_at 0 (db_state db')) []" by (simp add: ids0 dir_matches_def)
  moreover have "\<forall>j\<in>sst_ids (db_state db'). j \<le> next_file_number (db_state db')"
    using D(5) P(3) by (auto simp: ids2 nx split: if_splits)
  moreover have "\<forall>l\<in>snd ` set (sst_levels (db_state db')). l = 0 \<or> l = 1"
  proof -
    have "set (sst_levels (db_state db')) \<subseteq> insert (?id, 1) (set (sst_levels (db_state db)))"
      using upsert_subset [of ?id 1 "sst_levels (db_state db)"]
      by (cases "has_output ctx") (auto simp: ds merged_state_def erase_ssts_def)
    then have "snd ` set (sst_levels (db_state db')) \<subseteq> insert 1 (snd ` set (sst_levels (db_state db)))"
      by force
    then show ?thesis using D(6) by blast
  qed
  ultimately show "db_inv db'"
    using pf D mir cw unfolding db_inv_def by (simp add: eqn db_mf_def)
qed

end
