(* ===== verification/DBSteps.thy ===== *)
theory DBSteps
  imports DBInv
begin

text \<open>
  Interleavings. Writers hold \<open>write_mu_\<close> for a whole \<open>Put\<close>, so there is at most one between its
  two halves; the background thread runs \<open>BackgroundLoop\<close>; any number of callers run
  \<open>CompactL0ToL1\<close>. A step is one critical section (or one unlocked build). Readers hold \<open>state_mu_\<close>
  shared and read the active memtable first, so a lookup observes one state.
\<close>

section \<open>Threads\<close>

datatype task =
    MinorBuild MinorCtx
  | MinorInstall MinorCtx "SSTableReader option"
  | JobBuild L0ToL1Ctx
  | JobInstall L0ToL1Ctx "SSTableReader option"

datatype bg_phase = BgWait | BgWoken | BgFlush task | BgTriggered | BgMerge task | BgFinish

record sys =
  sys_db :: DBImpl
  writer :: "row option"
  bg :: bg_phase
  callers :: "task list"

text \<open>A phase of a compaction: the next phase, whether level 0 is to be compacted, the database.\<close>

fun task_step :: "task \<Rightarrow> DBImpl \<Rightarrow> (task option \<times> bool \<times> DBImpl) option" where
  "task_step (MinorBuild ctx) db = do {
     (r, db') \<leftarrow> Minor_build ctx db; Some (Some (MinorInstall ctx r), False, db') }"
| "task_step (MinorInstall ctx r) db = (case Minor_install ctx r db of (t, db') \<Rightarrow> Some (None, t, db'))"
| "task_step (JobBuild ctx) db = do {
     (r, db') \<leftarrow> Compact_build ctx db; Some (map_option (JobInstall ctx) r, False, db') }"
| "task_step (JobInstall ctx r) db = Some (None, False, Compact_install ctx r db)"

inductive step :: "row option \<Rightarrow> sys \<Rightarrow> sys \<Rightarrow> bool" where
  put_begin: "writer s = None \<Longrightarrow> Put_rotate (sys_db s) = Some (RotateDone db') \<Longrightarrow> row_ok r \<Longrightarrow> plain_row r \<Longrightarrow>
    step None s (s\<lparr>sys_db := db', writer := Some r\<rparr>)"
| put_end: "writer s = Some (k, v) \<Longrightarrow> Put_write coin k v (sys_db s) = Some db' \<Longrightarrow>
    step (Some (k, v)) s (s\<lparr>sys_db := db', writer := None\<rparr>)"
| bg_wake: "bg s = BgWait \<Longrightarrow> bg_compaction_scheduled (sys_db s) \<Longrightarrow> \<not> bg_stopped (sys_db s) \<Longrightarrow>
    step None s (s\<lparr>bg := BgWoken\<rparr>)"
| bg_prepare: "bg s = BgWoken \<Longrightarrow> Minor_prepare (sys_db s) = (c, db') \<Longrightarrow>
    step None s (s\<lparr>sys_db := db', bg := (case c of None \<Rightarrow> BgFinish | Some ctx \<Rightarrow> BgFlush (MinorBuild ctx))\<rparr>)"
| bg_flush: "bg s = BgFlush t \<Longrightarrow> task_step t (sys_db s) = Some (t', trigger, db') \<Longrightarrow>
    step None s (s\<lparr>sys_db := db',
      bg := (case t' of Some u \<Rightarrow> BgFlush u | None \<Rightarrow> if trigger then BgTriggered else BgFinish)\<rparr>)"
| bg_triggered: "bg s = BgTriggered \<Longrightarrow> Compact_prepare (sys_db s) = Some (c, db') \<Longrightarrow>
    step None s (s\<lparr>sys_db := db', bg := (case c of None \<Rightarrow> BgFinish | Some ctx \<Rightarrow> BgMerge (JobBuild ctx))\<rparr>)"
| bg_merge: "bg s = BgMerge t \<Longrightarrow> task_step t (sys_db s) = Some (t', trigger, db') \<Longrightarrow>
    step None s (s\<lparr>sys_db := db', bg := (case t' of Some u \<Rightarrow> BgMerge u | None \<Rightarrow> BgFinish)\<rparr>)"
| bg_finish: "bg s = BgFinish \<Longrightarrow>
    step None s (s\<lparr>sys_db := (sys_db s)\<lparr>bg_compaction_scheduled := False\<rparr>, bg := BgWait\<rparr>)"
| call_compact: "Compact_prepare (sys_db s) = Some (c, db') \<Longrightarrow>
    step None s (s\<lparr>sys_db := db', callers := (case c of None \<Rightarrow> callers s | Some ctx \<Rightarrow> JobBuild ctx # callers s)\<rparr>)"
| call_step: "callers s = xs @ t # ys \<Longrightarrow> task_step t (sys_db s) = Some (t', trigger, db') \<Longrightarrow>
    step None s (s\<lparr>sys_db := db', callers := xs @ (case t' of None \<Rightarrow> [] | Some u \<Rightarrow> [u]) @ ys\<rparr>)"

inductive_cases step_elim: "step ev s s'"

section \<open>The invariant of the whole system\<close>

fun is_minor :: "task \<Rightarrow> bool" where
  "is_minor (MinorBuild _) = True"
| "is_minor (MinorInstall _ _) = True"
| "is_minor (JobBuild _) = False"
| "is_minor (JobInstall _ _) = False"

text \<open>The table numbers a task owns, and the table numbers it took as input.\<close>

definition job_ids :: "L0ToL1Ctx \<Rightarrow> u64 list" where
  "job_ids ctx = (if new_sst_path ctx = [] then [] else [new_sst_id ctx])"

fun task_ids :: "task \<Rightarrow> u64 list" where
  "task_ids (MinorBuild ctx) = [minor_sst_id ctx]"
| "task_ids (MinorInstall ctx r) = [minor_sst_id ctx]"
| "task_ids (JobBuild ctx) = job_ids ctx"
| "task_ids (JobInstall ctx r) = job_ids ctx"

fun task_inputs :: "task \<Rightarrow> u64 set" where
  "task_inputs (MinorBuild ctx) = {}"
| "task_inputs (MinorInstall ctx r) = {}"
| "task_inputs (JobBuild ctx) = set (l0_input_ids ctx)"
| "task_inputs (JobInstall ctx r) = set (l0_input_ids ctx)"

fun task_good :: "DBImpl \<Rightarrow> task \<Rightarrow> bool" where
  "task_good db (MinorBuild ctx) = minor_pending db ctx"
| "task_good db (MinorInstall ctx r) = minor_built db ctx r"
| "task_good db (JobBuild ctx) = job_pending db ctx"
| "task_good db (JobInstall ctx r) = job_built db ctx r"

fun bg_tasks :: "bg_phase \<Rightarrow> task list" where
  "bg_tasks (BgFlush t) = [t]"
| "bg_tasks (BgMerge t) = [t]"
| "bg_tasks _ = []"

definition tasks :: "sys \<Rightarrow> task list" where
  "tasks s = bg_tasks (bg s) @ callers s"

definition tasks_inv :: "DBImpl \<Rightarrow> task list \<Rightarrow> bool" where
  "tasks_inv db ts \<longleftrightarrow>
     (\<forall>t\<in>set ts. task_good db t) \<and> distinct (concat (map task_ids ts)) \<and>
     (\<forall>t\<in>set ts. \<forall>u\<in>set ts. set (task_ids t) \<inter> task_inputs u = {})"

definition sys_inv :: "sys \<Rightarrow> bool" where
  "sys_inv s \<longleftrightarrow>
     db_inv (sys_db s) \<and> tasks_inv (sys_db s) (tasks s) \<and>
     (\<forall>r. writer s = Some r \<longrightarrow> row_ok r \<and> plain_row r) \<and>
     (\<forall>t\<in>set (callers s). \<not> is_minor t) \<and> (\<forall>t. bg s = BgMerge t \<longrightarrow> \<not> is_minor t) \<and>
     (\<forall>t. bg s = BgFlush t \<longrightarrow> is_minor t)"

subsection \<open>What one task does to the others\<close>

text \<open>
  The effect of a task that owns the numbers \<open>X\<close>, as far as other tasks can tell: the list of
  tables is the same, or level 0 became empty, or one of its own numbers was added to level 0.
\<close>

definition evolves :: "u64 set \<Rightarrow> DBImpl \<Rightarrow> DBImpl \<Rightarrow> bool" where
  "evolves X db db' \<longleftrightarrow>
     next_file_number (db_state db) \<le> next_file_number (db_state db') \<and>
     sst_ids (db_state db') \<subseteq> sst_ids (db_state db) \<union> X \<and>
     (\<forall>i. i \<notin> X \<and> i \<notin> sst_ids (db_state db) \<longrightarrow> fs_read (db_dir db') (sst_name i) = fs_read (db_dir db) (sst_name i)) \<and>
     (db_levels db' = db_levels db \<and> ids_at 0 (db_state db') = ids_at 0 (db_state db) \<and> ids_at 1 (db_state db') = ids_at 1 (db_state db)
      \<or> ids_at 0 (db_state db') = []
      \<or> (\<exists>i\<in>X. ids_at 0 (db_state db') = ids_at 0 (db_state db) @ [i]))"

lemma quiet_evolves: "quiet X db db' \<Longrightarrow> evolves X db db'"
  by (auto simp: quiet_def evolves_def sst_ids_def ids_at_def)

lemma job_pending_evolves:
  assumes p: "job_pending db ctx" and e: "evolves X db db'"
    and X: "set (job_ids ctx) \<inter> X = {}" "set (l0_input_ids ctx) \<inter> X = {}"
  shows "job_pending db' ctx"
proof -
  have jc: "job_ctx ctx" "new_sst_path ctx \<noteq> [] \<longrightarrow> new_sst_path ctx = sst_name (new_sst_id ctx) \<and>
        new_sst_id ctx \<notin> sst_ids (db_state db) \<and> new_sst_id ctx \<le> next_file_number (db_state db)"
    "\<forall>i\<in>set (l0_input_ids ctx). i \<le> next_file_number (db_state db)"
    using p unfolding job_pending_def by blast+
  have ne: "l0_input_ids ctx \<noteq> []" using jc(1) by (simp add: job_ctx_def)
  have le: "next_file_number (db_state db) \<le> next_file_number (db_state db')" using e by (simp add: evolves_def)
  have id: "new_sst_path ctx \<noteq> [] \<longrightarrow> new_sst_id ctx \<notin> sst_ids (db_state db')"
    using jc(2) X(1) e by (auto simp: evolves_def job_ids_def)
  have "db_levels db' = db_levels db \<and> ids_at 0 (db_state db') = ids_at 0 (db_state db) \<and> ids_at 1 (db_state db') = ids_at 1 (db_state db)"
    if "ids_at 0 (db_state db') = l0_input_ids ctx"
    using e ne X(2) that by (fastforce simp: evolves_def)
  then have "ids_at 0 (db_state db') = l0_input_ids ctx \<longrightarrow>
      merged_l0_records ctx = merge_tables (map reader_rows (rev (level0 (db_levels db')))) \<and>
      replaces (level1 (db_levels db')) (merged_l0_records ctx) (output_records ctx) \<and>
      (has_output ctx \<longrightarrow> (\<forall>i\<in>set (ids_at 1 (db_state db')). i < new_sst_id ctx))"
    using p unfolding job_pending_def by metis
  then show ?thesis
    unfolding job_pending_def using jc id le by (meson order_trans)
qed

lemma task_good_evolves:
  assumes g: "task_good db t" and e: "evolves X db db'"
    and X: "set (task_ids t) \<inter> X = {}" "task_inputs t \<inter> X = {}"
    and minor: "is_minor t \<Longrightarrow> db_imm db' = db_imm db \<and> imm_wal_id db' = imm_wal_id db \<and>
      (\<forall>i\<in>X. ids_at 0 (db_state db') \<noteq> ids_at 0 (db_state db) @ [i])"
  shows "task_good db' t"
proof -
  have fl: "fs_read (db_dir db') (sst_name i) = fs_read (db_dir db) (sst_name i)"
    if "i \<in> set (task_ids t)" "i \<notin> sst_ids (db_state db)" for i
    using e X(1) that by (auto simp: evolves_def)
  have le: "next_file_number (db_state db) \<le> next_file_number (db_state db')"
    and sub: "sst_ids (db_state db') \<subseteq> sst_ids (db_state db) \<union> X" using e by (simp_all add: evolves_def)
  have mp: "minor_pending db' ctx" if "minor_pending db ctx" "minor_sst_id ctx \<in> set (task_ids t)" "is_minor t" for ctx
  proof -
    have "ids_at 0 (db_state db') = ids_at 0 (db_state db) \<or> ids_at 0 (db_state db') = []"
      using e minor [OF that(3)] by (auto simp: evolves_def)
    then show ?thesis
      using that minor [OF that(3)] X(1) sub le by (auto simp: minor_pending_def intro: order_trans)
  qed
  show ?thesis
  proof (cases t)
    case (MinorInstall ctx r)
    then show ?thesis using g mp [of ctx] minor fl [of "minor_sst_id ctx"] by (auto simp: minor_built_def minor_pending_def)
  next
    case (JobInstall ctx r)
    then have "job_pending db' ctx" using g job_pending_evolves [OF _ e] X by (simp add: job_built_def)
    moreover have "fs_read (db_dir db') (sst_name (new_sst_id ctx)) = fs_read (db_dir db) (sst_name (new_sst_id ctx))"
      if "has_output ctx"
      using g JobInstall that by (intro fl) (auto simp: job_built_def job_pending_def job_ctx_def job_ids_def)
    ultimately show ?thesis using g JobInstall by (auto simp: job_built_def)
  qed (use g mp job_pending_evolves [OF _ e] X in auto)
qed

lemma task_good_bounds:
  assumes "task_good db t"
  shows "i \<in> set (task_ids t) \<Longrightarrow> i \<le> next_file_number (db_state db) \<and> i \<notin> sst_ids (db_state db)"
    "i \<in> task_inputs t \<Longrightarrow> i \<le> next_file_number (db_state db)" "distinct (task_ids t)"
  using assms
  by (cases t; auto simp: minor_built_def minor_pending_def job_built_def job_pending_def job_ids_def split: if_splits)+

text \<open>What a phase promises: it can run, and its effect is limited to what it owns.\<close>

definition phase_ok :: "task \<Rightarrow> DBImpl \<Rightarrow> task option \<Rightarrow> DBImpl \<Rightarrow> bool" where
  "phase_ok t db t' db' \<longleftrightarrow>
     db_inv db' \<and> view db' = view db \<and> evolves (set (task_ids t)) db db' \<and>
     (\<forall>u. t' = Some u \<longrightarrow> task_good db' u \<and> task_ids u = task_ids t \<and> task_inputs u = task_inputs t \<and> is_minor u = is_minor t) \<and>
     (\<not> is_minor t \<longrightarrow> db_imm db' = db_imm db \<and> imm_wal_id db' = imm_wal_id db \<and>
        (\<forall>i\<in>set (task_ids t). ids_at 0 (db_state db') \<noteq> ids_at 0 (db_state db) @ [i]))"

lemma ids_same_no_append: "quiet X db db' \<Longrightarrow> ids_at 0 (db_state db') \<noteq> ids_at 0 (db_state db) @ [i]"
  by (simp add: quiet_def ids_at_def)

lemma evolves_mono: "evolves X db db' \<Longrightarrow> X \<subseteq> Y \<Longrightarrow> evolves Y db db'"
  unfolding evolves_def by blast

lemma Minor_phases_ok:
  assumes inv: "db_inv db" "fits db"
  shows "task_good db (MinorBuild ctx) \<Longrightarrow>
      \<exists>t' tr db'. task_step (MinorBuild ctx) db = Some (t', tr, db') \<and> phase_ok (MinorBuild ctx) db t' db'"
    "task_good db (MinorInstall ctx r) \<Longrightarrow>
      \<exists>t' tr db'. task_step (MinorInstall ctx r) db = Some (t', tr, db') \<and> phase_ok (MinorInstall ctx r) db t' db'"
proof -
  assume g: "task_good db (MinorBuild ctx)"
  then obtain r db' where b: "Minor_build ctx db = Some (r, db')" "db_inv db'" "view db' = view db"
      "minor_built db' ctx r" "quiet {minor_sst_id ctx} db db'"
    using Minor_build_ok [OF inv(1), of ctx] by auto
  then show "\<exists>t' tr db'. task_step (MinorBuild ctx) db = Some (t', tr, db') \<and> phase_ok (MinorBuild ctx) db t' db'"
    by (auto simp: phase_ok_def intro: quiet_evolves)
next
  assume g: "task_good db (MinorInstall ctx r)"
  obtain tr db' where i: "Minor_install ctx r db = (tr, db')" by fastforce
  have b: "minor_built db ctx r" using g by simp
  note M = Minor_install_ok [OF inv b i]
  have "evolves {minor_sst_id ctx} db db'" using M by (auto simp: evolves_def)
  then show "\<exists>t' tr db'. task_step (MinorInstall ctx r) db = Some (t', tr, db') \<and> phase_ok (MinorInstall ctx r) db t' db'"
    using i M(1,3) by (auto simp: phase_ok_def)
qed

lemma Job_build_phase_ok:
  assumes inv: "db_inv db" and g: "task_good db (JobBuild ctx)"
  shows "\<exists>t' tr db'. task_step (JobBuild ctx) db = Some (t', tr, db') \<and> phase_ok (JobBuild ctx) db t' db'"
proof -
  have p: "job_pending db ctx" using g by simp
  obtain r db' where b: "Compact_build ctx db = Some (Some r, db')" "db_inv db'" "view db' = view db" "job_built db' ctx r"
      "quiet (if has_output ctx then {new_sst_id ctx} else {}) db db'" "db_imm db' = db_imm db" "imm_wal_id db' = imm_wal_id db"
    using Compact_build_ok [OF inv p] by blast
  have "(if has_output ctx then {new_sst_id ctx} else {}) \<subseteq> set (job_ids ctx)"
    using p by (auto simp: job_pending_def job_ctx_def job_ids_def)
  then have "evolves (set (job_ids ctx)) db db'" using quiet_evolves [OF b(5)] evolves_mono by blast
  then show ?thesis using b ids_same_no_append [OF b(5)] by (auto simp: phase_ok_def)
qed

lemma Job_install_phase_ok:
  assumes inv: "db_inv db" "fits db" and g: "task_good db (JobInstall ctx r)"
  shows "\<exists>t' tr db'. task_step (JobInstall ctx r) db = Some (t', tr, db') \<and> phase_ok (JobInstall ctx r) db t' db'"
proof -
  let ?db = "Compact_install ctx r db"
  have b: "job_built db ctx r" and p: "job_pending db ctx" using g by (simp_all add: job_built_def)
  have own: "has_output ctx \<Longrightarrow> new_sst_id ctx \<in> set (job_ids ctx)"
    using p by (auto simp: job_pending_def job_ctx_def job_ids_def)
  show ?thesis
  proof (cases "ids_at 0 (db_state db) = l0_input_ids ctx")
    case True
    note C = Compact_install_ok [OF inv b True refl]
    have "evolves (set (job_ids ctx)) db ?db"
      unfolding evolves_def
    proof (intro conjI allI impI)
      show "sst_ids (db_state ?db) \<subseteq> sst_ids (db_state db) \<union> set (job_ids ctx)" using C(5) own by (auto split: if_splits)
      fix i assume "i \<notin> set (job_ids ctx) \<and> i \<notin> sst_ids (db_state db)"
      then have "i \<notin> set (l0_input_ids ctx)" using True ids_at_subset [of 0 "db_state db"] by auto
      then show "fs_read (db_dir ?db) (sst_name i) = fs_read (db_dir db) (sst_name i)" by (rule C(10))
    qed (use C(3,6) in auto)
    then show ?thesis using C(1-3,8,9) by (auto simp: phase_ok_def)
  next
    case False
    note C = Compact_install_mismatch [OF inv(1) p False, of r]
    have "(if new_sst_path ctx \<noteq> [] then {new_sst_id ctx} else {}) \<subseteq> set (job_ids ctx)" by (simp add: job_ids_def)
    then have "evolves (set (job_ids ctx)) db ?db" using quiet_evolves [OF C(4)] evolves_mono by blast
    then show ?thesis using C(2,3) ids_same_no_append [OF C(4)] C(1) by (auto simp: phase_ok_def)
  qed
qed

lemma task_step_ok:
  assumes "db_inv db" "fits db" "task_good db t"
  shows "\<exists>t' tr db'. task_step t db = Some (t', tr, db') \<and> phase_ok t db t' db'"
  using assms Minor_phases_ok Job_build_phase_ok Job_install_phase_ok by (cases t) blast+

lemma tasks_inv_others:
  assumes ti: "tasks_inv db (xs @ t # ys)" and ph: "phase_ok t db t' db'"
    and one: "is_minor t \<Longrightarrow> \<forall>u\<in>set (xs @ ys). \<not> is_minor u"
  shows "tasks_inv db' (xs @ (case t' of None \<Rightarrow> [] | Some u \<Rightarrow> [u]) @ ys)"
proof -
  have e: "evolves (set (task_ids t)) db db'" using ph by (simp add: phase_ok_def)
  have good: "task_good db' u" if u: "u \<in> set (xs @ ys)" for u
  proof (rule task_good_evolves [OF _ e])
    show "task_good db u" using ti u by (auto simp: tasks_inv_def)
    show "set (task_ids u) \<inter> set (task_ids t) = {}" using ti u by (auto simp: tasks_inv_def)
    show "task_inputs u \<inter> set (task_ids t) = {}" using ti u by (auto simp: tasks_inv_def)
    show "db_imm db' = db_imm db \<and> imm_wal_id db' = imm_wal_id db \<and>
        (\<forall>i\<in>set (task_ids t). ids_at 0 (db_state db') \<noteq> ids_at 0 (db_state db) @ [i])" if "is_minor u"
      using that one u ph by (auto simp: phase_ok_def)
  qed
  show ?thesis
  proof (cases t')
    case None
    then show ?thesis using ti good by (auto simp: tasks_inv_def)
  next
    case (Some w)
    then have w: "task_good db' w" "task_ids w = task_ids t" "task_inputs w = task_inputs t" using ph by (auto simp: phase_ok_def)
    then show ?thesis using ti good Some unfolding tasks_inv_def by (simp add: ball_Un w(2,3)) 
  qed
qed

lemma tasks_inv_quiet:
  assumes "tasks_inv db ts" "quiet {} db db'"
    and "\<And>t. t \<in> set ts \<Longrightarrow> is_minor t \<Longrightarrow> db_imm db' = db_imm db \<and> imm_wal_id db' = imm_wal_id db"
  shows "tasks_inv db' ts"
  using assms task_good_evolves [OF _ quiet_evolves [OF assms(2)]] by (fastforce simp: tasks_inv_def)

lemma tasks_inv_add:
  assumes ti: "tasks_inv db ts" and q: "quiet {} db db'"
    and same: "db_imm db' = db_imm db" "imm_wal_id db' = imm_wal_id db"
    and t: "task_good db' t" "\<And>i. i \<in> set (task_ids t) \<Longrightarrow> next_file_number (db_state db) < i"
    and inp: "task_inputs t \<subseteq> sst_ids (db_state db)" "set (task_ids t) \<inter> task_inputs t = {}"
  shows "tasks_inv db' (t # ts)"
proof -
  have ti': "tasks_inv db' ts" by (rule tasks_inv_quiet [OF ti q]) (simp add: same)
  have g: "task_good db u" if "u \<in> set ts" for u using ti that by (simp add: tasks_inv_def)
  have "set (task_ids t) \<inter> set (task_ids u) = {}" "set (task_ids t) \<inter> task_inputs u = {}" if "u \<in> set ts" for u
    using t(2) task_good_bounds(1,2) [OF g [OF that]] by (fastforce simp: disjoint_iff not_less [symmetric])+
  moreover have "set (task_ids u) \<inter> task_inputs t = {}" if "u \<in> set ts" for u
    using inp(1) task_good_bounds(1) [OF g [OF that]] by blast
  ultimately show ?thesis
    using ti' t(1) inp(2) task_good_bounds(3) [OF t(1)] unfolding tasks_inv_def by (simp add: disjoint_iff)
qed

section \<open>Every step keeps the invariant, and only a write changes the map\<close>

definition apply_event :: "row option \<Rightarrow> (bytes \<Rightarrow> bytes option) \<Rightarrow> bytes \<Rightarrow> bytes option" where
  "apply_event ev m = (case ev of None \<Rightarrow> m | Some (k, v) \<Rightarrow> m(k := live (Some v)))"

lemma sys_invD:
  assumes "sys_inv s"
  shows "db_inv (sys_db s)" "tasks_inv (sys_db s) (bg_tasks (bg s) @ callers s)"
    "\<And>r. writer s = Some r \<Longrightarrow> row_ok r \<and> plain_row r" "\<And>t. t \<in> set (callers s) \<Longrightarrow> \<not> is_minor t"
    "\<And>t. bg s = BgMerge t \<Longrightarrow> \<not> is_minor t" "\<And>t. bg s = BgFlush t \<Longrightarrow> is_minor t"
  using assms by (auto simp: sys_inv_def tasks_def)

lemma Put_rotate_ok:
  assumes inv: "db_inv db" and fits: "fits db" and r: "Put_rotate db = Some (RotateDone db')"
  shows "db_inv db' \<and> view db' = view db \<and> quiet {} db db' \<and> (db' = db \<or> db_imm db = None)"
proof -
  obtain m where m: "db_mem db = Some m" using db_invD(2) [OF inv] by blast
  have ok: "mem_ok m" using db_invD(1) [OF inv] m by (auto simp: parts_fine_def mem_fine_def)
  show ?thesis
  proof (cases "MemTable_Count m < memtable_limit")
    case True
    then show ?thesis using r m inv by (simp add: Put_rotate_def)
  next
    case False
    then have imm: "db_imm db = None" "db' = rotate_memtable m db" using r m by (auto simp: Put_rotate_def split: if_splits)
    have "mem_rows m \<noteq> []" using False MemTable_Count_rows [OF ok] by (auto simp: memtable_limit_def)
    with rotate_memtable_ok [OF inv fits m _ imm(1)] imm show ?thesis by simp
  qed
qed

lemma job_inputs_listed:
  assumes "Compact_prepare db = Some (Some ctx, db')"
  shows "set (l0_input_ids ctx) \<subseteq> sst_ids (db_state db)"
proof -
  have "l0_input_ids ctx = ids_at 0 (db_state db)"
    using assms
    by (auto simp: Compact_prepare_def PrepareL0ToL1_def Let_def db_mf_def l0_ids_at empty_L0ToL1Ctx_def
        elim!: bind_eq_SomeE split: if_splits prod.splits)
  then show ?thesis using ids_at_subset by simp
qed

lemma add_job:
  assumes inv: "db_inv db" "fits db" and ti: "tasks_inv db ts" and c: "Compact_prepare db = Some (c, db')"
  shows "db_inv db' \<and> view db' = view db \<and> tasks_inv db' ((case c of None \<Rightarrow> [] | Some ctx \<Rightarrow> [JobBuild ctx]) @ ts)"
proof -
  have P: "db_inv db'" "view db' = view db" "quiet {} db db'" "db_imm db' = db_imm db" "imm_wal_id db' = imm_wal_id db"
    "\<And>ctx. c = Some ctx \<Longrightarrow> job_pending db' ctx \<and> (new_sst_path ctx \<noteq> [] \<longrightarrow> next_file_number (db_state db) < new_sst_id ctx)"
    using Compact_prepare_ok [OF inv] c by auto
  show ?thesis
  proof (cases c)
    case None
    then show ?thesis using P(1-5) tasks_inv_quiet [OF ti P(3)] by simp
  next
    case (Some ctx)
    have inp: "set (l0_input_ids ctx) \<subseteq> sst_ids (db_state db)" using job_inputs_listed c Some by blast
    have new: "next_file_number (db_state db) < i" if "i \<in> set (job_ids ctx)" for i
      using that P(6) [OF Some] by (auto simp: job_ids_def split: if_splits)
    have "tasks_inv db' (JobBuild ctx # ts)"
    proof (rule tasks_inv_add [OF ti P(3-5)])
      show "set (task_ids (JobBuild ctx)) \<inter> task_inputs (JobBuild ctx) = {}"
        using new inp db_invD(5) [OF inv(1)] by (fastforce simp: disjoint_iff not_less [symmetric])
    qed (use P(6) [OF Some] inp new in auto)
    then show ?thesis using P Some by simp
  qed
qed

lemma sys_inv_put:
  assumes s: "sys_inv s" and db': "db_inv db'" "quiet {} (sys_db s) db'"
    and imm: "db_imm (sys_db s) \<noteq> None \<Longrightarrow> db_imm db' = db_imm (sys_db s) \<and> imm_wal_id db' = imm_wal_id (sys_db s)"
    and w: "\<And>r. w = Some r \<Longrightarrow> row_ok r \<and> plain_row r"
  shows "sys_inv (s\<lparr>sys_db := db', writer := w\<rparr>)"
proof -
  note D = sys_invD [OF s]
  have "tasks_inv db' (bg_tasks (bg s) @ callers s)"
  proof (rule tasks_inv_quiet [OF D(2) db'(2)])
    fix t assume t: "t \<in> set (bg_tasks (bg s) @ callers s)" "is_minor t"
    then have "task_good (sys_db s) t" using D(2) by (simp add: tasks_inv_def)
    then have "db_imm (sys_db s) \<noteq> None" using t(2) by (cases t) (auto simp: minor_built_def minor_pending_def)
    then show "db_imm db' = db_imm (sys_db s) \<and> imm_wal_id db' = imm_wal_id (sys_db s)" by (rule imm)
  qed
  then show ?thesis using D db' w by (simp add: sys_inv_def tasks_def)
qed

lemma sys_inv_bg_task:
  assumes s: "sys_inv s" and fits: "fits (sys_db s)" and b: "bg_tasks (bg s) = [t]"
    and st: "task_step t (sys_db s) = Some (t', tr, db')"
    and ph: "bg_tasks p = (case t' of None \<Rightarrow> [] | Some u \<Rightarrow> [u])"
      "\<And>u. p = BgMerge u \<Longrightarrow> \<not> is_minor t" "\<And>u. p = BgFlush u \<Longrightarrow> is_minor t"
  shows "sys_inv (s\<lparr>sys_db := db', bg := p\<rparr>) \<and> view db' = view (sys_db s)"
proof -
  note D = sys_invD [OF s]
  have "task_good (sys_db s) t" using D(2) b by (simp add: tasks_inv_def)
  then have pk: "phase_ok t (sys_db s) t' db'" using task_step_ok [OF D(1) fits] st by fastforce
  have "tasks_inv db' ([] @ (case t' of None \<Rightarrow> [] | Some u \<Rightarrow> [u]) @ callers s)"
    by (rule tasks_inv_others [OF _ pk]) (use D(2,4) b in auto)
  moreover have "is_minor u = is_minor t" if "p = BgMerge u \<or> p = BgFlush u" for u
    using that ph(1) pk by (cases t') (auto simp: phase_ok_def)
  ultimately show ?thesis using D pk ph by (auto simp: sys_inv_def tasks_def phase_ok_def)
qed

lemma sys_inv_prepare:
  assumes s: "sys_inv s" and fits: "fits (sys_db s)" and b: "bg s = BgWoken" and p: "Minor_prepare (sys_db s) = (c, db')"
  shows "sys_inv (s\<lparr>sys_db := db', bg := (case c of None \<Rightarrow> BgFinish | Some ctx \<Rightarrow> BgFlush (MinorBuild ctx))\<rparr>)
    \<and> view db' = view (sys_db s)"
proof -
  note D = sys_invD [OF s] and P = Minor_prepare_ok [OF sys_invD(1) [OF s] fits p]
  have ti: "tasks_inv (sys_db s) (callers s)" using D(2) b by simp
  have imm: "imm_wal_id db' = imm_wal_id (sys_db s)"
    using p by (auto simp: Minor_prepare_def split: option.splits prod.splits)
  show ?thesis
  proof (cases c)
    case None
    then show ?thesis using D P(6) b by (auto simp: sys_inv_def tasks_def)
  next
    case (Some ctx)
    have "tasks_inv db' (MinorBuild ctx # callers s)"
      by (rule tasks_inv_add [OF ti P(3,9) imm]) (use P(4,5) [OF Some] in auto)
    then show ?thesis using D P(1,2) Some by (auto simp: sys_inv_def tasks_def)
  qed
qed

lemma sys_inv_step:
  assumes "step ev s s'" "sys_inv s" "fits (sys_db s)"
  shows "sys_inv s' \<and> view (sys_db s') = apply_event ev (view (sys_db s))"
  using assms(1)
proof cases
  case (put_begin db' r)
  note D = sys_invD [OF assms(2)] and P = Put_rotate_ok [OF sys_invD(1) [OF assms(2)] assms(3) put_begin(4)]
  have "sys_inv (s\<lparr>sys_db := db', writer := Some r\<rparr>)"
    by (rule sys_inv_put [OF assms(2)]) (use P put_begin in auto)
  then show ?thesis using put_begin P by (simp add: apply_event_def)
next
  case (put_end k v coin db')
  note D = sys_invD [OF assms(2)]
  have rk: "row_ok (k, v)" "plain_row (k, v)" using D(3) put_end by auto
  note P = Put_write_ok(2) [OF D(1) rk put_end(4)]
  have "db_imm db' = db_imm (sys_db s) \<and> imm_wal_id db' = imm_wal_id (sys_db s)"
    using put_end(4) by (auto simp: Put_write_def elim!: bind_eq_SomeE)
  then have "sys_inv (s\<lparr>sys_db := db', writer := None\<rparr>)"
    by (intro sys_inv_put [OF assms(2)]) (use P in auto)
  then show ?thesis using put_end P by (simp add: apply_event_def)
next
  case bg_wake
  then show ?thesis using sys_invD [OF assms(2)] by (auto simp: sys_inv_def tasks_def apply_event_def)
next
  case (bg_prepare c db')
  then show ?thesis using sys_inv_prepare [OF assms(2,3)] by (simp add: apply_event_def)
next
  case (bg_flush t t' trigger db')
  have m: "is_minor t" using sys_invD(6) [OF assms(2)] bg_flush by blast
  show ?thesis
    using sys_inv_bg_task [OF assms(2,3) _ bg_flush(4), of "case t' of Some u \<Rightarrow> BgFlush u | None \<Rightarrow> if trigger then BgTriggered else BgFinish"]
      bg_flush m by (auto simp: apply_event_def split: option.splits if_splits)
next
  case (bg_triggered c db')
  note D = sys_invD [OF assms(2)]
  have "tasks_inv (sys_db s) (callers s)" using D(2) bg_triggered by simp
  from add_job [OF D(1) assms(3) this bg_triggered(4)] bg_triggered D show ?thesis
    by (cases c) (auto simp: sys_inv_def tasks_def apply_event_def)
next
  case (bg_merge t t' trigger db')
  have m: "\<not> is_minor t" using sys_invD(5) [OF assms(2)] bg_merge by blast
  show ?thesis
    using sys_inv_bg_task [OF assms(2,3) _ bg_merge(4), of "case t' of Some u \<Rightarrow> BgMerge u | None \<Rightarrow> BgFinish"]
      bg_merge m by (auto simp: apply_event_def split: option.splits)
next
  case bg_finish
  note D = sys_invD [OF assms(2)]
  let ?db = "(sys_db s)\<lparr>bg_compaction_scheduled := False\<rparr>"
  have ds: "db_state ?db = db_state (sys_db s)" "db_mf ?db = db_mf (sys_db s)" by (simp_all add: db_state_def db_mf_def)
  have "db_inv ?db" "view ?db = view (sys_db s)"
    by (rule db_inv_frame [OF D(1)]; use db_invD(4) [OF D(1)] in \<open>simp add: ds\<close>)+
  moreover have "tasks_inv ?db (callers s)"
    by (rule tasks_inv_quiet [of "sys_db s"]) (use D(2) bg_finish in \<open>simp_all add: quiet_def ds\<close>)
  ultimately show ?thesis using D bg_finish by (auto simp: sys_inv_def tasks_def apply_event_def)
next
  case (call_compact c db')
  note D = sys_invD [OF assms(2)]
  note A = add_job [OF D(1) assms(3) D(2) call_compact(3)]
  show ?thesis
  proof (cases c)
    case (Some ctx)
    have "tasks_inv db' (JobBuild ctx # bg_tasks (bg s) @ callers s)" using A Some by simp
    then have "tasks_inv db' (bg_tasks (bg s) @ JobBuild ctx # callers s)"
      by (auto simp: tasks_inv_def ball_Un)
    then show ?thesis using A D call_compact Some by (auto simp: sys_inv_def tasks_def apply_event_def)
  qed (use A D call_compact in \<open>auto simp: sys_inv_def tasks_def apply_event_def\<close>)
next
  case (call_step xs t ys t' trigger db')
  note D = sys_invD [OF assms(2)]
  have m: "\<not> is_minor t" using D(4) call_step by simp
  have ti: "tasks_inv (sys_db s) ((bg_tasks (bg s) @ xs) @ t # ys)" using D(2) call_step by simp
  then have "task_good (sys_db s) t" by (simp add: tasks_inv_def)
  then have pk: "phase_ok t (sys_db s) t' db'" using task_step_ok [OF D(1) assms(3)] call_step(4) by fastforce
  have "tasks_inv db' ((bg_tasks (bg s) @ xs) @ (case t' of None \<Rightarrow> [] | Some u \<Rightarrow> [u]) @ ys)"
    by (rule tasks_inv_others [OF ti pk]) (simp add: m)
  moreover have "\<not> is_minor u" if "t' = Some u" for u using that pk m by (simp add: phase_ok_def)
  ultimately show ?thesis
    using D pk call_step by (auto simp: sys_inv_def tasks_def phase_ok_def apply_event_def split: option.splits)
qed

section \<open>Runs\<close>

definition idle :: "DBImpl \<Rightarrow> sys" where
  "idle db = \<lparr>sys_db = db, writer = None, bg = BgWait, callers = []\<rparr>"

text \<open>Runs with the sequence of completed writes; every step has room (\<^const>\<open>fits\<close>).\<close>

inductive reach :: "sys \<Rightarrow> row list \<Rightarrow> sys \<Rightarrow> bool" for s0 where
  start: "reach s0 [] s0"
| silent: "reach s0 ws s \<Longrightarrow> fits (sys_db s) \<Longrightarrow> step None s s' \<Longrightarrow> reach s0 ws s'"
| written: "reach s0 ws s \<Longrightarrow> fits (sys_db s) \<Longrightarrow> step (Some r) s s' \<Longrightarrow> reach s0 (ws @ [r]) s'"

definition apply_writes :: "row list \<Rightarrow> (bytes \<Rightarrow> bytes option) \<Rightarrow> bytes \<Rightarrow> bytes option" where
  "apply_writes ws m = fold (\<lambda>r. apply_event (Some r)) ws m"

lemma sys_inv_idle: "db_inv db \<Longrightarrow> sys_inv (idle db)"
  by (simp add: sys_inv_def idle_def tasks_def tasks_inv_def)

lemma reach_inv:
  assumes "reach (idle db0) ws s" "db_inv db0"
  shows "sys_inv s \<and> view (sys_db s) = apply_writes ws (view db0)"
  using assms(1)
proof induction
  case start
  then show ?case using sys_inv_idle [OF assms(2)] by (simp add: apply_writes_def idle_def)
next
  case (silent ws s s')
  then show ?case using sys_inv_step [OF silent(3)] by (simp add: apply_event_def)
next
  case (written ws s r s')
  then show ?case using sys_inv_step [OF written(3)] by (simp add: apply_writes_def)
qed

text \<open>Nothing a thread does next is undefined.\<close>

lemma sys_defined:
  assumes s: "sys_inv s" and fits: "fits (sys_db s)"
  shows "Put_rotate (sys_db s) \<noteq> None" "writer s = Some (k, v) \<Longrightarrow> Put_write coin k v (sys_db s) \<noteq> None"
    "t \<in> set (tasks s) \<Longrightarrow> task_step t (sys_db s) \<noteq> None" "Compact_prepare (sys_db s) \<noteq> None"
proof -
  note D = sys_invD [OF s]
  show "Put_rotate (sys_db s) \<noteq> None" using db_invD(2) [OF D(1)] by (auto simp: Put_rotate_def)
  show "Put_write coin k v (sys_db s) \<noteq> None" if "writer s = Some (k, v)"
    using Put_write_ok(1) [OF D(1), of k v coin] D(3) that by auto
  show "task_step t (sys_db s) \<noteq> None" if "t \<in> set (tasks s)"
    using task_step_ok [OF D(1) fits, of t] D(2) that by (auto simp: tasks_inv_def tasks_def)
  show "Compact_prepare (sys_db s) \<noteq> None" using Compact_prepare_ok [OF D(1) fits] by auto
qed

section \<open>A round of the background thread finishes its work\<close>

definition roomy :: "nat \<Rightarrow> DBImpl \<Rightarrow> bool" where
  "roomy n db \<longleftrightarrow> rows_size (layers db) < 2 ^ 56 \<and> state_size (db_state db) + 2 + n < 2 ^ 32 \<and>
     unat (next_file_number (db_state db)) + 1 + n < 2 ^ 64"

lemma roomy_fits: "roomy n db \<Longrightarrow> fits db"
  by (simp add: roomy_def fits_def)

lemma roomy_allocated:
  assumes "roomy (Suc n) db" "layers db' = layers db" "db_state db' = (db_state db)\<lparr>next_file_number := next_file_number (db_state db) + 1\<rparr>"
  shows "roomy n db'"
proof -
  have "unat (next_file_number (db_state db) + 1) = unat (next_file_number (db_state db)) + 1"
    using assms(1) by (subst unat_add_lem [THEN iffD1]) (simp_all add: roomy_def)
  then show ?thesis using assms by (simp add: roomy_def state_size_def)
qed

lemma CompactL0ToL1_empty: "level0 (db_levels db) = [] \<Longrightarrow> CompactL0ToL1 db = Some db"
  by (simp add: CompactL0ToL1_def Compact_prepare_def PrepareL0ToL1_def set_mf_def db_mf_def)

lemma CompactL0ToL1_phases:
  assumes inv: "db_inv db" and room: "roomy (Suc n) db" and ne: "level0 (db_levels db) \<noteq> []"
  shows "\<exists>ctx r db1 db2. Compact_prepare db = Some (Some ctx, db1) \<and> Compact_build ctx db1 = Some (Some r, db2) \<and>
    CompactL0ToL1 db = Some (Compact_install ctx r db2) \<and> db_inv db1 \<and> job_pending db1 ctx \<and>
    db_inv db2 \<and> roomy n db2 \<and> job_built db2 ctx r \<and> ids_at 0 (db_state db2) = l0_input_ids ctx \<and>
    view db2 = view db \<and> db_mem db2 = db_mem db \<and> db_imm db2 = db_imm db"
proof -
  note fits = roomy_fits [OF room]
  obtain ctx mf where p: "PrepareL0ToL1 (db_levels db) (db_mf db) = Some (True, ctx, mf)"
    "db_inv (set_mf mf db)" "view (set_mf mf db) = view db" "quiet {} db (set_mf mf db)" "job_pending (set_mf mf db) ctx"
    using PrepareL0ToL1_ok [OF inv fits ne] by blast
  let ?db1 = "set_mf mf db"
  obtain r db2 where b: "Compact_build ctx ?db1 = Some (Some r, db2)" "db_inv db2" "view db2 = view ?db1" "job_built db2 ctx r"
    "quiet (if has_output ctx then {new_sst_id ctx} else {}) ?db1 db2" "db_manifest db2 = db_manifest ?db1"
    "db_mem db2 = db_mem ?db1" "db_imm db2 = db_imm ?db1" "imm_wal_id db2 = imm_wal_id ?db1"
    using Compact_build_ok [OF p(2,5)] by blast
  have ids: "ids_at 0 (db_state db2) = ids_at 0 (db_state db)"
    using p(4) b(5) by (simp add: quiet_def ids_at_def)
  have inp: "l0_input_ids ctx = ids_at 0 (db_state db)"
    using p(1) ne by (auto simp: PrepareL0ToL1_def Let_def db_mf_def l0_ids_at empty_L0ToL1Ctx_def
        elim!: bind_eq_SomeE split: if_splits prod.splits)
  have lay: "layers ?db1 = layers db" by (simp add: layers_def)
  have st1: "db_state ?db1 = db_state db \<or> db_state ?db1 = (db_state db)\<lparr>next_file_number := next_file_number (db_state db) + 1\<rparr>"
  proof -
    obtain n mf' where a: "AllocateFileNumber (db_mf db) = (n, mf')" by (cases "AllocateFileNumber (db_mf db)")
    have "mf = db_mf db \<or> mf = mf'"
      using p(1) ne a by (auto simp: PrepareL0ToL1_def Let_def elim!: bind_eq_SomeE split: if_splits prod.splits)
    then show ?thesis using allocate_db(5,6) [OF inv fits a] by (auto simp: db_mf_def db_state_def)
  qed
  have "roomy n ?db1"
    using st1 room roomy_allocated [of n db ?db1] lay by (auto simp: roomy_def)
  moreover have "db_state db2 = db_state ?db1" "layers db2 = layers ?db1"
    using b(5-8) by (simp_all add: db_state_def layers_def quiet_def)
  ultimately have "roomy n db2" by (simp add: roomy_def)
  moreover have "Compact_prepare db = Some (Some ctx, ?db1)" using p(1) by (simp add: Compact_prepare_def)
  moreover from this have "CompactL0ToL1 db = Some (Compact_install ctx r db2)" using b(1) by (simp add: CompactL0ToL1_def)
  ultimately show ?thesis
    using b p ids inp by (intro exI [of _ ctx] exI [of _ r] exI [of _ ?db1] exI [of _ db2]) simp
qed

lemma CompactL0ToL1_ok:
  assumes inv: "db_inv db" and room: "roomy 1 db"
  shows "\<exists>db'. CompactL0ToL1 db = Some db' \<and> db_inv db' \<and> view db' = view db \<and> level0 (db_levels db') = [] \<and>
    db_imm db' = db_imm db \<and> db_mem db' = db_mem db"
proof (cases "level0 (db_levels db) = []")
  case True
  then show ?thesis using inv by (simp add: CompactL0ToL1_empty)
next
  case False
  then obtain ctx r db2 where c: "CompactL0ToL1 db = Some (Compact_install ctx r db2)" "db_inv db2" "fits db2" "job_built db2 ctx r"
    "ids_at 0 (db_state db2) = l0_input_ids ctx" "view db2 = view db" "db_mem db2 = db_mem db" "db_imm db2 = db_imm db"
    using CompactL0ToL1_phases [of db 0] inv room roomy_fits by (metis One_nat_def)
  show ?thesis using Compact_install_ok(1,2,4,7,8) [OF c(2-5) refl] c by simp
qed

lemma MinorCompaction_phases:
  assumes inv: "db_inv db" and room: "roomy (Suc (Suc (Suc n))) db" and imm: "db_imm db \<noteq> None"
  shows "\<exists>ctx r db1 db2 t db3. Minor_prepare db = (Some ctx, db1) \<and> Minor_build ctx db1 = Some (r, db2) \<and>
    Minor_install ctx r db2 = (t, db3) \<and> MinorCompaction db = (if t then CompactL0ToL1 db3 else Some db3) \<and>
    db_inv db1 \<and> minor_pending db1 ctx \<and> db_inv db2 \<and> fits db2 \<and> minor_built db2 ctx r \<and> imm_wal_id db2 = imm_wal_id db \<and>
    db_inv db3 \<and> roomy (Suc n) db3 \<and> view db3 = view db \<and> db_imm db3 = None \<and> db_mem db3 = db_mem db"
proof -
  note fits = roomy_fits [OF room]
  obtain c db1 where p: "Minor_prepare db = (c, db1)" by fastforce
  note P = Minor_prepare_ok [OF inv fits p]
  obtain ctx where Some: "c = Some ctx" using P(7) imm by blast
  obtain i mf where a: "AllocateFileNumber (db_mf db) = (i, mf)" by (cases "AllocateFileNumber (db_mf db)")
  have db1: "db1 = set_mf mf db" using p a Some by (auto simp: Minor_prepare_def split: option.splits)
  have room1: "roomy (Suc (Suc n)) db1"
    using roomy_allocated [of "Suc (Suc n)" db db1] room allocate_db(5,6) [OF inv fits a] by (simp add: db1 layers_def)
  obtain r db2 where b: "Minor_build ctx db1 = Some (r, db2)" "db_inv db2" "view db2 = view db1" "minor_built db2 ctx r"
    "db_manifest db2 = db_manifest db1" "db_mem db2 = db_mem db1" "db_imm db2 = db_imm db1" "quiet {minor_sst_id ctx} db1 db2"
    using Minor_build_ok [OF P(1) P(4) [OF Some]] by blast
  have iw: "imm_wal_id db2 = imm_wal_id db" using b(1) by (auto simp: Minor_build_def db1 elim!: bind_eq_SomeE)
  have room2: "roomy (Suc (Suc n)) db2" using room1 b by (simp add: roomy_def layers_def db_state_def quiet_def)
  obtain t db3 where i: "Minor_install ctx r db2 = (t, db3)" by fastforce
  note M = Minor_install_ok [OF b(2) roomy_fits [OF room2] b(4) i]
  have m: "MinorCompaction db = (if t then CompactL0ToL1 db3 else Some db3)"
    using p Some b(1) i by (simp add: MinorCompaction_def)
  have sz: "state_size (db_state db3) \<le> state_size (db_state db2) + 1"
  proof -
    have "db_state db3 = ApplyEdit DelWAL (imm_wal_id db2) 0 (ApplyEdit AddSST (minor_sst_id ctx) 0 (db_state db2))"
      using Minor_install_eq [OF b(2) roomy_fits [OF room2] b(4)] i by (auto simp: db_state_def)
    then show ?thesis
      using length_upsert_le [of "minor_sst_id ctx" 0 "sst_levels (db_state db2)"] length_erase_le(2) [of "imm_wal_id db2" "live_wals (db_state db2)"]
      by (simp add: state_size_def del: length_erase_le)
  qed
  then have "roomy (Suc n) db3" using room2 M(2,7) by (simp add: roomy_def)
  then show ?thesis
    using p Some m b(1,2,3,4,6) i iw P(1,2,8) P(4) [OF Some] roomy_fits [OF room2] M(1,3,8,9)
    by (intro exI [of _ ctx] exI [of _ r] exI [of _ db1] exI [of _ db2] exI [of _ t] exI [of _ db3]) simp
qed

lemma MinorCompaction_ok:
  assumes inv: "db_inv db" and room: "roomy 3 db"
  shows "\<exists>db'. MinorCompaction db = Some db' \<and> db_inv db' \<and> view db' = view db \<and> db_imm db' = None \<and> db_mem db' = db_mem db"
proof (cases "db_imm db")
  case None
  then show ?thesis using inv by (simp add: MinorCompaction_def Minor_prepare_def)
next
  case (Some mt)
  then obtain t db3 where m: "MinorCompaction db = (if t then CompactL0ToL1 db3 else Some db3)" "db_inv db3" "roomy 1 db3"
    "view db3 = view db" "db_imm db3 = None" "db_mem db3 = db_mem db"
    using MinorCompaction_phases [of db 0] inv room by (auto simp: numeral_3_eq_3)
  then show ?thesis using CompactL0ToL1_ok [OF m(2,3)] by (cases t) auto
qed

section \<open>Uncontended calls\<close>

lemma DBImpl_Put_cases:
  assumes inv: "db_inv db" "fits db" and row: "row_ok (k, v)" "plain_row (k, v)" and m: "db_mem db = Some mt"
  shows "memtable_limit \<le> MemTable_Count mt \<Longrightarrow> db_imm db \<noteq> None \<Longrightarrow> DBImpl_Put coin k v db = Some None"
    "MemTable_Count mt < memtable_limit \<or> db_imm db = None \<Longrightarrow>
      \<exists>db'. DBImpl_Put coin k v db = Some (Some db') \<and> db_inv db' \<and> view db' = (view db)(k := live (Some v))"
proof -
  show "DBImpl_Put coin k v db = Some None" if "memtable_limit \<le> MemTable_Count mt" "db_imm db \<noteq> None"
    using that m by (simp add: DBImpl_Put_def Put_rotate_def)
  assume "MemTable_Count mt < memtable_limit \<or> db_imm db = None"
  then obtain db1 where r: "Put_rotate db = Some (RotateDone db1)" using m by (cases "MemTable_Count mt < memtable_limit") (auto simp: Put_rotate_def)
  note R = Put_rotate_ok [OF inv r]
  then have inv1: "db_inv db1" by blast
  obtain db' where w: "Put_write coin k v db1 = Some db'" using Put_write_ok(1) [OF inv1 row, of coin] by blast
  show "\<exists>db'. DBImpl_Put coin k v db = Some (Some db') \<and> db_inv db' \<and> view db' = (view db)(k := live (Some v))"
    using r w R Put_write_ok(2) [OF inv1 row w] by (simp add: DBImpl_Put_def)
qed

lemma db_inv_scheduled:
  assumes "db_inv db"
  shows "db_inv (db\<lparr>bg_compaction_scheduled := b\<rparr>)" "view (db\<lparr>bg_compaction_scheduled := b\<rparr>) = view db"
    "layers (db\<lparr>bg_compaction_scheduled := b\<rparr>) = layers db"
proof -
  let ?db = "db\<lparr>bg_compaction_scheduled := b\<rparr>"
  have ds: "db_state ?db = db_state db" "db_mf ?db = db_mf db" by (simp_all add: db_state_def db_mf_def)
  show "db_inv ?db" "view ?db = view db" "layers ?db = layers db"
    by (rule db_inv_frame [OF assms]; use db_invD(4) [OF assms] in \<open>simp add: ds\<close>)+
qed

lemma BackgroundRound_ok:
  assumes inv: "db_inv db" and room: "roomy 3 db" and on: "\<not> bg_stopped db"
  shows "\<exists>db'. BackgroundRound db = Some (Some db') \<and> db_inv db' \<and> view db' = view db \<and> sync_ready db' \<and>
    db_mem db' = db_mem db"
proof -
  obtain db1 where m: "MinorCompaction db = Some db1" "db_inv db1" "view db1 = view db" "db_imm db1 = None" "db_mem db1 = db_mem db"
    using MinorCompaction_ok [OF inv room] by blast
  then show ?thesis
    using on db_inv_scheduled [OF m(2), of False] by (simp add: BackgroundRound_def sync_ready_def)
qed

section \<open>Flushes that never come\<close>

text \<open>
  A round whose table cannot be written keeps the immutable memtable and clears the flag: nothing is
  scheduled any more, \<open>Sync\<close> waits, and so does the next writer that has to rotate.
\<close>

lemma failed_flush_stalls:
  assumes "\<not> bg_stopped db" "Minor_prepare db = (Some ctx, db1)" "Minor_build ctx db1 = Some (None, db2)"
  shows "\<exists>db'. BackgroundRound db = Some (Some db') \<and> db_imm db' = db_imm db \<and> db_imm db' \<noteq> None \<and>
    \<not> bg_ready db' \<and> \<not> sync_ready db'"
proof -
  have m: "MinorCompaction db = Some db2" using assms(2,3) by (simp add: MinorCompaction_def Minor_install_def)
  have "db_imm db1 = db_imm db" "db_imm db \<noteq> None" "bg_stopped db1 = bg_stopped db"
    using assms(2) by (auto simp: Minor_prepare_def split: option.splits prod.splits)
  moreover have "db_imm db2 = db_imm db1" "bg_stopped db2 = bg_stopped db1"
    using assms(3) by (auto simp: Minor_build_def elim!: bind_eq_SomeE split: prod.splits)
  ultimately show ?thesis using assms(1) m by (simp add: BackgroundRound_def bg_ready_def sync_ready_def)
qed

text \<open>
  The same happens when a writer rotates between the flush of a round and the end of the round, which
  clears the flag that the rotation has set: from then on no step flushes the immutable memtable.
\<close>

definition flush_lost :: "sys \<Rightarrow> bool" where
  "flush_lost s \<longleftrightarrow> bg s = BgWait \<and> db_imm (sys_db s) \<noteq> None \<and> \<not> bg_compaction_scheduled (sys_db s) \<and>
     (\<forall>t\<in>set (callers s). \<not> is_minor t)"

lemma rotation_within_round:
  assumes "bg s = BgFinish" "writer s = None" "row_ok r" "plain_row r" "\<forall>t\<in>set (callers s). \<not> is_minor t"
    and m: "db_mem (sys_db s) = Some m" "memtable_limit \<le> MemTable_Count m" "db_imm (sys_db s) = None"
  shows "\<exists>s1 s2. step None s s1 \<and> step None s1 s2 \<and> flush_lost s2"
proof -
  let ?db = "rotate_memtable m (sys_db s)"
  have "Put_rotate (sys_db s) = Some (RotateDone ?db)" using m by (simp add: Put_rotate_def)
  then have 1: "step None s (s\<lparr>sys_db := ?db, writer := Some r\<rparr>)" by (rule step.put_begin [OF assms(2) _ assms(3,4)])
  have 2: "step None (s\<lparr>sys_db := ?db, writer := Some r\<rparr>) (s\<lparr>writer := Some r, sys_db := ?db\<lparr>bg_compaction_scheduled := False\<rparr>, bg := BgWait\<rparr>)"
    using step.bg_finish [of "s\<lparr>sys_db := ?db, writer := Some r\<rparr>"] assms(1) by simp
  have "db_imm ?db \<noteq> None" by (simp add: rotate_memtable_def split: prod.split)
  then have "flush_lost (s\<lparr>writer := Some r, sys_db := ?db\<lparr>bg_compaction_scheduled := False\<rparr>, bg := BgWait\<rparr>)"
    using assms(5) by (simp add: flush_lost_def)
  then show ?thesis using 1 2 by blast
qed

lemma merge_keeps_imm:
  "Compact_prepare db = Some (c, db') \<Longrightarrow> db_imm db' = db_imm db \<and> bg_compaction_scheduled db' = bg_compaction_scheduled db"
  "\<not> is_minor t \<Longrightarrow> task_step t db = Some (t', b, db') \<Longrightarrow>
     db_imm db' = db_imm db \<and> bg_compaction_scheduled db' = bg_compaction_scheduled db \<and> (\<forall>u. t' = Some u \<longrightarrow> \<not> is_minor u)"
proof -
  show "db_imm db' = db_imm db \<and> bg_compaction_scheduled db' = bg_compaction_scheduled db" if "Compact_prepare db = Some (c, db')"
    using that by (auto simp: Compact_prepare_def elim!: bind_eq_SomeE split: prod.splits)
  show "db_imm db' = db_imm db \<and> bg_compaction_scheduled db' = bg_compaction_scheduled db \<and> (\<forall>u. t' = Some u \<longrightarrow> \<not> is_minor u)"
    if "\<not> is_minor t" "task_step t db = Some (t', b, db')"
    using that by (cases t) (auto simp: Compact_build_def Compact_install_def Let_def elim!: bind_eq_SomeE split: prod.splits if_splits bool.splits)
qed

lemma flush_lost_step:
  assumes "step ev s s'" "flush_lost s"
  shows "flush_lost s'"
  using assms
proof (induction rule: step.induct)
  case (put_begin s db' r)
  then have "db' = sys_db s" by (auto simp: Put_rotate_def flush_lost_def elim!: bind_eq_SomeE split: if_splits)
  then show ?case using put_begin by (simp add: flush_lost_def)
next
  case (put_end s k v coin db')
  then have "db_imm db' = db_imm (sys_db s)" "bg_compaction_scheduled db' = bg_compaction_scheduled (sys_db s)"
    by (auto simp: Put_write_def elim!: bind_eq_SomeE split: option.splits prod.splits)
  then show ?case using put_end by (simp add: flush_lost_def)
next
  case (call_compact s c db')
  then show ?case using merge_keeps_imm(1) [OF call_compact(1)] by (auto simp: flush_lost_def split: option.split)
next
  case (call_step s xs t ys t' trigger db')
  then have "\<not> is_minor t" by (simp add: flush_lost_def)
  from merge_keeps_imm(2) [OF this call_step(2)] call_step(1,3) show ?case by (auto simp: flush_lost_def split: option.split)
qed (auto simp: flush_lost_def)

end
