(* ===== verification/DBRecovery.thy ===== *)
theory DBRecovery
  imports DBSteps
begin

text \<open>
  Opening a directory. The constructor rebuilds the manifest, the tables and the memtable from what
  a previous session left; the theory shows what it rebuilds, and that after a crash between any
  two steps of a run it is the map the run had.
\<close>

section \<open>Loading tables\<close>

lemma open_sst_reader:
  assumes "fs_read fs (sst_name i) = Some (build_table (reader_rows r))" "reader_ok r"
  shows "open_sst (sst_name i) fs = Some (Some r)" "fs_exists fs (sst_name i)"
proof -
  have "table_ok (reader_rows r)" "r = opened (reader_rows r)" using reader_ok_rows [OF assms(2)] by auto
  then show "open_sst (sst_name i) fs = Some (Some r)"
    using assms(1) Open_build_table_aux by (simp add: open_sst_def)
qed (simp add: fs_exists_def assms(1))

lemma load_listed_ok:
  assumes "\<forall>l\<in>snd ` set es. l = 0 \<or> l = (1 :: u32)"
    and "dir_matches fs (map fst (filter (\<lambda>(_, l). l = 0) es)) r0" "dir_matches fs (map fst (filter (\<lambda>(_, l). l = 1) es)) r1"
    and "\<forall>r\<in>set r0 \<union> set r1. reader_ok r"
  shows "load_listed fs es \<lparr>level0 = a, level1 = b\<rparr> = Some \<lparr>level0 = a @ r0, level1 = b @ r1\<rparr>"
  using assms
proof (induction es arbitrary: r0 r1 a b)
  case Nil
  then show ?case by (simp add: dir_matches_def)
next
  case (Cons e es)
  obtain i l where e: "e = (i, l)" by (cases e)
  consider "l = 0" | "l = 1" using Cons.prems(1) by (auto simp: e)
  then show ?case
  proof cases
    case 1
    then obtain r r0' where r0: "r0 = r # r0'" "fs_read fs (sst_name i) = Some (build_table (reader_rows r))"
        "dir_matches fs (map fst (filter (\<lambda>(_, l). l = 0) es)) r0'"
      using Cons.prems(2) by (auto simp: e dir_matches_def list_all2_Cons1)
    note o = open_sst_reader [OF r0(2)]
    have "load_listed fs es \<lparr>level0 = a @ [r], level1 = b\<rparr> = Some \<lparr>level0 = (a @ [r]) @ r0', level1 = b @ r1\<rparr>"
      by (rule Cons.IH) (use Cons.prems 1 r0 in \<open>auto simp: e\<close>)
    then show ?thesis using o Cons.prems(4) 1 r0(1) by (simp add: e push_level_def)
  next
    case 2
    then obtain r r1' where r1: "r1 = r # r1'" "fs_read fs (sst_name i) = Some (build_table (reader_rows r))"
        "dir_matches fs (map fst (filter (\<lambda>(_, l). l = 1) es)) r1'"
      using Cons.prems(3) by (auto simp: e dir_matches_def list_all2_Cons1)
    note o = open_sst_reader [OF r1(2)]
    have "load_listed fs es \<lparr>level0 = a, level1 = b @ [r]\<rparr> = Some \<lparr>level0 = a @ r0, level1 = (b @ [r]) @ r1'\<rparr>"
      by (rule Cons.IH) (use Cons.prems 2 r1 in \<open>auto simp: e\<close>)
    moreover have "\<not> (2 :: u32) \<le> 1" by (simp add: word_le_nat_alt)
    ultimately show ?thesis using o Cons.prems(4) 2 r1(1) by (simp add: e push_level_def)
  qed
qed

lemma fs_read_entries: "fs_read fs n \<noteq> None \<longleftrightarrow> n \<in> set (map fst (entries fs))"
  by (auto simp: fs_read_def map_of_eq_None_iff)

lemma set_numbered_files:
  "set (numbered_files exts fs) = {n. path_ext n \<in> set exts \<and> list_all is_digit (path_stem n) \<and> fs_read fs n \<noteq> None}"
  unfolding numbered_files_def by (auto simp: fs_read_entries simp del: not_None_eq)

lemma numbered_names [simp]:
  "wal_name w \<in> set (numbered_files [''.wal''] fs) \<longleftrightarrow> fs_read fs (wal_name w) \<noteq> None"
  by (simp add: set_numbered_files)

section \<open>Replaying logs\<close>

lemma stoull_wal_name [simp]: "stoull (path_stem (wal_name w)) = Some w"
  by simp

lemma add_found_wals_noop:
  "\<forall>n\<in>set ns. n \<in> wal_name ` set (live_wals (mstate m)) \<Longrightarrow> add_found_wals ns (m, fs) = Some (m, fs)"
proof (induction ns)
  case (Cons n ns)
  obtain w where w: "n = wal_name w" "w \<in> set (live_wals (mstate m))" using Cons.prems by auto
  then have "AddWal w (m, fs) = (False, m, fs)" by (simp add: AddWal_def)
  with Cons w show ?case by simp
qed simp

lemma fs_touch_existing: "fs_read fs n \<noteq> None \<Longrightarrow> fs_touch n fs = fs"
  by (auto simp: fs_touch_def)

lemma insert_all_wal: "insert_all ApplyWithoutWal coin rs m = Some m' \<Longrightarrow> wal m' = wal m"
proof (induction rs arbitrary: m)
  case (Cons r rs)
  obtain k v where r: "r = (k, v)" by (cases r)
  obtain z where "ApplyWithoutWal coin k v m = Some z" "insert_all ApplyWithoutWal coin rs z = Some m'"
    using Cons.prems by (auto simp: r elim!: bind_eq_SomeE)
  then show ?case using Cons.IH [of z] ApplyWithoutWal_wal by simp
qed simp

lemma replay_wals_ok:
  assumes "junk_ok junk" "can_write fs = (\<lambda>_. True)"
    and "\<forall>i\<in>set is. fs_read fs (wal_name i) = Some (concat (map wal_record (logs i))) \<and> (\<forall>r\<in>set (logs i). row_ok r)"
    and "mem_ok mt"
  shows "\<exists>mt'. replay_wals junk coin is (mt, fs) = Some (mt', fs) \<and> mem_ok mt' \<and> wal mt' = wal mt \<and>
    mem_rows mt' = upsert_all (concat (map logs is)) (mem_rows mt)"
  using assms(3,4)
proof (induction "is" arbitrary: mt)
  case (Cons i "is")
  have rd: "fs_read fs (wal_name i) = Some (concat (map wal_record (logs i)))" "\<forall>r\<in>set (logs i). row_ok r"
    using Cons.prems by auto
  have h: "new_WalHandler (wal_name i) fs = (\<lparr>filename = wal_name i, is_open = True\<rparr>, fs)"
    using assms(2) rd fs_touch_existing [of fs "wal_name i"] by (simp add: new_WalHandler_def)
  have l: "LoadLog junk \<lparr>filename = wal_name i, is_open = True\<rparr> fs = logs i"
    using load_log_append_aux [OF rd(2) assms(1), of "[]"] rd(1) by (simp add: LoadLog_def load_log_short)
  obtain m1 where m1: "insert_all ApplyWithoutWal coin (logs i) mt = Some m1" "mem_ok m1"
      "mem_rows m1 = upsert_all (logs i) (mem_rows mt)"
    using mem.insert_all_ok [OF Cons.prems(2), of coin "logs i"] by blast
  obtain mt' where "replay_wals junk coin is (m1, fs) = Some (mt', fs)" "mem_ok mt'" "wal mt' = wal m1"
      "mem_rows mt' = upsert_all (concat (map logs is)) (mem_rows m1)"
    using Cons.IH [of m1] Cons.prems(1) m1(2) by auto
  then show ?case using rd(1) h l m1 insert_all_wal [OF m1(1)] by (simp add: fs_exists_def upsert_all_append)
qed simp

section \<open>A directory that can be opened\<close>

text \<open>
  \<open>disk_ok fs st l0 l1 logs\<close>: the manifest denotes \<open>st\<close>, its tables are on disk with the contents of
  the readers \<open>l0\<close> and \<open>l1\<close>, each live log \<open>w\<close> holds the records \<open>logs w\<close>, there is no log but the
  live ones, and when no table is listed there is no table file to be picked up by the scan.
\<close>

definition disk_ok ::
  "fsys \<Rightarrow> ManifestState \<Rightarrow> SSTableReader list \<Rightarrow> SSTableReader list \<Rightarrow> (u64 \<Rightarrow> row list) \<Rightarrow> bool" where
  "disk_ok fs st l0 l1 logs \<longleftrightarrow>
     denotes fs st \<and> can_write fs = (\<lambda>_. True) \<and>
     (\<forall>i\<in>sst_ids st. i \<le> next_file_number st) \<and> (\<forall>l\<in>snd ` set (sst_levels st). l = 0 \<or> l = 1) \<and>
     dir_matches fs (ids_at 0 st) l0 \<and> dir_matches fs (ids_at 1 st) l1 \<and> (\<forall>r\<in>set l0 \<union> set l1. reader_fine r) \<and>
     (sst_levels st = [] \<longrightarrow> numbered_files [''.sst''] fs = []) \<and>
     (\<forall>w\<in>set (live_wals st). w \<le> next_file_number st \<and>
        fs_read fs (wal_name w) = Some (concat (map wal_record (logs w))) \<and>
        (\<forall>r\<in>set (logs w). row_ok r \<and> plain_row r)) \<and>
     set (numbered_files [''.wal''] fs) \<subseteq> wal_name ` set (live_wals st)"

definition disk_rows :: "ManifestState \<Rightarrow> SSTableReader list \<Rightarrow> SSTableReader list \<Rightarrow> (u64 \<Rightarrow> row list) \<Rightarrow> row list" where
  "disk_rows st l0 l1 logs =
     upsert_all (concat (map logs (live_wals st))) [] @ newest_first l0 @ newest_first l1"

definition state_room :: "ManifestState \<Rightarrow> bool" where
  "state_room st \<longleftrightarrow> state_size st + 2 < 2 ^ 32 \<and> unat (next_file_number st) + 1 < 2 ^ 64"

lemma LoadSSTables_ok:
  assumes "disk_ok fs st l0 l1 logs"
  shows "LoadSSTables (\<lparr>edits_since_checkpoint = c, mstate = st\<rparr>, fs) =
    Some (\<lparr>level0 = l0, level1 = l1\<rparr>, (\<lparr>edits_since_checkpoint = c, mstate = st\<rparr>, fs))"
proof (cases "sst_levels st = []")
  case True
  then have "l0 = []" "l1 = []" "numbered_files [''.sst''] fs = []"
    using assms by (auto simp: disk_ok_def dir_matches_def ids_at_def)
  then show ?thesis using True by (simp add: LoadSSTables_def SstLevels_def)
next
  case False
  have "load_listed fs (sst_levels st) \<lparr>level0 = [], level1 = []\<rparr> = Some \<lparr>level0 = [] @ l0, level1 = [] @ l1\<rparr>"
    by (rule load_listed_ok) (use assms in \<open>auto simp: disk_ok_def ids_at_def reader_fine_def\<close>)
  then show ?thesis using False by (simp add: LoadSSTables_def SstLevels_def)
qed

lemma insort_max: "\<forall>x\<in>set xs. x < (n::'a::linorder) \<Longrightarrow> insort n xs = xs @ [n]"
  by (induction xs) auto

lemma upsert_all_subset: "set (upsert_all rs m) \<subseteq> set rs \<union> set m"
proof (induction rs arbitrary: m)
  case (Cons r rs)
  obtain k v where r: "r = (k, v)" by (cases r)
  show ?case using Cons.IH [of "upsert k v m"] upsert_subset [of k v m] by (auto simp: r)
qed simp

lemma load_manifest:
  assumes "denotes fs st"
  shows "\<exists>base. Load fs new_ManifestManager = (True, \<lparr>edits_since_checkpoint = 0, mstate = base\<rparr>) \<and>
    ReplayLog fs \<lparr>edits_since_checkpoint = 0, mstate = base\<rparr> = (True, \<lparr>edits_since_checkpoint = 0, mstate = st\<rparr>)"
proof -
  obtain base es where b: "snapshot_of fs base" using assms by (auto simp: denotes_def)
  then have "Load fs new_ManifestManager = (True, \<lparr>edits_since_checkpoint = 0, mstate = base\<rparr>)"
    by (auto simp: snapshot_of_def Load_def LoadState_def new_ManifestManager_def)
  then show ?thesis using recover_base [OF b] recover_denotes [OF assms] by auto
qed

lemma state_room_next:
  assumes "state_room st"
  shows "next_file_number st < next_file_number st + 1"
proof -
  have "unat (next_file_number st + 1) = unat (next_file_number st) + 1"
    using assms by (subst unat_add_lem [THEN iffD1]) (simp_all add: state_room_def)
  then show ?thesis by (simp add: word_less_nat_alt)
qed

text \<open>The new log number is fresh: no file has its name.\<close>

lemma fresh_wal:
  assumes "disk_ok fs st l0 l1 logs" "next_file_number st < n"
  shows "n \<notin> set (live_wals st)" "fs_read fs (wal_name n) = None" "oset_insert n (live_wals st) = live_wals st @ [n]"
proof -
  have le: "\<forall>w\<in>set (live_wals st). w < n" using assms by (auto simp: disk_ok_def)
  then show n: "n \<notin> set (live_wals st)" by blast
  have "set (numbered_files [''.wal''] fs) \<subseteq> wal_name ` set (live_wals st)" using assms(1) by (simp add: disk_ok_def)
  moreover have "wal_name n \<notin> wal_name ` set (live_wals st)" using n by auto
  ultimately have "wal_name n \<notin> set (numbered_files [''.wal''] fs)" by blast
  then show "fs_read fs (wal_name n) = None" by simp
  show "oset_insert n (live_wals st) = live_wals st @ [n]" using n insort_max [OF le] by (simp add: oset_insert_def)
qed

text \<open>The constructor up to the point where the logs are replayed.\<close>

lemma open_prefix:
  assumes d: "disk_ok fs st l0 l1 logs" and room: "state_room st" and n: "n = next_file_number st + 1"
  shows "\<exists>m4 fs4 mt m6 fs6 b.
    AllocateFileNumber (\<lparr>edits_since_checkpoint = 0, mstate = st\<rparr>, fs) = (n, m4, fs4) \<and>
    new_MemTable (wal_name n) memtable_max_level fs4 = (mt, fs_touch (wal_name n) fs4) \<and>
    AddWal n (m4, fs_touch (wal_name n) fs4) = (b, m6, fs6) \<and>
    mem_ok mt \<and> mem_rows mt = [] \<and> wal mt = \<lparr>filename = wal_name n, is_open = True\<rparr> \<and>
    mirrored (m6, fs6) \<and> mstate m6 = st\<lparr>next_file_number := n, live_wals := live_wals st @ [n]\<rparr> \<and>
    can_write fs6 = (\<lambda>_. True) \<and>
    (\<forall>f. f \<notin> manifest_names \<longrightarrow> fs_read fs6 f = (if f = wal_name n then Some [] else fs_read fs f))"
proof -
  have cw: "can_write fs = (\<lambda>_. True)" and den: "denotes fs st" using d by (simp_all add: disk_ok_def)
  then have mir: "mirrored (\<lparr>edits_since_checkpoint = 0, mstate = st\<rparr>, fs)"
    by (simp add: mirrored_def)
  have fit: "state_fits st" using room by (simp add: state_room_def state_fits_def state_size_def)
  obtain n' m4 fs4 where a: "AllocateFileNumber (\<lparr>edits_since_checkpoint = 0, mstate = st\<rparr>, fs) = (n', m4, fs4)"
    by (cases "AllocateFileNumber (\<lparr>edits_since_checkpoint = 0, mstate = st\<rparr>, fs)") auto
  note A = AllocateFileNumber_mirrored [OF mir _ a, simplified, OF fit]
  have n': "n' = n" using A n by simp
  have cw4: "can_write fs4 = (\<lambda>_. True)" using A cw by (simp add: same_files_def)
  obtain mt fs5 where nm: "new_MemTable (wal_name n) memtable_max_level fs4 = (mt, fs5)"
    by (cases "new_MemTable (wal_name n) memtable_max_level fs4")
  note N = new_MemTable_ok [OF nm]
  have fs5: "fs5 = fs_touch (wal_name n) fs4" using N(5) cw4 by simp
  have mir5: "mirrored (m4, fs5)" by (rule mirrored_other_file [of m4 fs4]) (use A in \<open>simp_all add: fs5\<close>)
  have fit5: "state_fits (ApplyEdit AddWAL n 0 (mstate m4))"
    using A room length_oset_insert_le [of n "live_wals st"] by (simp add: state_fits_def state_room_def state_size_def)
  obtain b m6 fs6 where w: "AddWal n (m4, fs5) = (b, m6, fs6)" by (cases "AddWal n (m4, fs5)") auto
  note W = AddWal_mirrored [OF mir5 w fit5]
  note F = fresh_wal [OF d, of n]
  have lt: "next_file_number st < n" using state_room_next [OF room] n by simp
  have "mstate m6 = st\<lparr>next_file_number := n, live_wals := live_wals st @ [n]\<rparr>"
    using W A F(3) [OF lt] n' by simp
  moreover have "fs_read fs6 f = (if f = wal_name n then Some [] else fs_read fs f)" if "f \<notin> manifest_names" for f
    using W A F(2) [OF lt] that by (auto simp: same_files_def fs5)
  moreover have "can_write fs6 = (\<lambda>_. True)" using W cw4 by (simp add: same_files_def fs5)
  moreover have "wal mt = \<lparr>filename = wal_name n, is_open = True\<rparr>" using N(3,4) cw4 by simp
  ultimately show ?thesis using a n' nm N(1,2) fs5 w W by blast
qed

lemma new_DBImpl_ok:
  assumes d: "disk_ok fs st l0 l1 logs" and room: "state_room st" and j: "junk_ok junk" and n: "n = next_file_number st + 1"
  shows "\<exists>db mt. new_DBImpl junk coin fs = Some db \<and> db_inv db \<and> layers db = disk_rows st l0 l1 logs \<and>
    db_mem db = Some mt \<and> mem_rows mt = upsert_all (concat (map logs (live_wals st))) [] \<and>
    wal mt = \<lparr>filename = wal_name n, is_open = True\<rparr> \<and> db_imm db = None \<and> active_wal_id db = n \<and>
    db_levels db = \<lparr>level0 = l0, level1 = l1\<rparr> \<and> bg_compaction_scheduled db = False \<and> bg_stopped db = False \<and>
    db_state db = st\<lparr>next_file_number := n, live_wals := live_wals st @ [n]\<rparr> \<and>
    (\<forall>f. f \<notin> manifest_names \<longrightarrow> fs_read (db_dir db) f = (if f = wal_name n then Some [] else fs_read fs f))"
proof -
  obtain m4 fs4 mt m6 fs6 b where
    a: "AllocateFileNumber (\<lparr>edits_since_checkpoint = 0, mstate = st\<rparr>, fs) = (n, m4, fs4)"
    and nm: "new_MemTable (wal_name n) memtable_max_level fs4 = (mt, fs_touch (wal_name n) fs4)"
    and w: "AddWal n (m4, fs_touch (wal_name n) fs4) = (b, m6, fs6)"
    and mt: "mem_ok mt" "mem_rows mt = []" "wal mt = \<lparr>filename = wal_name n, is_open = True\<rparr>"
    and mir: "mirrored (m6, fs6)" and st6: "mstate m6 = st\<lparr>next_file_number := n, live_wals := live_wals st @ [n]\<rparr>"
    and cw: "can_write fs6 = (\<lambda>_. True)"
    and rd: "\<forall>f. f \<notin> manifest_names \<longrightarrow> fs_read fs6 f = (if f = wal_name n then Some [] else fs_read fs f)"
    using open_prefix [OF d room n] by blast
  have den: "denotes fs st" using d by (simp add: disk_ok_def)
  obtain base where ld: "Load fs new_ManifestManager = (True, \<lparr>edits_since_checkpoint = 0, mstate = base\<rparr>)"
    "ReplayLog fs \<lparr>edits_since_checkpoint = 0, mstate = base\<rparr> = (True, \<lparr>edits_since_checkpoint = 0, mstate = st\<rparr>)"
    using load_manifest [OF den] by blast
  have lt: "next_file_number st < n" using state_room_next [OF room] n by simp
  note F = fresh_wal [OF d lt]
  let ?logs = "logs(n := [])"
  have files: "fs_read fs6 (wal_name i) = Some (concat (map wal_record (?logs i))) \<and> (\<forall>r\<in>set (?logs i). row_ok r)"
    if "i \<in> set (live_wals st @ [n])" for i
    using that d F(1) rd by (auto simp: disk_ok_def)
  have found: "\<forall>f\<in>set (numbered_files [''.wal''] fs6). f \<in> wal_name ` set (live_wals (mstate m6))"
  proof
    fix f assume f: "f \<in> set (numbered_files [''.wal''] fs6)"
    show "f \<in> wal_name ` set (live_wals (mstate m6))"
    proof (cases "f = wal_name n")
      case False
      have "f \<notin> manifest_names"
        using f by (auto simp: set_numbered_files manifest_names_def manifest_path_def manifest_tmp_path_def
            manifest_log_path_def path_ext_def)
      then have "f \<in> set (numbered_files [''.wal''] fs)" using f rd False by (simp add: set_numbered_files)
      then show ?thesis using d by (auto simp: disk_ok_def st6)
    qed (simp add: st6)
  qed
  have srt: "sort (live_wals (mstate m6)) = live_wals st @ [n]"
    using denotes_ok [of fs6 "mstate m6"] mir by (simp add: mirrored_def state_ok_def st6 sorted_sort_id)
  obtain mt' where rp: "replay_wals junk coin (live_wals st @ [n]) (mt, fs6) = Some (mt', fs6)" "mem_ok mt'" "wal mt' = wal mt"
    "mem_rows mt' = upsert_all (concat (map ?logs (live_wals st @ [n]))) (mem_rows mt)"
    using replay_wals_ok [OF j cw, of "live_wals st @ [n]" ?logs mt coin] files mt(1) by blast
  have cl: "concat (map ?logs (live_wals st @ [n])) = concat (map logs (live_wals st))"
    using F(1) by (auto intro: arg_cong [of _ _ concat])
  let ?db = "\<lparr>db_manifest = m6, db_levels = \<lparr>level0 = l0, level1 = l1\<rparr>, db_mem = Some mt', db_imm = None,
      active_wal_id = n, imm_wal_id = 0, minor_compact_count = 0, bg_stopped = False,
      bg_compaction_scheduled = False, db_dir = fs6\<rparr>"
  have new: "new_DBImpl junk coin fs = Some ?db"
    using ld LoadSSTables_ok [OF d, of 0] a nm w add_found_wals_noop [OF found, of fs6] srt rp(1)
    by (simp add: new_DBImpl_def RecoverFromWals_def LiveWals_def)
  have rows: "mem_rows mt' = upsert_all (concat (map logs (live_wals st))) []" using rp(4) cl mt(2) by simp
  have ds: "db_state ?db = st\<lparr>next_file_number := n, live_wals := live_wals st @ [n]\<rparr>" by (simp add: db_state_def st6)
  have ids: "ids_at l (db_state ?db) = ids_at l st" "sst_ids (db_state ?db) = sst_ids st" for l
    by (simp_all add: ds ids_at_def sst_ids_def)
  have "mem_fine mt'"
    using rp(2) rows upsert_all_subset [of "concat (map logs (live_wals st))" "[]"] d
    by (fastforce simp: mem_fine_def disk_ok_def)
  then have pf: "parts_fine ?db" using d by (auto simp: parts_fine_def disk_ok_def)
  have dm: "dir_matches fs6 (ids_at l st) rs = dir_matches fs (ids_at l st) rs" for l rs
    by (rule dir_matches_cong) (simp add: rd)
  have "\<forall>i\<in>sst_ids st. i \<le> n" using d lt by (auto simp: disk_ok_def)
  then have "db_inv ?db"
    using d pf mir cw mt(3) rp(3) unfolding db_inv_def ids by (simp add: dm db_mf_def) (simp add: ds disk_ok_def)
  then show ?thesis
    using new rows ds rp(3) mt(3) rd by (auto simp: layers_def disk_rows_def opt_rows_def)
qed

section \<open>The logs during a run\<close>

text \<open>
  In a database that was opened without leftover writes in its logs, the live logs are those of the
  two memtables, each with exactly the writes of its memtable, and earlier ones that are empty.
\<close>

definition mem_logged :: "(u64 \<Rightarrow> row list) \<Rightarrow> DBImpl \<Rightarrow> bool" where
  "mem_logged logs db \<longleftrightarrow>
     (\<forall>mt. db_mem db = Some mt \<longrightarrow> wal mt = \<lparr>filename = wal_name (active_wal_id db), is_open = True\<rparr> \<and>
        mem_rows mt = upsert_all (logs (active_wal_id db)) []) \<and>
     (\<forall>mt. db_imm db = Some mt \<longrightarrow> imm_wal_id db < active_wal_id db \<and> mem_rows mt = upsert_all (logs (imm_wal_id db)) []) \<and>
     (\<exists>old. (\<forall>w\<in>set old. logs w = [] \<and> w < (if db_imm db = None then active_wal_id db else imm_wal_id db)) \<and>
        live_wals (db_state db) = old @ (if db_imm db = None then [active_wal_id db] else [imm_wal_id db, active_wal_id db])) \<and>
     active_wal_id db \<le> next_file_number (db_state db)"

definition logs_on_disk :: "(u64 \<Rightarrow> row list) \<Rightarrow> DBImpl \<Rightarrow> bool" where
  "logs_on_disk logs db \<longleftrightarrow>
     (\<forall>w\<in>set (live_wals (db_state db)). fs_read (db_dir db) (wal_name w) = Some (concat (map wal_record (logs w))) \<and>
        (\<forall>r\<in>set (logs w). row_ok r \<and> plain_row r)) \<and>
     set (numbered_files [''.wal''] (db_dir db)) \<subseteq> wal_name ` set (live_wals (db_state db))"

definition wal_inv :: "DBImpl \<Rightarrow> bool" where
  "wal_inv db \<longleftrightarrow> (\<exists>logs. mem_logged logs db \<and> logs_on_disk logs db)"

definition wal_same :: "DBImpl \<Rightarrow> DBImpl \<Rightarrow> bool" where
  "wal_same db db' \<longleftrightarrow>
     db_mem db' = db_mem db \<and> db_imm db' = db_imm db \<and> active_wal_id db' = active_wal_id db \<and> imm_wal_id db' = imm_wal_id db \<and>
     live_wals (db_state db') = live_wals (db_state db) \<and> next_file_number (db_state db) \<le> next_file_number (db_state db') \<and>
     (\<forall>f. path_ext f = ''.wal'' \<longrightarrow> fs_read (db_dir db') f = fs_read (db_dir db) f)"

lemma wal_ext_not_manifest: "path_ext f = ''.wal'' \<Longrightarrow> f \<notin> manifest_names"
  by (auto simp: manifest_names_def manifest_path_def manifest_tmp_path_def manifest_log_path_def path_ext_def)

lemma wal_ext_not_sst: "path_ext f = ''.wal'' \<Longrightarrow> f \<noteq> sst_name i"
  by auto

lemma wal_same_refl [simp]: "wal_same db db"
  by (simp add: wal_same_def)

lemma mem_logged_live: "mem_logged logs db \<Longrightarrow> w \<in> set (live_wals (db_state db)) \<Longrightarrow> w \<le> active_wal_id db"
proof -
  assume l: "mem_logged logs db" and w: "w \<in> set (live_wals (db_state db))"
  let ?b = "if db_imm db = None then active_wal_id db else imm_wal_id db"
  have "?b \<le> active_wal_id db" using l by (auto simp: mem_logged_def)
  moreover have "w \<le> ?b \<or> w = active_wal_id db"
    using l w unfolding mem_logged_def by (auto split: if_splits intro: order.strict_implies_order)
  ultimately show ?thesis by auto
qed

lemma wal_inv_same: "wal_inv db \<Longrightarrow> wal_same db db' \<Longrightarrow> wal_inv db'"
  unfolding wal_inv_def wal_same_def mem_logged_def logs_on_disk_def set_numbered_files
  by (elim exE, rule exI) (auto intro: order_trans)

lemma wal_same_allocate:
  assumes "db_inv db" "fits db" "AllocateFileNumber (db_mf db) = (n, mf)"
  shows "wal_same db (set_mf mf db)"
  using allocate_db [OF assms] next_number [OF assms(2)]
  by (auto simp: wal_same_def same_files_def quiet_def dest: wal_ext_not_manifest)

lemma wal_same_minor_prepare:
  assumes "db_inv db" "fits db" "Minor_prepare db = (c, db')"
  shows "wal_same db db'"
  using assms(3) wal_same_allocate [OF assms(1,2)]
  by (cases "AllocateFileNumber (db_mf db)") (auto simp: Minor_prepare_def split: option.splits)

lemma wal_same_compact_prepare:
  assumes "db_inv db" "fits db" "Compact_prepare db = Some (c, db')"
  shows "wal_same db db'"
proof -
  obtain n mf where a: "AllocateFileNumber (db_mf db) = (n, mf)" by (cases "AllocateFileNumber (db_mf db)")
  have s: "set_mf (db_mf db) db = db" by (simp add: set_mf_def db_mf_def)
  have "db' = db \<or> db' = set_mf mf db"
    using assms(3) a s
    by (auto simp: Compact_prepare_def PrepareL0ToL1_def Let_def elim!: bind_eq_SomeE split: if_splits prod.splits)
  then show ?thesis using wal_same_allocate [OF assms(1,2) a] by auto
qed

lemma wal_same_minor_build:
  assumes "db_inv db" "minor_pending db ctx" "Minor_build ctx db = Some (r, db')"
  shows "wal_same db db'"
proof -
  have "active_wal_id db' = active_wal_id db" "imm_wal_id db' = imm_wal_id db"
    using assms(3) by (auto simp: Minor_build_def elim!: bind_eq_SomeE)
  then show ?thesis
    using Minor_build_ok [OF assms(1,2)] assms(3)
    by (auto simp: wal_same_def quiet_def db_state_def dest: wal_ext_not_sst)
qed

lemma wal_same_compact_build:
  assumes "db_inv db" "job_pending db ctx" "Compact_build ctx db = Some (r, db')"
  shows "wal_same db db'"
proof -
  have "active_wal_id db' = active_wal_id db"
    using assms(3) by (auto simp: Compact_build_def elim!: bind_eq_SomeE split: if_splits)
  then show ?thesis
    using Compact_build_ok [OF assms(1,2)] assms(3)
    by (auto simp: wal_same_def quiet_def db_state_def dest: wal_ext_not_sst)
qed

lemma wal_same_compact_install:
  assumes "db_inv db" "fits db" "job_built db ctx r"
  shows "wal_same db (Compact_install ctx r db)"
proof -
  have p: "job_pending db ctx" using assms(3) by (simp add: job_built_def)
  show ?thesis
  proof (cases "ids_at 0 (db_state db) = l0_input_ids ctx")
    case True
    have nf: "f \<notin> manifest_names \<and> f \<notin> sst_name ` set (l0_input_ids ctx)" if "path_ext f = ''.wal''" for f
      using that wal_ext_not_manifest wal_ext_not_sst by blast
    show ?thesis
      using Compact_install_match [OF assms True] nf
      by (auto simp: wal_same_def db_state_def merged_state_def erase_ssts_def)
  next
    case False
    have "new_sst_path ctx \<noteq> [] \<Longrightarrow> new_sst_path ctx = sst_name (new_sst_id ctx)" using p by (simp add: job_pending_def)
    then show ?thesis
      unfolding Compact_install_mismatch(1) [OF assms(1) p False]
      by (auto simp: wal_same_def db_state_def dest: wal_ext_not_sst)
  qed
qed

lemma wal_inv_minor_install:
  assumes inv: "db_inv db" "fits db" and b: "minor_built db ctx r" and i: "Minor_install ctx r db = (t, db')" and w: "wal_inv db"
  shows "wal_inv db'"
proof -
  obtain logs where L: "mem_logged logs db" "logs_on_disk logs db" using w by (auto simp: wal_inv_def)
  obtain man fs where st: "mstate man = ApplyEdit DelWAL (imm_wal_id db) 0 (ApplyEdit AddSST (minor_sst_id ctx) 0 (db_state db))"
    and rd: "\<forall>n. n \<notin> manifest_names \<longrightarrow> fs_read fs n = (if n = wal_name (imm_wal_id db) then None else fs_read (db_dir db) n)"
    and db': "db' = (set_mf (man, fs) db)\<lparr>db_levels := (db_levels db)\<lparr>level0 := level0 (db_levels db) @ [opened (opt_rows (db_imm db))]\<rparr>,
          db_imm := None, imm_wal_id := 0\<rparr>"
    using Minor_install_eq [OF inv b] i by auto
  obtain mt where mt: "db_imm db = Some mt" using b by (auto simp: minor_built_def minor_pending_def)
  obtain old where ne: "imm_wal_id db < active_wal_id db" "live_wals (db_state db) = old @ [imm_wal_id db, active_wal_id db]"
    and old: "\<forall>w\<in>set old. logs w = [] \<and> w < imm_wal_id db"
    using L(1) mt by (auto simp: mem_logged_def)
  then have lw: "live_wals (mstate man) = old @ [active_wal_id db]" by (auto simp: st oset_erase_def intro!: filter_True)
  have ds: "db_state db' = mstate man" by (simp add: db' db_state_def)
  have "\<forall>w\<in>set old. logs w = [] \<and> w < active_wal_id db" using old ne(1) by auto
  then have "mem_logged logs db'" using L(1) by (simp add: mem_logged_def db' ds [unfolded db'] lw) (simp add: st)
  moreover have "logs_on_disk logs db'"
    unfolding logs_on_disk_def ds lw set_numbered_files
  proof (intro conjI ballI subsetI)
    fix w assume w: "w \<in> set (old @ [active_wal_id db])"
    then have "w \<noteq> imm_wal_id db" using old ne(1) by auto
    then show "fs_read (db_dir db') (wal_name w) = Some (concat (map wal_record (logs w)))"
      using L(2) ne rd w by (auto simp: logs_on_disk_def db')
    fix r assume "r \<in> set (logs w)"
    then show "row_ok r" "plain_row r" using L(2) ne w by (auto simp: logs_on_disk_def)
  next
    fix f assume f: "f \<in> {n. path_ext n \<in> set [''.wal''] \<and> list_all is_digit (path_stem n) \<and> fs_read (db_dir db') n \<noteq> None}"
    then have "f \<noteq> wal_name (imm_wal_id db)" "fs_read (db_dir db) f \<noteq> None"
      using rd wal_ext_not_manifest [of f] by (auto simp: db' split: if_splits)
    then have "f \<in> wal_name ` set (old @ [imm_wal_id db, active_wal_id db])"
      using L(2) f ne by (auto simp: logs_on_disk_def set_numbered_files)
    then show "f \<in> wal_name ` set (old @ [active_wal_id db])" using \<open>f \<noteq> wal_name (imm_wal_id db)\<close> by auto
  qed
  ultimately show ?thesis by (auto simp: wal_inv_def)
qed

lemma wal_inv_rotate:
  assumes inv: "db_inv db" "fits db" and m: "db_mem db = Some m" "db_imm db = None" and w: "wal_inv db"
  shows "wal_inv (rotate_memtable m db)"
proof -
  obtain logs where L: "mem_logged logs db" "logs_on_disk logs db" using w by (auto simp: wal_inv_def)
  let ?n = "next_file_number (db_state db) + 1" and ?r = "rotate_memtable m db"
  obtain m' man fs where rot: "?r = (set_mf (man, fs) db)\<lparr>imm_wal_id := active_wal_id db, db_imm := Some m,
      db_mem := Some m', active_wal_id := ?n, bg_compaction_scheduled := True\<rparr>"
    and m': "mem_rows m' = []" "wal m' = \<lparr>filename = wal_name ?n, is_open = True\<rparr>"
    and st: "mstate man = (db_state db)\<lparr>next_file_number := ?n, live_wals := oset_insert ?n (live_wals (db_state db))\<rparr>"
    and rd: "\<forall>f. f \<notin> manifest_names \<longrightarrow> fs_read fs f =
       (if f = wal_name ?n then (case fs_read (db_dir db) f of None \<Rightarrow> Some [] | Some c \<Rightarrow> Some c) else fs_read (db_dir db) f)"
    using rotate_memtable_eq [OF inv refl, of m] by blast
  obtain old where lw: "live_wals (db_state db) = old @ [active_wal_id db]" "active_wal_id db \<le> next_file_number (db_state db)"
    and old: "\<forall>w\<in>set old. logs w = [] \<and> w < active_wal_id db"
    using L(1) m by (auto simp: mem_logged_def)
  have lt: "active_wal_id db < ?n" using lw(2) next_number [OF inv(2)] by simp
  then have ltn: "\<forall>w\<in>set (old @ [active_wal_id db]). w < ?n" using old by auto
  then have lw': "live_wals (mstate man) = old @ [active_wal_id db, ?n]"
    using insort_max [OF ltn] by (auto simp: st lw oset_insert_def)
  have nofile: "fs_read (db_dir db) (wal_name ?n) = None"
  proof -
    have "set (numbered_files [''.wal''] (db_dir db)) \<subseteq> wal_name ` set (old @ [active_wal_id db])"
      using L(2) by (simp add: logs_on_disk_def lw)
    moreover have "wal_name ?n \<notin> wal_name ` set (old @ [active_wal_id db])" using ltn by auto
    ultimately have "wal_name ?n \<notin> set (numbered_files [''.wal''] (db_dir db))" by blast
    then show ?thesis by simp
  qed
  let ?logs = "logs(?n := [])"
  have ds: "db_state ?r = mstate man" by (simp add: rot db_state_def)
  have "\<forall>w\<in>set old. ?logs w = [] \<and> w < active_wal_id db" using old by simp
  then have "mem_logged ?logs ?r"
    using L(1) m m' lt by (simp add: mem_logged_def ds lw') (simp add: rot st)
  moreover have "logs_on_disk ?logs ?r"
    unfolding logs_on_disk_def ds lw'
  proof (intro conjI ballI subsetI)
    fix w assume w: "w \<in> set (old @ [active_wal_id db, ?n])"
    then show "fs_read (db_dir ?r) (wal_name w) = Some (concat (map wal_record (?logs w)))"
      using L(2) ltn rd nofile by (auto simp: logs_on_disk_def lw rot)
    fix r assume "r \<in> set (?logs w)"
    then show "row_ok r" "plain_row r" using L(2) w by (auto simp: logs_on_disk_def lw split: if_splits)
  next
    fix f assume f: "f \<in> set (numbered_files [''.wal''] (db_dir ?r))"
    show "f \<in> wal_name ` set (old @ [active_wal_id db, ?n])"
    proof (cases "f = wal_name ?n")
      case False
      then have "f \<in> set (numbered_files [''.wal''] (db_dir db))"
        using f rd wal_ext_not_manifest [of f] by (auto simp: set_numbered_files rot)
      then show ?thesis using L(2) by (auto simp: logs_on_disk_def lw)
    qed simp
  qed
  ultimately show ?thesis by (auto simp: wal_inv_def)
qed

lemma logs_put:
  assumes inv: "db_inv db" and row: "row_ok (k, v)" "plain_row (k, v)" and p: "Put_write coin k v db = Some db'"
    and m: "db_mem db = Some m" "wal m = \<lparr>filename = wal_name a, is_open = True\<rparr>" "a \<in> set (live_wals (db_state db))"
    and L: "logs_on_disk logs db"
  shows "\<exists>m'. db_mem db' = Some m' \<and> mem_rows m' = upsert k v (mem_rows m) \<and> wal m' = wal m \<and>
    (\<exists>fs. db' = db\<lparr>db_mem := Some m', db_dir := fs\<rparr>) \<and> logs_on_disk (logs(a := logs a @ [(k, v)])) db'"
proof -
  obtain m' where m': "mem_rows m' = upsert k v (mem_rows m)" "wal m' = wal m"
    and db': "db' = db\<lparr>db_mem := Some m', db_dir := AddLog (wal m) k (rvalue v) (vtype v) (db_dir db)\<rparr>"
    using Put_write_ok(1) [OF inv row, of coin] p m(1) by auto
  let ?logs = "logs(a := logs a @ [(k, v)])"
  have ds: "db_state db' = db_state db" by (simp add: db' db_state_def)
  have rd: "fs_read (db_dir db') f = (if f = wal_name a then map_option (\<lambda>c. c @ wal_record (k, v)) (fs_read (db_dir db) f) else fs_read (db_dir db) f)" for f
    by (simp add: db' fs_read_AddLog m(2))
  have "logs_on_disk ?logs db'"
    unfolding logs_on_disk_def ds
  proof (intro conjI ballI)
    fix w assume w: "w \<in> set (live_wals (db_state db))"
    show "fs_read (db_dir db') (wal_name w) = Some (concat (map wal_record (?logs w)))"
      using L w m(3) by (auto simp: logs_on_disk_def rd)
    fix r assume "r \<in> set (?logs w)"
    then show "row_ok r" "plain_row r" using L w row by (auto simp: logs_on_disk_def split: if_splits)
  next
    have "set (numbered_files [''.wal''] (db_dir db')) = set (numbered_files [''.wal''] (db_dir db))"
      by (auto simp: set_numbered_files rd split: if_splits)
    then show "set (numbered_files [''.wal''] (db_dir db')) \<subseteq> wal_name ` set (live_wals (db_state db))"
      using L by (simp add: logs_on_disk_def)
  qed
  then show ?thesis using m' db' by auto
qed

lemma wal_inv_put:
  assumes inv: "db_inv db" and row: "row_ok (k, v)" "plain_row (k, v)" and p: "Put_write coin k v db = Some db'" and w: "wal_inv db"
  shows "wal_inv db'"
proof -
  obtain logs where L: "mem_logged logs db" "logs_on_disk logs db" using w by (auto simp: wal_inv_def)
  obtain m where m: "db_mem db = Some m" using db_invD(2) [OF inv] by blast
  let ?a = "active_wal_id db"
  let ?logs = "logs(?a := logs ?a @ [(k, v)])"
  have wl: "wal m = \<lparr>filename = wal_name ?a, is_open = True\<rparr>" "mem_rows m = upsert_all (logs ?a) []" "?a \<in> set (live_wals (db_state db))"
    using L(1) m by (auto simp: mem_logged_def)
  obtain m' fs where m': "db_mem db' = Some m'" "mem_rows m' = upsert k v (mem_rows m)" "wal m' = wal m"
    and db': "db' = db\<lparr>db_mem := Some m', db_dir := fs\<rparr>" and L': "logs_on_disk ?logs db'"
    using logs_put [OF inv row p m wl(1,3) L(2)] by blast
  have ds: "db_state db' = db_state db" by (simp add: db' db_state_def)
  have up: "mem_rows m' = upsert_all (logs ?a @ [(k, v)]) []" using m'(2) wl(2) by (simp add: upsert_all_append)
  have ne: "db_imm db \<noteq> None \<Longrightarrow> imm_wal_id db \<noteq> ?a" using L(1) by (auto simp: mem_logged_def)
  have a: "(if db_imm db = None then ?a else imm_wal_id db) \<le> ?a" using L(1) by (auto simp: mem_logged_def)
  obtain old where old: "\<forall>w\<in>set old. logs w = [] \<and> w < (if db_imm db = None then ?a else imm_wal_id db)"
    "live_wals (db_state db) = old @ (if db_imm db = None then [?a] else [imm_wal_id db, ?a])"
    using L(1) unfolding mem_logged_def by blast
  then have "\<forall>w\<in>set old. ?logs w = [] \<and> w < (if db_imm db = None then ?a else imm_wal_id db)" using a by fastforce
  moreover have i: "db_imm db' = db_imm db" "imm_wal_id db' = imm_wal_id db" "active_wal_id db' = ?a" by (simp_all add: db')
  ultimately have "\<exists>old. (\<forall>w\<in>set old. ?logs w = [] \<and> w < (if db_imm db' = None then active_wal_id db' else imm_wal_id db')) \<and>
      live_wals (db_state db') = old @ (if db_imm db' = None then [active_wal_id db'] else [imm_wal_id db', active_wal_id db'])"
    using old(2) unfolding i ds by blast
  then have "mem_logged ?logs db'"
    using L(1) m m' up wl ne unfolding mem_logged_def ds i by auto
  then show ?thesis using L' by (auto simp: wal_inv_def)
qed

lemma wal_inv_task:
  assumes inv: "db_inv db" "fits db" and g: "task_good db t" and st: "task_step t db = Some (t', tr, db')" and w: "wal_inv db"
  shows "wal_inv db'"
proof (cases t)
  case (MinorBuild ctx)
  then show ?thesis
    using g st w wal_inv_same wal_same_minor_build [OF inv(1), of ctx] by (auto elim!: bind_eq_SomeE)
next
  case (MinorInstall ctx r)
  then show ?thesis using g st w wal_inv_minor_install [OF inv, of ctx r] by (auto split: prod.splits)
next
  case (JobBuild ctx)
  then show ?thesis
    using g st w wal_inv_same wal_same_compact_build [OF inv(1), of ctx] by (auto elim!: bind_eq_SomeE)
next
  case (JobInstall ctx r)
  then show ?thesis using g st w wal_inv_same wal_same_compact_install [OF inv, of ctx r] by auto
qed

lemma wal_inv_step:
  assumes "step ev s s'" "sys_inv s" "fits (sys_db s)" "wal_inv (sys_db s)"
  shows "wal_inv (sys_db s')"
proof -
  note D = sys_invD [OF assms(2)]
  have good: "task_good (sys_db s) t" if "t \<in> set (bg_tasks (bg s) @ callers s)" for t
    using D(2) that by (simp add: tasks_inv_def)
  show ?thesis
    using assms(1)
  proof cases
    case (put_begin db' r)
    obtain m where m: "db_mem (sys_db s) = Some m" using db_invD(2) [OF D(1)] by blast
    show ?thesis
      using put_begin m assms(4) wal_inv_rotate [OF D(1) assms(3) m]
      by (auto simp: Put_rotate_def split: if_splits)
  next
    case (put_end k v coin db')
    then show ?thesis using wal_inv_put [OF D(1) _ _ put_end(4) assms(4)] D(3) by auto
  next
    case (bg_prepare c db')
    then show ?thesis using wal_inv_same [OF assms(4) wal_same_minor_prepare [OF D(1) assms(3) bg_prepare(4)]] by simp
  next
    case (bg_flush t t' trigger db')
    then show ?thesis using wal_inv_task [OF D(1) assms(3) good bg_flush(4) assms(4)] by simp
  next
    case (bg_triggered c db')
    then show ?thesis using wal_inv_same [OF assms(4) wal_same_compact_prepare [OF D(1) assms(3) bg_triggered(4)]] by simp
  next
    case (bg_merge t t' trigger db')
    then show ?thesis using wal_inv_task [OF D(1) assms(3) good bg_merge(4) assms(4)] by simp
  next
    case (call_compact c db')
    then show ?thesis using wal_inv_same [OF assms(4) wal_same_compact_prepare [OF D(1) assms(3) call_compact(3)]] by simp
  next
    case (call_step xs t ys t' trigger db')
    then show ?thesis using wal_inv_task [OF D(1) assms(3) good call_step(4) assms(4)] by simp
  next
    case bg_finish
    then show ?thesis using wal_inv_same [OF assms(4)] by (simp add: wal_same_def db_state_def)
  qed (use assms(4) in simp)
qed

lemma reach_wal_inv:
  assumes "reach (idle db0) ws s" "db_inv db0" "wal_inv db0"
  shows "wal_inv (sys_db s)"
  using assms(1)
proof induction
  case start
  then show ?case using assms(3) by (simp add: idle_def)
next
  case (silent ws s s')
  then show ?case using wal_inv_step [OF silent(3)] reach_inv [OF silent(1) assms(2)] by blast
next
  case (written ws s r s')
  then show ?case using wal_inv_step [OF written(3)] reach_inv [OF written(1) assms(2)] by blast
qed

section \<open>Crash and restart\<close>

text \<open>
  The recovery scan takes table files into level 0 when the manifest lists no table at all, so a
  leftover file matters exactly then.
\<close>

definition no_orphans :: "DBImpl \<Rightarrow> bool" where
  "no_orphans db \<longleftrightarrow> (sst_levels (db_state db) = [] \<longrightarrow> numbered_files [''.sst''] (db_dir db) = [])"

lemma crash_disk:
  assumes inv: "db_inv db" and w: "wal_inv db" and no: "no_orphans db"
  shows "\<exists>logs. disk_ok (db_dir db) (db_state db) (level0 (db_levels db)) (level1 (db_levels db)) logs \<and>
    map_of (disk_rows (db_state db) (level0 (db_levels db)) (level1 (db_levels db)) logs) = map_of (layers db)"
proof -
  note D = db_invD [OF inv]
  obtain logs where L: "mem_logged logs db" "logs_on_disk logs db" using w by (auto simp: wal_inv_def)
  obtain mt where mt: "db_mem db = Some mt" using D(2) by blast
  have den: "denotes (db_dir db) (db_state db)" using D(4) by (simp add: mirrored_def db_mf_def db_state_def)
  have le: "\<forall>w\<in>set (live_wals (db_state db)). w \<le> next_file_number (db_state db)"
    using mem_logged_live [OF L(1)] L(1) by (auto simp: mem_logged_def intro: order_trans)
  have "disk_ok (db_dir db) (db_state db) (level0 (db_levels db)) (level1 (db_levels db)) logs"
    using den D(1,5-9) no le L(2) by (auto simp: disk_ok_def no_orphans_def parts_fine_def logs_on_disk_def)
  moreover have "map_of (upsert_all (concat (map logs (live_wals (db_state db)))) []) =
      map_of (opt_rows (db_mem db) @ opt_rows (db_imm db))"
  proof -
    obtain old where old: "\<forall>w\<in>set old. logs w = [] \<and> w < (if db_imm db = None then active_wal_id db else imm_wal_id db)"
      "live_wals (db_state db) = old @ (if db_imm db = None then [active_wal_id db] else [imm_wal_id db, active_wal_id db])"
      using L(1) unfolding mem_logged_def by blast
    have "concat (map logs (live_wals (db_state db))) =
        concat (map logs (if db_imm db = None then [active_wal_id db] else [imm_wal_id db, active_wal_id db]))"
      using old by simp
    then show ?thesis using L(1) mt by (cases "db_imm db") (auto simp: mem_logged_def opt_rows_def map_of_upsert_all)
  qed
  ultimately show ?thesis
    by (intro exI [of _ logs]) (simp add: disk_rows_def layers_def map_add_assoc)
qed

lemma crash_recovery_aux:
  assumes inv: "db_inv db" and w: "wal_inv db" and no: "no_orphans db" and f: "fits db" and j: "junk_ok junk"
  shows "\<exists>db'. new_DBImpl junk coin (db_dir db) = Some db' \<and> db_inv db' \<and> view db' = view db"
proof -
  obtain logs where L: "disk_ok (db_dir db) (db_state db) (level0 (db_levels db)) (level1 (db_levels db)) logs"
    "map_of (disk_rows (db_state db) (level0 (db_levels db)) (level1 (db_levels db)) logs) = map_of (layers db)"
    using crash_disk [OF inv w no] by blast
  have room: "state_room (db_state db)" using f by (simp add: fits_def state_room_def)
  obtain db' where "new_DBImpl junk coin (db_dir db) = Some db'" "db_inv db'"
    "layers db' = disk_rows (db_state db) (level0 (db_levels db)) (level1 (db_levels db)) logs"
    using new_DBImpl_ok [OF L(1) room j refl] by blast
  then show ?thesis using L(2) by (intro exI [of _ db']) (simp add: view_def fun_eq_iff)
qed

section \<open>A new database\<close>

lemma numbered_not_manifest:
  assumes "f \<in> set (numbered_files [e] fs)" "e = ''.sst'' \<or> e = ''.wal''"
  shows "f \<notin> manifest_names"
  using assms
  by (auto simp: set_numbered_files manifest_names_def manifest_path_def manifest_tmp_path_def manifest_log_path_def path_ext_def)

lemma open_new:
  assumes j: "junk_ok junk"
  shows "\<exists>db. new_DBImpl junk coin empty_fs = Some db \<and> db_inv db \<and> wal_inv db \<and> no_orphans db \<and> view db = Map.empty \<and>
    layers db = [] \<and> db_imm db = None \<and> bg_stopped db = False \<and> active_wal_id db = 1 \<and> db_state db = \<lparr>next_file_number = 1, sst_levels = [], live_wals = [1]\<rparr>"
proof -
  let ?fs1 = "\<lparr>entries = [(manifest_path, snapshot_bytes empty_state)], can_write = (\<lambda>_. True)\<rparr>"
  obtain fs1 where fs1: "fs1 = ?fs1" by blast
  then have p: "PersistState empty_state empty_fs = (True, fs1)" "entries fs1 = [(manifest_path, snapshot_bytes empty_state)]"
    "can_write fs1 = (\<lambda>_. True)"
    by (simp_all add: PersistState_eq empty_fs_def fs_rename_def fs_write_def fs_remove_def fs_read_def)
  have den: "denotes fs1 empty_state" using mirrored_new [OF p(1)] by (simp add: mirrored_def new_ManifestManager_def)
  have nf: "numbered_files [''.sst''] fs1 = []" "numbered_files [''.wal''] fs1 = []"
    by (simp_all add: numbered_files_def p(2) manifest_path_def path_ext_def)
  have d: "disk_ok fs1 empty_state [] [] (\<lambda>_. [])"
    using den p(3) nf by (simp add: disk_ok_def dir_matches_def ids_at_def sst_ids_def empty_state_def)
  have room: "state_room empty_state" by (simp add: state_room_def state_size_def empty_state_def)
  have ld: "Load fs1 new_ManifestManager = (True, new_ManifestManager)"
    "Load empty_fs new_ManifestManager = (False, new_ManifestManager)"
    using load_manifest [OF den] p
    by (auto simp: PersistState_eq Load_def LoadState_def empty_fs_def fs_read_def new_ManifestManager_def
        load_snapshot_bytes state_fits_def state_ok_def empty_state_def)
  have ini: "InitNextFileNumberFromDisk (new_ManifestManager, empty_fs) = Some new_ManifestManager"
    by (simp add: InitNextFileNumberFromDisk_def numbered_files_def empty_fs_def SetNextFileNumberWithoutEdit_def
        new_ManifestManager_def empty_state_def upd_state_def)
  have "Persist new_ManifestManager empty_fs = (True, fs1)" using p(1) by (simp add: Persist_def new_ManifestManager_def)
  then have eq: "new_DBImpl junk coin empty_fs = new_DBImpl junk coin fs1"
    unfolding new_DBImpl_def ld using ini by simp
  have n1: "1 = next_file_number empty_state + 1" by (simp add: empty_state_def)
  obtain db mt where N: "new_DBImpl junk coin fs1 = Some db" "db_inv db" "layers db = disk_rows empty_state [] [] (\<lambda>_. [])"
    "db_mem db = Some mt" "mem_rows mt = upsert_all (concat (map (\<lambda>_. []) (live_wals empty_state))) []"
    "wal mt = \<lparr>filename = wal_name 1, is_open = True\<rparr>" "db_imm db = None" "active_wal_id db = 1"
    "db_state db = empty_state\<lparr>next_file_number := 1, live_wals := live_wals empty_state @ [1]\<rparr>"
    "\<forall>f. f \<notin> manifest_names \<longrightarrow> fs_read (db_dir db) f = (if f = wal_name 1 then Some [] else fs_read fs1 f)"
    "bg_stopped db = False"
    using new_DBImpl_ok [OF d room j n1, of coin] by blast
  have rd: "fs_read fs1 f = None" if "f \<notin> manifest_names" for f
    using that p(2) by (auto simp: fs_read_def manifest_names_def)
  have files: "set (numbered_files [e] (db_dir db)) \<subseteq> {wal_name 1}" if "e = ''.sst'' \<or> e = ''.wal''" for e
  proof
    fix f assume "f \<in> set (numbered_files [e] (db_dir db))"
    moreover from this have "f \<notin> manifest_names" using numbered_not_manifest that by blast
    ultimately show "f \<in> {wal_name 1}" using N(10) rd by (auto simp: set_numbered_files split: if_splits)
  qed
  have "mem_logged (\<lambda>_. []) db" using N by (simp add: mem_logged_def empty_state_def)
  moreover have "logs_on_disk (\<lambda>_. []) db" using N files by (simp add: logs_on_disk_def empty_state_def)
  ultimately have "wal_inv db" by (auto simp: wal_inv_def)
  moreover have "no_orphans db"
  proof -
    have "wal_name 1 \<notin> set (numbered_files [''.sst''] (db_dir db))" by (simp add: set_numbered_files)
    then have "set (numbered_files [''.sst''] (db_dir db)) = {}" using files [OF disjI1 [OF refl]] subset_singletonD by fastforce
    then show ?thesis by (simp add: no_orphans_def)
  qed
  moreover have "layers db = []" using N(3) by (simp add: disk_rows_def newest_first_def empty_state_def)
  ultimately show ?thesis using eq N by (simp add: view_def fun_eq_iff empty_state_def)
qed

text \<open>A run of a new database that completes one write.\<close>

lemma one_put_run:
  assumes new: "db_inv db" "layers db = []" "db_state db = \<lparr>next_file_number = 1, sst_levels = [], live_wals = [1]\<rparr>"
    and row: "row_ok (k, v)" "plain_row (k, v)" and small: "rows_size [(k, v)] < 2 ^ 56"
  shows "\<exists>s. reach (idle db) [(k, v)] s \<and> fits (sys_db s) \<and> (no_orphans db \<longrightarrow> no_orphans (sys_db s)) \<and>
    tasks s = [] \<and> db_imm (sys_db s) = db_imm db \<and> roomy 4 (sys_db s) \<and> opt_rows (db_mem (sys_db s)) = [(k, v)]"
proof -
  obtain m where m: "db_mem db = Some m" using db_invD(2) [OF new(1)] by blast
  have e: "mem_rows m = []" using new(2) m by (simp add: layers_def opt_rows_def)
  have "mem_ok m" using db_invD(1) [OF new(1)] m by (simp add: parts_fine_def mem_fine_def)
  then have "MemTable_Count m = 0" using e by (simp add: MemTable_Count_rows)
  then have rot: "Put_rotate db = Some (RotateDone db)" using m by (simp add: Put_rotate_def memtable_limit_def)
  have fits: "fits db" by (simp add: fits_def new rows_size_def state_size_def)
  let ?db = "\<lambda>m'. db\<lparr>db_mem := Some m', db_dir := AddLog (wal m) k (rvalue v) (vtype v) (db_dir db)\<rparr>"
  obtain m' where m': "mem_rows m' = upsert k v (mem_rows m)" and p: "Put_write (\<lambda>_. False) k v db = Some (?db m')"
    using Put_write_ok(1) [OF new(1) row, of "\<lambda>_. False"] m by auto
  have "step None (idle db) ((idle db)\<lparr>sys_db := db, writer := Some (k, v)\<rparr>)"
    by (rule step.put_begin) (simp_all add: idle_def rot row)
  then have r1: "reach (idle db) [] ((idle db)\<lparr>sys_db := db, writer := Some (k, v)\<rparr>)" (is "reach _ _ ?s1")
    using reach.silent [OF reach.start] fits by (simp add: idle_def)
  have "step (Some (k, v)) ?s1 (?s1\<lparr>sys_db := ?db m', writer := None\<rparr>)"
    by (rule step.put_end [of _ _ _ "\<lambda>_. False"]) (simp_all add: p)
  then have r2: "reach (idle db) ([] @ [(k, v)]) (?s1\<lparr>sys_db := ?db m', writer := None\<rparr>)"
    using reach.written [OF r1] fits by simp
  have ds: "db_state (?db m') = db_state db" by (simp add: db_state_def)
  have "layers (?db m') = [(k, v)]" using new(2) m' e by (simp add: layers_def opt_rows_def)
  then have "roomy 4 (?db m')" using small by (simp add: roomy_def ds new(3) state_size_def)
  moreover have "no_orphans (?db m')" if "no_orphans db"
  proof -
    have fn: "filename (wal m) = wal_name (active_wal_id db)" by (rule db_invD(11) [OF new(1) m])
    have "set (numbered_files [''.sst''] (db_dir (?db m'))) = set (numbered_files [''.sst''] (db_dir db))"
      by (auto simp: set_numbered_files fs_read_AddLog fn split: if_splits)
    then show ?thesis using that new(3) by (simp add: no_orphans_def ds)
  qed
  moreover have "opt_rows (Some m') = [(k, v)]" using m' e by (simp add: opt_rows_def)
  ultimately show ?thesis
    using r2 roomy_fits by (intro exI [of _ "?s1\<lparr>sys_db := ?db m', writer := None\<rparr>"]) (auto simp: tasks_def idle_def)
qed

section \<open>A sample run\<close>

text \<open>A sample write, and a run of a new database that completes it.\<close>

definition sample_row :: row where
  "sample_row = (''k'', \<lparr>vtype = kValue, rvalue = ''v''\<rparr>)"

definition sample_junk :: junk where
  "sample_junk = (''0'', ''0000'', ''0000'')"

lemma sample_ok:
  "row_ok sample_row" "plain_row sample_row" "rows_size [sample_row] < 2 ^ 56" "junk_ok sample_junk"
  by (simp_all add: sample_row_def row_ok_def plain_row_def rows_size_def row_size_def sample_junk_def junk_ok_def)

lemma sample_run:
  "\<exists>db0 s. new_DBImpl sample_junk (\<lambda>_. False) empty_fs = Some db0 \<and> db_inv db0 \<and> wal_inv db0 \<and>
     view db0 = Map.empty \<and> reach (idle db0) [sample_row] s \<and> fits (sys_db s) \<and> no_orphans (sys_db s) \<and>
     no_orphans db0 \<and> sst_levels (db_state db0) = [] \<and> tasks s = [] \<and> db_imm (sys_db s) = None \<and> roomy 4 (sys_db s) \<and>
     opt_rows (db_mem (sys_db s)) = [sample_row]"
proof -
  obtain db0 where d: "new_DBImpl sample_junk (\<lambda>_. False) empty_fs = Some db0" "db_inv db0" "wal_inv db0" "no_orphans db0"
    "view db0 = Map.empty" "layers db0 = []" "db_state db0 = \<lparr>next_file_number = 1, sst_levels = [], live_wals = [1]\<rparr>" "db_imm db0 = None"
    using open_new [OF sample_ok(4), of "\<lambda>_. False"] by blast
  obtain k v where kv: "sample_row = (k, v)" by (cases sample_row)
  obtain s where "reach (idle db0) [(k, v)] s" "fits (sys_db s)" "no_orphans (sys_db s)" "tasks s = []" "db_imm (sys_db s) = None"
    "roomy 4 (sys_db s)" "opt_rows (db_mem (sys_db s)) = [(k, v)]"
    using one_put_run [OF d(2,6,7), of k v] sample_ok(1-3) d(4,8) unfolding kv by auto
  then show ?thesis using d unfolding kv by (intro exI [of _ db0] exI [of _ s]) simp
qed

lemma sample_db:
  "\<exists>db0. new_DBImpl sample_junk (\<lambda>_. False) empty_fs = Some db0 \<and> db_inv db0 \<and> fits db0 \<and> roomy 3 db0 \<and> db_imm db0 = None \<and>
     \<not> bg_stopped db0 \<and> view db0 = Map.empty"
proof -
  obtain db0 where d: "new_DBImpl sample_junk (\<lambda>_. False) empty_fs = Some db0" "db_inv db0" "db_imm db0 = None" "layers db0 = []"
    "view db0 = Map.empty" "bg_stopped db0 = False" "db_state db0 = \<lparr>next_file_number = 1, sst_levels = [], live_wals = [1]\<rparr>"
    using open_new [OF sample_ok(4), of "\<lambda>_. False"] by blast
  then show ?thesis by (auto simp: fits_def roomy_def rows_size_def state_size_def)
qed

end
