(* ===== verification/CommandExecutor.thy ===== *)
theory CommandExecutor
  imports RESPParser DBRecovery
begin

text \<open>
  The command executor (\<open>include/network/CommandExecutor.h\<close>, \<open>src/network/CommandExecutor.cpp\<close>): it
  runs one parsed command on the database and appends the reply to a response buffer. A null
  database pointer is \<open>None\<close>. The result is \<open>None\<close> for undefined behaviour, \<open>Some None\<close> for a call
  that waits in \<open>Put\<close>, and otherwise the database and the response buffer after the call. Log lines
  have no influence on either and are left out.
\<close>

section \<open>Operations\<close>

type_synonym exec_result = "(DBImpl \<times> NetworkBuffer) option option"

text \<open>\<open>std::toupper\<close> in the C locale, on an \<open>unsigned char\<close>.\<close>

definition toupper :: "char \<Rightarrow> char" where
  "toupper c = (let n = of_char c :: nat in if 97 \<le> n \<and> n \<le> 122 then char_of (n - 32) else c)"

definition NormalizeCommandName :: "bytes \<Rightarrow> bytes" where
  "NormalizeCommandName command_name = map toupper command_name"

definition wrong_number :: "bytes \<Rightarrow> bytes" where
  "wrong_number cmd = ''wrong number of arguments for '' @ [CHR 0x27] @ cmd @ [CHR 0x27] @ '' command''"

definition unknown_command :: "bytes \<Rightarrow> bytes" where
  "unknown_command name = ''unknown command '' @ [CHR 0x27] @ name @ [CHR 0x27]"

definition ExpectArgCount :: "bytes list \<Rightarrow> nat \<Rightarrow> NetworkBuffer \<Rightarrow> (bool \<times> NetworkBuffer) option" where
  "ExpectArgCount command expected_argc nb =
     (if length command = expected_argc then Some (True, nb)
      else do {
        nb' \<leftarrow> EncodeError (wrong_number (NormalizeCommandName (command ! 0))) nb;
        Some (False, nb')
      })"

text \<open>The call of \<open>Put\<close> and the reply both writing handlers give.\<close>

definition put_and_ok :: "(nat \<Rightarrow> bool) \<Rightarrow> bytes \<Rightarrow> ValueRecord \<Rightarrow> DBImpl \<Rightarrow> NetworkBuffer \<Rightarrow> exec_result" where
  "put_and_ok coin key record db nb = do {
     r \<leftarrow> DBImpl_Put coin key record db;
     case r of
       None \<Rightarrow> Some None
     | Some db' \<Rightarrow> do { nb' \<leftarrow> EncodeSimpleString ''OK'' nb; Some (Some (db', nb')) }
   }"

definition HandleSet :: "(nat \<Rightarrow> bool) \<Rightarrow> bytes list \<Rightarrow> DBImpl \<Rightarrow> NetworkBuffer \<Rightarrow> exec_result" where
  "HandleSet coin command db nb = do {
     (ok, nb1) \<leftarrow> ExpectArgCount command 3 nb;
     if \<not> ok then Some (Some (db, nb1))
     else put_and_ok coin (command ! 1) \<lparr>vtype = kValue, rvalue = command ! 2\<rparr> db nb1
   }"

definition HandleGet :: "bytes list \<Rightarrow> DBImpl \<Rightarrow> NetworkBuffer \<Rightarrow> exec_result" where
  "HandleGet command db nb = do {
     (ok, nb1) \<leftarrow> ExpectArgCount command 2 nb;
     if \<not> ok then Some (Some (db, nb1))
     else do {
       r \<leftarrow> DBImpl_Get db (command ! 1);
       nb2 \<leftarrow> (case r of None \<Rightarrow> EncodeNull nb1 | Some record \<Rightarrow> EncodeBulkString (rvalue record) nb1);
       Some (Some (db, nb2))
     }
   }"

definition HandleDel :: "(nat \<Rightarrow> bool) \<Rightarrow> bytes list \<Rightarrow> DBImpl \<Rightarrow> NetworkBuffer \<Rightarrow> exec_result" where
  "HandleDel coin command db nb = do {
     (ok, nb1) \<leftarrow> ExpectArgCount command 2 nb;
     if \<not> ok then Some (Some (db, nb1))
     else put_and_ok coin (command ! 1) \<lparr>vtype = kDeletion, rvalue = []\<rparr> db nb1
   }"

text \<open>The loop of \<open>RSCAN\<close> over the iterator.\<close>

function rscan_loop :: "DBIterator \<Rightarrow> bytes list \<Rightarrow> bytes list option" where
  "rscan_loop it elements =
     (if Valid it then do {
        k \<leftarrow> it_key it;
        v \<leftarrow> it_value it;
        rscan_loop (Next it) (elements @ [k] @ [v])
      } else Some elements)"
  by pat_completeness auto
termination
  by (relation "measure (\<lambda>(it, _). length (it_rows it) - it_pos it)") (auto simp: Valid_def Next_def)

declare rscan_loop.simps [simp del]

definition HandleRScan :: "bytes list \<Rightarrow> DBImpl \<Rightarrow> NetworkBuffer \<Rightarrow> exec_result" where
  "HandleRScan command db nb = do {
     (ok, nb1) \<leftarrow> ExpectArgCount command 2 nb;
     if \<not> ok then Some (Some (db, nb1))
     else do {
       it \<leftarrow> NewIterator db;
       elements \<leftarrow> rscan_loop (Seek (command ! 1) it) [];
       nb2 \<leftarrow> EncodeArray elements nb1;
       Some (Some (db, nb2))
     }
   }"

text \<open>The dispatch of \<open>Execute\<close> on a database that is there.\<close>

definition dispatch :: "(nat \<Rightarrow> bool) \<Rightarrow> bytes list \<Rightarrow> DBImpl \<Rightarrow> NetworkBuffer \<Rightarrow> exec_result" where
  "dispatch coin command db nb =
     (if command = [] then map_option (\<lambda>nb'. Some (db, nb')) (EncodeError ''empty command'' nb)
      else let cmd = NormalizeCommandName (command ! 0) in
        if cmd = ''SET'' then HandleSet coin command db nb
        else if cmd = ''GET'' then HandleGet command db nb
        else if cmd = ''DEL'' then HandleDel coin command db nb
        else if cmd = ''RSCAN'' then HandleRScan command db nb
        else map_option (\<lambda>nb'. Some (db, nb')) (EncodeError (unknown_command (command ! 0)) nb))"

definition Execute ::
  "(nat \<Rightarrow> bool) \<Rightarrow> bytes list \<Rightarrow> DBImpl option \<Rightarrow> NetworkBuffer \<Rightarrow> (DBImpl option \<times> NetworkBuffer) option option" where
  "Execute coin command odb nb =
     (case odb of
        None \<Rightarrow> map_option (\<lambda>nb'. Some (None, nb')) (EncodeError ''db is not initialized'' nb)
      | Some db \<Rightarrow> map_option (map_option (\<lambda>(db', nb'). (Some db', nb'))) (dispatch coin command db nb))"

section \<open>Specification\<close>

text \<open>
  The protocol over a finite map: the reply to a command and the map after it. A scan lists the
  pairs whose key is not below the start key in ascending order.
\<close>

definition scan_pairs :: "bytes \<Rightarrow> (bytes \<rightharpoonup> bytes) \<Rightarrow> bytes list" where
  "scan_pairs start m = concat (map (\<lambda>k. [k, the (m k)]) (sorted_list_of_set {k \<in> dom m. start \<le> k}))"

definition argc :: "bytes \<Rightarrow> nat" where
  "argc cmd = (if cmd = ''SET'' then 3 else 2)"

definition known_commands :: "bytes list" where
  "known_commands = [''SET'', ''GET'', ''DEL'', ''RSCAN'']"

definition kv_command :: "bytes list \<Rightarrow> (bytes \<rightharpoonup> bytes) \<Rightarrow> reply \<times> (bytes \<rightharpoonup> bytes)" where
  "kv_command command m =
     (case command of
        [] \<Rightarrow> (ErrorReply ''empty command'', m)
      | name # args \<Rightarrow>
          let cmd = NormalizeCommandName name in
          if cmd \<notin> set known_commands then (ErrorReply (unknown_command name), m)
          else if length command \<noteq> argc cmd then (ErrorReply (wrong_number cmd), m)
          else if cmd = ''SET'' then (SimpleString ''OK'', m(args ! 0 \<mapsto> args ! 1))
          else if cmd = ''GET'' then (case m (args ! 0) of None \<Rightarrow> NullReply | Some v \<Rightarrow> BulkString v, m)
          else if cmd = ''DEL'' then (SimpleString ''OK'', m(args ! 0 := None))
          else (ArrayReply (scan_pairs (args ! 0) m), m))"

definition writes :: "bytes list \<Rightarrow> bool" where
  "writes command \<longleftrightarrow> command \<noteq> [] \<and>
     (NormalizeCommandName (command ! 0) = ''SET'' \<and> length command = 3 \<or>
      NormalizeCommandName (command ! 0) = ''DEL'' \<and> length command = 2)"

text \<open>The sizes the 32-bit length fields of the log and of the tables can hold.\<close>

definition command_ok :: "bytes list \<Rightarrow> bool" where
  "command_ok command \<longleftrightarrow> (\<forall>arg\<in>set command. length arg < 2 ^ 32)"

text \<open>A write waits when the active memtable is full and the previous one is not flushed.\<close>

definition put_blocks :: "DBImpl \<Rightarrow> bool" where
  "put_blocks db \<longleftrightarrow> (\<exists>mt. db_mem db = Some mt \<and> memtable_limit \<le> MemTable_Count mt) \<and> db_imm db \<noteq> None"

section \<open>Lemmas\<close>

lemma rscan_loop_collect:
  "rscan_loop it es = Some (es @ concat (map (\<lambda>e. [fst e, snd e]) (drop (it_pos it) (it_rows it))))"
proof (induction it es rule: rscan_loop.induct)
  case (1 it es)
  show ?case
  proof (cases "Valid it")
    case True
    have d: "drop (it_pos it) (it_rows it) = it_rows it ! it_pos it # drop (Suc (it_pos it)) (it_rows it)"
      using True by (simp add: Valid_def Cons_nth_drop_Suc)
    show ?thesis
      using True "1.IH" [OF True] by (subst rscan_loop.simps) (simp add: it_key_def it_value_def Next_def d)
  qed (simp add: rscan_loop.simps Valid_def)
qed

lemma sorted_keys_fst: "sorted_keys rows \<Longrightarrow> map fst rows = sorted_list_of_set (fst ` set rows)"
  using sorted_list_of_set.idem_if_sorted_distinct [of "map fst rows"] strict_sorted_iff [of "map fst rows"]
  by (simp add: sorted_keys_def)

lemma scan_pairs_rows:
  assumes "sorted_keys rows" "map_of rows = m"
  shows "concat (map (\<lambda>e. [fst e, snd e]) (filter (\<lambda>e. k \<le> fst e) rows)) = scan_pairs k m"
proof -
  let ?r = "filter (\<lambda>e. k \<le> fst e) rows"
  have "fst ` set ?r = {a \<in> dom m. k \<le> a}" using assms(2) dom_map_of_conv_image_fst [of rows] by auto
  then have "sorted_list_of_set {a \<in> dom m. k \<le> a} = map fst ?r"
    using sorted_keys_fst [OF sorted_keys_filter [OF assms(1)]] by metis
  moreover have "map (\<lambda>e. [fst e, snd e]) ?r = map (\<lambda>a. [a, the (m a)]) (map fst ?r)"
    using map_of_is_SomeI [OF sorted_keys_distinct [OF assms(1)]] assms(2) by (auto simp: comp_def)
  ultimately show ?thesis by (simp only: scan_pairs_def)
qed

text \<open>A call that returns, having appended one reply and left the database with the given contents.\<close>

definition answers :: "exec_result \<Rightarrow> NetworkBuffer \<Rightarrow> reply \<times> (bytes \<rightharpoonup> bytes) \<Rightarrow> bool" where
  "answers res nb rm \<longleftrightarrow>
     (\<exists>db' nb'. res = Some (Some (db', nb')) \<and> nb_ok nb' \<and> Peek nb' = Peek nb @ reply_bytes (fst rm) \<and>
        db_inv db' \<and> view db' = snd rm)"

lemma Encode_answers:
  assumes "db_inv db" "nb_ok nb" "view db = m"
  shows "answers (map_option (\<lambda>nb'. Some (db, nb')) (Encode r nb)) nb (r, m)"
  using nb.sendsD [OF Encode_sends assms(2)] assms unfolding answers_def by (metis fst_conv option.simps(9) snd_conv)

lemma ExpectArgCount_cases:
  "length command = n \<Longrightarrow> ExpectArgCount command n nb = Some (True, nb)"
  "length command \<noteq> n \<Longrightarrow>
    ExpectArgCount command n nb = map_option (Pair False) (EncodeError (wrong_number (NormalizeCommandName (command ! 0))) nb)"
  by (simp_all add: ExpectArgCount_def map_option_case split: option.splits)

lemma put_and_ok_cases:
  assumes "db_inv db" "fits db" "row_ok (k, v)" "plain_row (k, v)" "nb_ok nb"
  shows "put_blocks db \<Longrightarrow> put_and_ok coin k v db nb = Some None"
    "\<not> put_blocks db \<Longrightarrow> answers (put_and_ok coin k v db nb) nb (SimpleString ''OK'', (view db)(k := live (Some v)))"
proof -
  obtain mt where m: "db_mem db = Some mt" using db_invD(2) [OF assms(1)] by blast
  note P = DBImpl_Put_cases [OF assms(1-4) m, of coin]
  show "put_and_ok coin k v db nb = Some None" if "put_blocks db"
    using that P(1) m by (simp add: put_blocks_def put_and_ok_def)
  assume "\<not> put_blocks db"
  then obtain db' where p: "DBImpl_Put coin k v db = Some (Some db')" "db_inv db'" "view db' = (view db)(k := live (Some v))"
    using P(2) m by (auto simp: put_blocks_def)
  obtain nb' where "EncodeSimpleString ''OK'' nb = Some nb'" "nb_ok nb'" "Peek nb' = Peek nb @ reply_bytes (SimpleString ''OK'')"
    using nb.sendsD [OF Encode_sends [of "SimpleString ''OK''"] assms(5)] by auto
  with p show "answers (put_and_ok coin k v db nb) nb (SimpleString ''OK'', (view db)(k := live (Some v)))"
    by (simp add: put_and_ok_def answers_def)
qed

lemma wrong_count_answers:
  assumes "db_inv db" "nb_ok nb" "length command \<noteq> n"
  shows "answers (ExpectArgCount command n nb \<bind> (\<lambda>(ok, nb1). if \<not> ok then Some (Some (db, nb1)) else f nb1)) nb
    (ErrorReply (wrong_number (NormalizeCommandName (command ! 0))), view db)"
  using Encode_answers [OF assms(1,2) refl, of "ErrorReply (wrong_number (NormalizeCommandName (command ! 0)))"] assms(3)
  by (cases "EncodeError (wrong_number (NormalizeCommandName (command ! 0))) nb") (simp_all add: ExpectArgCount_cases)

lemma HandleGet_answers:
  assumes "db_inv db" "nb_ok nb"
  shows "answers (HandleGet command db nb) nb
    (if length command \<noteq> 2 then (ErrorReply (wrong_number (NormalizeCommandName (command ! 0))), view db)
     else (case view db (command ! 1) of None \<Rightarrow> NullReply | Some v \<Rightarrow> BulkString v, view db))"
proof (cases "length command = 2")
  case True
  let ?r = "case view db (command ! 1) of None \<Rightarrow> NullReply | Some v \<Rightarrow> BulkString v"
  have "HandleGet command db nb = map_option (\<lambda>nb'. Some (db, nb')) (Encode ?r nb)"
    using True DBImpl_Get_view [OF db_invD(1) [OF assms(1)]]
    by (simp add: HandleGet_def ExpectArgCount_cases as_value_def map_option_case split: option.split)
  then show ?thesis using Encode_answers [OF assms refl, of ?r] True by simp
qed (use wrong_count_answers [OF assms] in \<open>simp add: HandleGet_def\<close>)

lemma HandleRScan_answers:
  assumes "db_inv db" "nb_ok nb"
  shows "answers (HandleRScan command db nb) nb
    (if length command \<noteq> 2 then (ErrorReply (wrong_number (NormalizeCommandName (command ! 0))), view db)
     else (ArrayReply (scan_pairs (command ! 1) (view db)), view db))"
proof (cases "length command = 2")
  case True
  obtain rows where r: "NewIterator db = Some (new_DBIterator rows)" "sorted_keys rows" "map_of rows = view db"
    using NewIterator_view [OF db_invD(1) [OF assms(1)]] by blast
  let ?it = "Seek (command ! 1) (new_DBIterator rows)"
  have "drop (it_pos ?it) (it_rows ?it) = filter (\<lambda>e. command ! 1 \<le> fst e) rows"
    using lower_bound_sorted [of fst rows "command ! 1"] drop_takeWhile_sorted [OF r(2), of "command ! 1"] r(2)
    by (simp add: Seek_def sorted_keys_def new_DBIterator_def)
  then have "rscan_loop ?it [] = Some (scan_pairs (command ! 1) (view db))"
    using scan_pairs_rows [OF r(2,3)] by (simp add: rscan_loop_collect)
  then have "HandleRScan command db nb =
      map_option (\<lambda>nb'. Some (db, nb')) (Encode (ArrayReply (scan_pairs (command ! 1) (view db))) nb)"
    using True r(1) by (simp add: HandleRScan_def ExpectArgCount_cases map_option_case split: option.split)
  then show ?thesis using Encode_answers [OF assms refl, of "ArrayReply (scan_pairs (command ! 1) (view db))"] True by simp
qed (use wrong_count_answers [OF assms] in \<open>simp add: HandleRScan_def\<close>)

lemma HandleSet_answers:
  assumes "db_inv db" "fits db" "nb_ok nb" "command_ok command"
  shows "length command = 3 \<Longrightarrow> put_blocks db \<Longrightarrow> HandleSet coin command db nb = Some None"
    "length command \<noteq> 3 \<or> \<not> put_blocks db \<Longrightarrow> answers (HandleSet coin command db nb) nb
      (if length command \<noteq> 3 then (ErrorReply (wrong_number (NormalizeCommandName (command ! 0))), view db)
       else (SimpleString ''OK'', (view db)(command ! 1 \<mapsto> command ! 2)))"
proof -
  have row: "row_ok (command ! 1, \<lparr>vtype = kValue, rvalue = command ! 2\<rparr>)"
    "plain_row (command ! 1, \<lparr>vtype = kValue, rvalue = command ! 2\<rparr>)" if "length command = 3"
    using assms(4) that by (simp_all add: row_ok_def plain_row_def command_ok_def)
  note P = put_and_ok_cases [OF assms(1,2) row assms(3), of coin]
  show "HandleSet coin command db nb = Some None" if "length command = 3" "put_blocks db"
    using P(1) that by (simp add: HandleSet_def ExpectArgCount_cases)
  show "answers (HandleSet coin command db nb) nb
      (if length command \<noteq> 3 then (ErrorReply (wrong_number (NormalizeCommandName (command ! 0))), view db)
       else (SimpleString ''OK'', (view db)(command ! 1 \<mapsto> command ! 2)))" if "length command \<noteq> 3 \<or> \<not> put_blocks db"
    using P(2) that wrong_count_answers [OF assms(1,3)]
    by (cases "length command = 3") (simp_all add: HandleSet_def ExpectArgCount_cases live_def)
qed

lemma HandleDel_answers:
  assumes "db_inv db" "fits db" "nb_ok nb" "command_ok command"
  shows "length command = 2 \<Longrightarrow> put_blocks db \<Longrightarrow> HandleDel coin command db nb = Some None"
    "length command \<noteq> 2 \<or> \<not> put_blocks db \<Longrightarrow> answers (HandleDel coin command db nb) nb
      (if length command \<noteq> 2 then (ErrorReply (wrong_number (NormalizeCommandName (command ! 0))), view db)
       else (SimpleString ''OK'', (view db)(command ! 1 := None)))"
proof -
  have row: "row_ok (command ! 1, \<lparr>vtype = kDeletion, rvalue = []\<rparr>)"
    "plain_row (command ! 1, \<lparr>vtype = kDeletion, rvalue = []\<rparr>)" if "length command = 2"
    using assms(4) that by (simp_all add: row_ok_def plain_row_def command_ok_def)
  note P = put_and_ok_cases [OF assms(1,2) row assms(3), of coin]
  show "HandleDel coin command db nb = Some None" if "length command = 2" "put_blocks db"
    using P(1) that by (simp add: HandleDel_def ExpectArgCount_cases)
  show "answers (HandleDel coin command db nb) nb
      (if length command \<noteq> 2 then (ErrorReply (wrong_number (NormalizeCommandName (command ! 0))), view db)
       else (SimpleString ''OK'', (view db)(command ! 1 := None)))" if "length command \<noteq> 2 \<or> \<not> put_blocks db"
    using P(2) that wrong_count_answers [OF assms(1,3)]
    by (cases "length command = 2") (simp_all add: HandleDel_def ExpectArgCount_cases live_def)
qed

lemma kv_command_unfold:
  assumes "command \<noteq> []" "cmd = NormalizeCommandName (command ! 0)"
  shows "kv_command command m =
    (if cmd \<notin> set known_commands then (ErrorReply (unknown_command (command ! 0)), m)
     else if length command \<noteq> argc cmd then (ErrorReply (wrong_number cmd), m)
     else if cmd = ''SET'' then (SimpleString ''OK'', m(command ! 1 \<mapsto> command ! 2))
     else if cmd = ''GET'' then (case m (command ! 1) of None \<Rightarrow> NullReply | Some v \<Rightarrow> BulkString v, m)
     else if cmd = ''DEL'' then (SimpleString ''OK'', m(command ! 1 := None))
     else (ArrayReply (scan_pairs (command ! 1) m), m))"
  using assms by (cases command) (simp_all add: kv_command_def Let_def numeral_2_eq_2)

lemma Execute_dispatch:
  "Execute coin command (Some db) nb = map_option (map_option (\<lambda>(db', nb'). (Some db', nb'))) (dispatch coin command db nb)"
  by (simp add: Execute_def)

lemma dispatch_blocked:
  assumes "db_inv db" "fits db" "nb_ok nb" "command_ok command" "writes command" "put_blocks db"
  shows "dispatch coin command db nb = Some None"
  using assms(5) HandleSet_answers(1) [OF assms(1-4) _ assms(6)] HandleDel_answers(1) [OF assms(1-4) _ assms(6)]
  by (auto simp: dispatch_def writes_def)

lemma dispatch_answers:
  assumes "db_inv db" "fits db" "nb_ok nb" "command_ok command" "\<not> (writes command \<and> put_blocks db)"
  shows "answers (dispatch coin command db nb) nb (kv_command command (view db))"
proof (cases "command = []")
  case True
  then show ?thesis
    using Encode_answers [OF assms(1,3) refl, of "ErrorReply ''empty command''"] by (simp add: dispatch_def kv_command_def)
next
  case False
  define cmd where "cmd = NormalizeCommandName (command ! 0)"
  note K = kv_command_unfold [OF False cmd_def] and W = assms(5) [unfolded writes_def, folded cmd_def]
  note E = Encode_answers [OF assms(1,3) refl, of "ErrorReply (unknown_command (command ! 0))"]
  consider "cmd = ''SET''" | "cmd = ''GET''" | "cmd = ''DEL''" | "cmd = ''RSCAN''" | "cmd \<notin> set known_commands"
    unfolding known_commands_def by auto
  then show ?thesis
  proof cases
    case 1
    then show ?thesis using HandleSet_answers(2) [OF assms(1-4), of coin, folded cmd_def] W False
      by (cases "length command = 3") (simp_all add: dispatch_def K cmd_def [symmetric] known_commands_def argc_def)
  next
    case 2
    then show ?thesis using HandleGet_answers [OF assms(1,3), of command, folded cmd_def] False
      by (cases "length command = 2") (simp_all add: dispatch_def K cmd_def [symmetric] known_commands_def argc_def)
  next
    case 3
    then show ?thesis using HandleDel_answers(2) [OF assms(1-4), of coin, folded cmd_def] W False
      by (cases "length command = 2") (simp_all add: dispatch_def K cmd_def [symmetric] known_commands_def argc_def)
  next
    case 4
    then show ?thesis using HandleRScan_answers [OF assms(1,3), of command, folded cmd_def] False
      by (cases "length command = 2") (simp_all add: dispatch_def K cmd_def [symmetric] known_commands_def argc_def)
  next
    case 5
    then show ?thesis using E False by (simp add: dispatch_def K cmd_def [symmetric] known_commands_def)
  qed
qed

lemma Execute_answers:
  assumes "db_inv db" "fits db" "nb_ok nb" "command_ok command" "\<not> (writes command \<and> put_blocks db)"
  shows "\<exists>db' nb'. Execute coin command (Some db) nb = Some (Some (Some db', nb')) \<and> nb_ok nb' \<and>
    Peek nb' = Peek nb @ reply_bytes (fst (kv_command command (view db))) \<and>
    db_inv db' \<and> view db' = snd (kv_command command (view db))"
  using dispatch_answers [OF assms, of coin] by (auto simp: answers_def Execute_dispatch)

lemma Execute_blocked:
  assumes "db_inv db" "fits db" "nb_ok nb" "command_ok command" "writes command" "put_blocks db"
  shows "Execute coin command (Some db) nb = Some None"
  using dispatch_blocked [OF assms] by (simp add: Execute_dispatch)

lemma known_no_cr: "cmd \<in> set known_commands \<Longrightarrow> CHR 0x0D \<notin> set cmd"
  by (auto simp: known_commands_def)

lemma kv_command_framed:
  assumes "CHR 0x0D \<notin> set (command ! 0)"
  shows "framed (fst (kv_command command m))"
proof (cases "command = []")
  case False
  then show ?thesis
    using assms known_no_cr [of "NormalizeCommandName (command ! 0)"]
    by (auto simp: kv_command_unfold [OF False refl] unknown_command_def wrong_number_def split: option.splits)
qed (simp add: kv_command_def)

section \<open>Properties\<close>

text \<open>
  C11: the executor implements the protocol over a map. On a database in a consistent state, for
  every command whatever its name and number of arguments, the call either waits (a write while the
  active memtable is full and the previous one is not flushed) or returns with exactly one reply
  appended, the one the map prescribes, and with the database holding the map's new contents.
\<close>

theorem executor_refines_map:
  assumes "db_inv db" "fits db" "nb_ok nb" "command_ok command"
  shows "if writes command \<and> put_blocks db then Execute coin command (Some db) nb = Some None
    else \<exists>db' nb'. Execute coin command (Some db) nb = Some (Some (Some db', nb')) \<and> nb_ok nb' \<and> db_inv db' \<and>
      Peek nb' = Peek nb @ reply_bytes (fst (kv_command command (view db))) \<and>
      view db' = snd (kv_command command (view db))"
  using Execute_answers [OF assms, of coin] Execute_blocked [OF assms, of coin] by auto

theorem executor_refines_map_witness:
  "\<exists>db0 odb nb'. new_DBImpl sample_junk (\<lambda>_. False) empty_fs = Some db0 \<and>
     Execute (\<lambda>_. False) [''get'', ''k''] (Some db0) (new_NetworkBuffer 8) = Some (Some (odb, nb')) \<and>
     Peek nb' = ''$-1'' @ kCRLF"
proof -
  obtain db0 where d: "new_DBImpl sample_junk (\<lambda>_. False) empty_fs = Some db0" "db_inv db0" "fits db0" "\<not> put_blocks db0" "view db0 = Map.empty"
    using sample_db put_blocks_def by blast
  have n: "NormalizeCommandName ''get'' = ''GET''" by code_simp
  have c: "command_ok [''get'', ''k'']" by (simp add: command_ok_def)
  from executor_refines_map [OF d(2,3) nb_ok_new c, of "\<lambda>_. False" 8] d show ?thesis
    by (auto simp: kv_command_def n known_commands_def argc_def)
qed

text \<open>
  A command whose name contains no carriage return is answered by one reply that a client can
  delimit, also when the command is unknown or has the wrong number of arguments.
\<close>

theorem executor_reply_framed:
  assumes "db_inv db" "fits db" "nb_ok nb" "command_ok command" "\<not> put_blocks db" "CHR 0x0D \<notin> set (command ! 0)"
  shows "\<exists>odb nb' r. Execute coin command (Some db) nb = Some (Some (odb, nb')) \<and>
    Peek nb' = Peek nb @ reply_bytes r \<and> framed r"
  using Execute_answers [OF assms(1-4), of coin] kv_command_framed [OF assms(6)] assms(5) by blast

theorem executor_reply_framed_witness:
  "\<exists>db0 odb nb' r. new_DBImpl sample_junk (\<lambda>_. False) empty_fs = Some db0 \<and>
     Execute (\<lambda>_. True) [''PING''] (Some db0) (new_NetworkBuffer 8) = Some (Some (odb, nb')) \<and>
     Peek nb' = Peek (new_NetworkBuffer 8) @ reply_bytes r \<and> framed r"
proof -
  obtain db0 where d: "new_DBImpl sample_junk (\<lambda>_. False) empty_fs = Some db0" "db_inv db0" "fits db0" "\<not> put_blocks db0"
    using sample_db put_blocks_def by blast
  have c: "command_ok [''PING'']" by (simp add: command_ok_def)
  from executor_reply_framed [OF d(2,3) nb_ok_new c d(4), of "\<lambda>_. True"] d(1) show ?thesis by simp
qed

text \<open>
  An unknown command whose name contains a line end injects a second reply: the client of such
  a command reads an error and then, as the answer to its next command, a reply of its own making.
\<close>

theorem unknown_command_injects:
  assumes "nb_ok nb" "command ! 0 = a @ kCRLF @ ''+'' @ b" "command \<noteq> []" "CHR 0x0D \<notin> set a" "CHR 0x0D \<notin> set b"
  shows "\<exists>nb' r1 r2. Execute coin command (Some db) nb = Some (Some (Some db, nb')) \<and>
    Peek nb' = Peek nb @ reply_bytes r1 @ reply_bytes r2 \<and> framed r1 \<and> framed r2 \<and>
    r2 = SimpleString (b @ [CHR 0x27])"
proof -
  have "toupper (CHR 0x0D) = CHR 0x0D" by (simp add: toupper_def)
  then have "CHR 0x0D \<in> set (NormalizeCommandName (command ! 0))"
    unfolding assms(2) by (simp add: NormalizeCommandName_def kCRLF_def)
  then have "NormalizeCommandName (command ! 0) \<notin> set known_commands" using known_no_cr by blast
  then have d: "dispatch coin command db nb = map_option (\<lambda>nb'. Some (db, nb')) (EncodeError (unknown_command (command ! 0)) nb)"
    using assms(3) by (auto simp: dispatch_def known_commands_def Let_def)
  obtain nb' where e: "EncodeError (unknown_command (command ! 0)) nb = Some nb'"
    "Peek nb' = Peek nb @ reply_bytes (ErrorReply (unknown_command (command ! 0)))"
    using nb.sendsD [OF Encode_sends [of "ErrorReply (unknown_command (command ! 0))"] assms(1)] by auto
  let ?r1 = "ErrorReply (''unknown command '' @ [CHR 0x27] @ a)" and ?r2 = "SimpleString (b @ [CHR 0x27])"
  have "reply_bytes (ErrorReply (unknown_command (command ! 0))) = reply_bytes ?r1 @ reply_bytes ?r2"
    by (simp add: unknown_command_def assms(2))
  then have "Peek nb' = Peek nb @ reply_bytes ?r1 @ reply_bytes ?r2" using e(2) by metis
  moreover have "Execute coin command (Some db) nb = Some (Some (Some db, nb'))" using d e(1) by (simp add: Execute_dispatch)
  moreover have "framed ?r1" "framed ?r2" using assms(4,5) by simp_all
  ultimately show ?thesis by blast
qed

theorem unknown_command_injects_witness:
  "\<forall>db. \<exists>nb' r1 r2. Execute (\<lambda>_. False) [''x'' @ kCRLF @ ''+'' @ ''y''] (Some db) (new_NetworkBuffer 8) = Some (Some (Some db, nb')) \<and>
     Peek nb' = Peek (new_NetworkBuffer 8) @ reply_bytes r1 @ reply_bytes r2 \<and> framed r1 \<and> framed r2 \<and>
     r2 = SimpleString (''y'' @ [CHR 0x27])"
  by (rule allI, rule unknown_command_injects [OF nb_ok_new, where a = "''x''"]) simp_all

end
