(* ===== verification/ThreadPool.thy ===== *)
theory ThreadPool
  imports Prelude "HOL-Library.Multiset"
begin

text \<open>
  The thread pool (\<open>include/network/ThreadPool.h\<close>). Each critical section of the source is one
  function: a worker that wakes up in its loop, the end of a task, \<open>enqueue\<close> and the first half of
  \<open>Shutdown\<close>; joining the workers is the condition \<open>joined\<close>. A step relation interleaves them. The
  type of tasks is a parameter; the futures that \<open>enqueue\<close> returns are not used by the program and
  are left out.
\<close>

section \<open>State and operations\<close>

datatype 'a worker = Waiting | Running 'a | Exited

record 'a ThreadPool =
  workers :: "'a worker list"
  pool_tasks :: "'a list"
  pool_stop :: bool

definition new_ThreadPool :: "nat \<Rightarrow> 'a ThreadPool" where
  "new_ThreadPool threads = \<lparr>workers = replicate threads Waiting, pool_tasks = [], pool_stop = False\<rparr>"

text \<open>The critical section of worker \<open>i\<close>; \<open>None\<close> when its wait goes on.\<close>

definition worker_wake :: "nat \<Rightarrow> 'a ThreadPool \<Rightarrow> 'a ThreadPool option" where
  "worker_wake i p =
     (if \<not> (pool_stop p \<or> pool_tasks p \<noteq> []) then None
      else if pool_stop p \<and> pool_tasks p = [] then Some (p\<lparr>workers := (workers p)[i := Exited]\<rparr>)
      else Some (p\<lparr>workers := (workers p)[i := Running (hd (pool_tasks p))], pool_tasks := tl (pool_tasks p)\<rparr>))"

text \<open>The task returned; the loop goes back to waiting.\<close>

definition worker_done :: "nat \<Rightarrow> 'a ThreadPool \<Rightarrow> 'a ThreadPool" where
  "worker_done i p = p\<lparr>workers := (workers p)[i := Waiting]\<rparr>"

text \<open>\<open>None\<close> is the exception of a stopped pool.\<close>

definition enqueue :: "'a \<Rightarrow> 'a ThreadPool \<Rightarrow> 'a ThreadPool option" where
  "enqueue t p = (if pool_stop p then None else Some (p\<lparr>pool_tasks := pool_tasks p @ [t]\<rparr>))"

text \<open>The result says whether the caller goes on to join the workers.\<close>

definition Shutdown_begin :: "'a ThreadPool \<Rightarrow> bool \<times> 'a ThreadPool" where
  "Shutdown_begin p = (if pool_stop p then (False, p) else (True, p\<lparr>pool_stop := True\<rparr>))"

definition joined :: "'a ThreadPool \<Rightarrow> bool" where
  "joined p \<longleftrightarrow> list_all (\<lambda>w. w = Exited) (workers p)"

section \<open>The interface a client uses\<close>

locale task_queue =
  fixes stopped :: "'p \<Rightarrow> bool"
    and queued :: "'p \<Rightarrow> 'a list"
    and submit :: "'a \<Rightarrow> 'p \<Rightarrow> 'p option"
  assumes submit_open: "\<not> stopped p \<Longrightarrow> \<exists>p'. submit t p = Some p' \<and> queued p' = queued p @ [t] \<and> \<not> stopped p'"
    and submit_stopped: "stopped p \<Longrightarrow> submit t p = None"
begin

lemma submit_obtain:
  assumes "\<not> stopped p"
  obtains p' where "submit t p = Some p'" "queued p' = queued p @ [t]" "\<not> stopped p'"
  using submit_open [OF assms] by blast

lemma submit_defined: "submit t p \<noteq> None \<longleftrightarrow> \<not> stopped p"
  using submit_open submit_stopped by fastforce

primrec submit_all :: "'a list \<Rightarrow> 'p \<Rightarrow> 'p option" where
  "submit_all [] p = Some p"
| "submit_all (t # ts) p = submit t p \<bind> submit_all ts"

lemma submit_all_open:
  "\<not> stopped p \<Longrightarrow> \<exists>p'. submit_all ts p = Some p' \<and> queued p' = queued p @ ts \<and> \<not> stopped p'"
proof (induction ts arbitrary: p)
  case (Cons t ts)
  obtain p1 where p1: "submit t p = Some p1" "queued p1 = queued p @ [t]" "\<not> stopped p1"
    using submit_obtain [OF Cons.prems] .
  then show ?case using Cons.IH [OF p1(3)] by simp
qed simp

end

interpretation tp: task_queue pool_stop pool_tasks enqueue
  by unfold_locales (simp_all add: enqueue_def)

section \<open>Steps\<close>

datatype 'a pool_event = Enqueued 'a | Started 'a | Finished 'a | Left | Stopped

inductive pool_step :: "'a pool_event \<Rightarrow> 'a ThreadPool \<Rightarrow> 'a ThreadPool \<Rightarrow> bool" where
  submit: "enqueue t p = Some p' \<Longrightarrow> pool_step (Enqueued t) p p'"
| take_task: "i < length (workers p) \<Longrightarrow> workers p ! i = Waiting \<Longrightarrow> worker_wake i p = Some p' \<Longrightarrow>
    workers p' ! i = Running t \<Longrightarrow> pool_step (Started t) p p'"
| leave: "i < length (workers p) \<Longrightarrow> workers p ! i = Waiting \<Longrightarrow> worker_wake i p = Some p' \<Longrightarrow>
    workers p' ! i = Exited \<Longrightarrow> pool_step Left p p'"
| finish: "i < length (workers p) \<Longrightarrow> workers p ! i = Running t \<Longrightarrow> pool_step (Finished t) p (worker_done i p)"
| shutdown: "Shutdown_begin p = (b, p') \<Longrightarrow> pool_step Stopped p p'"

inductive_cases pool_step_elim: "pool_step ev p p'"

inductive pool_run :: "'a ThreadPool \<Rightarrow> 'a pool_event list \<Rightarrow> 'a ThreadPool \<Rightarrow> bool" for p0 where
  start: "pool_run p0 [] p0"
| more: "pool_run p0 evs p \<Longrightarrow> pool_step ev p p' \<Longrightarrow> pool_run p0 (evs @ [ev]) p'"

fun submitted_of :: "'a pool_event \<Rightarrow> 'a list" where
  "submitted_of (Enqueued t) = [t]"
| "submitted_of _ = []"

fun started_of :: "'a pool_event \<Rightarrow> 'a list" where
  "started_of (Started t) = [t]"
| "started_of _ = []"

fun finished_of :: "'a pool_event \<Rightarrow> 'a list" where
  "finished_of (Finished t) = [t]"
| "finished_of _ = []"

definition submitted :: "'a pool_event list \<Rightarrow> 'a list" where "submitted evs = concat (map submitted_of evs)"
definition started :: "'a pool_event list \<Rightarrow> 'a list" where "started evs = concat (map started_of evs)"
definition finished :: "'a pool_event list \<Rightarrow> 'a list" where "finished evs = concat (map finished_of evs)"

lemmas history_defs = submitted_def started_def finished_def

fun task_of :: "'a worker \<Rightarrow> 'a multiset" where
  "task_of (Running t) = {#t#}"
| "task_of _ = {#}"

definition running_tasks :: "'a ThreadPool \<Rightarrow> 'a multiset" where
  "running_tasks p = sum_list (map task_of (workers p))"

lemma running_update:
  "i < length ws \<Longrightarrow> sum_list (map task_of (ws[i := w])) + task_of (ws ! i) = sum_list (map task_of ws) + task_of w"
proof (induction ws arbitrary: i)
  case (Cons a ws)
  then show ?case by (cases i) (simp_all add: ac_simps)
qed simp

text \<open>A worker has left only after the pool was stopped and emptied.\<close>

definition pool_inv :: "'a ThreadPool \<Rightarrow> bool" where
  "pool_inv p \<longleftrightarrow> (Exited \<in> set (workers p) \<longrightarrow> pool_stop p \<and> pool_tasks p = [])"

lemma set_update_Exited: "Exited \<in> set (ws[i := w]) \<Longrightarrow> w \<noteq> Exited \<Longrightarrow> Exited \<in> set ws"
  using set_update_subset_insert [of ws i w] by auto

lemma worker_wake_cases:
  assumes "worker_wake i p = Some p'" "i < length (workers p)"
  obtains (leaves) "pool_stop p" "pool_tasks p = []" "p' = p\<lparr>workers := (workers p)[i := Exited]\<rparr>" "workers p' ! i = Exited"
  | (takes) t ts where "pool_tasks p = t # ts" "p' = p\<lparr>workers := (workers p)[i := Running t], pool_tasks := ts\<rparr>" "workers p' ! i = Running t"
  using assms by (cases "pool_tasks p") (auto simp: worker_wake_def split: if_splits)

lemma pool_inv_new: "pool_inv (new_ThreadPool n)"
  by (simp add: pool_inv_def new_ThreadPool_def)

lemma pool_inv_step: "pool_step ev p p' \<Longrightarrow> pool_inv p \<Longrightarrow> pool_inv p'"
proof (induction rule: pool_step.induct)
  case (take_task i p p' t)
  from take_task(3,1) show ?case
    using take_task(2,4-) by (cases rule: worker_wake_cases) (auto simp: pool_inv_def dest: set_update_Exited)
next
  case (leave i p p')
  from leave(3,1) show ?case using leave(2,4-) by (cases rule: worker_wake_cases) (auto simp: pool_inv_def)
qed (auto simp: pool_inv_def enqueue_def worker_done_def Shutdown_begin_def dest: set_update_Exited split: if_splits)

lemma pool_run_inv: "pool_run p0 evs p \<Longrightarrow> pool_inv p0 \<Longrightarrow> pool_inv p"
  by (induction rule: pool_run.induct) (auto intro: pool_inv_step)

lemma pool_step_workers: "pool_step ev p p' \<Longrightarrow> length (workers p') = length (workers p)"
  by (induction rule: pool_step.induct)
     (auto simp: enqueue_def worker_done_def Shutdown_begin_def worker_wake_def split: if_splits)

lemma pool_run_workers: "pool_run p0 evs p \<Longrightarrow> length (workers p) = length (workers p0)"
  by (induction rule: pool_run.induct) (auto dest: pool_step_workers)

lemma pool_run_trans: "pool_run p1 evs p2 \<Longrightarrow> pool_run p0 evs0 p1 \<Longrightarrow> pool_run p0 (evs0 @ evs) p2"
proof (induction rule: pool_run.induct)
  case (more evs p ev p')
  then have "pool_run p0 ((evs0 @ evs) @ [ev]) p'" by (intro pool_run.more)
  then show ?case by simp
qed simp

text \<open>What a step does to the queue and to the set of running tasks.\<close>

lemma pool_step_tasks:
  assumes "pool_step ev p p'"
  shows "started_of ev @ pool_tasks p' = pool_tasks p @ submitted_of ev"
    "running_tasks p' + mset (finished_of ev) = running_tasks p + mset (started_of ev)"
proof -
  have "started_of ev @ pool_tasks p' = pool_tasks p @ submitted_of ev \<and>
    running_tasks p' + mset (finished_of ev) = running_tasks p + mset (started_of ev)"
    using assms
  proof cases
    case (take_task i t)
    from take_task(4,2) show ?thesis
      using take_task running_update [OF take_task(2), of "Running t"]
      by (cases rule: worker_wake_cases) (auto simp: running_tasks_def)
  next
    case (leave i)
    from leave(4,2) show ?thesis
      using leave running_update [OF leave(2), of Exited] by (cases rule: worker_wake_cases) (auto simp: running_tasks_def)
  next
    case (finish i t)
    then show ?thesis using running_update [OF finish(3), of Waiting] by (simp add: worker_done_def running_tasks_def)
  qed (auto simp: enqueue_def Shutdown_begin_def running_tasks_def split: if_splits)
  then show "started_of ev @ pool_tasks p' = pool_tasks p @ submitted_of ev"
    "running_tasks p' + mset (finished_of ev) = running_tasks p + mset (started_of ev)" by blast+
qed

lemma pool_run_history:
  "pool_run p0 evs p \<Longrightarrow> pool_tasks p0 = [] \<Longrightarrow> running_tasks p0 = {#} \<Longrightarrow>
   started evs @ pool_tasks p = submitted evs \<and> mset (finished evs) + running_tasks p = mset (started evs)"
proof (induction rule: pool_run.induct)
  case (more evs p ev p')
  then have IH: "started evs @ pool_tasks p = submitted evs" "mset (finished evs) + running_tasks p = mset (started evs)"
    by simp_all
  note S = pool_step_tasks [OF more(2)]
  have "started (evs @ [ev]) @ pool_tasks p' = submitted (evs @ [ev])"
    using IH(1) S(1) by (simp add: history_defs)
  moreover have "mset (finished (evs @ [ev])) + running_tasks p' = mset (started (evs @ [ev]))"
    using IH(2) S(2) by (simp add: history_defs ac_simps) (metis add.assoc add.commute)
  ultimately show ?case by blast
qed (simp add: history_defs)

lemma running_new [simp]: "running_tasks (new_ThreadPool n) = {#}" "pool_tasks (new_ThreadPool n) = []"
  by (induction n) (simp_all add: running_tasks_def new_ThreadPool_def)

section \<open>Shutdown\<close>

text \<open>The number of steps the workers of a stopped pool can still take.\<close>

fun worker_work :: "'a worker \<Rightarrow> nat" where
  "worker_work Waiting = 1"
| "worker_work (Running t) = 2"
| "worker_work Exited = 0"

definition pool_work :: "'a ThreadPool \<Rightarrow> nat" where
  "pool_work p = 2 * length (pool_tasks p) + sum_list (map worker_work (workers p))"

lemma work_update:
  "i < length ws \<Longrightarrow> sum_list (map worker_work (ws[i := w])) + worker_work (ws ! i) = sum_list (map worker_work ws) + worker_work w"
proof (induction ws arbitrary: i)
  case (Cons a ws)
  then show ?case by (cases i) simp_all
qed simp

lemma pool_step_work:
  assumes "pool_step ev p p'" "pool_stop p"
  shows "pool_stop p'" "submitted_of ev = []" "pool_work p' + (if ev = Stopped then 0 else 1) = pool_work p"
proof -
  have "pool_stop p' \<and> submitted_of ev = [] \<and> pool_work p' + (if ev = Stopped then 0 else 1) = pool_work p"
    using assms(1)
  proof cases
    case (take_task i t)
    from take_task(4,2) show ?thesis
      using take_task assms(2) work_update [OF take_task(2), of "Running t"]
      by (cases rule: worker_wake_cases) (auto simp: pool_work_def)
  next
    case (leave i)
    from leave(4,2) show ?thesis
      using leave assms(2) work_update [OF leave(2), of Exited] by (cases rule: worker_wake_cases) (auto simp: pool_work_def)
  next
    case (finish i t)
    then show ?thesis using assms(2) work_update [OF finish(3), of Waiting] by (simp add: worker_done_def pool_work_def)
  qed (use assms(2) in \<open>auto simp: enqueue_def Shutdown_begin_def pool_work_def\<close>)
  then show "pool_stop p'" "submitted_of ev = []" "pool_work p' + (if ev = Stopped then 0 else 1) = pool_work p" by blast+
qed

lemma pool_run_work:
  "pool_run p evs p' \<Longrightarrow> pool_stop p \<Longrightarrow>
   pool_stop p' \<and> submitted evs = [] \<and> length (filter (\<lambda>e. e \<noteq> Stopped) evs) + pool_work p' = pool_work p"
proof (induction rule: pool_run.induct)
  case (more evs p1 ev p')
  then have "pool_stop p1" by blast
  from more.IH [OF more.prems] pool_step_work [OF more(2) this] show ?case by (auto simp: history_defs split: if_splits)
qed (simp add: history_defs)

lemma pool_progress:
  assumes "pool_stop p" "\<not> joined p"
  shows "\<exists>ev p'. ev \<noteq> Stopped \<and> pool_step ev p p'"
proof -
  obtain i where i: "i < length (workers p)" "workers p ! i \<noteq> Exited"
    using assms(2) by (auto simp: joined_def list_all_length)
  then consider "workers p ! i = Waiting" | t where "workers p ! i = Running t" by (cases "workers p ! i") auto
  then show ?thesis
  proof cases
    case 1
    obtain p' where w: "worker_wake i p = Some p'" using assms(1) by (cases "pool_tasks p = []") (auto simp: worker_wake_def)
    from w i(1) show ?thesis
    proof (cases rule: worker_wake_cases)
      case leaves
      then show ?thesis using pool_step.leave [OF i(1) 1 w] by blast
    next
      case (takes t ts)
      then show ?thesis using pool_step.take_task [OF i(1) 1 w] by blast
    qed
  next
    case (2 t)
    show ?thesis using pool_step.finish [OF i(1) 2] by blast
  qed
qed

lemma joined_idle:
  fixes p :: "'a ThreadPool"
  assumes "pool_inv p" "joined p" "workers p \<noteq> []"
  shows "pool_tasks p = [] \<and> running_tasks p = {#}"
proof -
  have E: "\<forall>w\<in>set (workers p). w = Exited" using assms(2) by (simp add: joined_def list_all_iff)
  then have "Exited \<in> set (workers p)" using assms(3) by (cases "workers p") auto
  moreover have "sum_list (map task_of ws) = {#}" if "\<forall>w\<in>set ws. w = Exited" for ws :: "'a worker list"
    using that by (induction ws) simp_all
  ultimately show ?thesis using assms(1) E by (simp add: pool_inv_def running_tasks_def)
qed

section \<open>Properties\<close>

text \<open>
  Tasks start in the order in which they were submitted, and no task is lost or run twice:
  what was submitted is what was started followed by what is queued, and what was started is what
  is finished together with what the workers are running, whatever the interleaving of submitters,
  workers and a shutdown.
\<close>

theorem pool_exactly_once:
  assumes "pool_run (new_ThreadPool n) evs p"
  shows "started evs @ pool_tasks p = submitted evs \<and> mset (finished evs) + running_tasks p = mset (started evs)"
  using pool_run_history [OF assms] by simp

theorem pool_exactly_once_witness:
  "\<exists>p. pool_run (new_ThreadPool 1) [Enqueued (5::nat), Started 5] p \<and> running_tasks p = {#5#}"
proof -
  let ?p1 = "\<lparr>workers = [Waiting], pool_tasks = [5::nat], pool_stop = False\<rparr>" and ?p2 = "\<lparr>workers = [Running (5::nat)], pool_tasks = [], pool_stop = False\<rparr>"
  have s1: "pool_step (Enqueued 5) (new_ThreadPool 1) ?p1" by (rule pool_step.submit) (simp add: enqueue_def new_ThreadPool_def)
  have s2: "pool_step (Started 5) ?p1 ?p2" by (rule pool_step.take_task [of 0]) (simp_all add: worker_wake_def)
  have "pool_run (new_ThreadPool 1) [Enqueued 5, Started 5] ?p2"
    using pool_run.more [OF pool_run.more [OF pool_run.start s1] s2] by simp
  then show ?thesis using pool_exactly_once [of 1 "[Enqueued 5, Started 5]" ?p2] by (auto simp: history_defs)
qed

text \<open>
  C20: a shutdown of a pool with at least one worker terminates and drains the queue. However the
  workers of a stopped pool are scheduled, they take at most a number of steps fixed by the state;
  as long as some worker has not left, a step is possible; and when all have left, every task that
  was ever submitted has finished.
\<close>

theorem shutdown_drains:
  assumes "pool_run (new_ThreadPool n) evs p" "pool_stop p" "0 < n" "pool_run p later p'"
  shows "length (filter (\<lambda>e. e \<noteq> Stopped) later) \<le> pool_work p \<and>
    (if joined p' then mset (finished (evs @ later)) = mset (submitted evs) \<and> pool_tasks p' = []
     else \<exists>ev p''. ev \<noteq> Stopped \<and> pool_step ev p' p'')"
proof -
  have run: "pool_run (new_ThreadPool n) (evs @ later) p'" using pool_run_trans assms(4,1) .
  have W: "pool_stop p'" "submitted later = []" "length (filter (\<lambda>e. e \<noteq> Stopped) later) + pool_work p' = pool_work p"
    using pool_run_work [OF assms(4,2)] by blast+
  have "mset (finished (evs @ later)) = mset (submitted evs) \<and> pool_tasks p' = []" if j: "joined p'"
  proof -
    have "workers p' \<noteq> []" using pool_run_workers [OF run] assms(3) by (auto simp: new_ThreadPool_def)
    then have "pool_tasks p' = [] \<and> running_tasks p' = {#}" using joined_idle pool_run_inv [OF run pool_inv_new] j by blast
    then show ?thesis using pool_run_history [OF run] W(2) by (simp add: submitted_def)
  qed
  then show ?thesis using W pool_progress [OF W(1)] by auto
qed

theorem shutdown_drains_witness:
  "\<exists>p p'. pool_run (new_ThreadPool 1) [Stopped :: nat pool_event] p \<and> pool_run p [Left] p' \<and> joined p' \<and> pool_tasks p' = []"
proof -
  let ?p = "\<lparr>workers = [Waiting :: nat worker], pool_tasks = [], pool_stop = True\<rparr>" and ?p' = "\<lparr>workers = [Exited :: nat worker], pool_tasks = [], pool_stop = True\<rparr>"
  have s1: "pool_step Stopped (new_ThreadPool 1) ?p" by (rule pool_step.shutdown [of _ True]) (simp add: Shutdown_begin_def new_ThreadPool_def)
  have r: "pool_run (new_ThreadPool 1) [Stopped] ?p" using pool_run.more [OF pool_run.start s1] by simp
  have s2: "pool_step Left ?p ?p'" by (rule pool_step.leave [of 0]) (simp_all add: worker_wake_def)
  have r': "pool_run ?p [Left] ?p'" using pool_run.more [OF pool_run.start s2] by simp
  show ?thesis using shutdown_drains [OF r _ _ r'] r r' by (intro exI [of _ ?p] exI [of _ ?p']) (simp add: joined_def)
qed

end
