(* ===== verification/TcpServer.thy ===== *)
theory TcpServer
  imports CommandExecutor ThreadPool
begin

text \<open>
  The server (\<open>include/network/TcpServer.h\<close>, \<open>include/network/Connection.h\<close>,
  \<open>src/network/TcpServer.cpp\<close>): connections, event handlers, the worker's task, start, stop and
  cleanup. The theory \<open>TcpSteps\<close> interleaves the event loop with the workers.

  The kernel is a record of its own: open descriptors, the interest list of the epoll instance, the
  counter of the eventfd, the bytes accepted by \<open>write\<close> on each open socket, and scripts with the
  results of the coming system calls, which the theorems leave arbitrary. A call whose script is
  used up would block (\<open>EAGAIN\<close>) if it is an I/O call and succeeds otherwise. \<open>None\<close> stands for
  undefined behaviour, as in the components below. \<open>std::unordered_map\<close> is an association list;
  its iteration order, which the C++ library leaves open, is the order of insertion.
\<close>

unbundle bit_operations_syntax

section \<open>Constants\<close>

type_synonym u32_events = "32 word"

definition EINTR :: int where "EINTR = 4"
definition EAGAIN :: int where "EAGAIN = 11"

definition EPOLLIN :: u32_events where "EPOLLIN = 0x001"
definition EPOLLOUT :: u32_events where "EPOLLOUT = 0x004"
definition EPOLLERR :: u32_events where "EPOLLERR = 0x008"
definition EPOLLHUP :: u32_events where "EPOLLHUP = 0x010"
definition EPOLLRDHUP :: u32_events where "EPOLLRDHUP = 0x2000"

lemmas epoll_defs = EPOLLIN_def EPOLLOUT_def EPOLLERR_def EPOLLHUP_def EPOLLRDHUP_def

definition wants :: "u32_events \<Rightarrow> u32_events \<Rightarrow> bool" where
  "wants ev flag \<longleftrightarrow> ev AND flag \<noteq> 0"

section \<open>Data\<close>

record Connection =
  conn_fd :: int
  generation :: u64
  input_buffer :: NetworkBuffer
  output_buffer :: NetworkBuffer
  conn_parser :: RESPParser
  closing :: bool
  next_request_seq :: u64
  next_write_seq :: u64
  pending_responses :: "(u64 \<times> bytes) list"

definition new_Connection :: "int \<Rightarrow> u64 \<Rightarrow> Connection" where
  "new_Connection client_fd client_generation =
     \<lparr>conn_fd = client_fd, generation = client_generation, input_buffer = new_NetworkBuffer initial_buffer_size,
      output_buffer = new_NetworkBuffer initial_buffer_size, conn_parser = new_RESPParser, closing = False,
      next_request_seq = 0, next_write_seq = 0, pending_responses = []\<rparr>"

record WorkerTask =
  wt_fd :: int
  wt_generation :: u64
  wt_seq :: u64
  wt_command :: "bytes list"

record CompletedTask =
  ct_fd :: int
  ct_generation :: u64
  ct_seq :: u64
  ct_response :: bytes

text \<open>Results of \<open>accept\<close> (with those of the two \<open>fcntl\<close> calls that follow) and of \<open>write\<close>.\<close>

datatype accept_result = AcceptedFd int bool bool | AcceptErr int

datatype write_result = Wrote nat | WriteErr int

record kernel =
  open_fds :: "int set"
  interest :: "int \<rightharpoonup> u32_events"
  wake_counter :: u64
  wire :: "int \<Rightarrow> bytes"
  ctl_script :: "bool list"
  accept_script :: "accept_result list"
  read_script :: "(int + bytes) list"
  write_script :: "write_result list"
  intr_script :: "bool list"

record TcpServer =
  executor_db :: "DBImpl option"
  listen_fd :: int
  epoll_fd :: int
  running :: bool
  connections :: "(int \<times> Connection) list"
  wake_fd :: int
  next_generation :: u64
  completed_queue :: "CompletedTask list"
  thread_pool :: "WorkerTask ThreadPool"
  stopping :: bool
  krnl :: kernel

definition new_TcpServer :: "DBImpl option \<Rightarrow> kernel \<Rightarrow> TcpServer" where
  "new_TcpServer db k =
     \<lparr>executor_db = db, listen_fd = -1, epoll_fd = -1, running = False, connections = [], wake_fd = -1,
      next_generation = 1, completed_queue = [], thread_pool = new_ThreadPool 8, stopping = False, krnl = k\<rparr>"

definition set_conn :: "int \<Rightarrow> Connection \<Rightarrow> TcpServer \<Rightarrow> TcpServer" where
  "set_conn fd conn s = s\<lparr>connections := map (\<lambda>(f, c). if f = fd then (f, conn) else (f, c)) (connections s)\<rparr>"

definition erase_conn :: "int \<Rightarrow> TcpServer \<Rightarrow> TcpServer" where
  "erase_conn fd s = s\<lparr>connections := filter (\<lambda>(f, c). f \<noteq> fd) (connections s)\<rparr>"

section \<open>System calls\<close>

text \<open>\<open>epoll_ctl\<close>: adding needs an unregistered open descriptor, modifying a registered one.\<close>

definition ctl_result :: "kernel \<Rightarrow> bool \<times> kernel" where
  "ctl_result k = (case ctl_script k of [] \<Rightarrow> (True, k) | b # bs \<Rightarrow> (b, k\<lparr>ctl_script := bs\<rparr>))"

definition epoll_add :: "int \<Rightarrow> u32_events \<Rightarrow> kernel \<Rightarrow> bool \<times> kernel" where
  "epoll_add fd ev k =
     (case ctl_result k of (b, k') \<Rightarrow>
        if b \<and> fd \<in> open_fds k \<and> interest k fd = None then (True, k'\<lparr>interest := (interest k')(fd \<mapsto> ev)\<rparr>) else (False, k'))"

definition epoll_mod :: "int \<Rightarrow> u32_events \<Rightarrow> kernel \<Rightarrow> bool \<times> kernel" where
  "epoll_mod fd ev k =
     (case ctl_result k of (b, k') \<Rightarrow>
        if b \<and> interest k fd \<noteq> None then (True, k'\<lparr>interest := (interest k')(fd \<mapsto> ev)\<rparr>) else (False, k'))"

definition epoll_del :: "int \<Rightarrow> kernel \<Rightarrow> kernel" where
  "epoll_del fd k = k\<lparr>interest := (interest k)(fd := None)\<rparr>"

definition sys_open :: "int \<Rightarrow> kernel \<Rightarrow> kernel" where
  "sys_open fd k = k\<lparr>open_fds := insert fd (open_fds k), wire := (wire k)(fd := [])\<rparr>"

definition sys_close :: "int \<Rightarrow> kernel \<Rightarrow> kernel" where
  "sys_close fd k = k\<lparr>open_fds := open_fds k - {fd}, interest := (interest k)(fd := None), wire := (wire k)(fd := [])\<rparr>"

text \<open>An eventfd holds at most \<open>2 ^ 64 - 2\<close>; adding to a full one fails with \<open>EAGAIN\<close>.\<close>

definition eventfd_add :: "kernel \<Rightarrow> kernel" where
  "eventfd_add k = (if wake_counter k < - 2 then k\<lparr>wake_counter := wake_counter k + 1\<rparr> else k)"

definition on_krnl :: "(kernel \<Rightarrow> kernel) \<Rightarrow> TcpServer \<Rightarrow> TcpServer" where
  "on_krnl f s = s\<lparr>krnl := f (krnl s)\<rparr>"

definition AddEpollEvent :: "int \<Rightarrow> u32_events \<Rightarrow> TcpServer \<Rightarrow> bool \<times> TcpServer" where
  "AddEpollEvent fd ev s = (case epoll_add fd ev (krnl s) of (b, k) \<Rightarrow> (b, s\<lparr>krnl := k\<rparr>))"

definition UpdateEpollEvent :: "int \<Rightarrow> u32_events \<Rightarrow> TcpServer \<Rightarrow> bool \<times> TcpServer" where
  "UpdateEpollEvent fd ev s = (case epoll_mod fd ev (krnl s) of (b, k) \<Rightarrow> (b, s\<lparr>krnl := k\<rparr>))"

definition RemoveEpollEvent :: "int \<Rightarrow> TcpServer \<Rightarrow> TcpServer" where
  "RemoveEpollEvent fd s = on_krnl (epoll_del fd) s"

definition SetNonBlocking :: "bool \<Rightarrow> bool \<Rightarrow> bool" where
  "SetNonBlocking getfl_ok setfl_ok = (if \<not> getfl_ok then False else if \<not> setfl_ok then False else True)"

section \<open>Waking, closing, draining\<close>

text \<open>The loop around \<open>write(wake_fd_, ...)\<close>; a \<open>True\<close> in the script is an interrupted call.\<close>

fun wake_loop :: "bool list \<Rightarrow> kernel \<Rightarrow> kernel" where
  "wake_loop (True # rs) k = wake_loop rs k"
| "wake_loop (False # rs) k = eventfd_add (k\<lparr>intr_script := rs\<rparr>)"
| "wake_loop [] k = eventfd_add (k\<lparr>intr_script := []\<rparr>)"

definition WakeEventLoop :: "TcpServer \<Rightarrow> TcpServer" where
  "WakeEventLoop s = (if wake_fd s < 0 then s else on_krnl (\<lambda>k. wake_loop (intr_script k) k) s)"

definition MaybeFinishShutdown :: "TcpServer \<Rightarrow> TcpServer" where
  "MaybeFinishShutdown s =
     (if \<not> stopping s then s
      else if listen_fd s \<ge> 0 then s
      else if connections s \<noteq> [] then s
      else WakeEventLoop (s\<lparr>running := False\<rparr>))"

definition CloseConnection :: "int \<Rightarrow> TcpServer \<Rightarrow> TcpServer" where
  "CloseConnection fd s =
     (case map_of (connections s) fd of
        None \<Rightarrow> s
      | Some conn \<Rightarrow> MaybeFinishShutdown (erase_conn fd (on_krnl (sys_close fd) (RemoveEpollEvent fd s))))"

definition IsConnectionDrained :: "Connection \<Rightarrow> bool" where
  "IsConnectionDrained conn \<longleftrightarrow> ReadableBytes (output_buffer conn) = 0 \<and> pending_responses conn = [] \<and>
     next_write_seq conn = next_request_seq conn"

text \<open>Register other events for a connection, or close it when that fails.\<close>

definition update_or_close :: "int \<Rightarrow> u32_events \<Rightarrow> TcpServer \<Rightarrow> TcpServer" where
  "update_or_close fd ev s =
     (case UpdateEpollEvent fd ev s of (True, s') \<Rightarrow> s' | (False, s') \<Rightarrow> CloseConnection fd s')"

text \<open>
  The loop that moves the contiguous responses to the output buffer; the result says whether there
  was one.
\<close>

function flush_pending :: "Connection \<Rightarrow> bool \<Rightarrow> (Connection \<times> bool) option" where
  "flush_pending conn appended =
     (case map_of (pending_responses conn) (next_write_seq conn) of
        None \<Rightarrow> Some (conn, appended)
      | Some resp \<Rightarrow>
          (case NetworkBuffer_Append resp (output_buffer conn) of
             None \<Rightarrow> None
           | Some ob \<Rightarrow>
               flush_pending
                 (conn\<lparr>output_buffer := ob,
                       pending_responses := filter (\<lambda>(q, r). q \<noteq> next_write_seq conn) (pending_responses conn),
                       next_write_seq := next_write_seq conn + 1\<rparr>) True))"
  by pat_completeness auto
termination
  by (relation "measure (\<lambda>(conn, _). length (pending_responses conn))")
     (auto dest!: map_of_SomeD intro!: length_filter_less)

declare flush_pending.simps [simp del]

definition FailConnectionProtocol :: "Connection \<Rightarrow> int \<Rightarrow> bytes \<Rightarrow> TcpServer \<Rightarrow> TcpServer option" where
  "FailConnectionProtocol conn fd msg s = do {
     rb \<leftarrow> EncodeError msg (new_NetworkBuffer initial_buffer_size);
     let seq = next_request_seq conn;
     let conn1 = conn\<lparr>next_request_seq := seq + 1,
                      pending_responses := try_emplace seq (fst (RetrieveAllAsString rb)) (pending_responses conn),
                      closing := True, input_buffer := RetrieveAll (input_buffer conn)\<rparr>;
     (conn2, appended) \<leftarrow> flush_pending conn1 False;
     Some (update_or_close fd (if appended then EPOLLOUT OR EPOLLRDHUP else EPOLLRDHUP) (set_conn fd conn2 s))
   }"

section \<open>Event handlers\<close>

text \<open>
  A script entry that no kernel returns, a negative or already open descriptor, counts as \<open>EAGAIN\<close>.
\<close>

fun accept_loop :: "accept_result list \<Rightarrow> TcpServer \<Rightarrow> TcpServer" where
  "accept_loop [] s = on_krnl (\<lambda>k. k\<lparr>accept_script := []\<rparr>) s"
| "accept_loop (AcceptErr e # rs) s =
     (if \<not> running s then s
      else if e = EINTR then accept_loop rs s
      else on_krnl (\<lambda>k. k\<lparr>accept_script := rs\<rparr>) s)"
| "accept_loop (AcceptedFd client_fd getfl setfl # rs) s =
     (if \<not> running s then s
      else if client_fd < 0 \<or> client_fd \<in> open_fds (krnl s) then on_krnl (\<lambda>k. k\<lparr>accept_script := rs\<rparr>) s
      else
        let s1 = on_krnl (sys_open client_fd) s in
        if \<not> SetNonBlocking getfl setfl then accept_loop rs (on_krnl (sys_close client_fd) s1)
        else
          let g = next_generation s1; s2 = s1\<lparr>next_generation := g + 1\<rparr> in
          if map_of (connections s2) client_fd \<noteq> None then accept_loop rs (on_krnl (sys_close client_fd) s2)
          else
            (case AddEpollEvent client_fd (EPOLLIN OR EPOLLRDHUP)
                    (s2\<lparr>connections := connections s2 @ [(client_fd, new_Connection client_fd g)]\<rparr>) of
               (True, s3) \<Rightarrow> accept_loop rs s3
             | (False, s3) \<Rightarrow> accept_loop rs (on_krnl (sys_close client_fd) (erase_conn client_fd s3))))"

definition HandleAccept :: "TcpServer \<Rightarrow> TcpServer" where
  "HandleAccept s = accept_loop (accept_script (krnl s)) s"

text \<open>The loop of \<open>HandleRead\<close> that parses commands and hands them to the pool.\<close>

function read_loop :: "int \<Rightarrow> Connection \<Rightarrow> TcpServer \<Rightarrow> TcpServer option" where
  "read_loop fd conn s =
     (case Parse (conn_parser conn) (input_buffer conn) [] of
        None \<Rightarrow> None
      | Some (status, command, p, ib) \<Rightarrow>
          let conn1 = conn\<lparr>conn_parser := p, input_buffer := ib\<rparr> in
          if status = SUCCESS then
            (let seq = next_request_seq conn1; conn2 = conn1\<lparr>next_request_seq := seq + 1\<rparr>;
                 task = \<lparr>wt_fd = fd, wt_generation = generation conn2, wt_seq = seq, wt_command = command\<rparr> in
             case enqueue task (thread_pool s) of
               None \<Rightarrow> Some (CloseConnection fd (set_conn fd conn2 s))
             | Some pool \<Rightarrow> read_loop fd conn2 (s\<lparr>thread_pool := pool\<rparr>))
          else if status = INCOMPLETE then Some (set_conn fd conn1 s)
          else FailConnectionProtocol conn1 fd ''protocol error'' s)"
  by pat_completeness auto
termination
  by (relation "measure (\<lambda>(fd, conn, s). ReadableBytes (input_buffer conn))") (auto dest: Parse_keeps)

declare read_loop.simps [simp del]

definition read_result :: "TcpServer \<Rightarrow> (int + bytes) \<times> TcpServer" where
  "read_result s =
     (case read_script (krnl s) of
        [] \<Rightarrow> (Inl EAGAIN, s)
      | r # rs \<Rightarrow> (r, on_krnl (\<lambda>k. k\<lparr>read_script := rs\<rparr>) s))"

definition HandleRead :: "int \<Rightarrow> TcpServer \<Rightarrow> TcpServer option" where
  "HandleRead fd s =
     (case map_of (connections s) fd of
        None \<Rightarrow> Some s
      | Some conn \<Rightarrow>
          if closing conn then Some s
          else
            (case read_result s of (res, s1) \<Rightarrow> do {
               (n, savedErrno, ib) \<leftarrow> ReadFromFd res (input_buffer conn);
               let conn1 = conn\<lparr>input_buffer := ib\<rparr>;
               if n = 0 then Some (CloseConnection fd (set_conn fd conn1 s1))
               else if n < 0 then
                 (if savedErrno = EAGAIN then Some (set_conn fd conn1 s1)
                  else if savedErrno = EINTR then Some (set_conn fd conn1 s1)
                  else Some (CloseConnection fd (set_conn fd conn1 s1)))
               else read_loop fd conn1 s1
             }))"

text \<open>The loop around \<open>write\<close>; the result is false when the connection has to be closed.\<close>

fun write_loop :: "write_result list \<Rightarrow> int \<Rightarrow> Connection \<Rightarrow> kernel \<Rightarrow> bool \<times> Connection \<times> kernel" where
  "write_loop [] fd conn k = (True, conn, k\<lparr>write_script := []\<rparr>)"
| "write_loop (r # rs) fd conn k =
     (if ReadableBytes (output_buffer conn) = 0 then (True, conn, k\<lparr>write_script := r # rs\<rparr>)
      else
        (case r of
           Wrote m \<Rightarrow>
             (let n = min m (ReadableBytes (output_buffer conn)) in
              if n > 0 then
                write_loop rs fd (conn\<lparr>output_buffer := Retrieve n (output_buffer conn)\<rparr>)
                  (k\<lparr>wire := (wire k)(fd := wire k fd @ take n (Peek (output_buffer conn)))\<rparr>)
              else (True, conn, k\<lparr>write_script := rs\<rparr>))
         | WriteErr e \<Rightarrow>
             if e = EINTR then write_loop rs fd conn k
             else if e = EAGAIN then (True, conn, k\<lparr>write_script := rs\<rparr>)
             else (False, conn, k\<lparr>write_script := rs\<rparr>)))"

definition HandleWrite :: "int \<Rightarrow> TcpServer \<Rightarrow> TcpServer" where
  "HandleWrite fd s =
     (case map_of (connections s) fd of
        None \<Rightarrow> s
      | Some conn0 \<Rightarrow>
          (case write_loop (write_script (krnl s)) fd conn0 (krnl s) of
             (ok, conn, k) \<Rightarrow>
               let s1 = set_conn fd conn (s\<lparr>krnl := k\<rparr>) in
               if \<not> ok then CloseConnection fd s1
               else if ReadableBytes (output_buffer conn) = 0 then
                 (if closing conn then
                    (if IsConnectionDrained conn then CloseConnection fd s1
                     else update_or_close fd EPOLLRDHUP s1)
                  else update_or_close fd (EPOLLIN OR EPOLLRDHUP) s1)
               else s1))"

definition HandleConnectionEvent :: "int \<Rightarrow> u32_events \<Rightarrow> TcpServer \<Rightarrow> TcpServer option" where
  "HandleConnectionEvent fd events s =
     (if \<not> running s then Some s
      else if wants events (EPOLLERR OR EPOLLHUP) then Some (CloseConnection fd s)
      else do {
        s1 \<leftarrow> (if wants events EPOLLIN then HandleRead fd s else Some s);
        Some (if wants events EPOLLOUT then HandleWrite fd s1 else s1)
      })"

section \<open>Completions\<close>

text \<open>The loop that reads the eventfd until it is empty.\<close>

fun drain_wake :: "bool list \<Rightarrow> kernel \<Rightarrow> kernel" where
  "drain_wake (True # rs) k = drain_wake rs k"
| "drain_wake (False # rs) k =
     (if wake_counter k > 0 then drain_wake rs (k\<lparr>wake_counter := 0\<rparr>) else k\<lparr>intr_script := rs\<rparr>)"
| "drain_wake [] k = k\<lparr>wake_counter := 0, intr_script := []\<rparr>"

fun process_completions :: "CompletedTask list \<Rightarrow> TcpServer \<Rightarrow> TcpServer option" where
  "process_completions [] s = Some s"
| "process_completions (task # local) s =
     (case map_of (connections s) (ct_fd task) of
        None \<Rightarrow> process_completions local s
      | Some conn \<Rightarrow>
          if generation conn \<noteq> ct_generation task then process_completions local s
          else do {
            (conn2, appended) \<leftarrow> flush_pending
              (conn\<lparr>pending_responses := try_emplace (ct_seq task) (ct_response task) (pending_responses conn)\<rparr>) False;
            let s1 = set_conn (ct_fd task) conn2 s;
            process_completions local
              (if appended
               then update_or_close (ct_fd task)
                      (if closing conn2 then EPOLLOUT OR EPOLLRDHUP else EPOLLIN OR EPOLLRDHUP OR EPOLLOUT) s1
               else s1)
          })"

definition completions_drain :: "TcpServer \<Rightarrow> TcpServer" where
  "completions_drain s = on_krnl (\<lambda>k. drain_wake (intr_script k) k) s"

definition completions_process :: "TcpServer \<Rightarrow> TcpServer option" where
  "completions_process s =
     map_option MaybeFinishShutdown (process_completions (completed_queue s) (s\<lparr>completed_queue := []\<rparr>))"

definition HandleWorkerCompletions :: "TcpServer \<Rightarrow> TcpServer option" where
  "HandleWorkerCompletions s = completions_process (completions_drain s)"

section \<open>The worker's task\<close>

text \<open>
  The response to a command; \<open>exn\<close> is the database a call that throws leaves behind. The inner
  \<open>None\<close> is a task that waits in \<open>Put\<close>.
\<close>

definition task_response ::
  "DBImpl option option \<Rightarrow> (nat \<Rightarrow> bool) \<Rightarrow> bytes list \<Rightarrow> DBImpl option \<Rightarrow> (bytes \<times> DBImpl option) option option" where
  "task_response exn coin command db =
     (let rb = new_NetworkBuffer initial_buffer_size in
      case exn of
        Some db' \<Rightarrow> map_option (\<lambda>b. Some (fst (RetrieveAllAsString b), db')) (EncodeError ''internal server error'' rb)
      | None \<Rightarrow> map_option (map_option (\<lambda>(db', b). (fst (RetrieveAllAsString b), db'))) (Execute coin command db rb))"

definition push_completed :: "WorkerTask \<Rightarrow> bytes \<Rightarrow> TcpServer \<Rightarrow> TcpServer" where
  "push_completed wt resp s =
     s\<lparr>completed_queue := completed_queue s @
        [\<lparr>ct_fd = wt_fd wt, ct_generation = wt_generation wt, ct_seq = wt_seq wt, ct_response = resp\<rparr>]\<rparr>"

definition task_wake :: "TcpServer \<Rightarrow> TcpServer" where
  "task_wake s = on_krnl (\<lambda>k. wake_loop (intr_script k) k) s"

section \<open>Start, run, stop\<close>

record start_env =
  sock_result :: int
  sockopt_ok :: bool
  getfl_ok :: bool
  setfl_ok :: bool
  bind_ok :: bool
  listen_ok :: bool
  epoll_result :: int
  eventfd_result :: int

definition close_listen :: "TcpServer \<Rightarrow> TcpServer" where
  "close_listen s = (on_krnl (sys_close (listen_fd s)) s)\<lparr>listen_fd := -1\<rparr>"

definition InitListenSocket :: "start_env \<Rightarrow> TcpServer \<Rightarrow> bool \<times> TcpServer" where
  "InitListenSocket env s =
     (let s1 = s\<lparr>listen_fd := sock_result env\<rparr> in
      if sock_result env < 0 then (False, s1)
      else
        let s2 = on_krnl (sys_open (sock_result env)) s1 in
        if \<not> sockopt_ok env then (False, close_listen s2)
        else if \<not> SetNonBlocking (getfl_ok env) (setfl_ok env) then (False, close_listen s2)
        else if \<not> bind_ok env then (False, close_listen s2)
        else if \<not> listen_ok env then (False, close_listen s2)
        else (True, s2))"

definition InitEpoll :: "start_env \<Rightarrow> TcpServer \<Rightarrow> bool \<times> TcpServer" where
  "InitEpoll env s =
     (if epoll_result env < 0 then (False, s\<lparr>epoll_fd := -1\<rparr>)
      else (True, (on_krnl (sys_open (epoll_result env)) s)\<lparr>epoll_fd := epoll_result env\<rparr>))"

definition InitWakeFd :: "start_env \<Rightarrow> TcpServer \<Rightarrow> bool \<times> TcpServer" where
  "InitWakeFd env s =
     (if eventfd_result env < 0 then (False, s\<lparr>wake_fd := -1\<rparr>)
      else
        let s1 = (on_krnl (\<lambda>k. (sys_open (eventfd_result env) k)\<lparr>wake_counter := 0\<rparr>) s)\<lparr>wake_fd := eventfd_result env\<rparr> in
        case AddEpollEvent (wake_fd s1) EPOLLIN s1 of
          (True, s2) \<Rightarrow> (True, s2)
        | (False, s2) \<Rightarrow> (False, (on_krnl (sys_close (wake_fd s2)) s2)\<lparr>wake_fd := -1\<rparr>))"

text \<open>
  \<open>Cleanup\<close> up to the call of \<open>Shutdown\<close>, which returns when the workers have left, and after it.
\<close>

definition Cleanup_begin :: "TcpServer \<Rightarrow> TcpServer" where
  "Cleanup_begin s =
     (let s1 = (if listen_fd s \<ge> 0 then close_listen (RemoveEpollEvent (listen_fd s) s) else s)
      in s1\<lparr>thread_pool := snd (Shutdown_begin (thread_pool s1))\<rparr>)"

definition Cleanup_end :: "TcpServer \<Rightarrow> TcpServer" where
  "Cleanup_end s =
     (let s1 = s\<lparr>completed_queue := []\<rparr>;
          s2 = fold (\<lambda>(fd, conn) t. on_krnl (sys_close fd) (RemoveEpollEvent fd t)) (connections s1) s1;
          s3 = s2\<lparr>connections := []\<rparr>;
          s4 = (if wake_fd s3 \<ge> 0
                then (on_krnl (sys_close (wake_fd s3)) (RemoveEpollEvent (wake_fd s3) s3))\<lparr>wake_fd := -1\<rparr> else s3)
      in if epoll_fd s4 \<ge> 0 then (on_krnl (sys_close (epoll_fd s4)) s4)\<lparr>epoll_fd := -1\<rparr> else s4)"

definition Cleanup :: "TcpServer \<Rightarrow> TcpServer" where
  "Cleanup s = Cleanup_end (Cleanup_begin s)"

definition Start :: "start_env \<Rightarrow> TcpServer \<Rightarrow> bool \<times> TcpServer" where
  "Start env s =
     (case InitListenSocket env s of
        (False, s1) \<Rightarrow> (False, s1)
      | (True, s1) \<Rightarrow>
          (case InitEpoll env s1 of
             (False, s2) \<Rightarrow> (False, Cleanup s2)
           | (True, s2) \<Rightarrow>
               (case AddEpollEvent (listen_fd s2) EPOLLIN s2 of
                  (False, s3) \<Rightarrow> (False, Cleanup s3)
                | (True, s3) \<Rightarrow>
                    (case InitWakeFd env s3 of
                       (False, s4) \<Rightarrow> (False, Cleanup s4)
                     | (True, s4) \<Rightarrow> (True, s4\<lparr>stopping := False, running := True\<rparr>)))))"

text \<open>The loop of \<open>Stop\<close> over the connections, with the descriptors to close.\<close>

fun stop_loop :: "(int \<times> Connection) list \<Rightarrow> TcpServer \<Rightarrow> int list \<times> TcpServer" where
  "stop_loop [] s = ([], s)"
| "stop_loop ((fd, conn) # cs) s =
     (let conn1 = conn\<lparr>closing := True, input_buffer := RetrieveAll (input_buffer conn)\<rparr>;
          s1 = set_conn fd conn1 s in
      if IsConnectionDrained conn1 then apfst ((#) fd) (stop_loop cs s1)
      else
        (case UpdateEpollEvent fd (EPOLLRDHUP OR EPOLLOUT) s1 of
           (True, s2) \<Rightarrow> stop_loop cs s2
         | (False, s2) \<Rightarrow> apfst ((#) fd) (stop_loop cs s2)))"

definition Stop :: "TcpServer \<Rightarrow> TcpServer" where
  "Stop s =
     (if \<not> running s then s
      else if stopping s then WakeEventLoop s
      else
        let s1 = s\<lparr>stopping := True\<rparr>;
            s2 = (if listen_fd s1 \<ge> 0 then close_listen (RemoveEpollEvent (listen_fd s1) s1) else s1) in
        case stop_loop (connections s2) s2 of
          (to_close, s3) \<Rightarrow> MaybeFinishShutdown (WakeEventLoop (fold CloseConnection to_close s3)))"

text \<open>One ready descriptor in the event loop, and a batch of them.\<close>

definition handle_event :: "int \<times> u32_events \<Rightarrow> TcpServer \<Rightarrow> TcpServer option" where
  "handle_event e s =
     (if fst e = listen_fd s then Some (HandleAccept s)
      else if fst e = wake_fd s then HandleWorkerCompletions s
      else HandleConnectionEvent (fst e) (snd e) s)"

fun handle_events :: "(int \<times> u32_events) list \<Rightarrow> TcpServer \<Rightarrow> TcpServer option" where
  "handle_events [] s = Some s"
| "handle_events (e # es) s = (if \<not> running s then Some s else do { s' \<leftarrow> handle_event e s; handle_events es s' })"

text \<open>
  The event loop without interference by other threads, on the results of \<open>epoll_wait\<close>: an error
  number or a batch. When the results are used up the call would block: the loop is left as it is.
\<close>

fun Run :: "(int + (int \<times> u32_events) list) list \<Rightarrow> TcpServer \<Rightarrow> TcpServer option" where
  "Run ws s =
     (if \<not> running s then Some (Cleanup s)
      else
        (case ws of
           [] \<Rightarrow> Some s
         | Inl e # ws' \<Rightarrow> if e = EINTR then Run ws' s else Some (Cleanup s)
         | Inr batch # ws' \<Rightarrow> do { s' \<leftarrow> handle_events batch s; Run ws' s' }))"

text \<open>The destructor.\<close>

definition delete_TcpServer :: "TcpServer \<Rightarrow> TcpServer" where
  "delete_TcpServer s = Cleanup (Stop s)"

end
