(* ===== verification/TcpConn.thy ===== *)
theory TcpConn
  imports TcpServer
begin

text \<open>
  The invariant of a connection and of the set of connections, and that the event handlers keep it.
  Responses are ordered: what a client was sent, followed by the output buffer, is the
  concatenation of the responses to its first requests, in the order of the requests, and the
  pending responses are exactly those that arrived too early. A connection is never stuck: it waits
  for input, for a response of a worker, or is registered for output.
\<close>

section \<open>Sequence numbers\<close>

lemma u64_of_nat: "n < 2 ^ 64 \<Longrightarrow> unat (of_nat n :: u64) = n"
  by (simp add: of_nat_inverse)

lemma u64_of_nat_unat [simp]: "of_nat (unat (q :: u64)) = q"
  by simp

lemma u64_less: "unat (q :: u64) < 2 ^ 64"
  using unsigned_less [of q] by simp

lemma u64_eq_of_nat: "n < 2 ^ 64 \<Longrightarrow> q = (of_nat n :: u64) \<longleftrightarrow> unat q = n"
  by (metis u64_of_nat u64_of_nat_unat)

lemma u64_of_nat_inj: "m < 2 ^ 64 \<Longrightarrow> n < 2 ^ 64 \<Longrightarrow> (of_nat m :: u64) = of_nat n \<longleftrightarrow> m = n"
  by (metis u64_of_nat)

lemma u64_below: "n < 2 ^ 64 \<Longrightarrow> unat q < Suc n \<longleftrightarrow> unat q < n \<or> q = (of_nat n :: u64)"
  by (auto simp: u64_eq_of_nat less_Suc_eq)

section \<open>Ordered responses\<close>

text \<open>
  Of \<open>m\<close> requests the first \<open>w\<close> are written; \<open>R\<close> holds the responses known, by sequence number, and
  \<open>sent\<close> the bytes that left the output buffer.
\<close>

definition written :: "(u64 \<rightharpoonup> bytes) \<Rightarrow> nat \<Rightarrow> bytes" where
  "written R w = concat (map (\<lambda>i. the (R (of_nat i))) [0..<w])"

lemma written_Suc [simp]: "written R (Suc w) = written R w @ the (R (of_nat w))"
  by (simp add: written_def)

lemma written_0 [simp]: "written R 0 = []"
  by (simp add: written_def)

lemma written_cong: "(\<And>i. i < w \<Longrightarrow> R (of_nat i) = S (of_nat i)) \<Longrightarrow> written R w = written S w"
  by (induction w) simp_all

definition ordered :: "(u64 \<rightharpoonup> bytes) \<Rightarrow> nat \<Rightarrow> nat \<Rightarrow> bytes \<Rightarrow> Connection \<Rightarrow> bool" where
  "ordered R m w sent conn \<longleftrightarrow>
     nb_ok (output_buffer conn) \<and> sorted_keys (pending_responses conn) \<and>
     next_write_seq conn = of_nat w \<and> next_request_seq conn = of_nat m \<and> w \<le> m \<and> m < 2 ^ 64 \<and>
     (\<forall>q. R q \<noteq> None \<longrightarrow> unat q < m) \<and>
     (\<forall>q. map_of (pending_responses conn) q = (if unat q < w then None else R q)) \<and>
     (\<forall>i<w. R (of_nat i) \<noteq> None) \<and>
     sent @ Peek (output_buffer conn) = written R w"

text \<open>The fields the handlers of responses leave alone.\<close>

definition same_input :: "Connection \<Rightarrow> Connection \<Rightarrow> bool" where
  "same_input c d \<longleftrightarrow> conn_fd d = conn_fd c \<and> generation d = generation c \<and> input_buffer d = input_buffer c \<and>
     conn_parser d = conn_parser c \<and> closing d = closing c \<and> next_request_seq d = next_request_seq c"

lemma same_input_refl [simp]: "same_input c c"
  by (simp add: same_input_def)

lemma same_input_trans: "same_input c d \<Longrightarrow> same_input d e \<Longrightarrow> same_input c e"
  by (simp add: same_input_def)

lemma map_of_filter_key: "map_of (filter (\<lambda>(q, r). q \<noteq> k) xs) = (map_of xs)(k := None)"
  by (induction xs) (auto simp: fun_eq_iff)

lemma ordered_move:
  assumes o: "ordered R m w sent conn" and r: "R (of_nat w) = Some resp"
    and ob: "nb_ok ob" "Peek ob = Peek (output_buffer conn) @ resp"
  shows "ordered R m (Suc w) sent (conn\<lparr>output_buffer := ob,
      pending_responses := filter (\<lambda>(q, r). q \<noteq> next_write_seq conn) (pending_responses conn),
      next_write_seq := next_write_seq conn + 1\<rparr>)"
proof -
  have m: "w \<le> m" "m < 2 ^ 64" and d: "\<And>q. R q \<noteq> None \<Longrightarrow> unat q < m" and n: "next_write_seq conn = of_nat w"
    and pend: "\<And>q. map_of (pending_responses conn) q = (if unat q < w then None else R q)"
    using o by (auto simp: ordered_def)
  have w: "w < m" using d [of "of_nat w"] r m u64_of_nat [of w] by auto
  have "map_of (filter (\<lambda>(q, r). q \<noteq> of_nat w) (pending_responses conn)) q = (if unat q < Suc w then None else R q)" for q
    using u64_below [of w q] w m by (auto simp: map_of_filter_key pend)
  moreover have "sent @ Peek ob = written R (Suc w)"
    using o r ob(2) by (simp add: ordered_def)
  ultimately show ?thesis
    using o r ob w by (auto simp: ordered_def n less_Suc_eq sorted_keys_filter)
qed

lemma flush_pending_ordered:
  "ordered R m w sent conn \<Longrightarrow>
   \<exists>conn' appended' w'. flush_pending conn appended = Some (conn', appended') \<and> ordered R m w' sent conn' \<and>
     R (of_nat w') = None \<and> w \<le> w' \<and> (appended' \<longleftrightarrow> appended \<or> w < w') \<and> (w' = w \<longrightarrow> conn' = conn) \<and> same_input conn conn'"
proof (induction conn appended arbitrary: w rule: flush_pending.induct)
  case (1 conn appended)
  have n: "next_write_seq conn = of_nat w" "w \<le> m" "m < 2 ^ 64" and ok: "nb_ok (output_buffer conn)"
    and pend: "map_of (pending_responses conn) (of_nat w) = (if unat (of_nat w :: u64) < w then None else R (of_nat w))"
    using "1.prems" by (auto simp: ordered_def)
  then have p: "map_of (pending_responses conn) (next_write_seq conn) = R (of_nat w)" by (simp add: u64_of_nat)
  show ?case
  proof (cases "R (of_nat w)")
    case None
    then have "flush_pending conn appended = Some (conn, appended)" by (simp add: flush_pending.simps [of conn] p)
    then show ?thesis using "1.prems" None by auto
  next
    case (Some resp)
    obtain ob where ob: "NetworkBuffer_Append resp (output_buffer conn) = Some ob" "nb_ok ob"
      "Peek ob = Peek (output_buffer conn) @ resp"
      by (rule nb.append_obtain [OF ok])
    let ?c = "conn\<lparr>output_buffer := ob,
      pending_responses := filter (\<lambda>(q, r). q \<noteq> next_write_seq conn) (pending_responses conn),
      next_write_seq := next_write_seq conn + 1\<rparr>"
    have f: "flush_pending conn appended = flush_pending ?c True"
      by (subst flush_pending.simps) (simp add: p Some ob(1))
    have "ordered R m (Suc w) sent ?c" by (rule ordered_move [OF "1.prems" Some ob(2,3)])
    from "1.IH" [OF _ ob(1) this] obtain conn' appended' w' where
      "flush_pending ?c True = Some (conn', appended')" "ordered R m w' sent conn'" "R (of_nat w') = None" "Suc w \<le> w'"
      "appended'" "same_input ?c conn'"
      using p Some by auto
    then show ?thesis unfolding f by (intro exI [of _ conn'] exI [of _ appended'] exI [of _ w']) (simp add: same_input_def)
  qed
qed

text \<open>A new response.\<close>

lemma ordered_add:
  assumes o: "ordered R m w sent conn" and q: "R q = None" "unat q < m'" "m \<le> m'" "m' < 2 ^ 64" "R (of_nat w) = None"
    and c: "pending_responses conn' = try_emplace q resp (pending_responses conn)" "output_buffer conn' = output_buffer conn"
      "next_write_seq conn' = next_write_seq conn" "next_request_seq conn' = of_nat m'"
    and w: "w \<le> unat q"
  shows "ordered (R(q \<mapsto> resp)) m' w sent conn'"
proof -
  have s: "sorted_keys (pending_responses conn)" and d: "\<And>a. R a \<noteq> None \<Longrightarrow> unat a < m" and le: "w \<le> m" "m < 2 ^ 64"
    and pend: "\<And>a. map_of (pending_responses conn) a = (if unat a < w then None else R a)"
    using o by (auto simp: ordered_def)
  have "unat a < m'" if "(R(q \<mapsto> resp)) a \<noteq> None" for a using that q d [of a] by (auto split: if_splits)
  moreover have "map_of (try_emplace q resp (pending_responses conn)) a = (if unat a < w then None else (R(q \<mapsto> resp)) a)" for a
    using q(1) w by (auto simp: map_of_try_emplace [OF s] pend)
  moreover have "of_nat i \<noteq> q" if "i < w" for i using that w le u64_eq_of_nat [of i q] by auto
  moreover from this have "written (R(q \<mapsto> resp)) w = written R w" by (intro written_cong) simp
  ultimately show ?thesis
    using o q c s le by (simp add: ordered_def)
qed

lemma ordered_sent:
  assumes "ordered R m w sent conn" "n \<le> ReadableBytes (output_buffer conn)"
  shows "ordered R m w (sent @ take n (Peek (output_buffer conn))) (conn\<lparr>output_buffer := Retrieve n (output_buffer conn)\<rparr>)"
  using assms nb.retrieve_law [of "output_buffer conn" n] by (auto simp: ordered_def)

lemma ordered_new: "ordered Map.empty 0 0 [] (new_Connection fd g)"
  by (simp add: ordered_def new_Connection_def)

lemma ordered_requests:
  assumes "ordered R m w sent conn" "m' < 2 ^ 64" "m \<le> m'" "output_buffer conn' = output_buffer conn"
    "pending_responses conn' = pending_responses conn" "next_write_seq conn' = next_write_seq conn" "next_request_seq conn' = of_nat m'"
  shows "ordered R m' w sent conn'"
  using assms by (auto simp: ordered_def intro: less_le_trans)

lemma ordered_drained:
  assumes "ordered R m w sent conn"
  shows "next_write_seq conn = next_request_seq conn \<longleftrightarrow> w = m" "w = m \<Longrightarrow> pending_responses conn = []"
proof -
  have m: "w \<le> m" "m < 2 ^ 64" "next_write_seq conn = of_nat w" "next_request_seq conn = of_nat m"
    and d: "\<And>q. R q \<noteq> None \<Longrightarrow> unat q < m"
    and p: "\<And>q. map_of (pending_responses conn) q = (if unat q < w then None else R q)"
    using assms by (auto simp: ordered_def)
  show "next_write_seq conn = next_request_seq conn \<longleftrightarrow> w = m" using m u64_of_nat_inj [of w m] by simp
  show "pending_responses conn = []" if "w = m"
  proof -
    have "map_of (pending_responses conn) q = None" for q using p [of q] d [of q] that by (cases "R q") auto
    then show ?thesis by (simp add: map_of_eq_empty_iff [symmetric] fun_eq_iff)
  qed
qed

section \<open>Connections\<close>

text \<open>The tasks a connection submitted, and the responses computed for them, by sequence number.\<close>

definition gen_tasks :: "u64 \<Rightarrow> WorkerTask list \<Rightarrow> WorkerTask list" where
  "gen_tasks g H = filter (\<lambda>t. wt_generation t = g) H"

definition responses :: "u64 \<Rightarrow> (WorkerTask \<times> bytes) list \<Rightarrow> u64 \<rightharpoonup> bytes" where
  "responses g P = map_of (map (\<lambda>(t, r). (wt_seq t, r)) (filter (\<lambda>(t, r). wt_generation t = g) P))"

definition protocol_error_reply :: bytes where
  "protocol_error_reply = reply_bytes (ErrorReply ''protocol error'')"

text \<open>
  \<open>H\<close> lists the submitted tasks, \<open>P\<close> the responses the event loop has processed. A protocol error
  counts as one more request, the last, answered by the server itself.
\<close>

definition answered :: "WorkerTask list \<Rightarrow> (WorkerTask \<times> bytes) list \<Rightarrow> Connection \<Rightarrow> nat \<Rightarrow> (u64 \<rightharpoonup> bytes) \<Rightarrow> bool" where
  "answered H P conn m R \<longleftrightarrow>
     (let n = length (gen_tasks (generation conn) H) in
      m = n \<and> R = responses (generation conn) P \<or>
      m = Suc n \<and> closing conn \<and> R = (responses (generation conn) P)(of_nat n \<mapsto> protocol_error_reply))"

definition conn_order :: "WorkerTask list \<Rightarrow> (WorkerTask \<times> bytes) list \<Rightarrow> kernel \<Rightarrow> int \<Rightarrow> Connection \<Rightarrow> bool" where
  "conn_order H P k fd conn \<longleftrightarrow> conn_fd conn = fd \<and> nb_ok (input_buffer conn) \<and>
     (\<forall>t\<in>set (gen_tasks (generation conn) H). wt_fd t = fd) \<and>
     (\<exists>m w R. ordered R m w (wire k fd) conn \<and> R (of_nat w) = None \<and> answered H P conn m R)"

definition live_with :: "u32_events \<Rightarrow> Connection \<Rightarrow> bool" where
  "live_with ev conn \<longleftrightarrow> (\<not> closing conn \<longrightarrow> wants ev EPOLLIN) \<and>
     (next_write_seq conn \<noteq> next_request_seq conn \<or> (Peek (output_buffer conn) = [] \<and> \<not> closing conn) \<or> wants ev EPOLLOUT)"

definition conn_live :: "kernel \<Rightarrow> int \<Rightarrow> Connection \<Rightarrow> bool" where
  "conn_live k fd conn \<longleftrightarrow> (\<exists>ev. interest k fd = Some ev \<and> live_with ev conn)"

definition fixed_fds :: "TcpServer \<Rightarrow> int set" where
  "fixed_fds s = {x \<in> {listen_fd s, wake_fd s, epoll_fd s}. 0 \<le> x}"

text \<open>Every open descriptor has one owner, every connection a generation of its own.\<close>

definition shape :: "TcpServer \<Rightarrow> bool" where
  "shape s \<longleftrightarrow>
     distinct (map fst (connections s)) \<and>
     (\<forall>fd\<in>fst ` set (connections s). 0 \<le> fd \<and> fd \<notin> fixed_fds s) \<and>
     open_fds (krnl s) = fixed_fds s \<union> fst ` set (connections s) \<and>
     (0 \<le> listen_fd s \<longrightarrow> listen_fd s \<noteq> wake_fd s \<and> listen_fd s \<noteq> epoll_fd s) \<and>
     distinct (map (generation \<circ> snd) (connections s)) \<and>
     (\<forall>g\<in>set (map (generation \<circ> snd) (connections s)). unat g < unat (next_generation s))"

lemma generation_unique:
  assumes "shape s" "map_of (connections s) fd = Some conn" "map_of (connections s) fd' = Some conn'" "generation conn = generation conn'"
  shows "fd = fd'"
proof -
  have "inj_on (generation \<circ> snd) (set (connections s))" using assms(1) by (simp add: shape_def distinct_map)
  from inj_onD [OF this _ map_of_SomeD [OF assms(2)] map_of_SomeD [OF assms(3)]] assms(4) show ?thesis by simp
qed

lemma generation_bound:
  assumes "shape s" "map_of (connections s) fd = Some conn"
  shows "unat (generation conn) < unat (next_generation s)"
proof -
  have "(generation \<circ> snd) (fd, conn) \<in> (generation \<circ> snd) ` set (connections s)"
    by (rule imageI) (rule map_of_SomeD [OF assms(2)])
  then have "generation conn \<in> set (map (generation \<circ> snd) (connections s))" by simp
  then show ?thesis using assms(1) unfolding shape_def by blast
qed

lemma shape_krnl: "open_fds k = open_fds (krnl s) \<Longrightarrow> shape (s\<lparr>krnl := k\<rparr>) = shape s"
  by (simp add: shape_def fixed_fds_def)

text \<open>The connections other than those in \<open>X\<close> are in order.\<close>

definition conns_ok :: "int set \<Rightarrow> WorkerTask list \<Rightarrow> (WorkerTask \<times> bytes) list \<Rightarrow> TcpServer \<Rightarrow> bool" where
  "conns_ok X H P s \<longleftrightarrow> shape s \<and>
     (\<forall>fd conn. map_of (connections s) fd = Some conn \<and> fd \<notin> X \<longrightarrow>
        conn_order H P (krnl s) fd conn \<and> conn_live (krnl s) fd conn)"

lemma conns_okD:
  assumes "conns_ok X H P s" "map_of (connections s) fd = Some conn" "fd \<notin> X"
  shows "conn_order H P (krnl s) fd conn" "conn_live (krnl s) fd conn"
  using assms by (auto simp: conns_ok_def)

lemma conns_ok_mono: "conns_ok X H P s \<Longrightarrow> X \<subseteq> Y \<Longrightarrow> conns_ok Y H P s"
  by (auto simp: conns_ok_def)

lemma conns_ok_fields [simp]:
  "conns_ok X H P (s\<lparr>running := b\<rparr>) = conns_ok X H P s" "conns_ok X H P (s\<lparr>stopping := b\<rparr>) = conns_ok X H P s"
  "conns_ok X H P (s\<lparr>completed_queue := q\<rparr>) = conns_ok X H P s" "conns_ok X H P (s\<lparr>thread_pool := p\<rparr>) = conns_ok X H P s"
  "conns_ok X H P (s\<lparr>executor_db := d\<rparr>) = conns_ok X H P s"
  by (simp_all add: conns_ok_def shape_def fixed_fds_def)

text \<open>Changes of the kernel that do not touch the connections.\<close>

lemma conns_ok_krnl:
  assumes "conns_ok X H P s" "open_fds k = open_fds (krnl s)"
    and "\<And>fd. fd \<in> fst ` set (connections s) \<Longrightarrow> fd \<notin> X \<Longrightarrow> wire k fd = wire (krnl s) fd \<and> interest k fd = interest (krnl s) fd"
  shows "conns_ok X H P (s\<lparr>krnl := k\<rparr>)"
proof -
  have "conn_order H P k fd conn \<and> conn_live k fd conn" if "map_of (connections s) fd = Some conn" "fd \<notin> X" for fd conn
    using conns_okD [OF assms(1) that] assms(3) [of fd] that map_of_SomeD [OF that(1)]
    by (force simp: conn_order_def conn_live_def)
  then show ?thesis using assms(1,2) by (simp add: conns_ok_def shape_krnl)
qed

lemma wake_loop_same [simp]:
  "open_fds (wake_loop rs k) = open_fds k" "wire (wake_loop rs k) = wire k" "interest (wake_loop rs k) = interest k"
  by (induction rs k rule: wake_loop.induct) (simp_all add: eventfd_add_def)

lemma WakeEventLoop_ok [simp]: "conns_ok X H P s \<Longrightarrow> conns_ok X H P (WakeEventLoop s)"
  by (simp add: WakeEventLoop_def on_krnl_def conns_ok_krnl)

lemma MaybeFinishShutdown_ok [simp]: "conns_ok X H P s \<Longrightarrow> conns_ok X H P (MaybeFinishShutdown s)"
  by (simp add: MaybeFinishShutdown_def)

lemma map_fst_set_conn [simp]: "map fst (connections (set_conn fd conn s)) = map fst (connections s)"
  by (simp add: set_conn_def comp_def split_beta if_distrib cong: if_cong)

lemma fst_set_conn [simp]: "fst ` set (connections (set_conn fd conn s)) = fst ` set (connections s)"
  by (metis list.set_map map_fst_set_conn)

lemma map_of_set_conn [simp]:
  "map_of (connections (set_conn fd conn s)) f =
     (if f = fd then map_option (\<lambda>_. conn) (map_of (connections s) fd) else map_of (connections s) f)"
proof -
  have "map_of (map (\<lambda>(f, c). if f = fd then (f, conn) else (f, c)) xs) f =
      (if f = fd then map_option (\<lambda>_. conn) (map_of xs fd) else map_of xs f)" for xs
    by (induction xs) auto
  then show ?thesis by (simp add: set_conn_def)
qed

lemma set_conn_fields [simp]:
  "krnl (set_conn fd conn s) = krnl s" "fixed_fds (set_conn fd conn s) = fixed_fds s" "listen_fd (set_conn fd conn s) = listen_fd s"
  "wake_fd (set_conn fd conn s) = wake_fd s" "epoll_fd (set_conn fd conn s) = epoll_fd s"
  "next_generation (set_conn fd conn s) = next_generation s" "thread_pool (set_conn fd conn s) = thread_pool s"
  "completed_queue (set_conn fd conn s) = completed_queue s" "running (set_conn fd conn s) = running s"
  "stopping (set_conn fd conn s) = stopping s" "executor_db (set_conn fd conn s) = executor_db s"
  by (simp_all add: set_conn_def fixed_fds_def)

lemma gens_set_conn:
  assumes "distinct (map fst (connections s))" "map_of (connections s) fd = Some conn" "generation conn' = generation conn"
  shows "map (generation \<circ> snd) (connections (set_conn fd conn' s)) = map (generation \<circ> snd) (connections s)"
  using assms by (auto simp: set_conn_def dest: eq_key_imp_eq_value)

lemma shape_set_conn:
  assumes "shape s" "map_of (connections s) fd = Some conn" "generation conn' = generation conn"
  shows "shape (set_conn fd conn' s)"
  using assms gens_set_conn [OF _ assms(2,3)] unfolding shape_def by simp

lemma set_conn_ok:
  assumes "conns_ok (insert fd X) H P s" "map_of (connections s) fd = Some conn" "generation conn' = generation conn"
    and "fd \<notin> X \<Longrightarrow> conn_order H P (krnl s) fd conn' \<and> conn_live (krnl s) fd conn'"
  shows "conns_ok X H P (set_conn fd conn' s)"
  using assms shape_set_conn [OF _ assms(2,3)] by (auto simp: conns_ok_def split: if_splits)

lemma map_of_erase_conn [simp]: "map_of (connections (erase_conn fd s)) f = (if f = fd then None else map_of (connections s) f)"
  by (simp add: erase_conn_def map_of_filter_key)

lemma shape_close:
  assumes "shape s" "open_fds k = open_fds (krnl s) - {fd}" "fd \<in> fst ` set (connections s)"
  shows "shape (erase_conn fd (s\<lparr>krnl := k\<rparr>))"
proof -
  let ?F = "filter (\<lambda>(f, c). f \<noteq> fd) (connections s)"
  have d: "distinct (map fst ?F)" "distinct (map (generation \<circ> snd) ?F)"
    using assms(1) by (simp_all add: shape_def distinct_map_filter)
  have f: "fst ` set ?F = fst ` set (connections s) - {fd}" by force
  have "set (map (generation \<circ> snd) ?F) \<subseteq> set (map (generation \<circ> snd) (connections s))" by auto
  then show ?thesis using assms d f unfolding shape_def by (auto simp: erase_conn_def fixed_fds_def)
qed

lemma Close_ok:
  assumes "conns_ok (insert fd X) H P s"
  shows "conns_ok X H P (CloseConnection fd s)"
proof (cases "map_of (connections s) fd")
  case None
  then show ?thesis using assms unfolding CloseConnection_def conns_ok_def by (simp add: insert_iff) (metis option.distinct(1))
next
  case (Some conn)
  let ?k = "sys_close fd (epoll_del fd (krnl s))"
  have sh: "shape (erase_conn fd (s\<lparr>krnl := ?k\<rparr>))"
    using assms map_of_SomeD [OF Some] by (intro shape_close) (force simp: conns_ok_def sys_close_def epoll_del_def)+
  have "conns_ok X H P (erase_conn fd (s\<lparr>krnl := ?k\<rparr>))"
    using sh assms by (auto simp: conns_ok_def conn_order_def conn_live_def sys_close_def epoll_del_def erase_conn_def map_of_filter_key split: if_splits)
  then show ?thesis using Some by (simp add: CloseConnection_def RemoveEpollEvent_def on_krnl_def)
qed

lemma set_conn_none: "map_of (connections s) fd = None \<Longrightarrow> set_conn fd conn s = s"
proof -
  have "map_of xs fd = None \<Longrightarrow> map (\<lambda>(f, c). if f = fd then (f, conn) else (f, c)) xs = xs" for xs
    by (induction xs) (auto split: if_splits)
  then show "map_of (connections s) fd = None \<Longrightarrow> set_conn fd conn s = s" by (simp add: set_conn_def)
qed

lemma Close_set_conn [simp]: "CloseConnection fd (set_conn fd conn s) = CloseConnection fd s"
proof -
  have "filter (\<lambda>(f, c). f \<noteq> fd) (map (\<lambda>(f, c). if f = fd then (f, conn) else (f, c)) xs) = filter (\<lambda>(f, c). f \<noteq> fd) xs" for xs :: "(int \<times> Connection) list"
    by (induction xs) auto
  then have "erase_conn fd (on_krnl (sys_close fd) (RemoveEpollEvent fd (set_conn fd conn s))) =
      erase_conn fd (on_krnl (sys_close fd) (RemoveEpollEvent fd s))"
    by (simp add: set_conn_def erase_conn_def RemoveEpollEvent_def on_krnl_def)
  then show ?thesis by (cases "map_of (connections s) fd") (simp_all add: CloseConnection_def set_conn_none)
qed

lemma UpdateEpollEvent_cases:
  assumes "UpdateEpollEvent fd ev s = (b, s')"
  obtains k where "s' = s\<lparr>krnl := k\<rparr>" "open_fds k = open_fds (krnl s)" "wire k = wire (krnl s)"
    "interest k = (if b then (interest (krnl s))(fd \<mapsto> ev) else interest (krnl s))"
  using assms
  by (intro that [of "krnl s'"]) (auto simp: UpdateEpollEvent_def epoll_mod_def ctl_result_def split: list.splits prod.splits if_splits)

lemma Update_ok:
  assumes "conns_ok (insert fd X) H P s" "UpdateEpollEvent fd ev s = (b, s')"
  shows "conns_ok (insert fd X) H P s'" "connections s' = connections s"
    "b \<Longrightarrow> map_of (connections s) fd = Some conn \<Longrightarrow> conn_order H P (krnl s) fd conn \<Longrightarrow> live_with ev conn \<Longrightarrow> conns_ok X H P s'"
proof -
  obtain k where k: "s' = s\<lparr>krnl := k\<rparr>" "open_fds k = open_fds (krnl s)" "wire k = wire (krnl s)"
    "interest k = (if b then (interest (krnl s))(fd \<mapsto> ev) else interest (krnl s))"
    using UpdateEpollEvent_cases [OF assms(2)] .
  show ok: "conns_ok (insert fd X) H P s'" unfolding k(1) by (rule conns_ok_krnl [OF assms(1)]) (auto simp: k)
  show "connections s' = connections s" by (simp add: k(1))
  show "conns_ok X H P s'" if "b" "map_of (connections s) fd = Some conn" "conn_order H P (krnl s) fd conn" "live_with ev conn"
    using ok that unfolding conns_ok_def k(1) by (auto simp: conn_order_def conn_live_def k)
qed

lemma update_or_close_ok:
  assumes "conns_ok (insert fd X) H P s" "map_of (connections s) fd = Some conn" "conn_order H P (krnl s) fd conn" "live_with ev conn"
  shows "conns_ok X H P (update_or_close fd ev s)"
proof -
  obtain b s' where u: "UpdateEpollEvent fd ev s = (b, s')" by (cases "UpdateEpollEvent fd ev s")
  show ?thesis
    using Update_ok(1) [OF assms(1) u] Update_ok(3) [OF assms(1) u _ assms(2-4)] Close_ok
    by (cases b) (auto simp: update_or_close_def u)
qed

section \<open>What the handlers leave alone\<close>

definition untouched :: "TcpServer \<Rightarrow> TcpServer \<Rightarrow> bool" where
  "untouched s s' \<longleftrightarrow> completed_queue s' = completed_queue s \<and> executor_db s' = executor_db s \<and>
     wake_fd s' = wake_fd s \<and> epoll_fd s' = epoll_fd s \<and> (0 < wake_counter (krnl s) \<longrightarrow> 0 < wake_counter (krnl s')) \<and>
     unat (next_generation s) \<le> unat (next_generation s')"

definition untouched_pool :: "TcpServer \<Rightarrow> TcpServer \<Rightarrow> bool" where
  "untouched_pool s s' \<longleftrightarrow> untouched s s' \<and> thread_pool s' = thread_pool s"

lemma untouched_refl [simp]: "untouched s s" "untouched_pool s s"
  by (simp_all add: untouched_def untouched_pool_def)

lemma untouched_trans [trans]:
  "untouched s t \<Longrightarrow> untouched t u \<Longrightarrow> untouched s u" "untouched_pool s t \<Longrightarrow> untouched_pool t u \<Longrightarrow> untouched_pool s u"
  by (auto simp: untouched_def untouched_pool_def)

lemma untouched_set_conn [simp]: "untouched_pool s (set_conn fd conn s)"
  by (simp add: untouched_pool_def untouched_def)

lemma eventfd_add_pos: "0 < wake_counter (eventfd_add k)"
proof (cases "wake_counter k < - 2")
  case True
  then have "unat (wake_counter k) < unat (- 2 :: u64)" by (simp add: word_less_nat_alt)
  then have "unat (wake_counter k) + 1 < 2 ^ 64" by simp
  then have "unat (wake_counter k + 1) = unat (wake_counter k) + 1" by (simp add: unat_word_ariths)
  then show ?thesis using True by (simp add: eventfd_add_def word_less_nat_alt)
next
  case False
  then show ?thesis by (auto simp: eventfd_add_def not_less word_le_nat_alt word_less_nat_alt)
qed

lemma wake_loop_pos: "0 < wake_counter (wake_loop rs k)"
  by (induction rs k rule: wake_loop.induct) (simp_all add: eventfd_add_pos)

lemma untouched_krnl: "(0 < wake_counter (krnl s) \<Longrightarrow> 0 < wake_counter k) \<Longrightarrow> untouched_pool s (s\<lparr>krnl := k\<rparr>)"
  by (simp add: untouched_pool_def untouched_def)

lemma untouched_fields [simp]:
  "untouched_pool s (s\<lparr>running := b\<rparr>)" "untouched_pool s (s\<lparr>stopping := b\<rparr>)" "untouched_pool s (erase_conn fd s)"
  by (simp_all add: untouched_pool_def untouched_def erase_conn_def)

lemma untouched_wake [simp]: "untouched_pool s (WakeEventLoop s)"
  by (simp add: WakeEventLoop_def on_krnl_def untouched_krnl wake_loop_pos)

lemma untouched_MaybeFinish [simp]: "untouched_pool s (MaybeFinishShutdown s)"
  using untouched_trans(2) [OF untouched_fields(1) untouched_wake] by (simp add: MaybeFinishShutdown_def)

lemma untouched_Close [simp]: "untouched_pool s (CloseConnection fd s)"
proof -
  let ?t = "on_krnl (sys_close fd) (RemoveEpollEvent fd s)"
  have "untouched_pool s ?t" by (simp add: on_krnl_def RemoveEpollEvent_def untouched_krnl sys_close_def epoll_del_def)
  also have "untouched_pool ?t (erase_conn fd ?t)" by simp
  also have "untouched_pool (erase_conn fd ?t) (MaybeFinishShutdown (erase_conn fd ?t))" by simp
  finally show ?thesis by (simp add: CloseConnection_def split: option.split)
qed

lemma untouched_Update: "UpdateEpollEvent fd ev s = (b, s') \<Longrightarrow> untouched_pool s s'"
  by (auto simp: UpdateEpollEvent_def epoll_mod_def ctl_result_def split: list.splits prod.splits if_splits intro!: untouched_krnl)

lemma untouched_update_or_close [simp]: "untouched_pool s (update_or_close fd ev s)"
proof -
  obtain b s' where u: "UpdateEpollEvent fd ev s = (b, s')" by (cases "UpdateEpollEvent fd ev s")
  then show ?thesis
    using untouched_Update [OF u] untouched_trans(2) [OF _ untouched_Close, of s s' fd] by (cases b) (simp_all add: update_or_close_def)
qed

section \<open>Reading\<close>

lemma gen_tasks_append: "gen_tasks g (H @ new) = gen_tasks g H @ gen_tasks g new"
  by (simp add: gen_tasks_def)

lemma gen_tasks_own: "\<forall>t\<in>set new. wt_generation t = g \<Longrightarrow> gen_tasks g new = new"
  by (simp add: gen_tasks_def)

lemma gen_tasks_other: "\<forall>t\<in>set new. wt_generation t = g \<Longrightarrow> g' \<noteq> g \<Longrightarrow> gen_tasks g' new = []"
  by (simp add: gen_tasks_def)

lemma conns_ok_extend:
  assumes "conns_ok Y H P s" "map_of (connections s) fd = Some conn" "fd \<in> Y" "\<forall>t\<in>set new. wt_generation t = generation conn"
  shows "conns_ok Y (H @ new) P s"
proof -
  have sh: "shape s" using assms(1) by (simp add: conns_ok_def)
  have "conn_order (H @ new) P (krnl s) f c" if "map_of (connections s) f = Some c" "f \<notin> Y" for f c
  proof -
    have "generation c \<noteq> generation conn" using generation_unique [OF sh that(1) assms(2)] assms(3) that(2) by auto
    then have "gen_tasks (generation c) (H @ new) = gen_tasks (generation c) H"
      using gen_tasks_other [OF assms(4)] by (simp add: gen_tasks_append)
    then show ?thesis using conns_okD(1) [OF assms(1) that] by (simp add: conn_order_def answered_def)
  qed
  then show ?thesis using assms(1) by (auto simp: conns_ok_def)
qed

lemma conn_order_request:
  assumes "conn_order H P k fd conn" "\<not> closing conn" "wt_generation t = generation conn" "wt_fd t = fd"
    "Suc (length (gen_tasks (generation conn) H)) < 2 ^ 64"
  shows "conn_order (H @ [t]) P k fd (conn\<lparr>next_request_seq := next_request_seq conn + 1\<rparr>)"
    "next_request_seq conn = of_nat (length (gen_tasks (generation conn) H))"
    "interest k fd = Some ev \<Longrightarrow> wants ev EPOLLIN \<Longrightarrow> conn_live k fd (conn\<lparr>next_request_seq := next_request_seq conn + 1\<rparr>)"
proof -
  let ?n = "length (gen_tasks (generation conn) H)" and ?R = "responses (generation conn) P"
  let ?c = "conn\<lparr>next_request_seq := next_request_seq conn + 1\<rparr>"
  obtain w where o: "ordered ?R ?n w (wire k fd) conn" "?R (of_nat w) = None"
    using assms(1,2) by (auto simp: conn_order_def answered_def Let_def)
  then show n: "next_request_seq conn = of_nat ?n" by (simp add: ordered_def)
  have o': "ordered ?R (Suc ?n) w (wire k fd) ?c"
    by (rule ordered_requests [OF o(1) assms(5)]) (simp_all add: n)
  show "conn_order (H @ [t]) P k fd ?c"
    using assms(1,3,4) o(2) o' by (auto simp: conn_order_def answered_def Let_def gen_tasks_def intro!: exI)
  show "conn_live k fd ?c" if "interest k fd = Some ev" "wants ev EPOLLIN"
    using ordered_drained(1) [OF o'] o(1) that by (auto simp: conn_live_def live_with_def ordered_def)
qed

lemma FailConnectionProtocol_ok:
  assumes c: "conns_ok (insert fd X) H P s" "map_of (connections s) fd = Some c0" "generation conn = generation c0"
    and o: "conn_order H P (krnl s) fd conn" "\<not> closing conn" "Suc (length (gen_tasks (generation conn) H)) < 2 ^ 64"
    and f: "FailConnectionProtocol conn fd ''protocol error'' s = Some s'"
  shows "conns_ok X H P s' \<and> untouched_pool s s'"
proof -
  let ?n = "length (gen_tasks (generation conn) H)" and ?R = "responses (generation conn) P"
  obtain w where od: "ordered ?R ?n w (wire (krnl s) fd) conn" "?R (of_nat w) = None"
    using o(1,2) by (auto simp: conn_order_def answered_def Let_def)
  then have n: "next_request_seq conn = of_nat ?n" "w \<le> ?n" "?n < 2 ^ 64" by (simp_all add: ordered_def)
  obtain rb where rb: "EncodeError ''protocol error'' (new_NetworkBuffer initial_buffer_size) = Some rb" "Peek rb = protocol_error_reply"
    using nb.sendsD [OF Encode_sends [of "ErrorReply ''protocol error''"] nb_ok_new [of initial_buffer_size]]
    by (auto simp: protocol_error_reply_def)
  let ?c1 = "conn\<lparr>next_request_seq := next_request_seq conn + 1,
      pending_responses := try_emplace (next_request_seq conn) protocol_error_reply (pending_responses conn),
      closing := True, input_buffer := RetrieveAll (input_buffer conn)\<rparr>"
  let ?R' = "?R(of_nat ?n \<mapsto> protocol_error_reply)"
  have none: "?R (of_nat ?n) = None" using od(1) u64_of_nat [OF n(3)] by (cases "?R (of_nat ?n)") (auto simp: ordered_def)
  have o1: "ordered ?R' (Suc ?n) w (wire (krnl s) fd) ?c1"
    by (rule ordered_add [OF od(1) none _ _ o(3) od(2)]) (use n in \<open>simp_all add: u64_of_nat\<close>)
  obtain c2 ap w' where fl: "flush_pending ?c1 False = Some (c2, ap)" "ordered ?R' (Suc ?n) w' (wire (krnl s) fd) c2"
    "?R' (of_nat w') = None" "ap \<longleftrightarrow> w < w'" "w' = w \<longrightarrow> c2 = ?c1" "same_input ?c1 c2" "w \<le> w'"
    using flush_pending_ordered [OF o1, of False] by auto
  have s': "s' = update_or_close fd (if ap then EPOLLOUT OR EPOLLRDHUP else EPOLLRDHUP) (set_conn fd c2 s)"
    using f by (simp add: FailConnectionProtocol_def rb RetrieveAllAsString_def fl(1) Let_def)
  have g: "generation c2 = generation conn" "closing c2" "conn_fd c2 = fd" "nb_ok (input_buffer c2)"
    using fl(6) o(1) by (auto simp: same_input_def conn_order_def)
  have ord2: "conn_order H P (krnl s) fd c2"
    using g fl(2,3) o(1) by (auto simp: conn_order_def answered_def Let_def intro!: exI)
  have live: "live_with (if ap then EPOLLOUT OR EPOLLRDHUP else EPOLLRDHUP) c2"
    using g(2) ordered_drained(1) [OF fl(2)] fl(4,7) n(2) by (auto simp: live_with_def wants_def epoll_defs)
  have "conns_ok (insert fd X) H P (set_conn fd c2 s)"
    by (rule set_conn_ok [OF _ c(2)]) (use c g(1) in \<open>auto intro: conns_ok_mono\<close>)
  then have "conns_ok X H P s'"
    unfolding s' by (rule update_or_close_ok) (use c(2) ord2 live in auto)
  then show ?thesis using untouched_trans(2) [OF untouched_set_conn untouched_update_or_close] by (simp add: s')
qed

lemma Parse_nb_ok:
  assumes "Parse p nb out = Some (st, out', p', nb')" "nb_ok nb"
  shows "nb_ok nb'"
  using Parse_extends [of "[]" nb nb p out] assms by (auto simp: extends_def)

text \<open>New tasks of a connection that has submitted \<open>n\<close> before.\<close>

definition tasks_from :: "int \<Rightarrow> u64 \<Rightarrow> nat \<Rightarrow> WorkerTask list \<Rightarrow> bool" where
  "tasks_from fd g n new \<longleftrightarrow> (\<forall>t\<in>set new. wt_generation t = g \<and> wt_fd t = fd) \<and>
     map wt_seq new = map of_nat [n..<n + length new]"

lemma tasks_from_Nil [simp]: "tasks_from fd g n []"
  by (simp add: tasks_from_def)

lemma tasks_from_Cons:
  "tasks_from fd g (Suc n) new \<Longrightarrow> wt_generation t = g \<Longrightarrow> wt_fd t = fd \<Longrightarrow> wt_seq t = of_nat n \<Longrightarrow> tasks_from fd g n (t # new)"
  by (simp add: tasks_from_def upt_conv_Cons del: upt_Suc)

definition adds_tasks :: "WorkerTask list \<Rightarrow> TcpServer \<Rightarrow> TcpServer \<Rightarrow> bool" where
  "adds_tasks new s s' \<longleftrightarrow> untouched s s' \<and> thread_pool s' = (thread_pool s)\<lparr>pool_tasks := pool_tasks (thread_pool s) @ new\<rparr>"

lemma adds_none: "untouched_pool s s' \<Longrightarrow> adds_tasks [] s s'"
  by (simp add: adds_tasks_def untouched_pool_def)

lemma adds_Cons:
  assumes "enqueue t (thread_pool s) = Some pool" "adds_tasks new (s\<lparr>thread_pool := pool\<rparr>) s'"
  shows "adds_tasks (t # new) s s'"
  using assms by (auto simp: adds_tasks_def untouched_def enqueue_def split: if_splits)

text \<open>One step of the loop: what its state means and what it does to it.\<close>

lemma read_loop_cases:
  assumes "read_loop fd conn s = Some s'"
  obtains (submit) command p ib pool task where "Parse (conn_parser conn) (input_buffer conn) [] = Some (SUCCESS, command, p, ib)"
    "task = \<lparr>wt_fd = fd, wt_generation = generation conn, wt_seq = next_request_seq conn, wt_command = command\<rparr>"
    "enqueue task (thread_pool s) = Some pool"
    "read_loop fd (conn\<lparr>conn_parser := p, input_buffer := ib, next_request_seq := next_request_seq conn + 1\<rparr>) (s\<lparr>thread_pool := pool\<rparr>) = Some s'"
  | (refused) command p ib where "Parse (conn_parser conn) (input_buffer conn) [] = Some (SUCCESS, command, p, ib)"
    "pool_stop (thread_pool s)" "s' = CloseConnection fd s"
  | (incomplete) command p ib where "Parse (conn_parser conn) (input_buffer conn) [] = Some (INCOMPLETE, command, p, ib)"
    "s' = set_conn fd (conn\<lparr>conn_parser := p, input_buffer := ib\<rparr>) s"
  | (failed) command p ib where "Parse (conn_parser conn) (input_buffer conn) [] = Some (ERROR, command, p, ib)"
    "FailConnectionProtocol (conn\<lparr>conn_parser := p, input_buffer := ib\<rparr>) fd ''protocol error'' s = Some s'"
proof -
  obtain st command p ib where P: "Parse (conn_parser conn) (input_buffer conn) [] = Some (st, command, p, ib)"
    using assms by (auto simp: read_loop.simps [of fd conn s] split: option.splits)
  note U = assms [unfolded read_loop.simps [of fd conn s] P]
  show ?thesis
  proof (cases st)
    case SUCCESS
    let ?t = "\<lparr>wt_fd = fd, wt_generation = generation conn, wt_seq = next_request_seq conn, wt_command = command\<rparr>"
    show ?thesis
    proof (cases "enqueue ?t (thread_pool s)")
      case None
      then have "pool_stop (thread_pool s)" using tp.submit_defined [of ?t "thread_pool s"] by simp
      then show ?thesis using refused P SUCCESS U None by (simp add: Let_def)
    next
      case (Some pool)
      then show ?thesis using submit [OF P [unfolded SUCCESS] refl Some] U SUCCESS by (simp add: Let_def)
    qed
  next
    case INCOMPLETE
    then show ?thesis using incomplete P U by (simp add: Let_def)
  next
    case ERROR
    then show ?thesis using failed P U by (simp add: Let_def)
  qed
qed

lemma conn_order_input:
  assumes "conn_order H P k fd conn" "nb_ok ib"
  shows "conn_order H P k fd (conn\<lparr>conn_parser := p, input_buffer := ib\<rparr>)"
  using assms by (auto simp: conn_order_def answered_def ordered_def)

lemma conn_live_input [simp]: "conn_live k fd (conn\<lparr>conn_parser := p, input_buffer := ib\<rparr>) = conn_live k fd conn"
  by (simp add: conn_live_def live_with_def)

lemma read_loop_ok:
  "read_loop fd conn s = Some s' \<Longrightarrow> conns_ok (insert fd X) H P s \<Longrightarrow> map_of (connections s) fd = Some c0 \<Longrightarrow>
   generation conn = generation c0 \<Longrightarrow> conn_order H P (krnl s) fd conn \<Longrightarrow> conn_live (krnl s) fd conn \<Longrightarrow> \<not> closing conn \<Longrightarrow>
   length (gen_tasks (generation conn) H) + ReadableBytes (input_buffer conn) + 1 < 2 ^ 64 \<Longrightarrow>
   \<exists>new. conns_ok X (H @ new) P s' \<and> adds_tasks new s s' \<and> length new \<le> ReadableBytes (input_buffer conn) \<and>
     tasks_from fd (generation conn) (length (gen_tasks (generation conn) H)) new"
proof (induction fd conn s arbitrary: H s' rule: read_loop.induct)
  case (1 fd conn s)
  let ?n = "length (gen_tasks (generation conn) H)"
  have ib: "nb_ok (input_buffer conn)" using "1.prems"(5) by (simp add: conn_order_def)
  from "1.prems"(1) show ?case
  proof (cases rule: read_loop_cases)
    case (submit command p ib pool task)
    let ?c = "conn\<lparr>conn_parser := p, input_buffer := ib\<rparr>" and ?s = "s\<lparr>thread_pool := pool\<rparr>"
    let ?c2 = "?c\<lparr>next_request_seq := next_request_seq ?c + 1\<rparr>"
    have less: "ReadableBytes ib < ReadableBytes (input_buffer conn)" using Parse_keeps [OF submit(1)] by simp
    have oc: "conn_order H P (krnl s) fd ?c" by (rule conn_order_input [OF "1.prems"(5) Parse_nb_ok [OF submit(1) ib]])
    have tg: "wt_generation task = generation ?c" "wt_fd task = fd" by (simp_all add: submit(2))
    obtain ev where ev: "interest (krnl s) fd = Some ev" "wants ev EPOLLIN"
      using "1.prems"(6,7) by (auto simp: conn_live_def live_with_def)
    note R = conn_order_request [OF oc _ tg, simplified]
    have R': "conn_order (H @ [task]) P (krnl s) fd ?c2" "conn_live (krnl s) fd ?c2" "next_request_seq conn = of_nat ?n"
      using R ev "1.prems"(7,8) less by auto
    have own: "gen_tasks (generation conn) (H @ [task]) = gen_tasks (generation conn) H @ [task]"
      using tg by (simp add: gen_tasks_def)
    have ext: "conns_ok (insert fd X) (H @ [task]) P ?s"
      using conns_ok_extend [OF "1.prems"(2,3), of "[task]"] tg "1.prems"(4) by simp
    have "\<exists>new. conns_ok X ((H @ [task]) @ new) P s' \<and> adds_tasks new ?s s' \<and> length new \<le> ReadableBytes (input_buffer ?c2) \<and>
        tasks_from fd (generation ?c2) (length (gen_tasks (generation ?c2) (H @ [task]))) new"
    proof (rule "1.IH" [OF submit(1) refl refl refl refl refl refl refl])
      show "enqueue \<lparr>wt_fd = fd, wt_generation = generation ?c2, wt_seq = next_request_seq ?c, wt_command = command\<rparr> (thread_pool s) = Some pool"
        using submit(2,3) by simp
      show "read_loop fd ?c2 ?s = Some s'" using submit(4) by simp
      show "length (gen_tasks (generation ?c2) (H @ [task])) + ReadableBytes (input_buffer ?c2) + 1 < 2 ^ 64"
        using "1.prems"(8) less own by simp
    qed (use ext R' "1.prems"(3,4,7) in simp_all)
    then obtain new where new: "conns_ok X ((H @ [task]) @ new) P s'" "adds_tasks new ?s s'"
      "tasks_from fd (generation conn) (Suc ?n) new" "length new \<le> ReadableBytes ib"
      using own by auto
    have "tasks_from fd (generation conn) ?n (task # new)" by (rule tasks_from_Cons [OF new(3)]) (simp_all add: submit(2) R'(3))
    then show ?thesis using new(1,4) less adds_Cons [OF submit(3) new(2)] by (intro exI [of _ "task # new"]) simp
  next
    case refused
    then show ?thesis using Close_ok [OF "1.prems"(2)] by (intro exI [of _ "[]"]) (simp add: adds_none)
  next
    case (incomplete command p ib')
    have "conns_ok X H P s'"
      unfolding incomplete(2) by (rule set_conn_ok [OF "1.prems"(2,3)])
        (use "1.prems" conn_order_input [OF "1.prems"(5) Parse_nb_ok [OF incomplete(1) ib]] in auto)
    then show ?thesis by (intro exI [of _ "[]"]) (simp add: adds_none incomplete(2))
  next
    case (failed command p ib')
    have "conns_ok X H P s' \<and> untouched_pool s s'"
      by (rule FailConnectionProtocol_ok [OF "1.prems"(2,3) _ conn_order_input [OF "1.prems"(5) Parse_nb_ok [OF failed(1) ib]] _ _ failed(2)])
         (use "1.prems" in simp_all)
    then show ?thesis by (intro exI [of _ "[]"]) (simp add: adds_none)
  qed
qed

lemma ReadFromFd_keeps:
  assumes "ReadFromFd res nb = Some (n, err, ib)" "nb_ok nb"
  shows "nb_ok ib" "ReadableBytes ib \<le> ReadableBytes nb + (case res of Inl _ \<Rightarrow> 0 | Inr d \<Rightarrow> length d)"
proof -
  have "nb_ok ib \<and> ReadableBytes ib \<le> ReadableBytes nb + (case res of Inl _ \<Rightarrow> 0 | Inr d \<Rightarrow> length d)"
  proof (cases res)
    case (Inl e)
    then show ?thesis using assms by (simp add: ReadFromFd_def)
  next
    case (Inr d)
    then have "length d \<le> WritableBytes nb + extra_buffer_size"
      using assms(1) by (auto simp: ReadFromFd_def Let_def split: if_splits bind_splits)
    from ReadFromFd_ok [OF assms(2) this] assms(1) Inr have "nb_ok ib" "Peek ib = Peek nb @ d" by auto
    then show ?thesis using length_Peek [of ib] length_Peek [OF assms(2)] Inr by simp
  qed
  then show "nb_ok ib" "ReadableBytes ib \<le> ReadableBytes nb + (case res of Inl _ \<Rightarrow> 0 | Inr d \<Rightarrow> length d)" by blast+
qed

text \<open>Room for the requests one read can bring.\<close>

definition script_bytes :: "(int + bytes) list \<Rightarrow> nat" where
  "script_bytes rs = (case rs of Inr d # _ \<Rightarrow> length d | _ \<Rightarrow> 0)"

definition read_room :: "WorkerTask list \<Rightarrow> TcpServer \<Rightarrow> bool" where
  "read_room H s \<longleftrightarrow> (\<forall>fd conn. map_of (connections s) fd = Some conn \<longrightarrow>
     length H + ReadableBytes (input_buffer conn) + script_bytes (read_script (krnl s)) + 1 < 2 ^ 64)"

lemma length_gen_tasks: "length (gen_tasks g H) \<le> length H"
  by (simp add: gen_tasks_def)

lemma read_result_ok:
  assumes "read_result s = (res, s1)"
  shows "untouched_pool s s1" "connections s1 = connections s" "conns_ok X H P s \<Longrightarrow> conns_ok X H P s1" "wire (krnl s1) = wire (krnl s)"
    "interest (krnl s1) = interest (krnl s)" "(case res of Inl _ \<Rightarrow> 0 | Inr d \<Rightarrow> length d) = script_bytes (read_script (krnl s))"
  using assms
  by (auto simp: read_result_def on_krnl_def script_bytes_def untouched_krnl split: list.splits sum.splits intro: conns_ok_krnl)

lemma HandleRead_ok:
  assumes "HandleRead fd s = Some s'" "conns_ok {} H P s" "read_room H s"
  shows "\<exists>new. conns_ok {} (H @ new) P s' \<and> adds_tasks new s s' \<and>
    (new \<noteq> [] \<longrightarrow> (\<exists>conn. map_of (connections s) fd = Some conn \<and>
       tasks_from fd (generation conn) (length (gen_tasks (generation conn) H)) new \<and> length (H @ new) < 2 ^ 64))"
proof (cases "map_of (connections s) fd")
  case None
  then show ?thesis using assms by (intro exI [of _ "[]"]) (simp add: HandleRead_def adds_none)
next
  case (Some conn)
  show ?thesis
  proof (cases "closing conn")
    case True
    then show ?thesis using assms Some by (intro exI [of _ "[]"]) (simp add: HandleRead_def adds_none)
  next
    case False
    obtain res s1 where r: "read_result s = (res, s1)" by (cases "read_result s")
    note R = read_result_ok [OF r]
    obtain n err ib where rd: "ReadFromFd res (input_buffer conn) = Some (n, err, ib)"
      using assms(1) Some False r by (auto simp: HandleRead_def split: bind_splits)
    note ord = conns_okD [OF R(3) [OF assms(2)], unfolded R(2), OF Some, simplified]
    have ib: "nb_ok ib" "ReadableBytes ib \<le> ReadableBytes (input_buffer conn) + script_bytes (read_script (krnl s))"
      using ReadFromFd_keeps [OF rd] ord(1) R(6) by (auto simp: conn_order_def)
    let ?c = "conn\<lparr>input_buffer := ib\<rparr>"
    have oc: "conn_order H P (krnl s1) fd ?c" using conn_order_input [OF ord(1) ib(1), of "conn_parser conn"] by simp
    have lc: "conn_live (krnl s1) fd ?c" using ord(2) by (simp add: conn_live_def live_with_def)
    have ins: "conns_ok (insert fd {}) H P s1" by (rule conns_ok_mono [OF R(3) [OF assms(2)]]) simp
    have m1: "map_of (connections s1) fd = Some conn" by (simp add: R(2) Some)
    have U: "(if n = 0 then Some (CloseConnection fd (set_conn fd ?c s1))
        else if n < 0 then (if err = EAGAIN then Some (set_conn fd ?c s1) else if err = EINTR then Some (set_conn fd ?c s1)
          else Some (CloseConnection fd (set_conn fd ?c s1))) else read_loop fd ?c s1) = Some s'"
      using assms(1) by (simp add: HandleRead_def Some False r rd Let_def del: Close_set_conn)
    consider (close) "s' = CloseConnection fd s1" | (none) "s' = set_conn fd ?c s1" | (loop) "read_loop fd ?c s1 = Some s'"
      using U by (cases "n = 0"; cases "n < 0"; cases "err = EAGAIN"; cases "err = EINTR") simp_all
    then show ?thesis
    proof cases
      case close
      then show ?thesis
        using Close_ok [OF ins] untouched_trans(2) [OF R(1) untouched_Close] by (intro exI [of _ "[]"]) (simp add: adds_none)
    next
      case none
      have "conns_ok {} H P s'" unfolding none by (rule set_conn_ok [OF ins m1]) (simp_all add: oc lc)
      then show ?thesis
        using none untouched_trans(2) [OF R(1) untouched_set_conn] by (intro exI [of _ "[]"]) (simp add: adds_none)
    next
      case loop
      have room: "length (gen_tasks (generation ?c) H) + ReadableBytes (input_buffer ?c) + 1 < 2 ^ 64"
        using assms(3) [unfolded read_room_def, rule_format, OF Some] ib(2) length_gen_tasks [of "generation conn" H] by simp
      obtain new where "conns_ok {} (H @ new) P s'" "adds_tasks new s1 s'" "length new \<le> ReadableBytes ib"
        "tasks_from fd (generation ?c) (length (gen_tasks (generation ?c) H)) new"
        using read_loop_ok [OF loop ins m1 _ oc lc _ room] False by auto
      moreover have "adds_tasks new s s'"
        using calculation(2) R(1) by (auto simp: adds_tasks_def untouched_pool_def untouched_def)
      ultimately show ?thesis using Some assms(3) [unfolded read_room_def, rule_format, OF Some] ib(2) by auto
    qed
  qed
qed

section \<open>Writing\<close>

lemma write_loop_ok:
  "write_loop rs fd conn k = (ok, conn', k') \<Longrightarrow> ordered R m w (wire k fd) conn \<Longrightarrow>
   ordered R m w (wire k' fd) conn' \<and> same_input conn conn' \<and> next_write_seq conn' = next_write_seq conn \<and>
   (Peek (output_buffer conn) = [] \<longrightarrow> Peek (output_buffer conn') = []) \<and> open_fds k' = open_fds k \<and> interest k' = interest k \<and>
   wake_counter k' = wake_counter k \<and> (\<forall>f. f \<noteq> fd \<longrightarrow> wire k' f = wire k f)"
proof (induction rs fd conn k rule: write_loop.induct)
  case (2 r rs fd conn k)
  have ob: "nb_ok (output_buffer conn)" using "2.prems"(2) by (simp add: ordered_def)
  show ?case
  proof (cases "ReadableBytes (output_buffer conn) = 0")
    case True
    then show ?thesis using "2.prems" by auto
  next
    case False
    show ?thesis
    proof (cases r)
      case (Wrote i)
      let ?n = "min i (ReadableBytes (output_buffer conn))"
      show ?thesis
      proof (cases "?n > 0")
        case True
        let ?c = "conn\<lparr>output_buffer := Retrieve ?n (output_buffer conn)\<rparr>"
        let ?k = "k\<lparr>wire := (wire k)(fd := wire k fd @ take ?n (Peek (output_buffer conn)))\<rparr>"
        have wl: "write_loop rs fd ?c ?k = (ok, conn', k')" using "2.prems"(1) False Wrote True by (simp add: Let_def)
        have "ordered R m w (wire ?k fd) ?c" using ordered_sent [OF "2.prems"(2), of ?n] by simp
        from "2.IH"(1) [OF False Wrote refl True wl this] False show ?thesis
          using nb.retrieve_law [OF ob, of ?n] length_Peek [OF ob] by (auto simp: same_input_def)
      next
        case F: False
        then show ?thesis using "2.prems" False Wrote by (auto simp: Let_def)
      qed
    next
      case (WriteErr e)
      then show ?thesis using "2.prems" "2.IH"(2) [OF False WriteErr] False by (auto split: if_splits)
    qed
  qed
qed auto

lemma HandleWrite_ok:
  assumes "conns_ok {} H P s"
  shows "conns_ok {} H P (HandleWrite fd s) \<and> untouched_pool s (HandleWrite fd s)"
proof (cases "map_of (connections s) fd")
  case None
  then show ?thesis using assms by (simp add: HandleWrite_def)
next
  case (Some conn0)
  obtain ok conn k where w: "write_loop (write_script (krnl s)) fd conn0 (krnl s) = (ok, conn, k)"
    by (cases "write_loop (write_script (krnl s)) fd conn0 (krnl s)") auto
  have ord0: "conn_order H P (krnl s) fd conn0" and live0: "conn_live (krnl s) fd conn0" using conns_okD [OF assms Some] by auto
  obtain m n R where o0: "ordered R m n (wire (krnl s) fd) conn0" "R (of_nat n) = None" "answered H P conn0 m R"
    using ord0 by (auto simp: conn_order_def)
  note W = write_loop_ok [OF w o0(1)]
  have ord: "conn_order H P k fd conn"
    using ord0 W o0 by (auto simp: conn_order_def same_input_def answered_def)
  have g: "generation conn = generation conn0" "closing conn = closing conn0" using W by (simp_all add: same_input_def)
  let ?s = "s\<lparr>krnl := k\<rparr>"
  have ins: "conns_ok (insert fd {}) H P ?s"
    by (rule conns_ok_krnl [OF conns_ok_mono [OF assms]]) (use W in auto)
  have ins': "conns_ok (insert fd {}) H P (set_conn fd conn ?s)"
    by (rule set_conn_ok [of fd "insert fd {}"]) (use ins Some g in auto)
  have u: "untouched_pool s (set_conn fd conn ?s)"
    using untouched_trans(2) [OF untouched_krnl untouched_set_conn] W by simp
  have upd: "conns_ok {} H P (update_or_close fd ev (set_conn fd conn ?s))" if "live_with ev conn" for ev
    by (rule update_or_close_ok [OF ins' _ _ that]) (use Some ord in simp_all)
  have obk: "ReadableBytes (output_buffer conn) = 0 \<longleftrightarrow> Peek (output_buffer conn) = []"
    using length_Peek [of "output_buffer conn"] W by (auto simp: ordered_def)
  have seqs: "next_write_seq conn \<noteq> next_request_seq conn" if "\<not> IsConnectionDrained conn" "Peek (output_buffer conn) = []"
    using that ordered_drained [of R m n "wire k fd" conn] W obk by (auto simp: IsConnectionDrained_def)
  have U: "HandleWrite fd s = (if \<not> ok then CloseConnection fd ?s
      else if Peek (output_buffer conn) = [] then
        (if closing conn then
           (if IsConnectionDrained conn then CloseConnection fd ?s else update_or_close fd EPOLLRDHUP (set_conn fd conn ?s))
         else update_or_close fd (EPOLLIN OR EPOLLRDHUP) (set_conn fd conn ?s))
      else set_conn fd conn ?s)"
    unfolding HandleWrite_def Some option.case w prod.case Let_def obk Close_set_conn by (rule refl)
  consider "HandleWrite fd s = CloseConnection fd ?s"
    | "HandleWrite fd s = update_or_close fd EPOLLRDHUP (set_conn fd conn ?s)" "closing conn" "\<not> IsConnectionDrained conn" "Peek (output_buffer conn) = []"
    | "HandleWrite fd s = update_or_close fd (EPOLLIN OR EPOLLRDHUP) (set_conn fd conn ?s)" "\<not> closing conn" "Peek (output_buffer conn) = []"
    | "HandleWrite fd s = set_conn fd conn ?s" "Peek (output_buffer conn) \<noteq> []"
    using U by (cases ok; cases "Peek (output_buffer conn) = []"; cases "closing conn"; cases "IsConnectionDrained conn") simp_all
  then show ?thesis
  proof cases
    case 1
    then show ?thesis using Close_ok [OF ins] untouched_trans(2) [OF untouched_krnl untouched_Close] W by simp
  next
    case 2
    then show ?thesis using upd [of EPOLLRDHUP] seqs untouched_trans(2) [OF u untouched_update_or_close] by (simp add: live_with_def)
  next
    case 3
    then show ?thesis
      using upd [of "EPOLLIN OR EPOLLRDHUP"] untouched_trans(2) [OF u untouched_update_or_close]
      by (simp add: live_with_def wants_def epoll_defs)
  next
    case 4
    have "conn_live k fd conn"
      using live0 W 4(2) g by (auto simp: conn_live_def live_with_def same_input_def)
    then have "conns_ok {} H P (set_conn fd conn ?s)" by (intro set_conn_ok [OF ins]) (use Some g ord in auto)
    then show ?thesis using 4 u by simp
  qed
qed

end
