(* ===== verification/TcpEvents.thy ===== *)
theory TcpEvents
  imports TcpConn
begin

text \<open>
  The remaining handlers keep the invariant of the connections: completions, new connections and
  \<open>Stop\<close>.
\<close>

section \<open>Completions\<close>

definition completed_of :: "WorkerTask \<times> bytes \<Rightarrow> CompletedTask" where
  "completed_of e = \<lparr>ct_fd = wt_fd (fst e), ct_generation = wt_generation (fst e), ct_seq = wt_seq (fst e), ct_response = snd e\<rparr>"

lemma completed_of_fields [simp]:
  "ct_fd (completed_of e) = wt_fd (fst e)" "ct_generation (completed_of e) = wt_generation (fst e)"
  "ct_seq (completed_of e) = wt_seq (fst e)" "ct_response (completed_of e) = snd e"
  by (simp_all add: completed_of_def)

definition task_key :: "WorkerTask \<Rightarrow> u64 \<times> u64" where
  "task_key t = (wt_generation t, wt_seq t)"

text \<open>Each connection numbers its tasks consecutively.\<close>

definition numbered :: "WorkerTask list \<Rightarrow> bool" where
  "numbered H \<longleftrightarrow> (\<forall>g. map wt_seq (gen_tasks g H) = map of_nat [0..<length (gen_tasks g H)])"

lemma responses_append:
  "responses g (P @ [e]) =
     (if wt_generation (fst e) = g then [wt_seq (fst e) \<mapsto> snd e] ++ responses g P else responses g P)"
  by (cases e) (simp add: responses_def map_of_append)

lemma responses_None:
  assumes "task_key t \<notin> set (map (task_key \<circ> fst) P)"
  shows "responses (wt_generation t) P (wt_seq t) = None"
  using assms by (force simp: responses_def task_key_def map_of_eq_None_iff)

lemma numbered_seq:
  assumes "numbered H" "t \<in> set H"
  obtains i where "i < length (gen_tasks (wt_generation t) H)" "wt_seq t = of_nat i"
proof -
  let ?l = "gen_tasks (wt_generation t) H"
  have "wt_seq t \<in> set (map wt_seq ?l)" using assms(2) by (simp add: gen_tasks_def)
  also have "map wt_seq ?l = map of_nat [0..<length ?l]" using assms(1) by (simp add: numbered_def)
  finally show ?thesis using that by auto
qed

lemma conns_ok_processed:
  assumes "conns_ok Y H P s" "\<And>f c. map_of (connections s) f = Some c \<Longrightarrow> f \<notin> Y \<Longrightarrow> generation c \<noteq> wt_generation (fst e)"
  shows "conns_ok Y H (P @ [e]) s"
proof -
  have "conn_order H (P @ [e]) (krnl s) f c" if c: "map_of (connections s) f = Some c" "f \<notin> Y" for f c
  proof -
    have "responses (generation c) (P @ [e]) = responses (generation c) P"
      using assms(2) [OF c] by (auto simp: responses_append)
    then show ?thesis using conns_okD(1) [OF assms(1) c] by (simp add: conn_order_def answered_def)
  qed
  then show ?thesis using assms(1) by (auto simp: conns_ok_def)
qed

lemma complete_one:
  assumes ok: "conns_ok {} H P s" and c: "map_of (connections s) (wt_fd t) = Some conn" "generation conn = wt_generation t"
    and H: "numbered H" "t \<in> set H" and key: "task_key t \<notin> set (map (task_key \<circ> fst) P)"
    and fl: "flush_pending (conn\<lparr>pending_responses := try_emplace (wt_seq t) resp (pending_responses conn)\<rparr>) False = Some (conn2, appended)"
  shows "generation conn2 = generation conn" "conn_order H (P @ [(t, resp)]) (krnl s) (wt_fd t) conn2" "closing conn2 = closing conn"
    "\<not> appended \<Longrightarrow> conn_live (krnl s) (wt_fd t) conn2"
proof -
  let ?c = "conn\<lparr>pending_responses := try_emplace (wt_seq t) resp (pending_responses conn)\<rparr>" and ?g = "generation conn"
  have ord: "conn_order H P (krnl s) (wt_fd t) conn" and live: "conn_live (krnl s) (wt_fd t) conn"
    using conns_okD [OF ok c(1)] by auto
  obtain m w R where o: "ordered R m w (wire (krnl s) (wt_fd t)) conn" "R (of_nat w) = None" "answered H P conn m R"
    using ord by (auto simp: conn_order_def)
  let ?n = "length (gen_tasks ?g H)"
  obtain i where i: "i < ?n" "wt_seq t = of_nat i" using numbered_seq [OF H] c(2) by metis
  have m: "m < 2 ^ 64" "w \<le> m" "?n \<le> m" "next_request_seq conn = of_nat m" and known: "\<And>j. j < w \<Longrightarrow> R (of_nat j) \<noteq> None"
    using o(1,3) by (auto simp: ordered_def answered_def Let_def)
  have small: "i < 2 ^ 64" "?n < 2 ^ 64" using i m by linarith+
  have none: "responses ?g P (wt_seq t) = None" using responses_None [OF key] c(2) by simp
  have ne: "wt_seq t \<noteq> of_nat ?n" using i small u64_of_nat_inj [of i ?n] by simp
  have R: "R (wt_seq t) = None" using o(3) none ne by (auto simp: answered_def Let_def)
  have w: "w \<le> unat (wt_seq t)" using known [of i] R i small by (metis not_le_imp_less u64_of_nat)
  have "ordered (R(wt_seq t \<mapsto> resp)) m w (wire (krnl s) (wt_fd t)) ?c"
    by (rule ordered_add [OF o(1) R _ _ m(1) o(2) _ _ _ _ w]) (use i m small in \<open>simp_all add: u64_of_nat\<close>)
  from flush_pending_ordered [OF this, of False] obtain w' where
    f: "ordered (R(wt_seq t \<mapsto> resp)) m w' (wire (krnl s) (wt_fd t)) conn2" "(R(wt_seq t \<mapsto> resp)) (of_nat w') = None"
      "appended \<longleftrightarrow> w < w'" "w' = w \<longrightarrow> conn2 = ?c" "same_input ?c conn2" "w \<le> w'"
    using fl by auto
  show g: "generation conn2 = generation conn" "closing conn2 = closing conn" using f(5) by (simp_all add: same_input_def)
  have "responses ?g (P @ [(t, resp)]) = (responses ?g P)(wt_seq t \<mapsto> resp)"
    using none c(2) by (auto simp: responses_append fun_eq_iff map_add_def split: option.splits)
  then have "answered H (P @ [(t, resp)]) conn2 m (R(wt_seq t \<mapsto> resp))"
    using o(3) g ne by (auto simp: answered_def Let_def fun_upd_twist)
  moreover have "conn_fd conn2 = wt_fd t" "nb_ok (input_buffer conn2)" "\<forall>u\<in>set (gen_tasks (generation conn2) H). wt_fd u = wt_fd t"
    using f(5) ord g by (simp_all add: conn_order_def same_input_def)
  ultimately show "conn_order H (P @ [(t, resp)]) (krnl s) (wt_fd t) conn2"
    unfolding conn_order_def using f(1,2) by blast
  show "conn_live (krnl s) (wt_fd t) conn2" if "\<not> appended"
  proof -
    have "conn2 = ?c" using that f(3,4,6) by simp
    then show ?thesis using live by (simp add: conn_live_def live_with_def)
  qed
qed

lemma process_completions_ok:
  "process_completions (map completed_of L) s = Some s' \<Longrightarrow> conns_ok {} H P s \<Longrightarrow> numbered H \<Longrightarrow> fst ` set L \<subseteq> set H \<Longrightarrow>
   distinct (map (task_key \<circ> fst) (P @ L)) \<Longrightarrow> conns_ok {} H (P @ L) s' \<and> untouched_pool s s'"
proof (induction L arbitrary: s P)
  case (Cons e L)
  obtain t resp where e: "e = (t, resp)" by (cases e)
  have t: "t \<in> set H" and key: "task_key t \<notin> set (map (task_key \<circ> fst) P)" using Cons.prems(4,5) e by auto
  have d: "distinct (map (task_key \<circ> fst) ((P @ [e]) @ L))" using Cons.prems(5) by (simp only: append_assoc append_Cons append_Nil)
  have IH: "conns_ok {} H (P @ e # L) s' \<and> untouched_pool s s'"
    if "process_completions (map completed_of L) s1 = Some s'" "conns_ok {} H (P @ [e]) s1" "untouched_pool s s1" for s1
    using Cons.IH [OF that(1,2) Cons.prems(3) _ d] Cons.prems(4) untouched_trans(2) [OF that(3)] by auto
  have owner: "f = wt_fd t" if "map_of (connections s) f = Some c" "generation c = wt_generation t" for f c
    using conns_okD(1) [OF Cons.prems(2) that(1)] t that(2) by (auto simp: conn_order_def gen_tasks_def)
  show ?case
  proof (cases "\<exists>conn. map_of (connections s) (wt_fd t) = Some conn \<and> generation conn = wt_generation t")
    case False
    then have "process_completions (map completed_of L) s = Some s'"
      using Cons.prems(1) by (auto simp: e split: option.splits if_splits)
    moreover have "conns_ok {} H (P @ [e]) s" by (rule conns_ok_processed [OF Cons.prems(2)]) (use False owner e in auto)
    ultimately show ?thesis using IH by simp
  next
    case True
    then obtain conn where c: "map_of (connections s) (wt_fd t) = Some conn" "generation conn = wt_generation t" by blast
    obtain conn2 ap where fl: "flush_pending (conn\<lparr>pending_responses := try_emplace (wt_seq t) resp (pending_responses conn)\<rparr>) False = Some (conn2, ap)"
      using Cons.prems(1) c by (auto simp: e split: bind_splits)
    note O = complete_one [OF Cons.prems(2) c Cons.prems(3) t key fl]
    let ?s1 = "set_conn (wt_fd t) conn2 s" and ?ev = "if closing conn2 then EPOLLOUT OR EPOLLRDHUP else EPOLLIN OR EPOLLRDHUP OR EPOLLOUT"
    let ?s2 = "if ap then update_or_close (wt_fd t) ?ev ?s1 else ?s1"
    have run: "process_completions (map completed_of L) ?s2 = Some s'"
      using Cons.prems(1) c by (cases ap; cases "closing conn2") (simp_all add: e fl Let_def)
    have ins: "conns_ok (insert (wt_fd t) {}) H (P @ [e]) s"
      by (rule conns_ok_processed [OF conns_ok_mono [OF Cons.prems(2)]]) (use owner e in auto)
    have "conns_ok {} H (P @ [e]) ?s2"
    proof (cases ap)
      case True
      have "conns_ok (insert (wt_fd t) {}) H (P @ [e]) ?s1"
        by (rule set_conn_ok [of _ "insert (wt_fd t) {}"]) (use ins c O(1) in auto)
      then have "conns_ok {} H (P @ [e]) (update_or_close (wt_fd t) ?ev ?s1)"
        by (rule update_or_close_ok [where conn = conn2]) (use c O(2) e in \<open>auto simp: live_with_def wants_def epoll_defs\<close>)
      then show ?thesis using True by simp
    next
      case False
      have "conns_ok {} H (P @ [e]) ?s1" by (rule set_conn_ok [OF ins c(1) O(1)]) (use O(2,4) False e in auto)
      then show ?thesis using False by simp
    qed
    moreover have "untouched_pool s ?s2" using untouched_trans(2) [OF untouched_set_conn untouched_update_or_close] by simp
    ultimately show ?thesis using IH [OF run] by simp
  qed
qed simp

lemma completions_process_ok:
  assumes "completions_process s = Some s'" "completed_queue s = map completed_of L" "conns_ok {} H P s" "numbered H"
    "fst ` set L \<subseteq> set H" "distinct (map (task_key \<circ> fst) (P @ L))"
  shows "conns_ok {} H (P @ L) s'" "untouched_pool (s\<lparr>completed_queue := []\<rparr>) s'"
proof -
  let ?s = "s\<lparr>completed_queue := []\<rparr>"
  obtain s1 where p: "process_completions (map completed_of L) ?s = Some s1" "s' = MaybeFinishShutdown s1"
    using assms(1,2) by (auto simp: completions_process_def)
  have "conns_ok {} H (P @ L) s1 \<and> untouched_pool ?s s1"
    by (rule process_completions_ok [OF p(1) _ assms(4-6)]) (use assms(3) in simp)
  then show "conns_ok {} H (P @ L) s'" "untouched_pool ?s s'"
    using untouched_trans(2) [OF _ untouched_MaybeFinish] p(2) by auto
qed

lemma drain_wake_same [simp]:
  "open_fds (drain_wake rs k) = open_fds k" "wire (drain_wake rs k) = wire k" "interest (drain_wake rs k) = interest k"
  by (induction rs k rule: drain_wake.induct) simp_all

lemma completions_drain_ok: "conns_ok X H P s \<Longrightarrow> conns_ok X H P (completions_drain s)"
  by (simp add: completions_drain_def on_krnl_def conns_ok_krnl)

section \<open>New connections\<close>

lemma gen_tasks_fresh: "\<forall>t\<in>set H. unat (wt_generation t) < unat g \<Longrightarrow> gen_tasks g H = []"
  by (auto simp: gen_tasks_def filter_empty_conv)

lemma responses_fresh: "\<forall>t\<in>fst ` set P. unat (wt_generation t) < unat g \<Longrightarrow> responses g P = Map.empty"
proof -
  assume "\<forall>t\<in>fst ` set P. unat (wt_generation t) < unat g"
  then have "filter (\<lambda>(t, r). wt_generation t = g) P = []" by (auto simp: filter_empty_conv)
  then show ?thesis by (simp add: responses_def)
qed

lemma new_Connection_order:
  assumes "\<forall>t\<in>set H. unat (wt_generation t) < unat g" "fst ` set P \<subseteq> set H" "wire k fd = []"
  shows "conn_order H P k fd (new_Connection fd g)"
proof -
  have f: "gen_tasks g H = []" "responses g P = Map.empty"
    using gen_tasks_fresh [OF assms(1)] responses_fresh [of P g] assms(1,2) by auto
  have c: "generation (new_Connection fd g) = g" "conn_fd (new_Connection fd g) = fd" "nb_ok (input_buffer (new_Connection fd g))"
    by (simp_all add: new_Connection_def)
  show ?thesis using ordered_new [of fd g] assms(3) f c unfolding conn_order_def answered_def by (auto simp: Let_def)
qed

definition task_bound :: "WorkerTask list \<Rightarrow> TcpServer \<Rightarrow> bool" where
  "task_bound H s \<longleftrightarrow> (\<forall>t\<in>set H. unat (wt_generation t) < unat (next_generation s))"

lemma unat_next_generation: "unat (g :: u64) + 1 < 2 ^ 64 \<Longrightarrow> unat (g + 1) = unat g + 1"
  by (simp add: unat_word_ariths)

lemma conns_ok_generation:
  assumes "conns_ok X H P s" "unat (next_generation s) \<le> unat g"
  shows "conns_ok X H P (s\<lparr>next_generation := g\<rparr>)"
  using assms unfolding conns_ok_def shape_def fixed_fds_def by (auto intro: less_le_trans)

lemma conns_ok_open_close:
  assumes "conns_ok X H P s" "fd \<notin> open_fds (krnl s)"
  shows "conns_ok X H P (on_krnl (sys_close fd) (on_krnl (sys_open fd) s))"
  using assms unfolding on_krnl_def
  by (simp, intro conns_ok_krnl [OF assms(1)]) (auto simp: sys_open_def sys_close_def conns_ok_def shape_def)

lemma accept_one:
  assumes ok: "conns_ok {} H P s" and b: "task_bound H s" "fst ` set P \<subseteq> set H" and g: "unat (next_generation s) + 1 < 2 ^ 64"
    and fd: "0 \<le> fd" "fd \<notin> open_fds (krnl s)"
    and s2: "s2 = (on_krnl (sys_open fd) s)\<lparr>next_generation := next_generation s + 1,
        connections := connections s @ [(fd, new_Connection fd (next_generation s))]\<rparr>"
    and a: "AddEpollEvent fd (EPOLLIN OR EPOLLRDHUP) s2 = (added, s3)"
  shows "conns_ok {} H P (if added then s3 else on_krnl (sys_close fd) (erase_conn fd s3))"
    "untouched_pool s s3" "next_generation s3 = next_generation s + 1"
proof -
  let ?g = "next_generation s" and ?c = "new_Connection fd (next_generation s)"
  obtain k where k: "s3 = s2\<lparr>krnl := k\<rparr>" "open_fds k = insert fd (open_fds (krnl s))" "wire k = (wire (krnl s))(fd := [])"
    "interest k = (if added then (interest (krnl s))(fd \<mapsto> EPOLLIN OR EPOLLRDHUP) else interest (krnl s))"
    "wake_counter k = wake_counter (krnl s)"
    using a unfolding s2
    by (auto simp: AddEpollEvent_def epoll_add_def ctl_result_def on_krnl_def sys_open_def split: list.splits prod.splits if_splits)
  have sh: "shape s" using ok by (simp add: conns_ok_def)
  have notin: "fd \<notin> fst ` set (connections s)" "fd \<notin> fixed_fds s" using sh fd(2) by (auto simp: shape_def)
  have mnone: "map_of (connections s) fd = None" using notin(1) by (simp add: map_of_eq_None_iff)
  have gc: "generation ?c = ?g" by (simp add: new_Connection_def)
  have other: "conn_order H P k f c \<and> conn_live k f c" if "map_of (connections s) f = Some c" for f c
  proof -
    have "f \<noteq> fd" using that mnone by auto
    then show ?thesis using conns_okD [OF ok that] by (auto simp: conn_order_def conn_live_def k)
  qed
  have base: "connections s3 = connections s @ [(fd, ?c)]" "krnl s3 = k" "next_generation s3 = ?g + 1"
    "fixed_fds s3 = fixed_fds s" "listen_fd s3 = listen_fd s" "wake_fd s3 = wake_fd s" "epoll_fd s3 = epoll_fd s"
    by (simp_all add: k(1) s2 fixed_fds_def on_krnl_def)
  have sh3: "shape s3"
    using sh fd notin g unfolding shape_def base(1,3-7) base(2) k(2)
    by (auto simp: gc unat_next_generation less_Suc_eq)
  show "conns_ok {} H P (if added then s3 else on_krnl (sys_close fd) (erase_conn fd s3))"
  proof (cases added)
    case True
    have "conn_order H P k fd ?c" by (rule new_Connection_order) (use b k(3) in \<open>auto simp: task_bound_def\<close>)
    moreover have "conn_live k fd ?c"
      using True k(4) by (auto simp: conn_live_def live_with_def new_Connection_def wants_def epoll_defs)
    ultimately have "conns_ok {} H P s3"
      using sh3 other mnone unfolding conns_ok_def base by (auto simp: map_add_def split: option.splits if_splits)
    then show ?thesis using True by simp
  next
    case False
    let ?s4 = "on_krnl (sys_close fd) (erase_conn fd s3)"
    have e: "filter (\<lambda>(f, c). f \<noteq> fd) (connections s) = connections s" using notin(1) by (force simp: filter_id_conv)
    have "?s4 = (s\<lparr>krnl := sys_close fd k\<rparr>)\<lparr>next_generation := ?g + 1\<rparr>"
      by (simp add: erase_conn_def on_krnl_def k(1) s2 e)
    moreover have "conns_ok {} H P (s\<lparr>krnl := sys_close fd k\<rparr>)"
      by (rule conns_ok_krnl [OF ok]) (use fd notin False k in \<open>auto simp: sys_close_def\<close>)
    ultimately show ?thesis using False conns_ok_generation g by (simp add: unat_next_generation)
  qed
  show "untouched_pool s s3" using k(5) g by (simp add: k(1) s2 on_krnl_def untouched_pool_def untouched_def unat_next_generation)
  show "next_generation s3 = next_generation s + 1" by (rule base(3))
qed

lemma untouched_bound: "untouched s s' \<Longrightarrow> task_bound H s \<Longrightarrow> task_bound H s'"
  by (auto simp: untouched_def task_bound_def intro: less_le_trans)

lemma grows_bound: "untouched_pool s s' \<Longrightarrow> task_bound H s \<Longrightarrow> task_bound H s'"
  using untouched_bound by (auto simp: untouched_pool_def)

lemma untouched_on_krnl: "wake_counter (f (krnl s)) = wake_counter (krnl s) \<Longrightarrow> untouched_pool s (on_krnl f s)"
  by (simp add: on_krnl_def untouched_krnl)

lemma conns_ok_script: "conns_ok X H P s \<Longrightarrow> conns_ok X H P (on_krnl (\<lambda>k. k\<lparr>accept_script := rs\<rparr>) s)"
  by (simp add: on_krnl_def conns_ok_krnl)

lemma accept_loop_ok:
  "conns_ok {} H P s \<Longrightarrow> task_bound H s \<Longrightarrow> fst ` set P \<subseteq> set H \<Longrightarrow> unat (next_generation s) + length rs < 2 ^ 64 \<Longrightarrow>
   conns_ok {} H P (accept_loop rs s) \<and> untouched_pool s (accept_loop rs s)"
proof (induction rs arbitrary: s)
  case Nil
  then show ?case by (simp add: conns_ok_script untouched_on_krnl)
next
  case (Cons r rs)
  have stay: "conns_ok {} H P (on_krnl (\<lambda>k. k\<lparr>accept_script := rs\<rparr>) s)" "untouched_pool s (on_krnl (\<lambda>k. k\<lparr>accept_script := rs\<rparr>) s)"
    using Cons.prems(1) untouched_on_krnl [of "\<lambda>k. k\<lparr>accept_script := rs\<rparr>" s]
    by (simp_all add: conns_ok_script)
  have refl: "untouched_pool s s" by simp
  have loop: "conns_ok {} H P (accept_loop rs t) \<and> untouched_pool s (accept_loop rs t)"
    if "conns_ok {} H P t" "untouched_pool s t" "unat (next_generation t) + length rs < 2 ^ 64" for t
    using Cons.IH [OF that(1) grows_bound [OF that(2) Cons.prems(2)] Cons.prems(3) that(3)] untouched_trans(2) [OF that(2)] by blast
  show ?case
  proof (cases r)
    case (AcceptErr e)
    then show ?thesis using Cons.prems stay loop [OF Cons.prems(1) refl] refl by simp
  next
    case (AcceptedFd fd getfl setfl)
    let ?s1 = "on_krnl (sys_open fd) s"
    show ?thesis
    proof (cases "running s \<and> 0 \<le> fd \<and> fd \<notin> open_fds (krnl s)")
      case False
      then show ?thesis using AcceptedFd Cons.prems(1) stay refl by (auto simp: not_le)
    next
      case True
      then have go: "running s" "0 \<le> fd" "\<not> fd < 0" "fd \<notin> open_fds (krnl s)" by auto
      have g: "unat (next_generation s) + 1 < 2 ^ 64" using Cons.prems(4) by simp
      have "shape s" using Cons.prems(1) by (simp add: conns_ok_def)
      then have mnone: "map_of (connections s) fd = None" using go(4) by (auto simp: shape_def map_of_eq_None_iff)
      have same: "next_generation ?s1 = next_generation s" "connections ?s1 = connections s" by (simp_all add: on_krnl_def)
      show ?thesis
      proof (cases "SetNonBlocking getfl setfl")
        case F: False
        let ?t = "on_krnl (sys_close fd) ?s1"
        have t: "conns_ok {} H P ?t" "untouched_pool s ?t" "next_generation ?t = next_generation s"
          using conns_ok_open_close [OF Cons.prems(1) go(4)]
          by (simp_all add: on_krnl_def untouched_krnl sys_open_def sys_close_def)
        have "accept_loop (r # rs) s = accept_loop rs ?t" using go F AcceptedFd by (simp add: Let_def)
        then show ?thesis using loop [OF t(1,2)] t(3) Cons.prems(4) by simp
      next
        case N: True
        let ?s2 = "?s1\<lparr>next_generation := next_generation s + 1, connections := connections s @ [(fd, new_Connection fd (next_generation s))]\<rparr>"
        obtain added s3 where a: "AddEpollEvent fd (EPOLLIN OR EPOLLRDHUP) ?s2 = (added, s3)"
          by (cases "AddEpollEvent fd (EPOLLIN OR EPOLLRDHUP) ?s2")
        let ?t = "if added then s3 else on_krnl (sys_close fd) (erase_conn fd s3)"
        note A = accept_one [OF Cons.prems(1-3) g go(2,4) HOL.refl a]
        have "untouched_pool s3 ?t" using untouched_trans(2) [OF untouched_fields(3) untouched_on_krnl] by (simp add: sys_close_def)
        then have t: "untouched_pool s ?t" "next_generation ?t = next_generation s + 1"
          using A(2,3) g untouched_trans(2) [OF A(2)] by (auto simp: on_krnl_def erase_conn_def)
        have "accept_loop (r # rs) s = accept_loop rs ?t"
          using go N mnone a AcceptedFd by (cases added) (simp_all add: Let_def same)
        moreover have "unat (next_generation ?t) + length rs < 2 ^ 64" using Cons.prems(4) g by (simp add: t(2) unat_next_generation)
        ultimately show ?thesis using loop [OF A(1) t(1)] by simp
      qed
    qed
  qed
qed

section \<open>Stopping\<close>

lemma close_listen_ok:
  assumes "conns_ok X H P s" "0 \<le> listen_fd s"
  shows "conns_ok X H P (close_listen (RemoveEpollEvent (listen_fd s) s))" "untouched_pool s (close_listen (RemoveEpollEvent (listen_fd s) s))"
proof -
  let ?k = "sys_close (listen_fd s) (epoll_del (listen_fd s) (krnl s))" and ?l = "listen_fd s"
  have t: "close_listen (RemoveEpollEvent (listen_fd s) s) = s\<lparr>krnl := ?k, listen_fd := -1\<rparr>" (is "_ = ?t")
    by (simp add: close_listen_def RemoveEpollEvent_def on_krnl_def)
  have sh: "shape s" using assms(1) by (simp add: conns_ok_def)
  have fx: "fixed_fds ?t = fixed_fds s - {?l}" using sh assms(2) by (auto simp: fixed_fds_def shape_def)
  have notin: "?l \<notin> fst ` set (connections s)" "?l \<in> fixed_fds s" using sh assms(2) by (auto simp: fixed_fds_def shape_def)
  have "shape ?t" using sh notin fx unfolding shape_def by (auto simp: sys_close_def epoll_del_def)
  moreover have "conn_order H P ?k f c \<and> conn_live ?k f c" if "map_of (connections s) f = Some c" "f \<notin> X" for f c
  proof -
    have "f \<noteq> ?l" using notin(1) map_of_SomeD [OF that(1)] by force
    then show ?thesis using conns_okD [OF assms(1) that] by (simp add: conn_order_def conn_live_def sys_close_def epoll_del_def)
  qed
  ultimately show "conns_ok X H P (close_listen (RemoveEpollEvent (listen_fd s) s))" unfolding t by (simp add: conns_ok_def)
  show "untouched_pool s (close_listen (RemoveEpollEvent (listen_fd s) s))"
    unfolding t by (simp add: untouched_pool_def untouched_def sys_close_def epoll_del_def)
qed

lemma closing_order:
  assumes "conn_order H P k fd conn"
  shows "conn_order H P k fd (conn\<lparr>closing := True, input_buffer := RetrieveAll (input_buffer conn)\<rparr>)" (is "conn_order H P k fd ?c")
proof -
  obtain m w R where o: "ordered R m w (wire k fd) conn" "R (of_nat w) = None" "answered H P conn m R"
    using assms by (auto simp: conn_order_def)
  have "ordered R m w (wire k fd) ?c" "answered H P ?c m R" using o(1,3) by (simp_all add: ordered_def answered_def Let_def) blast
  then show ?thesis using assms o(2) unfolding conn_order_def by auto
qed

lemma stop_loop_ok:
  "stop_loop cs s = (tc, s') \<Longrightarrow> conns_ok Y H P s \<Longrightarrow> distinct (map fst cs) \<Longrightarrow> Y \<inter> fst ` set cs = {} \<Longrightarrow>
   (\<And>fd c. (fd, c) \<in> set cs \<Longrightarrow> map_of (connections s) fd = Some c) \<Longrightarrow>
   conns_ok (set tc \<union> Y) H P s' \<and> untouched_pool s s'"
proof (induction cs arbitrary: s Y tc)
  case (Cons e cs)
  obtain fd conn where e: "e = (fd, conn)" by (cases e)
  let ?c = "conn\<lparr>closing := True, input_buffer := RetrieveAll (input_buffer conn)\<rparr>"
  let ?s1 = "set_conn fd ?c s"
  have m: "map_of (connections s) fd = Some conn" and Y: "fd \<notin> Y" "fd \<notin> fst ` set cs" using Cons.prems(3-5) e by auto
  note O = conns_okD [OF Cons.prems(2) m Y(1)]
  have ins: "conns_ok (insert fd Y) H P ?s1"
    by (rule set_conn_ok [of fd "insert fd Y"]) (use Cons.prems(2) m in \<open>auto intro: conns_ok_mono\<close>)
  have keep: "map_of (connections ?s1) f = Some c" if "(f, c) \<in> set cs" for f c
    using that Y(2) Cons.prems(5) [of f c] by (force simp: e)
  have Ycs: "Y \<inter> fst ` set cs = {}" "insert fd Y \<inter> fst ` set cs = {}" "distinct (map fst cs)" using Cons.prems(3,4) Y(2) e by auto
  have step: ?case if "stop_loop cs t = (tc', s')" "conns_ok Z H P t" "Z \<inter> fst ` set cs = {}" "connections t = connections ?s1"
    "untouched_pool ?s1 t" "set tc' \<union> Z \<subseteq> set tc \<union> Y" for t tc' Z
  proof -
    have "conns_ok (set tc' \<union> Z) H P s' \<and> untouched_pool t s'"
      by (rule Cons.IH [OF that(1,2) Ycs(3) that(3)]) (use keep that(4) in simp)
    then show ?thesis
      using conns_ok_mono [OF _ that(6)] untouched_trans(2) [OF untouched_trans(2) [OF untouched_set_conn that(5)]] by blast
  qed
  show ?case
  proof (cases "IsConnectionDrained ?c")
    case True
    obtain tc' where "stop_loop cs ?s1 = (tc', s')" "tc = fd # tc'"
      using Cons.prems(1) True by (cases "stop_loop cs ?s1") (auto simp: e Let_def)
    then show ?thesis using step [OF _ ins Ycs(2)] by auto
  next
    case False
    obtain b t where u: "UpdateEpollEvent fd (EPOLLRDHUP OR EPOLLOUT) ?s1 = (b, t)"
      by (cases "UpdateEpollEvent fd (EPOLLRDHUP OR EPOLLOUT) ?s1")
    note U = Update_ok [OF ins u] and un = untouched_Update [OF u]
    show ?thesis
    proof (cases b)
      case True
      have "stop_loop cs t = (tc, s')" using Cons.prems(1) False u True by (simp add: e Let_def)
      moreover have "conns_ok Y H P t"
        by (rule U(3) [where conn = ?c])
           (use True m closing_order [OF O(1)] in \<open>simp_all add: live_with_def wants_def epoll_defs\<close>)
      ultimately show ?thesis using step [OF _ _ Ycs(1) U(2) un] by auto
    next
      case F: False
      obtain tc' where "stop_loop cs t = (tc', s')" "tc = fd # tc'"
        using Cons.prems(1) False u F by (cases "stop_loop cs t") (auto simp: e Let_def)
      then show ?thesis using step [OF _ U(1) Ycs(2) U(2) un] by auto
    qed
  qed
qed simp

lemma fold_Close_ok: "conns_ok (set tc) H P s \<Longrightarrow> conns_ok {} H P (fold CloseConnection tc s) \<and> untouched_pool s (fold CloseConnection tc s)"
proof (induction tc arbitrary: s)
  case (Cons fd tc)
  have "conns_ok (set tc) H P (CloseConnection fd s)" using Close_ok Cons.prems by simp
  then show ?case using Cons.IH untouched_trans(2) [OF untouched_Close] by force
qed simp

lemma Stop_ok:
  assumes "conns_ok {} H P s"
  shows "conns_ok {} H P (Stop s) \<and> untouched_pool s (Stop s)"
proof (cases "running s \<and> \<not> stopping s")
  case True
  let ?s1 = "s\<lparr>stopping := True\<rparr>"
  let ?s2 = "if listen_fd ?s1 \<ge> 0 then close_listen (RemoveEpollEvent (listen_fd ?s1) ?s1) else ?s1"
  have s1: "conns_ok {} H P ?s1" using assms by simp
  have s2: "conns_ok {} H P ?s2" "untouched_pool ?s1 ?s2" using s1 close_listen_ok [OF s1] by auto
  obtain tc s3 where l: "stop_loop (connections ?s2) ?s2 = (tc, s3)" by (cases "stop_loop (connections ?s2) ?s2")
  have d: "distinct (map fst (connections ?s2))" using s2(1) unfolding conns_ok_def shape_def by blast
  have "conns_ok (set tc \<union> {}) H P s3 \<and> untouched_pool ?s2 s3"
    by (rule stop_loop_ok [OF l s2(1) d]) (use d in auto)
  then have s3: "conns_ok (set tc) H P s3" "untouched_pool ?s2 s3" by simp_all
  note s4 = fold_Close_ok [OF s3(1)]
  have "Stop s = MaybeFinishShutdown (WakeEventLoop (fold CloseConnection tc s3))"
    using True l by (simp add: Stop_def Let_def)
  moreover have "untouched_pool s (fold CloseConnection tc s3)"
    using untouched_trans(2) [OF untouched_fields(2) untouched_trans(2) [OF s2(2) untouched_trans(2) [OF s3(2)]]] s4 by blast
  ultimately show ?thesis
    using s4 untouched_trans(2) [OF _ untouched_trans(2) [OF untouched_wake untouched_MaybeFinish]] by simp
qed (use assms in \<open>auto simp: Stop_def\<close>)

end
