(* ===== verification/TcpSteps.thy ===== *)
theory TcpSteps
  imports TcpEvents
begin

text \<open>
  The server at work: the event loop, the eight workers, callers of \<open>Stop\<close> and the database's
  background thread, interleaved. A step of the event loop is one handler; \<open>HandleWorkerCompletions\<close>
  is split between reading the eventfd and taking the queue, and the end of a worker's task between
  pushing its result and writing the eventfd, so that the steps of the other side can fall in
  between. A worker executes its command as one step. Before every step the kernel's scripts are
  replaced by arbitrary ones.

  Four components of the state only record the history: the tasks submitted, the commands executed
  with their responses, how many of these the event loop has taken, and for each generation of
  connections the pieces of input read from it.
\<close>

section \<open>State and steps\<close>

record net =
  srv :: TcpServer
  io_drained :: bool
  pushed :: "nat set"
  subs :: "WorkerTask list"
  execs :: "(WorkerTask \<times> bytes) list"
  taken :: nat
  received :: "u64 \<Rightarrow> bytes list"

definition with_scripts ::
  "bool list \<Rightarrow> accept_result list \<Rightarrow> (int + bytes) list \<Rightarrow> write_result list \<Rightarrow> bool list \<Rightarrow> TcpServer \<Rightarrow> TcpServer" where
  "with_scripts ctl acc rd wr intr s =
     on_krnl (\<lambda>k. k\<lparr>ctl_script := ctl, accept_script := acc, read_script := rd, write_script := wr, intr_script := intr\<rparr>) s"

datatype net_label = Silent | Exec WorkerTask bytes | Threw WorkerTask bytes

abbreviation worker_at :: "net \<Rightarrow> nat \<Rightarrow> WorkerTask worker" where
  "worker_at n i \<equiv> workers (thread_pool (srv n)) ! i"

abbreviation worker_count :: "net \<Rightarrow> nat" where
  "worker_count n \<equiv> length (workers (thread_pool (srv n)))"

definition new_tasks :: "TcpServer \<Rightarrow> TcpServer \<Rightarrow> WorkerTask list" where
  "new_tasks s s' = drop (length (pool_tasks (thread_pool s))) (pool_tasks (thread_pool s'))"

text \<open>The piece of input a connection event brings, added to those of the connection's generation.\<close>

definition note_read :: "int \<Rightarrow> u32_events \<Rightarrow> TcpServer \<Rightarrow> (u64 \<Rightarrow> bytes list) \<Rightarrow> u64 \<Rightarrow> bytes list" where
  "note_read fd ev s rcv =
     (case (map_of (connections s) fd, read_script (krnl s)) of
        (Some conn, Inr c # _) \<Rightarrow>
          if running s \<and> \<not> wants ev (EPOLLERR OR EPOLLHUP) \<and> wants ev EPOLLIN \<and> \<not> closing conn
          then rcv(generation conn := rcv (generation conn) @ [c]) else rcv
      | _ \<Rightarrow> rcv)"

text \<open>
  The steps of the workers and of the database's background thread, which waits until a flush is
  scheduled and whose round is one step. Waiting threads are not woken by name: a thread may go on
  whenever the predicate it waits for holds.
\<close>

inductive worker_step :: "net_label \<Rightarrow> net \<Rightarrow> net \<Rightarrow> bool" where
  work_start: "i < worker_count n \<Longrightarrow> worker_at n i = Waiting \<Longrightarrow> worker_wake i (thread_pool (srv n)) = Some pool \<Longrightarrow>
    worker_step Silent n (n\<lparr>srv := (srv n)\<lparr>thread_pool := pool\<rparr>\<rparr>)"
| work_exec: "i < worker_count n \<Longrightarrow> worker_at n i = Running t \<Longrightarrow> i \<notin> pushed n \<Longrightarrow>
    task_response None coin (wt_command t) (executor_db (srv n)) = Some (Some (resp, db')) \<Longrightarrow>
    worker_step (Exec t resp) n
      (n\<lparr>srv := push_completed t resp ((srv n)\<lparr>executor_db := db'\<rparr>), pushed := insert i (pushed n), execs := execs n @ [(t, resp)]\<rparr>)"
| work_throw: "i < worker_count n \<Longrightarrow> worker_at n i = Running t \<Longrightarrow> i \<notin> pushed n \<Longrightarrow>
    task_response (Some db') coin (wt_command t) (executor_db (srv n)) = Some (Some (resp, db')) \<Longrightarrow>
    worker_step (Threw t resp) n
      (n\<lparr>srv := push_completed t resp ((srv n)\<lparr>executor_db := db'\<rparr>), pushed := insert i (pushed n), execs := execs n @ [(t, resp)]\<rparr>)"
| work_end: "s = with_scripts ctl acc rd wr intr (srv n) \<Longrightarrow> i \<in> pushed n \<Longrightarrow>
    worker_step Silent n (n\<lparr>srv := (task_wake s)\<lparr>thread_pool := worker_done i (thread_pool s)\<rparr>, pushed := pushed n - {i}\<rparr>)"
| background: "executor_db (srv n) = Some db \<Longrightarrow> bg_ready db \<Longrightarrow> BackgroundRound db = Some (Some db') \<Longrightarrow>
    worker_step Silent n (n\<lparr>srv := (srv n)\<lparr>executor_db := Some db'\<rparr>\<rparr>)"

inductive net_step :: "net_label \<Rightarrow> net \<Rightarrow> net \<Rightarrow> bool" where
  accept: "s = with_scripts ctl acc rd wr intr (srv n) \<Longrightarrow> running s \<Longrightarrow> \<not> io_drained n \<Longrightarrow> 0 \<le> listen_fd s \<Longrightarrow>
    unat (next_generation s) + length acc < 2 ^ 64 \<Longrightarrow>
    net_step Silent n (n\<lparr>srv := HandleAccept s\<rparr>)"
| connection: "s = with_scripts ctl acc rd wr intr (srv n) \<Longrightarrow> running s \<Longrightarrow> \<not> io_drained n \<Longrightarrow>
    fd \<noteq> listen_fd s \<Longrightarrow> fd \<noteq> wake_fd s \<Longrightarrow> read_room (subs n) s \<Longrightarrow>
    HandleConnectionEvent fd ev s = Some s' \<Longrightarrow>
    net_step Silent n (n\<lparr>srv := s', subs := subs n @ new_tasks s s', received := note_read fd ev s (received n)\<rparr>)"
| drain: "s = with_scripts ctl acc rd wr intr (srv n) \<Longrightarrow> running s \<Longrightarrow> \<not> io_drained n \<Longrightarrow>
    net_step Silent n (n\<lparr>srv := completions_drain s, io_drained := True\<rparr>)"
| process: "s = with_scripts ctl acc rd wr intr (srv n) \<Longrightarrow> io_drained n \<Longrightarrow> completions_process s = Some s' \<Longrightarrow>
    net_step Silent n (n\<lparr>srv := s', io_drained := False, taken := length (execs n)\<rparr>)"
| stop: "s = with_scripts ctl acc rd wr intr (srv n) \<Longrightarrow> net_step Silent n (n\<lparr>srv := Stop s\<rparr>)"
| worker: "worker_step lab n n' \<Longrightarrow> net_step lab n n'"

text \<open>Runs whose states and labels satisfy a condition.\<close>

inductive net_reach :: "(net \<Rightarrow> net_label \<Rightarrow> bool) \<Rightarrow> net \<Rightarrow> net \<Rightarrow> bool" for Q n0 where
  start: "net_reach Q n0 n0"
| more: "net_reach Q n0 n \<Longrightarrow> Q n lab \<Longrightarrow> net_step lab n n' \<Longrightarrow> net_reach Q n0 n'"

section \<open>Invariant\<close>

text \<open>The tasks being executed whose result is not pushed yet.\<close>

definition open_tasks :: "nat set \<Rightarrow> WorkerTask worker list \<Rightarrow> WorkerTask multiset" where
  "open_tasks A ws = (\<Sum>i<length ws. if i \<in> A then {#} else task_of (ws ! i))"

definition task_inv :: "net \<Rightarrow> bool" where
  "task_inv n \<longleftrightarrow>
     mset (subs n) = mset (pool_tasks (thread_pool (srv n))) + open_tasks (pushed n) (workers (thread_pool (srv n))) + mset (map fst (execs n)) \<and>
     (\<forall>i\<in>pushed n. i < worker_count n \<and> (\<exists>t. worker_at n i = Running t)) \<and>
     numbered (subs n) \<and> distinct (map task_key (subs n)) \<and> task_bound (subs n) (srv n) \<and>
     taken n \<le> length (execs n) \<and> completed_queue (srv n) = map completed_of (drop (taken n) (execs n))"

definition wake_inv :: "net \<Rightarrow> bool" where
  "wake_inv n \<longleftrightarrow> (completed_queue (srv n) \<noteq> [] \<longrightarrow> 0 < wake_counter (krnl (srv n)) \<or> pushed n \<noteq> {} \<or> io_drained n)"

definition net_inv :: "net \<Rightarrow> bool" where
  "net_inv n \<longleftrightarrow> conns_ok {} (subs n) (take (taken n) (execs n)) (srv n) \<and> task_inv n \<and> wake_inv n"

lemma with_scripts_same [simp]:
  "connections (with_scripts a b c d e s) = connections s" "thread_pool (with_scripts a b c d e s) = thread_pool s"
  "completed_queue (with_scripts a b c d e s) = completed_queue s" "executor_db (with_scripts a b c d e s) = executor_db s"
  "next_generation (with_scripts a b c d e s) = next_generation s" "wake_counter (krnl (with_scripts a b c d e s)) = wake_counter (krnl s)"
  "listen_fd (with_scripts a b c d e s) = listen_fd s" "running (with_scripts a b c d e s) = running s"
  "accept_script (krnl (with_scripts a b c d e s)) = b" "read_script (krnl (with_scripts a b c d e s)) = c"
  "wake_fd (with_scripts a b c d e s) = wake_fd s" "stopping (with_scripts a b c d e s) = stopping s"
  by (simp_all add: with_scripts_def on_krnl_def)

lemma with_scripts_ok: "conns_ok X H P s \<Longrightarrow> conns_ok X H P (with_scripts a b c d e s)"
  by (simp add: with_scripts_def on_krnl_def conns_ok_krnl)

lemma open_tasks_update:
  assumes "i < length ws" "A - {i} = B - {i}"
  shows "open_tasks B (ws[i := w]) + (if i \<in> A then {#} else task_of (ws ! i)) =
    open_tasks A ws + (if i \<in> B then {#} else task_of w)"
proof -
  have fin: "finite {..<length ws}" "i \<in> {..<length ws}" using assms by auto
  have same: "(if j \<in> B then {#} else task_of (ws[i := w] ! j)) = (if j \<in> A then {#} else task_of (ws ! j))" if "j \<in> {..<length ws} - {i}" for j
    using that assms(2) by auto
  have "(\<Sum>j\<in>{..<length ws} - {i}. if j \<in> B then {#} else task_of (ws[i := w] ! j)) =
      (\<Sum>j\<in>{..<length ws} - {i}. if j \<in> A then {#} else task_of (ws ! j))"
    by (rule sum.cong [OF refl same])
  then show ?thesis
    using sum.remove [OF fin, of "\<lambda>j. if j \<in> B then {#} else task_of (ws[i := w] ! j)"]
      sum.remove [OF fin, of "\<lambda>j. if j \<in> A then {#} else task_of (ws ! j)"] assms
    by (simp add: open_tasks_def ac_simps)
qed

text \<open>New tasks of a connection keep the numbering.\<close>

lemma numbered_append:
  assumes "numbered H" "tasks_from fd g (length (gen_tasks g H)) new"
  shows "numbered (H @ new)"
proof -
  have own: "gen_tasks g new = new" and oth: "\<And>g'. g' \<noteq> g \<Longrightarrow> gen_tasks g' new = []"
    using assms(2) gen_tasks_own [of new g] gen_tasks_other [of new g] by (auto simp: tasks_from_def)
  have "map wt_seq (gen_tasks g' (H @ new)) = map of_nat [0..<length (gen_tasks g' (H @ new))]" for g'
    using assms own oth [of g'] upt_add_eq_append [of 0 "length (gen_tasks g H)" "length new"]
    by (cases "g' = g") (simp_all add: gen_tasks_append numbered_def tasks_from_def)
  then show ?thesis by (simp add: numbered_def)
qed

lemma numbered_distinct:
  assumes "numbered H" "length H < 2 ^ 64"
  shows "distinct (map task_key H)"
proof -
  have inj: "i = j" if ij: "i < length H" "j < length H" "task_key (H ! i) = task_key (H ! j)" for i j
  proof (rule ccontr)
    assume ne: "i \<noteq> j"
    let ?g = "wt_generation (H ! i)" and ?F = "\<lambda>xs. filter (\<lambda>t. wt_generation t = wt_generation (H ! i)) xs"
    have g: "wt_generation (H ! j) = ?g" "wt_seq (H ! j) = wt_seq (H ! i)" using ij(3) by (simp_all add: task_key_def)
    have dist: "distinct (map wt_seq (gen_tasks ?g H))"
    proof -
      have "length (gen_tasks ?g H) < 2 ^ 64" using length_gen_tasks [of ?g H] assms(2) by simp
      then have "inj_on (of_nat :: nat \<Rightarrow> u64) (set [0..<length (gen_tasks ?g H)])"
        by (intro inj_onI) (simp add: u64_of_nat_inj)
      then show ?thesis using assms(1) unfolding numbered_def by (simp add: distinct_map)
    qed
    have no: False if "a < b" "b < length H" "wt_generation (H ! a) = ?g" "wt_generation (H ! b) = ?g" "wt_seq (H ! a) = wt_seq (H ! b)" for a b
    proof -
      have "H = take b H @ H ! b # drop (Suc b) H" using that(2) by (simp add: id_take_nth_drop)
      then have F: "gen_tasks ?g H = ?F (take b H) @ H ! b # ?F (drop (Suc b) H)"
        using that(4) unfolding gen_tasks_def by (metis (mono_tags, lifting) filter.simps(2) filter_append)
      have "H ! a \<in> set (take b H)" using that(1,2) by (auto simp: in_set_conv_nth)
      then have "wt_seq (H ! b) \<in> wt_seq ` set (?F (take b H))" using that(3,5) by (intro image_eqI [of _ _ "H ! a"]) auto
      then show False using dist unfolding F by auto
    qed
    from ne consider "i < j" | "j < i" by linarith
    then show False using no [of i j] no [of j i] ij g by cases auto
  qed
  then show ?thesis by (auto simp: distinct_conv_nth)
qed

lemma HandleConnectionEvent_ok:
  assumes "HandleConnectionEvent fd ev s = Some s'" "conns_ok {} H P s" "read_room H s"
  shows "\<exists>new. conns_ok {} (H @ new) P s' \<and> adds_tasks new s s' \<and>
    (new \<noteq> [] \<longrightarrow> (\<exists>conn. map_of (connections s) fd = Some conn \<and>
       tasks_from fd (generation conn) (length (gen_tasks (generation conn) H)) new \<and> length (H @ new) < 2 ^ 64))"
proof -
  consider "s' = s" | "s' = CloseConnection fd s"
    | s1 where "(if wants ev EPOLLIN then HandleRead fd s else Some s) = Some s1" "s' = (if wants ev EPOLLOUT then HandleWrite fd s1 else s1)"
  proof (cases "running s \<and> \<not> wants ev (EPOLLERR OR EPOLLHUP)")
    case True
    then have "(if wants ev EPOLLIN then HandleRead fd s else Some s) \<bind>
        (\<lambda>s1. Some (if wants ev EPOLLOUT then HandleWrite fd s1 else s1)) = Some s'"
      using assms(1) by (simp only: HandleConnectionEvent_def if_True if_False not_True_eq_False conj_commute)
    then show ?thesis unfolding bind_eq_Some_conv using that(3) by blast
  next
    case False
    then show ?thesis using assms(1) that(1,2) by (cases "running s") (simp_all add: HandleConnectionEvent_def)
  qed
  then show ?thesis
  proof cases
    case 1
    then show ?thesis using assms(2) by (intro exI [of _ "[]"]) (simp add: adds_none)
  next
    case 2
    then show ?thesis
      using Close_ok [OF conns_ok_mono [OF assms(2)]] by (intro exI [of _ "[]"]) (auto simp: adds_none)
  next
    case (3 s1)
    have "\<exists>new. conns_ok {} (H @ new) P s1 \<and> adds_tasks new s s1 \<and>
        (new \<noteq> [] \<longrightarrow> (\<exists>conn. map_of (connections s) fd = Some conn \<and>
           tasks_from fd (generation conn) (length (gen_tasks (generation conn) H)) new \<and> length (H @ new) < 2 ^ 64))"
    proof (cases "wants ev EPOLLIN")
      case True
      then show ?thesis using HandleRead_ok [OF _ assms(2,3), of fd s1] 3(1) by simp
    next
      case False
      then show ?thesis using 3(1) assms(2) by (intro exI [of _ "[]"]) (simp add: adds_none)
    qed
    then obtain new where new: "conns_ok {} (H @ new) P s1" "adds_tasks new s s1"
      "new \<noteq> [] \<longrightarrow> (\<exists>conn. map_of (connections s) fd = Some conn \<and>
         tasks_from fd (generation conn) (length (gen_tasks (generation conn) H)) new \<and> length (H @ new) < 2 ^ 64)" by blast
    have "conns_ok {} (H @ new) P s' \<and> untouched_pool s1 s'" using 3(2) HandleWrite_ok [OF new(1), of fd] new(1) by simp
    then show ?thesis
      using new(2,3) by (intro exI [of _ new]) (auto simp: adds_tasks_def untouched_pool_def dest: untouched_trans(1))
  qed
qed

lemma adds_new_tasks: "adds_tasks new s s' \<Longrightarrow> new_tasks s s' = new"
  by (simp add: adds_tasks_def new_tasks_def)

lemma tasks_from_bound:
  assumes "task_bound H s" "untouched s s'" "shape s" "new \<noteq> [] \<longrightarrow> (\<exists>conn. map_of (connections s) fd = Some conn \<and> tasks_from fd (generation conn) k new)"
  shows "task_bound (H @ new) s'"
proof -
  have "unat (wt_generation t) < unat (next_generation s)" if "t \<in> set new" for t
    using assms(3,4) that generation_bound by (fastforce simp: tasks_from_def)
  then have "task_bound (H @ new) s" using assms(1) by (auto simp: task_bound_def)
  then show ?thesis by (rule untouched_bound [OF assms(2)])
qed

text \<open>Steps that neither submit nor execute tasks.\<close>

lemma net_inv_quiet:
  assumes "net_inv n" "conns_ok {} (subs n) (take (taken n) (execs n)) s'" "untouched_pool s s'"
    "s = with_scripts ctl acc rd wr intr (srv n)"
  shows "net_inv (n\<lparr>srv := s'\<rparr>)"
proof -
  have b: "task_bound (subs n) s" using assms(1,4) by (simp add: net_inv_def task_inv_def task_bound_def)
  have "task_inv (n\<lparr>srv := s'\<rparr>)"
    using assms(1,3,4) grows_bound [OF assms(3) b] by (simp add: net_inv_def task_inv_def untouched_pool_def untouched_def)
  moreover have "wake_inv (n\<lparr>srv := s'\<rparr>)"
    using assms(1,3,4) by (auto simp: net_inv_def wake_inv_def untouched_pool_def untouched_def)
  ultimately show ?thesis using assms(2) by (simp add: net_inv_def)
qed

lemma distinct_sub_mset:
  assumes "mset xs \<subseteq># mset ys" "distinct ys"
  shows "distinct xs"
proof -
  obtain zs where "mset zs = mset ys - mset xs" using ex_mset by blast
  then have "mset ys = mset (xs @ zs)" using assms(1) by simp
  then show ?thesis using mset_eq_imp_distinct_iff [of ys "xs @ zs"] assms(2) by simp
qed

lemma execs_subset:
  assumes "task_inv n"
  shows "fst ` set (execs n) \<subseteq> set (subs n)" "distinct (map (task_key \<circ> fst) (execs n))"
proof -
  have m: "mset (map fst (execs n)) \<subseteq># mset (subs n)"
    using assms by (simp add: task_inv_def)
  then show "fst ` set (execs n) \<subseteq> set (subs n)" using set_mset_mono [OF m] by simp
  have "image_mset task_key (mset (map fst (execs n))) \<subseteq># image_mset task_key (mset (subs n))"
    by (rule image_mset_subseteq_mono [OF m])
  then have "mset (map (task_key \<circ> fst) (execs n)) \<subseteq># mset (map task_key (subs n))" by (simp add: image_mset.compositionality)
  moreover have "distinct (map task_key (subs n))" using assms by (simp add: task_inv_def)
  ultimately show "distinct (map (task_key \<circ> fst) (execs n))" by (rule distinct_sub_mset)
qed

lemma net_invD:
  assumes "net_inv n"
  shows "conns_ok {} (subs n) (take (taken n) (execs n)) (srv n)" "task_inv n" "wake_inv n"
  using assms by (simp_all add: net_inv_def)

lemma net_inv_connection:
  assumes inv: "net_inv n" and s: "s = with_scripts ctl acc rd wr intr (srv n)" and room: "read_room (subs n) s"
    and h: "HandleConnectionEvent fd ev s = Some s'"
  shows "net_inv (n\<lparr>srv := s', subs := subs n @ new_tasks s s', received := rcv\<rparr>)"
proof -
  note D = net_invD [OF inv]
  have ok: "conns_ok {} (subs n) (take (taken n) (execs n)) s" using with_scripts_ok D(1) by (simp add: s)
  obtain new where new: "conns_ok {} (subs n @ new) (take (taken n) (execs n)) s'" "adds_tasks new s s'"
    "new \<noteq> [] \<longrightarrow> (\<exists>conn. map_of (connections s) fd = Some conn \<and>
       tasks_from fd (generation conn) (length (gen_tasks (generation conn) (subs n))) new \<and> length (subs n @ new) < 2 ^ 64)"
    using HandleConnectionEvent_ok [OF h ok room] by blast
  have u: "untouched s s'" "thread_pool s' = (thread_pool s)\<lparr>pool_tasks := pool_tasks (thread_pool s) @ new\<rparr>"
    using new(2) by (simp_all add: adds_tasks_def)
  have b: "task_bound (subs n @ new) s'"
    using tasks_from_bound [OF _ u(1)] new(3) ok D(2) s by (simp add: task_inv_def task_bound_def conns_ok_def) blast
  have num: "numbered (subs n @ new) \<and> distinct (map task_key (subs n @ new))"
  proof (cases "new = []")
    case True
    then show ?thesis using D(2) by (simp add: task_inv_def)
  next
    case False
    then obtain conn where c: "map_of (connections s) fd = Some conn"
      "tasks_from fd (generation conn) (length (gen_tasks (generation conn) (subs n))) new" "length (subs n @ new) < 2 ^ 64"
      using new(3) by blast
    have "numbered (subs n @ new)" using numbered_append [OF _ c(2)] D(2) by (simp add: task_inv_def)
    then show ?thesis using numbered_distinct c(3) by blast
  qed
  have "task_inv (n\<lparr>srv := s', subs := subs n @ new, received := rcv\<rparr>)"
    using D(2) u b num s by (simp add: task_inv_def untouched_def ac_simps)
  moreover have "wake_inv (n\<lparr>srv := s', subs := subs n @ new, received := rcv\<rparr>)" using D(3) u s by (auto simp: wake_inv_def untouched_def)
  ultimately show ?thesis using new(1) adds_new_tasks [OF new(2)] by (simp add: net_inv_def)
qed

lemma net_inv_process:
  assumes inv: "net_inv n" and s: "s = with_scripts ctl acc rd wr intr (srv n)" and p: "completions_process s = Some s'"
  shows "net_inv (n\<lparr>srv := s', io_drained := False, taken := length (execs n)\<rparr>)"
proof -
  note D = net_invD [OF inv]
  let ?L = "drop (taken n) (execs n)" and ?P = "take (taken n) (execs n)"
  have t: "numbered (subs n)" "completed_queue s = map completed_of ?L" "fst ` set ?L \<subseteq> set (subs n)"
    "distinct (map (task_key \<circ> fst) (?P @ ?L))"
    using D(2) execs_subset [OF D(2)] s set_drop_subset [of "taken n" "execs n"] by (auto simp: task_inv_def)
  note C = completions_process_ok [OF p t(2) _ t(1,3,4)]
  have ok: "conns_ok {} (subs n) (execs n) s'" using C(1) with_scripts_ok [OF D(1)] s by simp
  have u: "untouched_pool (s\<lparr>completed_queue := []\<rparr>) s'" using C(2) with_scripts_ok [OF D(1)] s by simp
  have "task_bound (subs n) s'"
    using grows_bound [OF u, of "subs n"] D(2) s by (simp add: task_inv_def task_bound_def)
  then have "task_inv (n\<lparr>srv := s', io_drained := False, taken := length (execs n)\<rparr>)"
    using D(2) u s by (simp add: task_inv_def untouched_pool_def untouched_def)
  moreover have "wake_inv (n\<lparr>srv := s', io_drained := False, taken := length (execs n)\<rparr>)"
    using u by (simp add: wake_inv_def untouched_pool_def untouched_def)
  ultimately show ?thesis using ok by (simp add: net_inv_def)
qed

lemma net_inv_exec:
  assumes inv: "net_inv n" and w: "i < worker_count n" "worker_at n i = Running t" "i \<notin> pushed n"
  shows "net_inv (n\<lparr>srv := push_completed t resp ((srv n)\<lparr>executor_db := db'\<rparr>), pushed := insert i (pushed n), execs := execs n @ [(t, resp)]\<rparr>)"
    (is "net_inv ?n")
proof -
  note D = net_invD [OF inv]
  let ?ws = "workers (thread_pool (srv n))"
  have "open_tasks (insert i (pushed n)) (?ws[i := ?ws ! i]) + {#t#} = open_tasks (pushed n) ?ws"
    using open_tasks_update [OF w(1), of "pushed n" "insert i (pushed n)" "?ws ! i"] w(2,3) by simp
  then have "open_tasks (pushed n) ?ws = add_mset t (open_tasks (insert i (pushed n)) ?ws)" by simp
  then have "task_inv ?n"
    using D(2) w by (simp add: task_inv_def task_bound_def push_completed_def completed_of_def)
  moreover have "conns_ok {} (subs ?n) (take (taken ?n) (execs ?n)) (srv ?n)"
    using D(1,2) by (simp add: push_completed_def task_inv_def)
  ultimately show ?thesis by (simp add: net_inv_def wake_inv_def)
qed

lemma net_inv_start:
  assumes inv: "net_inv n" and w: "i < worker_count n" "worker_at n i = Waiting" "worker_wake i (thread_pool (srv n)) = Some pool"
  shows "net_inv (n\<lparr>srv := (srv n)\<lparr>thread_pool := pool\<rparr>\<rparr>)" (is "net_inv ?n")
proof -
  note D = net_invD [OF inv]
  let ?ws = "workers (thread_pool (srv n))"
  have ni: "i \<notin> pushed n" using D(2) w(2) by (auto simp: task_inv_def)
  then have ne: "\<And>j. j \<in> pushed n \<Longrightarrow> i \<noteq> j" by blast
  have up: "open_tasks (pushed n) (?ws[i := x]) = open_tasks (pushed n) ?ws + task_of x" for x
    using open_tasks_update [OF w(1), of "pushed n" "pushed n" x] w(2) ni by simp
  from w(3,1) have "task_inv ?n"
  proof (cases rule: worker_wake_cases)
    case leaves
    then show ?thesis using D(2) up [of Exited] ne by (auto simp: task_inv_def task_bound_def)
  next
    case (takes t ts)
    then show ?thesis using D(2) up [of "Running t"] ne by (auto simp: task_inv_def task_bound_def)
  qed
  moreover have "conns_ok {} (subs ?n) (take (taken ?n) (execs ?n)) (srv ?n)" using D(1) by simp
  ultimately show ?thesis using D(3) by (simp add: net_inv_def wake_inv_def)
qed

lemma net_inv_end:
  assumes inv: "net_inv n" and s: "s = with_scripts ctl acc rd wr intr (srv n)" and w: "i \<in> pushed n"
  shows "net_inv (n\<lparr>srv := (task_wake s)\<lparr>thread_pool := worker_done i (thread_pool s)\<rparr>, pushed := pushed n - {i}\<rparr>)" (is "net_inv ?n")
proof -
  note D = net_invD [OF inv]
  let ?ws = "workers (thread_pool (srv n))"
  have i: "i < length ?ws" using D(2) w by (auto simp: task_inv_def)
  have tw: "thread_pool (task_wake s) = thread_pool (srv n)" "completed_queue (task_wake s) = completed_queue (srv n)"
    "next_generation (task_wake s) = next_generation (srv n)" "0 < wake_counter (krnl (task_wake s))"
    by (simp_all add: task_wake_def on_krnl_def s wake_loop_pos)
  have "open_tasks (pushed n - {i}) (?ws[i := Waiting]) = open_tasks (pushed n) ?ws"
    using open_tasks_update [OF i, of "pushed n" "pushed n - {i}" Waiting] w by simp
  then have "task_inv ?n" using D(2) tw by (auto simp: task_inv_def task_bound_def worker_done_def s)
  moreover have "conns_ok {} (subs ?n) (take (taken ?n) (execs ?n)) (srv ?n)"
    using with_scripts_ok [OF D(1)] by (simp add: task_wake_def on_krnl_def s conns_ok_krnl)
  ultimately show ?thesis using tw(4) by (simp add: net_inv_def wake_inv_def)
qed

lemma net_inv_worker: "worker_step lab n n' \<Longrightarrow> net_inv n \<Longrightarrow> net_inv n'"
proof (induction rule: worker_step.induct)
  case (work_start i n pool)
  show ?case by (rule net_inv_start [OF work_start(4,1-3)])
next
  case (work_exec i n t coin resp db')
  show ?case by (rule net_inv_exec [OF work_exec(5,1-3)])
next
  case (work_throw i n t db' coin resp)
  show ?case by (rule net_inv_exec [OF work_throw(5,1-3)])
next
  case (work_end s ctl acc rd wr intr n i)
  show ?case by (rule net_inv_end [OF work_end(3,1,2)])
next
  case (background n db db')
  then show ?case by (simp add: net_inv_def wake_inv_def task_inv_def task_bound_def)
qed

lemma net_inv_step: "net_step lab n n' \<Longrightarrow> net_inv n \<Longrightarrow> net_inv n'"
proof (induction rule: net_step.induct)
  case (accept s ctl acc rd wr intr n)
  note D = net_invD [OF accept(6)]
  have sub: "fst ` set (take (taken n) (execs n)) \<subseteq> set (subs n)"
    using execs_subset(1) [OF D(2)] set_take_subset [of "taken n" "execs n"] by auto
  have b: "task_bound (subs n) s" using D(2) by (simp add: accept(1) task_inv_def task_bound_def)
  have a: "conns_ok {} (subs n) (take (taken n) (execs n)) (HandleAccept s) \<and> untouched_pool s (HandleAccept s)"
    using accept_loop_ok [OF with_scripts_ok [OF D(1)] b [unfolded accept(1)] sub] accept(5) unfolding HandleAccept_def accept(1) by simp
  show ?case by (rule net_inv_quiet [OF accept(6) _ _ accept(1)]) (use a in auto)
next
  case (connection s ctl acc rd wr intr n fd ev s')
  show ?case by (rule net_inv_connection [OF connection(8,1,6,7)])
next
  case (drain s ctl acc rd wr intr n)
  note D = net_invD [OF drain(4)]
  show ?case
    using completions_drain_ok [OF with_scripts_ok [OF D(1)]] D(2)
    by (simp add: net_inv_def wake_inv_def task_inv_def task_bound_def drain(1)) (simp add: completions_drain_def on_krnl_def)
next
  case (process s ctl acc rd wr intr n s')
  show ?case by (rule net_inv_process [OF process(4,1,3)])
next
  case (stop s ctl acc rd wr intr n)
  show ?case
    by (rule net_inv_quiet [OF stop(2) _ _ stop(1)]) (use Stop_ok [OF with_scripts_ok [OF net_invD(1) [OF stop(2)]]] in \<open>auto simp: stop(1)\<close>)
next
  case (worker lab n n')
  then show ?case by (rule net_inv_worker)
qed

lemma net_reach_inv: "net_reach Q n0 n \<Longrightarrow> net_inv n0 \<Longrightarrow> net_inv n"
  by (induction rule: net_reach.induct) (auto intro: net_inv_step)

section \<open>Starting\<close>

definition start_net :: "TcpServer \<Rightarrow> net" where
  "start_net s = \<lparr>srv = s, io_drained = False, pushed = {}, subs = [], execs = [], taken = 0, received = (\<lambda>_. [])\<rparr>"

text \<open>The kernel hands out three different descriptors.\<close>

definition fresh_env :: "start_env \<Rightarrow> bool" where
  "fresh_env env \<longleftrightarrow> distinct [sock_result env, epoll_result env, eventfd_result env]"

definition new_server_started :: "DBImpl option \<Rightarrow> kernel \<Rightarrow> start_env \<Rightarrow> TcpServer \<Rightarrow> bool" where
  "new_server_started db k env s \<longleftrightarrow> open_fds k = {} \<and> fresh_env env \<and> Start env (new_TcpServer db k) = (True, s)"

lemma AddEpollEvent_cases:
  assumes "AddEpollEvent fd ev s = (b, s')"
  obtains k where "s' = s\<lparr>krnl := k\<rparr>" "open_fds k = open_fds (krnl s)" "wire k = wire (krnl s)"
    "interest k = (if b then (interest (krnl s))(fd \<mapsto> ev) else interest (krnl s))"
  using assms
  by (intro that [of "krnl s'"]) (auto simp: AddEpollEvent_def epoll_add_def ctl_result_def split: list.splits prod.splits if_splits)

lemma open_tasks_replicate: "open_tasks {} (replicate n Waiting) = {#}"
  by (simp add: open_tasks_def)

lemma Start_fields:
  assumes "Start env (new_TcpServer db k) = (True, s)"
  shows "connections s = []" "thread_pool s = new_ThreadPool 8" "completed_queue s = []" "running s" "\<not> stopping s"
    "executor_db s = db" "next_generation s = 1" "listen_fd s = sock_result env" "epoll_fd s = epoll_result env" "wake_fd s = eventfd_result env"
    "0 \<le> sock_result env" "0 \<le> epoll_result env" "0 \<le> eventfd_result env"
    "open_fds (krnl s) = insert (eventfd_result env) (insert (epoll_result env) (insert (sock_result env) (open_fds k)))"
  using assms
  by (auto simp: Start_def InitListenSocket_def InitEpoll_def InitWakeFd_def Let_def new_TcpServer_def on_krnl_def sys_open_def
      split: if_splits prod.splits bool.splits elim!: AddEpollEvent_cases)

lemma Start_inv:
  assumes "new_server_started db k env s"
  shows "net_inv (start_net s)"
proof -
  have st: "Start env (new_TcpServer db k) = (True, s)" and k: "open_fds k = {}" and d: "fresh_env env"
    using assms by (simp_all add: new_server_started_def)
  note S = Start_fields [OF st]
  have "shape s" using d S(11-13) by (auto simp: shape_def fixed_fds_def S fresh_env_def k)
  then have "conns_ok {} [] [] s" by (simp add: conns_ok_def S)
  moreover have "task_inv (start_net s)"
    by (simp add: task_inv_def start_net_def S task_bound_def numbered_def gen_tasks_def open_tasks_replicate new_ThreadPool_def)
  ultimately show ?thesis by (simp add: net_inv_def wake_inv_def start_net_def S)
qed

section \<open>Responses and tasks\<close>

lemma responses_Some:
  assumes "responses g P q = Some r"
  obtains t where "(t, r) \<in> set P" "wt_generation t = g" "wt_seq t = q"
  using map_of_SomeD [OF assms [unfolded responses_def]] by auto

lemma responses_known:
  assumes "t \<in> fst ` set P"
  shows "responses (wt_generation t) P (wt_seq t) \<noteq> None"
proof -
  obtain r where "(t, r) \<in> set P" using assms by auto
  then have "(wt_seq t, r) \<in> set (map (\<lambda>(t, r). (wt_seq t, r)) (filter (\<lambda>(u, r). wt_generation u = wt_generation t) P))"
    by (force intro: image_eqI)
  then show ?thesis unfolding responses_def by (metis weak_map_of_SomeI option.distinct(1))
qed

lemma task_at:
  assumes "numbered H" "t \<in> set H" "wt_seq t = of_nat i" "i < 2 ^ 64" "length (gen_tasks (wt_generation t) H) < 2 ^ 64"
  shows "i < length (gen_tasks (wt_generation t) H)" "gen_tasks (wt_generation t) H ! i = t"
proof -
  let ?l = "gen_tasks (wt_generation t) H"
  have "t \<in> set ?l" using assms(2) by (simp add: gen_tasks_def)
  then obtain j where j: "j < length ?l" "?l ! j = t" by (auto simp: in_set_conv_nth)
  have "map wt_seq ?l ! j = of_nat j" using assms(1) j(1) by (simp add: numbered_def)
  then have "(of_nat i :: u64) = of_nat j" using j assms(3) by simp
  then have "i = j" using u64_of_nat_inj [of i j] assms(4,5) j(1) by simp
  then show "i < length ?l" "?l ! i = t" using j by simp_all
qed

text \<open>The responses a connection has been given, as a list.\<close>

lemma conn_responses:
  assumes inv: "net_inv n" and c: "map_of (connections (srv n)) fd = Some conn"
  shows "\<exists>rs. wire (krnl (srv n)) fd @ Peek (output_buffer conn) = concat rs \<and> length rs = unat (next_write_seq conn) \<and>
    (\<forall>i<length rs. if i < length (gen_tasks (generation conn) (subs n)) then (gen_tasks (generation conn) (subs n) ! i, rs ! i) \<in> set (execs n)
       else closing conn \<and> i = length (gen_tasks (generation conn) (subs n)) \<and> rs ! i = protocol_error_reply)"
proof -
  note D = net_invD [OF inv]
  let ?g = "generation conn" and ?H = "subs n" and ?P = "take (taken n) (execs n)"
  let ?n = "length (gen_tasks ?g ?H)"
  obtain m w R where o: "ordered R m w (wire (krnl (srv n)) fd) conn" "answered ?H ?P conn m R"
    using conns_okD(1) [OF D(1) c] by (auto simp: conn_order_def)
  let ?rs = "map (\<lambda>i. the (R (of_nat i))) [0..<w]"
  have m: "w \<le> m" "m < 2 ^ 64" "?n \<le> m" "m \<le> Suc ?n" "next_write_seq conn = of_nat w" and known: "\<And>i. i < w \<Longrightarrow> R (of_nat i) \<noteq> None"
    using o by (auto simp: ordered_def answered_def Let_def)
  have num: "numbered ?H" using D(2) by (simp add: task_inv_def)
  have "if i < ?n then (gen_tasks ?g ?H ! i, the (R (of_nat i))) \<in> set (execs n)
      else closing conn \<and> i = ?n \<and> the (R (of_nat i)) = protocol_error_reply" if i: "i < w" for i
  proof (cases "R = responses ?g ?P \<and> m = ?n \<or> i < ?n")
    case True
    have "of_nat i \<noteq> (of_nat ?n :: u64)" if "i < ?n" using that m u64_of_nat_inj [of i ?n] by simp
    then have "responses ?g ?P (of_nat i) = Some (the (R (of_nat i)))"
      using True known [OF i] o(2) i m(1) by (auto simp: answered_def Let_def)
    then obtain t where t: "(t, the (R (of_nat i))) \<in> set ?P" "wt_generation t = ?g" "wt_seq t = of_nat i" by (rule responses_Some)
    have "t \<in> set ?H" using execs_subset(1) [OF D(2)] set_take_subset t(1) by force
    then have "i < ?n" "gen_tasks ?g ?H ! i = t" using task_at [OF num _ t(3)] t(2) i m by simp_all
    then show ?thesis using t(1) set_take_subset [of "taken n" "execs n"] by auto
  next
    case False
    then have "i = ?n" using i m by linarith
    then show ?thesis using o(2) False by (auto simp: answered_def Let_def)
  qed
  then show ?thesis
    using o(1) m u64_of_nat [of w] by (intro exI [of _ ?rs]) (auto simp: ordered_def written_def)
qed

text \<open>A task of the event loop's future: queued, being executed, or waiting in the completion queue.\<close>

definition outstanding :: "net \<Rightarrow> WorkerTask \<Rightarrow> bool" where
  "outstanding n t \<longleftrightarrow> t \<in> set (pool_tasks (thread_pool (srv n))) \<or>
     (\<exists>i<worker_count n. i \<notin> pushed n \<and> worker_at n i = Running t) \<or>
     (\<exists>c\<in>set (completed_queue (srv n)). ct_generation c = wt_generation t \<and> ct_seq c = wt_seq t)"

lemma open_tasks_member: "t \<in># open_tasks A ws \<Longrightarrow> \<exists>i<length ws. i \<notin> A \<and> ws ! i = Running t"
proof -
  assume "t \<in># open_tasks A ws"
  then obtain i where i: "i < length ws" "t \<in># (if i \<in> A then {#} else task_of (ws ! i))"
    by (auto simp: open_tasks_def set_mset_sum)
  then show ?thesis by (cases "ws ! i") (auto split: if_splits)
qed

lemma task_outstanding:
  assumes "task_inv n" "t \<in> set (subs n)" "t \<notin> fst ` set (take (taken n) (execs n))"
  shows "outstanding n t"
proof -
  let ?ws = "workers (thread_pool (srv n))"
  have "mset (subs n) = mset (pool_tasks (thread_pool (srv n))) + open_tasks (pushed n) ?ws + mset (map fst (execs n))"
    using assms(1) by (simp add: task_inv_def)
  then have "t \<in># mset (pool_tasks (thread_pool (srv n))) + open_tasks (pushed n) ?ws + mset (map fst (execs n))"
    using assms(2) by (metis set_mset_mset)
  then consider "t \<in> set (pool_tasks (thread_pool (srv n)))" | "t \<in># open_tasks (pushed n) ?ws" | "t \<in> fst ` set (execs n)" by auto
  then show ?thesis
  proof cases
    case 3
    then obtain r where r: "(t, r) \<in> set (execs n)" by auto
    have "set (execs n) = set (take (taken n) (execs n)) \<union> set (drop (taken n) (execs n))"
      by (metis append_take_drop_id set_append)
    then have "(t, r) \<in> set (drop (taken n) (execs n))" using r assms(3) by force
    then have "completed_of (t, r) \<in> set (completed_queue (srv n))" using assms(1) by (simp add: task_inv_def)
    then show ?thesis unfolding outstanding_def by (intro disjI2 bexI [of _ "completed_of (t, r)"]) simp_all
  qed (use open_tasks_member in \<open>auto simp: outstanding_def\<close>)
qed

lemma conn_waits:
  assumes inv: "net_inv n" and c: "map_of (connections (srv n)) fd = Some conn" and ne: "next_write_seq conn \<noteq> next_request_seq conn"
  shows "\<exists>t\<in>set (subs n). wt_fd t = fd \<and> task_key t = (generation conn, next_write_seq conn) \<and> outstanding n t"
proof -
  note D = net_invD [OF inv]
  let ?g = "generation conn" and ?H = "subs n" and ?P = "take (taken n) (execs n)"
  let ?n = "length (gen_tasks ?g ?H)"
  have ord: "conn_order ?H ?P (krnl (srv n)) fd conn" by (rule conns_okD(1) [OF D(1) c]) simp
  obtain m w R where o: "ordered R m w (wire (krnl (srv n)) fd) conn" "R (of_nat w) = None" "answered ?H ?P conn m R"
    using ord by (auto simp: conn_order_def)
  have m: "w \<le> m" "m < 2 ^ 64" "next_write_seq conn = of_nat w" using o(1) by (auto simp: ordered_def)
  have "w \<noteq> m" using ordered_drained(1) [OF o(1)] ne by simp
  then have w: "w < ?n"
    using o(2,3) m by (cases "w = ?n") (auto simp: answered_def Let_def)
  let ?t = "gen_tasks ?g ?H ! w"
  have t: "?t \<in> set (gen_tasks ?g ?H)" using w by simp
  have "map wt_seq (gen_tasks ?g ?H) ! w = of_nat w" using D(2) w by (simp add: task_inv_def numbered_def)
  then have seq: "wt_seq ?t = of_nat w" using w by simp
  have mem: "?t \<in> set ?H" "wt_generation ?t = ?g" "wt_fd ?t = fd" using t ord by (auto simp: gen_tasks_def conn_order_def)
  have "?t \<notin> fst ` set ?P"
  proof
    assume "?t \<in> fst ` set ?P"
    then have "responses ?g ?P (of_nat w) \<noteq> None"
      using responses_known [of ?t ?P] mem(2) seq by simp
    moreover have "of_nat w \<noteq> (of_nat ?n :: u64)" using w m u64_of_nat_inj [of w ?n] o(3) by (auto simp: answered_def Let_def)
    ultimately show False using o(2,3) by (auto simp: answered_def Let_def)
  qed
  from task_outstanding [OF D(2) mem(1) this] show ?thesis
    using mem seq m(3) by (intro bexI [of _ ?t]) (simp_all add: task_key_def)
qed

end
