(* ===== verification/TcpCorrect.thy ===== *)
theory TcpCorrect
  imports TcpSteps
begin

text \<open>
  What the interleaved server guarantees: responses in request order, no stalled connection, no
  lost wake-up, the effect of \<open>Stop\<close>, no leaked descriptor, and that the commands executed behave
  like commands on a map.
\<close>

section \<open>A sample server\<close>

definition sample_kernel :: kernel where
  "sample_kernel = \<lparr>open_fds = {}, interest = Map.empty, wake_counter = 0, wire = (\<lambda>_. []), ctl_script = [], accept_script = [],
     read_script = [], write_script = [], intr_script = []\<rparr>"

definition sample_env :: start_env where
  "sample_env = \<lparr>sock_result = 3, sockopt_ok = True, getfl_ok = True, setfl_ok = True, bind_ok = True, listen_ok = True,
     epoll_result = 4, eventfd_result = 5\<rparr>"

definition sample_server :: "DBImpl option \<Rightarrow> TcpServer" where
  "sample_server db = snd (Start sample_env (new_TcpServer db sample_kernel))"

lemma sample_started: "new_server_started db sample_kernel sample_env (sample_server db)"
  by (simp add: new_server_started_def sample_server_def Start_def InitListenSocket_def InitEpoll_def InitWakeFd_def Let_def
      sample_kernel_def sample_env_def fresh_env_def SetNonBlocking_def AddEpollEvent_def epoll_add_def ctl_result_def
      new_TcpServer_def on_krnl_def sys_open_def)

lemma sample_accept:
  assumes "Q (start_net (sample_server db)) Silent"
  shows "\<exists>n. net_reach Q (start_net (sample_server db)) n \<and> connections (srv n) = [(7, new_Connection 7 1)] \<and>
    wire (krnl (srv n)) 7 = [] \<and> execs n = [] \<and> subs n = [] \<and> received n = (\<lambda>_. []) \<and> running (srv n) \<and> pushed n = {} \<and> \<not> io_drained n \<and> listen_fd (srv n) = 3 \<and> wake_fd (srv n) = 5 \<and>
    thread_pool (srv n) = new_ThreadPool 8 \<and> completed_queue (srv n) = [] \<and> executor_db (srv n) = db \<and> \<not> stopping (srv n)"
proof -
  let ?n = "start_net (sample_server db)"
  let ?s = "with_scripts [] [AcceptedFd 7 True True] [] [] [] (srv ?n)"
  have st: "Start sample_env (new_TcpServer db sample_kernel) = (True, sample_server db)"
    using sample_started by (simp add: new_server_started_def)
  note S = Start_fields [OF st]
  have "net_step Silent ?n (?n\<lparr>srv := HandleAccept ?s\<rparr>)"
    by (rule net_step.accept [OF refl]) (simp_all add: start_net_def S sample_env_def)
  then have r: "net_reach Q ?n (?n\<lparr>srv := HandleAccept ?s\<rparr>)" using net_reach.more [of Q ?n ?n Silent] net_reach.start assms by blast
  have i7: "interest (krnl (sample_server db)) 7 = None"
    by (simp add: sample_server_def Start_def InitListenSocket_def InitEpoll_def InitWakeFd_def Let_def sample_kernel_def sample_env_def
        SetNonBlocking_def AddEpollEvent_def epoll_add_def ctl_result_def new_TcpServer_def on_krnl_def sys_open_def)
  have k: "krnl ?s = (krnl (sample_server db))\<lparr>ctl_script := [], accept_script := [AcceptedFd 7 True True], read_script := [], write_script := [], intr_script := []\<rparr>"
    by (simp add: with_scripts_def on_krnl_def start_net_def)
  have "connections (HandleAccept ?s) = [(7, new_Connection 7 1)] \<and> wire (krnl (HandleAccept ?s)) 7 = [] \<and> running (HandleAccept ?s) \<and>
      listen_fd (HandleAccept ?s) = 3 \<and> wake_fd (HandleAccept ?s) = 5 \<and> thread_pool (HandleAccept ?s) = new_ThreadPool 8 \<and>
      completed_queue (HandleAccept ?s) = [] \<and> executor_db (HandleAccept ?s) = db \<and> \<not> stopping (HandleAccept ?s)"
    using i7 by (simp add: HandleAccept_def start_net_def S sample_env_def Let_def on_krnl_def SetNonBlocking_def AddEpollEvent_def
        epoll_add_def ctl_result_def sys_open_def k [unfolded start_net_def, simplified] sample_kernel_def)
  then show ?thesis using r by (intro exI [of _ "?n\<lparr>srv := HandleAccept ?s\<rparr>"]) (simp add: start_net_def)
qed

text \<open>One request on a connection with no input pending.\<close>

definition idle_conn :: "u64 \<Rightarrow> u64 \<Rightarrow> Connection \<Rightarrow> bool" where
  "idle_conn g q c \<longleftrightarrow> generation c = g \<and> next_request_seq c = q \<and> \<not> closing c \<and> conn_parser c = new_RESPParser \<and>
     nb_ok (input_buffer c) \<and> Peek (input_buffer c) = []"

lemma idle_new [simp]: "idle_conn g 0 (new_Connection fd g)"
  using length_Peek [OF nb_ok_new, of initial_buffer_size] by (simp add: idle_conn_def new_Connection_def)

lemma one_request_read:
  assumes c: "map_of (connections s) fd = Some c" "idle_conn g q c" and r: "read_script (krnl s) = [Inr (array_bytes cmd)]"
    and cmd: "request_ok cmd" "length (array_bytes cmd) \<le> extra_buffer_size" and pool: "\<not> pool_stop (thread_pool s)" "running s"
  shows "\<exists>d. idle_conn g (q + 1) d \<and> HandleConnectionEvent fd EPOLLIN s = Some (set_conn fd d
    (on_krnl (\<lambda>k. k\<lparr>read_script := []\<rparr>) s\<lparr>thread_pool := (thread_pool s)\<lparr>pool_tasks := pool_tasks (thread_pool s) @
      [\<lparr>wt_fd = fd, wt_generation = g, wt_seq = q, wt_command = cmd\<rparr>]\<rparr>\<rparr>))"
proof -
  let ?t = "\<lparr>wt_fd = fd, wt_generation = g, wt_seq = q, wt_command = cmd\<rparr>"
  note nc = c(2) [unfolded idle_conn_def]
  obtain s1 where s1: "read_result s = (Inr (array_bytes cmd), s1)" "s1 = on_krnl (\<lambda>k. k\<lparr>read_script := []\<rparr>) s"
    using r by (simp add: read_result_def)
  obtain ib where ib: "ReadFromFd (Inr (array_bytes cmd)) (input_buffer c) = Some (int (length (array_bytes cmd)), 0, ib)"
    "nb_ok ib" "Peek ib = array_bytes cmd"
    using ReadFromFd_ok [of "input_buffer c" "array_bytes cmd"] cmd(2) nc by auto
  obtain ib' where P: "Parse new_RESPParser ib [] = Some (SUCCESS, cmd, new_RESPParser, ib')" "nb_ok ib'" "Peek ib' = []"
    using Parse_array [OF ib(2) _ cmd(1), of "[]" "[]"] ib(3) by auto
  obtain p' where p': "enqueue ?t (thread_pool s1) = Some p'" "p' = (thread_pool s)\<lparr>pool_tasks := pool_tasks (thread_pool s) @ [?t]\<rparr>"
    using pool(1) s1(2) by (simp add: enqueue_def on_krnl_def)
  let ?c1 = "c\<lparr>input_buffer := ib\<rparr>" and ?c2 = "c\<lparr>conn_parser := new_RESPParser, input_buffer := ib', next_request_seq := q + 1\<rparr>"
  have e: "Parse new_RESPParser ib' [] = Some (INCOMPLETE, [], new_RESPParser, ib')"
    by (rule Parse_unfold(1)) (use P(2,3) length_Peek [of ib'] in simp)
  have "read_loop fd ?c1 s1 = read_loop fd ?c2 (s1\<lparr>thread_pool := p'\<rparr>)"
    using P(1) p'(1) nc by (simp add: read_loop.simps [of fd ?c1] Let_def)
  also have "\<dots> = Some (set_conn fd ?c2 (s1\<lparr>thread_pool := p'\<rparr>))"
    using e by (simp add: read_loop.simps [of fd ?c2] Let_def) (cases c, simp)
  finally have rl: "read_loop fd ?c1 s1 = Some (set_conn fd ?c2 (s1\<lparr>thread_pool := p'\<rparr>))" .
  have pos: "0 < length (array_bytes cmd)" by (simp add: array_bytes_def)
  have "HandleRead fd s = read_loop fd ?c1 s1"
    using c(1) nc ib(1) pos by (simp add: HandleRead_def s1(1) Let_def)
  then have "HandleConnectionEvent fd EPOLLIN s = Some (set_conn fd ?c2 (s1\<lparr>thread_pool := p'\<rparr>))"
    using pool(2) rl by (simp add: HandleConnectionEvent_def wants_def epoll_defs)
  then show ?thesis using p'(2) s1(2) nc P by (intro exI [of _ ?c2]) (simp add: idle_conn_def)
qed

text \<open>The same as a step of the sample server, whose only connection has descriptor 7.\<close>

definition sample_idle :: "u64 \<Rightarrow> net \<Rightarrow> bool" where
  "sample_idle q n \<longleftrightarrow> (\<exists>c. connections (srv n) = [(7, c)] \<and> idle_conn 1 q c) \<and> running (srv n) \<and> \<not> stopping (srv n) \<and> \<not> io_drained n \<and>
     listen_fd (srv n) = 3 \<and> wake_fd (srv n) = 5 \<and> \<not> pool_stop (thread_pool (srv n))"

lemma sample_request:
  assumes n: "sample_idle q n" and cmd: "request_ok cmd" "length (array_bytes cmd) \<le> extra_buffer_size" and few: "length (subs n) \<le> 8"
  shows "\<exists>n'. net_step Silent n n' \<and> sample_idle (q + 1) n' \<and> subs n' = subs n @ [\<lparr>wt_fd = 7, wt_generation = 1, wt_seq = q, wt_command = cmd\<rparr>] \<and>
    thread_pool (srv n') = (thread_pool (srv n))\<lparr>pool_tasks := pool_tasks (thread_pool (srv n)) @
      [\<lparr>wt_fd = 7, wt_generation = 1, wt_seq = q, wt_command = cmd\<rparr>]\<rparr> \<and>
    execs n' = execs n \<and> pushed n' = pushed n \<and> executor_db (srv n') = executor_db (srv n) \<and>
    completed_queue (srv n') = completed_queue (srv n) \<and> received n' 1 = received n 1 @ [array_bytes cmd]"
proof -
  let ?s = "with_scripts [] [] [Inr (array_bytes cmd)] [] [] (srv n)" and ?t = "\<lparr>wt_fd = 7, wt_generation = 1, wt_seq = q, wt_command = cmd\<rparr>"
  obtain c where c: "connections (srv n) = [(7, c)]" "idle_conn 1 q c" using n by (auto simp: sample_idle_def)
  note N = n [unfolded sample_idle_def]
  obtain d where d: "idle_conn 1 (q + 1) d" "HandleConnectionEvent 7 EPOLLIN ?s = Some (set_conn 7 d
      (on_krnl (\<lambda>k. k\<lparr>read_script := []\<rparr>) ?s\<lparr>thread_pool := (thread_pool ?s)\<lparr>pool_tasks := pool_tasks (thread_pool ?s) @ [?t]\<rparr>\<rparr>))" (is "_ = Some ?s'")
    using one_request_read [of ?s 7 c 1 q cmd] c cmd N by auto
  have room: "read_room (subs n) ?s"
    using cmd(2) few c length_Peek [of "input_buffer c"]
    by (auto simp: read_room_def script_bytes_def idle_conn_def extra_buffer_size_def split: if_splits)
  let ?n' = "n\<lparr>srv := ?s', subs := subs n @ new_tasks ?s ?s', received := note_read 7 EPOLLIN ?s (received n)\<rparr>"
  have "net_step Silent n ?n'" by (rule net_step.connection [OF refl _ _ _ _ room d(2)]) (use N in simp_all)
  moreover have "note_read 7 EPOLLIN ?s (received n) 1 = received n 1 @ [array_bytes cmd]"
    using c N by (simp add: note_read_def idle_conn_def wants_def epoll_defs)
  moreover have "new_tasks ?s ?s' = [?t]" by (simp add: new_tasks_def)
  moreover have "connections ?s' = [(7, d)]" by (simp add: set_conn_def on_krnl_def c(1))
  ultimately show ?thesis using d(1) N by (intro exI [of _ ?n']) (simp add: sample_idle_def on_krnl_def)
qed

lemma sample_exec:
  assumes Q: "\<And>n. executor_db (srv n) = db \<Longrightarrow> length (subs n) \<le> 1 \<Longrightarrow> Q n Silent \<and> Q n (Exec \<lparr>wt_fd = 7, wt_generation = 1, wt_seq = 0, wt_command = cmd\<rparr> resp)"
    and cmd: "request_ok cmd" "length (array_bytes cmd) \<le> extra_buffer_size"
    and r: "task_response None coin cmd db = Some (Some (resp, db'))"
  shows "\<exists>n. net_reach Q (start_net (sample_server db)) n \<and> completed_queue (srv n) \<noteq> [] \<and> executor_db (srv n) = db' \<and>
    execs n = [(\<lparr>wt_fd = 7, wt_generation = 1, wt_seq = 0, wt_command = cmd\<rparr>, resp)] \<and> received n 1 = [array_bytes cmd] \<and>
    (\<exists>c. map_of (connections (srv n)) 7 = Some c \<and> generation c = 1) \<and>
    workers (thread_pool (srv n)) = Running \<lparr>wt_fd = 7, wt_generation = 1, wt_seq = 0, wt_command = cmd\<rparr> # replicate 7 Waiting \<and>
    pool_tasks (thread_pool (srv n)) = [] \<and> pushed n = {0} \<and> \<not> io_drained n \<and>
    subs n = [\<lparr>wt_fd = 7, wt_generation = 1, wt_seq = 0, wt_command = cmd\<rparr>] \<and> running (srv n) \<and> \<not> stopping (srv n)"
proof -
  let ?t = "\<lparr>wt_fd = 7, wt_generation = 1, wt_seq = 0, wt_command = cmd\<rparr>"
  have db0: "executor_db (sample_server db) = db" using Start_fields(6) sample_started by (metis new_server_started_def)
  obtain n1 where n1: "net_reach Q (start_net (sample_server db)) n1" "connections (srv n1) = [(7, new_Connection 7 1)]"
    "execs n1 = []" "subs n1 = []" "running (srv n1)" "pushed n1 = {}" "\<not> io_drained n1" "listen_fd (srv n1) = 3" "wake_fd (srv n1) = 5"
    "thread_pool (srv n1) = new_ThreadPool 8" "completed_queue (srv n1) = []" "executor_db (srv n1) = db"
    "received n1 = (\<lambda>_. [])" "\<not> stopping (srv n1)"
    using sample_accept [of Q db] Q [of "start_net (sample_server db)"] db0 by (auto simp: start_net_def)
  have "sample_idle 0 n1" using n1 by (simp add: sample_idle_def new_ThreadPool_def)
  then obtain n2 where n2: "net_step Silent n1 n2" "sample_idle 1 n2" "subs n2 = [?t]" "thread_pool (srv n2) = (new_ThreadPool 8)\<lparr>pool_tasks := [?t]\<rparr>"
    "execs n2 = []" "pushed n2 = {}" "executor_db (srv n2) = db" "completed_queue (srv n2) = []" "received n2 1 = [array_bytes cmd]"
    using sample_request [of 0 n1 cmd] cmd n1 by (auto simp: new_ThreadPool_def)
  have r2: "net_reach Q (start_net (sample_server db)) n2" using net_reach.more [OF n1(1) _ n2(1)] Q [of n1] n1(4,12) by simp
  let ?pool = "\<lparr>workers = (replicate 8 Waiting)[0 := Running ?t], pool_tasks = [], pool_stop = False\<rparr>"
  let ?n3 = "n2\<lparr>srv := (srv n2)\<lparr>thread_pool := ?pool\<rparr>\<rparr>"
  have "net_step Silent n2 ?n3"
    by (rule net_step.worker [OF worker_step.work_start [of 0]]) (simp_all add: n2(4) new_ThreadPool_def worker_wake_def)
  from net_reach.more [OF r2 _ this] have r3: "net_reach Q (start_net (sample_server db)) ?n3" using Q [of n2] n2(3,7) by simp
  let ?n4 = "?n3\<lparr>srv := push_completed ?t resp ((srv ?n3)\<lparr>executor_db := db'\<rparr>), pushed := insert 0 (pushed ?n3), execs := execs ?n3 @ [(?t, resp)]\<rparr>"
  have "net_step (Exec ?t resp) ?n3 ?n4"
    by (rule net_step.worker [OF worker_step.work_exec [of 0 _ _ coin]]) (use r n2(6,7) in simp_all)
  from net_reach.more [OF r3 _ this] have "net_reach Q (start_net (sample_server db)) ?n4" using Q [of ?n3] n2(3,7) by simp
  moreover have "(replicate 8 Waiting)[0 := Running ?t] = Running ?t # replicate 7 Waiting" by (simp add: eval_nat_numeral)
  ultimately show ?thesis
    using n2 by (intro exI [of _ ?n4]) (auto simp: push_completed_def sample_idle_def idle_conn_def)
qed

lemma sample_get:
  "\<exists>n c. net_reach (\<lambda>_ _. True) (start_net (sample_server None)) n \<and> completed_queue (srv n) \<noteq> [] \<and>
     received n 1 = [array_bytes [''GET'']] \<and> map_of (connections (srv n)) 7 = Some c \<and> generation c = 1 \<and> request_ok [''GET''] \<and>
     running (srv n) \<and> \<not> stopping (srv n) \<and> map wt_command (subs n) = [[''GET'']]"
proof -
  obtain rb where "EncodeError ''db is not initialized'' (new_NetworkBuffer initial_buffer_size) = Some rb"
    using nb.sendsD [OF Encode_sends [of "ErrorReply ''db is not initialized''"] nb_ok_new [of initial_buffer_size]] by auto
  then have "task_response None (\<lambda>_. False) [''GET''] None = Some (Some (Peek rb, None))"
    by (simp add: task_response_def Execute_def Let_def RetrieveAllAsString_def)
  moreover have "request_ok [''GET'']" by (simp add: request_ok_def int64_max_def)
  moreover have "length (array_bytes [''GET'']) \<le> extra_buffer_size"
    by (simp add: array_bytes_def bulk_bytes_def extra_buffer_size_def kCRLF_def) (simp add: to_string.simps)
  ultimately show ?thesis using sample_exec [of None "\<lambda>_ _. True" "[''GET'']"] by fastforce
qed

section \<open>Properties\<close>

text \<open>
  C3: responses in order. Whatever the interleaving of the event loop, eight workers, callers of
  \<open>Stop\<close> and system call results, the bytes a connection was sent followed by its output buffer are
  the responses to its first requests, one for each, in the order the requests were parsed. Each is
  the response a worker computed for that very request (never for one of another or an earlier
  connection with the same descriptor), and every request is executed at most once. A protocol error
  is answered last.
\<close>

theorem responses_in_order:
  assumes "new_server_started db k env s0" "net_reach Q (start_net s0) n" "map_of (connections (srv n)) fd = Some conn"
  shows "\<exists>rs. wire (krnl (srv n)) fd @ Peek (output_buffer conn) = concat rs \<and> length rs = unat (next_write_seq conn) \<and>
    (\<forall>i<length rs. if i < length (gen_tasks (generation conn) (subs n)) then (gen_tasks (generation conn) (subs n) ! i, rs ! i) \<in> set (execs n)
       else closing conn \<and> i = length (gen_tasks (generation conn) (subs n)) \<and> rs ! i = protocol_error_reply) \<and>
    distinct (map (task_key \<circ> fst) (execs n))"
  using conn_responses [OF net_reach_inv [OF assms(2) Start_inv [OF assms(1)]] assms(3)]
    execs_subset(2) [OF net_invD(2) [OF net_reach_inv [OF assms(2) Start_inv [OF assms(1)]]]] by blast

theorem responses_in_order_witness:
  "\<exists>n rs. net_reach (\<lambda>_ _. True) (start_net (sample_server None)) n \<and>
     wire (krnl (srv n)) 7 @ Peek (output_buffer (new_Connection 7 1)) = concat rs \<and> length rs = unat (next_write_seq (new_Connection 7 1))"
proof -
  obtain n where n: "net_reach (\<lambda>_ _. True) (start_net (sample_server None)) n" "connections (srv n) = [(7, new_Connection 7 1)]"
    using sample_accept [of "\<lambda>_ _. True" None] by blast
  have m: "map_of (connections (srv n)) 7 = Some (new_Connection 7 1)" by (simp add: n(2))
  from responses_in_order [OF sample_started n(1) m] n(1) show ?thesis by blast
qed

text \<open>
  C18: no connection is stuck. An open connection that has not been closed for input is registered
  for it, and each one has nothing to send and nothing to close, or is registered for output, or its
  next response is on its way: the request with that sequence number is queued, being executed, or
  in the completion queue.
\<close>

theorem connection_never_stalls:
  assumes "new_server_started db k env s0" "net_reach Q (start_net s0) n" "map_of (connections (srv n)) fd = Some conn"
  shows "\<exists>ev. interest (krnl (srv n)) fd = Some ev \<and> (\<not> closing conn \<longrightarrow> wants ev EPOLLIN) \<and>
    (Peek (output_buffer conn) = [] \<and> \<not> closing conn \<or> wants ev EPOLLOUT \<or>
     (\<exists>t\<in>set (subs n). wt_fd t = fd \<and> task_key t = (generation conn, next_write_seq conn) \<and> outstanding n t))"
proof -
  have inv: "net_inv n" by (rule net_reach_inv [OF assms(2) Start_inv [OF assms(1)]])
  have "conn_live (krnl (srv n)) fd conn" by (rule conns_okD(2) [OF net_invD(1) [OF inv] assms(3)]) simp
  then show ?thesis using conn_waits [OF inv assms(3)] by (auto simp: conn_live_def live_with_def)
qed

theorem connection_never_stalls_witness:
  "\<exists>n ev. net_reach (\<lambda>_ _. True) (start_net (sample_server None)) n \<and> interest (krnl (srv n)) 7 = Some ev \<and> wants ev EPOLLIN"
proof -
  obtain n where n: "net_reach (\<lambda>_ _. True) (start_net (sample_server None)) n" "connections (srv n) = [(7, new_Connection 7 1)]"
    using sample_accept [of "\<lambda>_ _. True" None] by blast
  have m: "map_of (connections (srv n)) 7 = Some (new_Connection 7 1)" by (simp add: n(2))
  from connection_never_stalls [OF sample_started n(1) m] n(1) show ?thesis by (auto simp: new_Connection_def)
qed

text \<open>
  C22: no wake-up is lost. Whenever responses wait in the completion queue, the eventfd is readable,
  or a worker is about to write it, or the event loop has just read it and is about to take the
  queue.
\<close>

theorem no_lost_wakeup:
  assumes "new_server_started db k env s0" "net_reach Q (start_net s0) n" "completed_queue (srv n) \<noteq> []"
  shows "0 < wake_counter (krnl (srv n)) \<or> (\<exists>i\<in>pushed n. \<exists>t. worker_at n i = Running t) \<or> io_drained n"
proof -
  have "wake_inv n" "task_inv n" using net_invD(2,3) [OF net_reach_inv [OF assms(2) Start_inv [OF assms(1)]]] by auto
  then show ?thesis using assms(3) by (auto simp: wake_inv_def task_inv_def)
qed

theorem no_lost_wakeup_witness:
  "\<exists>n. net_reach (\<lambda>_ _. True) (start_net (sample_server None)) n \<and> completed_queue (srv n) \<noteq> [] \<and>
     (0 < wake_counter (krnl (srv n)) \<or> (\<exists>i\<in>pushed n. \<exists>t. worker_at n i = Running t) \<or> io_drained n)"
proof -
  obtain n where "net_reach (\<lambda>_ _. True) (start_net (sample_server None)) n" "completed_queue (srv n) \<noteq> []"
    using sample_get by blast
  then show ?thesis using no_lost_wakeup [OF sample_started] by blast
qed

section \<open>The commands executed\<close>

fun kv_run :: "bytes list list \<Rightarrow> (bytes \<rightharpoonup> bytes) \<Rightarrow> reply list \<times> (bytes \<rightharpoonup> bytes)" where
  "kv_run [] m = ([], m)"
| "kv_run (c # cs) m =
     (case kv_command c m of (r, m1) \<Rightarrow> case kv_run cs m1 of (rs, m2) \<Rightarrow> (r # rs, m2))"

lemma kv_run_snoc:
  "kv_run (cs @ [c]) m = (fst (kv_run cs m) @ [fst (kv_command c (snd (kv_run cs m)))], snd (kv_command c (snd (kv_run cs m))))"
  by (induction cs arbitrary: m) (simp_all add: split_beta)

text \<open>
  Runs in which no call throws, the database has room, and the arguments of commands fit the length
  fields of the files.
\<close>

definition calm :: "net \<Rightarrow> net_label \<Rightarrow> bool" where
  "calm n lab \<longleftrightarrow> (\<forall>db. executor_db (srv n) = Some db \<longrightarrow> roomy 3 db \<and> \<not> bg_stopped db) \<and>
     (case lab of Silent \<Rightarrow> True | Exec t resp \<Rightarrow> command_ok (wt_command t) | Threw t resp \<Rightarrow> False)"

text \<open>What a step does to the database and to the record of executions.\<close>

lemma worker_step_db:
  "worker_step lab n n' \<Longrightarrow>
   (case lab of
      Silent \<Rightarrow> execs n' = execs n \<and>
        (executor_db (srv n') = executor_db (srv n) \<or>
         (\<exists>db db'. executor_db (srv n) = Some db \<and> BackgroundRound db = Some (Some db') \<and> executor_db (srv n') = Some db'))
    | Exec t resp \<Rightarrow> execs n' = execs n @ [(t, resp)] \<and>
        (\<exists>coin. task_response None coin (wt_command t) (executor_db (srv n)) = Some (Some (resp, executor_db (srv n'))))
    | Threw t resp \<Rightarrow> True)"
  by (induction rule: worker_step.induct) (auto simp: task_wake_def on_krnl_def push_completed_def)

lemma net_step_loop:
  "net_step lab n n' \<Longrightarrow> net_inv n \<Longrightarrow>
   worker_step lab n n' \<or>
   lab = Silent \<and> execs n' = execs n \<and> executor_db (srv n') = executor_db (srv n) \<and>
     unat (next_generation (srv n)) \<le> unat (next_generation (srv n')) \<and>
     workers (thread_pool (srv n')) = workers (thread_pool (srv n)) \<and> pool_stop (thread_pool (srv n')) = pool_stop (thread_pool (srv n))"
proof (induction rule: net_step.induct)
  case (accept s ctl acc rd wr intr n)
  note D = net_invD [OF accept(6)]
  have sub: "fst ` set (take (taken n) (execs n)) \<subseteq> set (subs n)"
    using execs_subset(1) [OF D(2)] set_take_subset [of "taken n" "execs n"] by auto
  have "task_bound (subs n) s" using D(2) by (simp add: accept(1) task_inv_def task_bound_def)
  then have "untouched_pool s (HandleAccept s)"
    using accept_loop_ok [OF with_scripts_ok [OF D(1)] _ sub] accept(1,5) unfolding HandleAccept_def by simp
  then show ?case using accept(1) by (simp add: untouched_pool_def untouched_def)
next
  case (connection s ctl acc rd wr intr n fd ev s')
  have ok: "conns_ok {} (subs n) (take (taken n) (execs n)) s"
    using with_scripts_ok [OF net_invD(1) [OF connection(8)]] connection(1) by simp
  have "untouched s s'" "workers (thread_pool s') = workers (thread_pool s)" "pool_stop (thread_pool s') = pool_stop (thread_pool s)"
    using HandleConnectionEvent_ok [OF connection(7) ok connection(6)] by (auto simp: adds_tasks_def)
  then show ?case using connection(1) by (simp add: untouched_def)
next
  case (process s ctl acc rd wr intr n s')
  note D = net_invD [OF process(4)]
  let ?L = "drop (taken n) (execs n)" and ?P = "take (taken n) (execs n)"
  have t: "numbered (subs n)" "completed_queue s = map completed_of ?L" "fst ` set ?L \<subseteq> set (subs n)"
    "distinct (map (task_key \<circ> fst) (?P @ ?L))"
    using D(2) execs_subset [OF D(2)] process(1) set_drop_subset [of "taken n" "execs n"] by (auto simp: task_inv_def)
  show ?case
    using completions_process_ok(2) [OF process(3) t(2) _ t(1,3,4)] with_scripts_ok [OF D(1)] process(1)
    by (simp add: untouched_pool_def untouched_def)
next
  case (stop s ctl acc rd wr intr n)
  then show ?case
    using Stop_ok [OF with_scripts_ok [OF net_invD(1) [OF stop(2)]]] by (auto simp: untouched_pool_def untouched_def)
qed (auto simp: completions_drain_def on_krnl_def)

lemma net_step_db:
  "net_step lab n n' \<Longrightarrow> net_inv n \<Longrightarrow>
   (case lab of
      Silent \<Rightarrow> execs n' = execs n \<and>
        (executor_db (srv n') = executor_db (srv n) \<or>
         (\<exists>db db'. executor_db (srv n) = Some db \<and> BackgroundRound db = Some (Some db') \<and> executor_db (srv n') = Some db'))
    | Exec t resp \<Rightarrow> execs n' = execs n @ [(t, resp)] \<and>
        (\<exists>coin. task_response None coin (wt_command t) (executor_db (srv n)) = Some (Some (resp, executor_db (srv n'))))
    | Threw t resp \<Rightarrow> True)"
  by (drule (1) net_step_loop) (erule disjE, erule worker_step_db, simp)

lemma task_response_answers:
  assumes "db_inv db" "fits db" "command_ok command" "task_response None coin command (Some db) = Some (Some (resp, odb))"
  shows "\<exists>db'. odb = Some db' \<and> db_inv db' \<and> resp = reply_bytes (fst (kv_command command (view db))) \<and>
    view db' = snd (kv_command command (view db))"
proof -
  let ?nb = "new_NetworkBuffer initial_buffer_size"
  have nb: "\<not> (writes command \<and> put_blocks db)"
    using Execute_blocked [OF assms(1,2) nb_ok_new assms(3), of coin initial_buffer_size] assms(4)
    by (auto simp: task_response_def Let_def)
  from Execute_answers [OF assms(1,2) nb_ok_new assms(3) this, of coin initial_buffer_size] show ?thesis
    using assms(4) by (auto simp: task_response_def Let_def RetrieveAllAsString_def)
qed

definition kv_inv :: "(bytes \<rightharpoonup> bytes) \<Rightarrow> net \<Rightarrow> bool" where
  "kv_inv m0 n \<longleftrightarrow> (\<exists>db. executor_db (srv n) = Some db \<and> db_inv db \<and>
     map snd (execs n) = map reply_bytes (fst (kv_run (map (wt_command \<circ> fst) (execs n)) m0)) \<and>
     view db = snd (kv_run (map (wt_command \<circ> fst) (execs n)) m0))"

lemma kv_inv_step:
  assumes "net_step lab n n'" "net_inv n" "calm n lab" "kv_inv m0 n"
  shows "kv_inv m0 n'"
proof -
  obtain db where db: "executor_db (srv n) = Some db" "db_inv db"
    "map snd (execs n) = map reply_bytes (fst (kv_run (map (wt_command \<circ> fst) (execs n)) m0))"
    "view db = snd (kv_run (map (wt_command \<circ> fst) (execs n)) m0)"
    using assms(4) by (auto simp: kv_inv_def)
  have room: "roomy 3 db" "\<not> bg_stopped db" using assms(3) db(1) by (simp_all add: calm_def)
  note S = net_step_db [OF assms(1,2)]
  show ?thesis
  proof (cases lab)
    case Silent
    then show ?thesis using S db BackgroundRound_ok [OF db(2) room] by (auto simp: kv_inv_def)
  next
    case (Exec t resp)
    then obtain coin where e: "execs n' = execs n @ [(t, resp)]"
      "task_response None coin (wt_command t) (Some db) = Some (Some (resp, executor_db (srv n')))"
      using S db(1) by auto
    have "command_ok (wt_command t)" using assms(3) Exec by (simp add: calm_def)
    from task_response_answers [OF db(2) roomy_fits [OF room(1)] this e(2)] show ?thesis
      using db(3,4) by (auto simp: kv_inv_def e(1) kv_run_snoc)
  next
    case (Threw t resp)
    then show ?thesis using assms(3) by (simp add: calm_def)
  qed
qed

lemma kv_inv_reach: "net_reach calm n0 n \<Longrightarrow> kv_inv m0 n0 \<Longrightarrow> net_inv n0 \<Longrightarrow> kv_inv m0 n"
  by (induction rule: net_reach.induct) (auto intro: kv_inv_step net_reach_inv)

lemma net_reach_mono: "net_reach Q n0 n \<Longrightarrow> (\<And>m lab. Q m lab \<Longrightarrow> Q' m lab) \<Longrightarrow> net_reach Q' n0 n"
  by (induction rule: net_reach.induct) (auto intro: net_reach.intros)

text \<open>A session on an empty directory in which a client asks for a value.\<close>

lemma sample_get_key:
  "\<exists>db0 n c t. new_DBImpl sample_junk (\<lambda>_. False) empty_fs = Some db0 \<and> db_inv db0 \<and> view db0 = Map.empty \<and>
     net_reach (\<lambda>m lab. calm m lab \<and> length (subs m) \<le> 1) (start_net (sample_server (Some db0))) n \<and>
     map_of (connections (srv n)) 7 = Some c \<and> generation c = 1 \<and> received n 1 = [array_bytes [''GET'', ''k'']] \<and>
     subs n = [t] \<and> map fst (execs n) = [t] \<and> wt_generation t = 1 \<and> wt_command t = [''GET'', ''k''] \<and> request_ok [''GET'', ''k'']"
proof -
  obtain db0 where d: "new_DBImpl sample_junk (\<lambda>_. False) empty_fs = Some db0" "db_inv db0" "fits db0" "roomy 3 db0"
    "\<not> bg_stopped db0" "db_imm db0 = None" "view db0 = Map.empty"
    using sample_db by blast
  let ?cmd = "[''GET'', ''k'']" and ?t = "\<lparr>wt_fd = 7, wt_generation = 1, wt_seq = 0, wt_command = [''GET'', ''k'']\<rparr>"
  let ?Q = "\<lambda>m lab. calm m lab \<and> length (subs m) \<le> 1"
  have c: "command_ok ?cmd" by (simp add: command_ok_def)
  have "\<not> put_blocks db0" using d(6) by (simp add: put_blocks_def)
  then obtain resp odb where r: "task_response None (\<lambda>_. False) ?cmd (Some db0) = Some (Some (resp, odb))"
    using Execute_answers [OF d(2,3) nb_ok_new c, of "\<lambda>_. False" initial_buffer_size]
    by (auto simp: task_response_def Let_def RetrieveAllAsString_def)
  have ok: "request_ok ?cmd" by (simp add: request_ok_def int64_max_def)
  have len: "length (array_bytes ?cmd) \<le> extra_buffer_size"
    by (simp add: array_bytes_def bulk_bytes_def extra_buffer_size_def kCRLF_def) (simp add: to_string.simps)
  have Q: "?Q n Silent \<and> ?Q n (Exec ?t resp)" if "executor_db (srv n) = Some db0" "length (subs n) \<le> 1" for n
    using that c d(4,5) by (simp add: calm_def)
  obtain n where n: "net_reach ?Q (start_net (sample_server (Some db0))) n" "execs n = [(?t, resp)]" "received n 1 = [array_bytes ?cmd]"
    "\<exists>c. map_of (connections (srv n)) 7 = Some c \<and> generation c = 1" "subs n = [?t]"
    by (rule exE [OF sample_exec [of "Some db0" ?Q ?cmd resp, OF Q ok len r]]) (assumption, assumption, elim conjE, rule that)
  then show ?thesis using d(1,2,7) ok by (intro exI [of _ db0] exI [of _ n] exI [of _ ?t]) auto
qed

lemma kv_get_empty: "fst (kv_run [[''GET'', ''k'']] Map.empty) = [NullReply]"
proof -
  have "NormalizeCommandName ''GET'' = ''GET''" by code_simp
  then show ?thesis by (simp add: kv_command_def known_commands_def argc_def split_beta)
qed

text \<open>
  C7: the server implements the protocol over a map. In a run without exceptions and with room in
  the database, the commands executed for all connections together, in the order in which the
  workers executed them, got exactly the replies that the same commands get one after the other on a
  map that starts with the contents of the database, and the database holds that map at the end,
  whatever flushes and compactions ran in between.
\<close>

theorem server_refines_map:
  assumes "new_server_started (Some db0) k env s0" "db_inv db0" "net_reach calm (start_net s0) n"
  shows "\<exists>db. executor_db (srv n) = Some db \<and>
    map snd (execs n) = map reply_bytes (fst (kv_run (map (wt_command \<circ> fst) (execs n)) (view db0))) \<and>
    view db = snd (kv_run (map (wt_command \<circ> fst) (execs n)) (view db0))"
proof -
  have "executor_db s0 = Some db0" using assms(1) Start_fields(6) by (auto simp: new_server_started_def)
  then have "kv_inv (view db0) (start_net s0)" using assms(2) by (simp add: kv_inv_def start_net_def)
  moreover have "net_inv (start_net s0)" by (rule Start_inv [OF assms(1)])
  ultimately have "kv_inv (view db0) n" by (rule kv_inv_reach [OF assms(3)])
  then show ?thesis by (auto simp: kv_inv_def)
qed

theorem server_refines_map_witness:
  "\<exists>db0 n. new_DBImpl sample_junk (\<lambda>_. False) empty_fs = Some db0 \<and>
     net_reach calm (start_net (sample_server (Some db0))) n \<and> map snd (execs n) = [reply_bytes NullReply]"
proof -
  obtain db0 n t where n: "new_DBImpl sample_junk (\<lambda>_. False) empty_fs = Some db0" "db_inv db0" "view db0 = Map.empty"
    "net_reach (\<lambda>m lab. calm m lab \<and> length (subs m) \<le> 1) (start_net (sample_server (Some db0))) n"
    "map fst (execs n) = [t]" "wt_command t = [''GET'', ''k'']"
    using sample_get_key by (elim exE conjE) (rule that)
  have r: "net_reach calm (start_net (sample_server (Some db0))) n" by (rule net_reach_mono [OF n(4)]) simp
  have "map (wt_command \<circ> fst) (execs n) = [[''GET'', ''k'']]" using n(5,6) by (simp add: map_map [symmetric] del: map_map)
  from server_refines_map [OF sample_started n(2) r, unfolded this n(3) kv_get_empty] show ?thesis using n(1) r by auto
qed

section \<open>Stopping and cleaning up\<close>

lemma stop_loop_closing:
  "stop_loop cs s = (tc, s') \<Longrightarrow> distinct (map fst cs) \<Longrightarrow> (\<And>fd c. (fd, c) \<in> set cs \<Longrightarrow> map_of (connections s) fd = Some c) \<Longrightarrow>
   stopping s' = stopping s \<and> listen_fd s' = listen_fd s \<and>
   (\<forall>fd. fd \<notin> fst ` set cs \<longrightarrow> map_of (connections s') fd = map_of (connections s) fd \<and> interest (krnl s') fd = interest (krnl s) fd) \<and>
   (\<forall>fd\<in>fst ` set cs. fd \<notin> set tc \<longrightarrow> (\<exists>conn. map_of (connections s') fd = Some conn \<and> closing conn \<and> \<not> IsConnectionDrained conn) \<and>
      interest (krnl s') fd = Some (EPOLLRDHUP OR EPOLLOUT))"
proof (induction cs arbitrary: s tc)
  case (Cons e cs)
  obtain fd conn where e: "e = (fd, conn)" by (cases e)
  let ?c = "conn\<lparr>closing := True, input_buffer := RetrieveAll (input_buffer conn)\<rparr>"
  let ?s1 = "set_conn fd ?c s"
  have m: "map_of (connections s) fd = Some conn" and Y: "fd \<notin> fst ` set cs" "distinct (map fst cs)" using Cons.prems(2,3) e by auto
  have keep: "map_of (connections ?s1) f = Some c" if "(f, c) \<in> set cs" for f c
    using that Y(1) Cons.prems(3) [of f c] by (force simp: e)
  show ?case
  proof (cases "IsConnectionDrained ?c")
    case True
    obtain tc' where t: "stop_loop cs ?s1 = (tc', s')" "tc = fd # tc'"
      using Cons.prems(1) True by (cases "stop_loop cs ?s1") (auto simp: e Let_def)
    from Cons.IH [OF t(1) Y(2) keep] show ?thesis using t(2) by (auto simp: e)
  next
    case False
    obtain b t where u: "UpdateEpollEvent fd (EPOLLRDHUP OR EPOLLOUT) ?s1 = (b, t)"
      by (cases "UpdateEpollEvent fd (EPOLLRDHUP OR EPOLLOUT) ?s1")
    obtain k where k: "t = ?s1\<lparr>krnl := k\<rparr>" "interest k = (if b then (interest (krnl ?s1))(fd \<mapsto> EPOLLRDHUP OR EPOLLOUT) else interest (krnl ?s1))"
      using UpdateEpollEvent_cases [OF u] by metis
    have kt: "map_of (connections t) f = Some c" if "(f, c) \<in> set cs" for f c using keep [OF that] by (simp add: k(1))
    show ?thesis
    proof (cases b)
      case True
      have l: "stop_loop cs t = (tc, s')" using Cons.prems(1) False u True by (simp add: e Let_def)
      from Cons.IH [OF l Y(2) kt] show ?thesis using True False k m Y(1) by (auto simp: e)
    next
      case F: False
      obtain tc' where l: "stop_loop cs t = (tc', s')" "tc = fd # tc'"
        using Cons.prems(1) False u F by (cases "stop_loop cs t") (auto simp: e Let_def)
      from Cons.IH [OF l(1) Y(2) kt] show ?thesis using F l(2) k by (auto simp: e)
    qed
  qed
qed simp

lemma finish_fields [simp]:
  "connections (MaybeFinishShutdown s) = connections s" "interest (krnl (MaybeFinishShutdown s)) = interest (krnl s)"
  "stopping (MaybeFinishShutdown s) = stopping s" "listen_fd (MaybeFinishShutdown s) = listen_fd s"
  by (simp_all add: MaybeFinishShutdown_def WakeEventLoop_def on_krnl_def)

lemma wake_fields [simp]:
  "connections (WakeEventLoop s) = connections s" "interest (krnl (WakeEventLoop s)) = interest (krnl s)"
  "stopping (WakeEventLoop s) = stopping s" "listen_fd (WakeEventLoop s) = listen_fd s"
  by (simp_all add: WakeEventLoop_def on_krnl_def)

lemma Close_fields:
  "map_of (connections (CloseConnection fd s)) f = (if f = fd then None else map_of (connections s) f)"
  "f \<noteq> fd \<Longrightarrow> interest (krnl (CloseConnection fd s)) f = interest (krnl s) f"
  "stopping (CloseConnection fd s) = stopping s" "listen_fd (CloseConnection fd s) = listen_fd s"
  by (auto simp: CloseConnection_def RemoveEpollEvent_def on_krnl_def sys_close_def epoll_del_def erase_conn_def map_of_filter_key split: option.split)

lemma fold_Close_fields:
  "map_of (connections (fold CloseConnection tc s)) f = (if f \<in> set tc then None else map_of (connections s) f)"
  "f \<notin> set tc \<Longrightarrow> interest (krnl (fold CloseConnection tc s)) f = interest (krnl s) f"
  "stopping (fold CloseConnection tc s) = stopping s" "listen_fd (fold CloseConnection tc s) = listen_fd s"
  by (induction tc arbitrary: s) (simp_all add: Close_fields)

lemma finish_stops: "stopping s \<Longrightarrow> listen_fd s < 0 \<Longrightarrow> connections s = [] \<Longrightarrow> \<not> running (MaybeFinishShutdown s)"
  by (simp add: MaybeFinishShutdown_def WakeEventLoop_def on_krnl_def)

text \<open>The first step of \<open>Stop\<close>.\<close>

definition begin_stop :: "TcpServer \<Rightarrow> TcpServer" where
  "begin_stop s =
     (let s1 = s\<lparr>stopping := True\<rparr> in
      if listen_fd s1 \<ge> 0 then close_listen (RemoveEpollEvent (listen_fd s1) s1) else s1)"

lemma begin_stop_fields [simp]:
  "connections (begin_stop s) = connections s" "stopping (begin_stop s)" "listen_fd (begin_stop s) < 0" "running (begin_stop s) = running s"
  "thread_pool (begin_stop s) = thread_pool s" "executor_db (begin_stop s) = executor_db s"
  by (simp_all add: begin_stop_def Let_def close_listen_def RemoveEpollEvent_def on_krnl_def)

lemma Stop_begun:
  "running s \<Longrightarrow> \<not> stopping s \<Longrightarrow> stop_loop (connections (begin_stop s)) (begin_stop s) = (tc, s3) \<Longrightarrow>
   Stop s = MaybeFinishShutdown (WakeEventLoop (fold CloseConnection tc s3))"
  by (simp add: Stop_def begin_stop_def Let_def)

text \<open>
  \<open>Stop\<close> on a running server begins the shutdown. The listening socket is closed, every
  connection with nothing left to send is closed, every other connection reads no more and is
  registered for output, and if no connection is left the event loop ends.
\<close>

lemma stop_begins_shutdown:
  assumes "distinct (map fst (connections s))" "running s" "\<not> stopping s"
  shows "stopping (Stop s)" "listen_fd (Stop s) < 0"
    "map_of (connections (Stop s)) fd = Some conn \<Longrightarrow> closing conn \<and> \<not> IsConnectionDrained conn \<and>
       interest (krnl (Stop s)) fd = Some (EPOLLRDHUP OR EPOLLOUT)"
    "connections (Stop s) = [] \<Longrightarrow> \<not> running (Stop s)"
proof -
  obtain tc s3 where l: "stop_loop (connections (begin_stop s)) (begin_stop s) = (tc, s3)"
    by (cases "stop_loop (connections (begin_stop s)) (begin_stop s)")
  note S = Stop_begun [OF assms(2,3) l]
  have L: "stopping s3 \<and> listen_fd s3 < 0 \<and>
     (\<forall>fd. fd \<notin> fst ` set (connections s) \<longrightarrow> map_of (connections s3) fd = map_of (connections s) fd) \<and>
     (\<forall>fd\<in>fst ` set (connections s). fd \<notin> set tc \<longrightarrow>
        (\<exists>conn. map_of (connections s3) fd = Some conn \<and> closing conn \<and> \<not> IsConnectionDrained conn) \<and>
        interest (krnl s3) fd = Some (EPOLLRDHUP OR EPOLLOUT))"
    using stop_loop_closing [OF l, unfolded begin_stop_fields, OF assms(1)] assms(1) by simp
  then show "stopping (Stop s)" "listen_fd (Stop s) < 0" by (simp_all add: S fold_Close_fields)
  show "\<not> running (Stop s)" if "connections (Stop s) = []"
    using that L unfolding S by (intro finish_stops) (simp_all add: fold_Close_fields)
  assume m: "map_of (connections (Stop s)) fd = Some conn"
  have m3: "fd \<notin> set tc" "map_of (connections s3) fd = Some conn" using m by (auto simp: S fold_Close_fields split: if_splits)
  then have "fd \<in> fst ` set (connections s)" using L by (metis map_of_eq_None_iff option.distinct(1))
  then show "closing conn \<and> \<not> IsConnectionDrained conn \<and> interest (krnl (Stop s)) fd = Some (EPOLLRDHUP OR EPOLLOUT)"
    using L m3 by (auto simp: S fold_Close_fields)
qed

lemma fold_sys_close:
  "\<exists>k. fold (\<lambda>(fd, conn) t. on_krnl (sys_close fd) (RemoveEpollEvent fd t)) cs s = s\<lparr>krnl := k\<rparr> \<and>
     open_fds k = open_fds (krnl s) - fst ` set cs"
proof (induction cs arbitrary: s)
  case Nil
  show ?case by (intro exI [of _ "krnl s"]) simp
next
  case (Cons e cs)
  obtain fd c where e: "e = (fd, c)" by (cases e)
  let ?k = "sys_close fd (epoll_del fd (krnl s))"
  from Cons.IH [of "s\<lparr>krnl := ?k\<rparr>"] show ?case
    by (auto simp: e on_krnl_def RemoveEpollEvent_def sys_close_def epoll_del_def)
qed

lemma Cleanup_end_closes:
  assumes "open_fds (krnl s) \<subseteq> {x. 0 \<le> x \<and> (x = wake_fd s \<or> x = epoll_fd s)} \<union> fst ` set (connections s)"
  shows "open_fds (krnl (Cleanup_end s)) = {}" "connections (Cleanup_end s) = []" "completed_queue (Cleanup_end s) = []"
    "thread_pool (Cleanup_end s) = thread_pool s" "wake_fd (Cleanup_end s) < 0 \<and> epoll_fd (Cleanup_end s) < 0"
proof -
  let ?F = "fold (\<lambda>(fd, conn) t. on_krnl (sys_close fd) (RemoveEpollEvent fd t)) (connections s) (s\<lparr>completed_queue := []\<rparr>)"
  obtain k where F: "?F = s\<lparr>completed_queue := [], krnl := k\<rparr>" "open_fds k = open_fds (krnl s) - fst ` set (connections s)"
    using fold_sys_close [of "connections s" "s\<lparr>completed_queue := []\<rparr>"] by auto
  have sub: "open_fds k \<subseteq> {x. 0 \<le> x \<and> (x = wake_fd s \<or> x = epoll_fd s)}" using assms F(2) by auto
  have U: "Cleanup_end s =
     (let s3 = s\<lparr>completed_queue := [], krnl := k, connections := []\<rparr>;
          s4 = (if wake_fd s3 \<ge> 0
                then (on_krnl (sys_close (wake_fd s3)) (RemoveEpollEvent (wake_fd s3) s3))\<lparr>wake_fd := -1\<rparr> else s3)
      in if epoll_fd s4 \<ge> 0 then (on_krnl (sys_close (epoll_fd s4)) s4)\<lparr>epoll_fd := -1\<rparr> else s4)"
    by (simp add: Cleanup_end_def F(1) Let_def)
  show "open_fds (krnl (Cleanup_end s)) = {}" "connections (Cleanup_end s) = []" "completed_queue (Cleanup_end s) = []"
    "thread_pool (Cleanup_end s) = thread_pool s" "wake_fd (Cleanup_end s) < 0 \<and> epoll_fd (Cleanup_end s) < 0"
    using sub by (auto simp: U Let_def on_krnl_def RemoveEpollEvent_def sys_close_def epoll_del_def)
qed

lemma Cleanup_begin_fields:
  assumes "open_fds (krnl s) \<subseteq> fixed_fds s \<union> fst ` set (connections s)"
  shows "open_fds (krnl (Cleanup_begin s)) \<subseteq> {x. 0 \<le> x \<and> (x = wake_fd s \<or> x = epoll_fd s)} \<union> fst ` set (connections s)"
    "connections (Cleanup_begin s) = connections s" "wake_fd (Cleanup_begin s) = wake_fd s" "epoll_fd (Cleanup_begin s) = epoll_fd s"
    "pool_stop (thread_pool (Cleanup_begin s))" "listen_fd (Cleanup_begin s) < 0"
  using assms
  by (auto simp: Cleanup_begin_def Let_def close_listen_def RemoveEpollEvent_def on_krnl_def sys_close_def epoll_del_def Shutdown_begin_def fixed_fds_def)

text \<open>
  The cleanup leaks nothing. From any state of a run, with whatever the workers still complete
  between its two halves, it leaves no descriptor open and no connection, and the pool is stopped.
\<close>

theorem cleanup_closes_all:
  assumes "new_server_started db k env s0" "net_reach Q (start_net s0) n"
    and "t = (Cleanup_begin (srv n))\<lparr>completed_queue := q, thread_pool := pool, executor_db := d\<rparr>"
  shows "pool_stop (thread_pool (Cleanup_begin (srv n))) \<and> open_fds (krnl (Cleanup_end t)) = {} \<and> connections (Cleanup_end t) = [] \<and>
    completed_queue (Cleanup_end t) = [] \<and> wake_fd (Cleanup_end t) < 0 \<and> epoll_fd (Cleanup_end t) < 0"
proof -
  have "conns_ok {} (subs n) (take (taken n) (execs n)) (srv n)" by (rule net_invD(1) [OF net_reach_inv [OF assms(2) Start_inv [OF assms(1)]]])
  then have "open_fds (krnl (srv n)) \<subseteq> fixed_fds (srv n) \<union> fst ` set (connections (srv n))" by (simp add: conns_ok_def shape_def)
  note B = Cleanup_begin_fields [OF this]
  show ?thesis using Cleanup_end_closes [of t] B by (simp add: assms(3))
qed

theorem cleanup_closes_all_witness:
  "open_fds (krnl (Cleanup (sample_server None))) = {} \<and> connections (Cleanup (sample_server None)) = []"
  using cleanup_closes_all [OF sample_started net_reach.start, where t = "Cleanup_begin (sample_server None)" and db = None
      and q = "completed_queue (Cleanup_begin (sample_server None))" and pool = "thread_pool (Cleanup_begin (sample_server None))"
      and d = "executor_db (Cleanup_begin (sample_server None))"]
  by (simp add: start_net_def Cleanup_def)

lemma Cleanup_running: "running (Cleanup s) = running s"
proof -
  have b: "running (Cleanup_begin s) = running s"
    by (simp add: Cleanup_begin_def Let_def close_listen_def RemoveEpollEvent_def on_krnl_def)
  let ?b = "Cleanup_begin s"
  obtain k where "fold (\<lambda>(fd, conn) t. on_krnl (sys_close fd) (RemoveEpollEvent fd t)) (connections ?b) (?b\<lparr>completed_queue := []\<rparr>) =
      ?b\<lparr>completed_queue := []\<rparr>\<lparr>krnl := k\<rparr>"
    using fold_sys_close [of "connections ?b" "?b\<lparr>completed_queue := []\<rparr>"] by blast
  then show ?thesis by (simp add: Cleanup_def Cleanup_end_def Let_def on_krnl_def RemoveEpollEvent_def b)
qed

lemma start_failure_cleanup:
  assumes st: "Start env (new_TcpServer db k) = (False, s)" and i1: "InitListenSocket env (new_TcpServer db k) = (True, s1)"
    and k: "open_fds k = {}" "fresh_env env"
  shows "\<exists>t. s = Cleanup t \<and> open_fds (krnl t) \<subseteq> fixed_fds t \<union> fst ` set (connections t) \<and> \<not> running t"
proof -
  have s1: "listen_fd s1 = sock_result env" "open_fds (krnl s1) = {sock_result env}" "\<not> running s1" "0 \<le> sock_result env" "wake_fd s1 = -1"
    using i1 k(1) by (auto simp: InitListenSocket_def Let_def on_krnl_def sys_open_def new_TcpServer_def split: if_splits)
  obtain b2 s2 where i2: "InitEpoll env s1 = (b2, s2)" by (cases "InitEpoll env s1")
  have s2: "open_fds (krnl s2) \<subseteq> fixed_fds s2" "\<not> running s2" "wake_fd s2 = -1" "listen_fd s2 = sock_result env"
    using i2 [unfolded InitEpoll_def, symmetric] s1
    by (cases "epoll_result env < 0"; simp add: on_krnl_def sys_open_def fixed_fds_def)+
  obtain b3 s3 where i3: "AddEpollEvent (listen_fd s2) EPOLLIN s2 = (b3, s3)" by (cases "AddEpollEvent (listen_fd s2) EPOLLIN s2")
  obtain k3 where k3: "s3 = s2\<lparr>krnl := k3\<rparr>" "open_fds k3 = open_fds (krnl s2)" using AddEpollEvent_cases [OF i3] by metis
  have s3: "open_fds (krnl s3) \<subseteq> fixed_fds s3" "\<not> running s3" "wake_fd s3 = -1" "listen_fd s3 = sock_result env" "epoll_fd s3 = epoll_fd s2"
    using s2 k3 by (simp_all add: fixed_fds_def)
  obtain b4 s4 where i4: "InitWakeFd env s3 = (b4, s4)" by (cases "InitWakeFd env s3")
  have s4: "open_fds (krnl s4) \<subseteq> fixed_fds s4" "\<not> running s4" if "\<not> b4"
    using i4 that s3(1-4)
    by (auto simp: InitWakeFd_def Let_def on_krnl_def sys_open_def sys_close_def fixed_fds_def split: if_splits prod.splits bool.splits
        elim!: AddEpollEvent_cases)
  consider "\<not> b2" "s = Cleanup s2" | "\<not> b3" "s = Cleanup s3" | "\<not> b4" "s = Cleanup s4"
    using st i1 i2 i3 i4 by (cases b2; cases b3; cases b4) (simp_all add: Start_def)
  then show ?thesis using s2(1,2) s3(1,2) s4 by cases blast+
qed

lemma start_failure_clean:
  assumes "Start env (new_TcpServer db k) = (False, s)" "open_fds k = {}" "fresh_env env"
  shows "open_fds (krnl s) = {} \<and> connections s = [] \<and> \<not> running s \<and>
    (fst (InitListenSocket env (new_TcpServer db k)) \<longrightarrow> (\<forall>t. enqueue t (thread_pool s) = None))"
proof -
  define s00 where "s00 = new_TcpServer db k"
  have s00: "connections s00 = []" "open_fds (krnl s00) = {}" "wake_fd s00 = -1" "epoll_fd s00 = -1" "\<not> running s00" "listen_fd s00 = -1"
    by (simp_all add: s00_def new_TcpServer_def assms(2))
  have clean: "open_fds (krnl (Cleanup t)) = {} \<and> connections (Cleanup t) = [] \<and> (\<forall>u. enqueue u (thread_pool (Cleanup t)) = None)"
    if "open_fds (krnl t) \<subseteq> fixed_fds t \<union> fst ` set (connections t)" for t
  proof -
    note B = Cleanup_begin_fields [OF that]
    note E = Cleanup_end_closes [OF B(1) [folded B(2-4)]]
    show ?thesis using E B(5) by (simp add: Cleanup_def enqueue_def)
  qed
  obtain b1 s1 where i1: "InitListenSocket env s00 = (b1, s1)" by (cases "InitListenSocket env s00")
  show ?thesis
  proof (cases b1)
    case False
    then have "s = s1" using assms(1) i1 by (simp add: Start_def s00_def)
    then show ?thesis
      using i1 False s00
      by (auto simp: InitListenSocket_def Let_def close_listen_def on_krnl_def sys_open_def sys_close_def s00_def [symmetric] split: if_splits)
  next
    case True
    obtain t where t: "s = Cleanup t" "open_fds (krnl t) \<subseteq> fixed_fds t \<union> fst ` set (connections t)" "\<not> running t"
      using start_failure_cleanup [OF assms(1) _ assms(2,3), of s1] i1 True s00_def by auto
    then show ?thesis using clean [OF t(2)] Cleanup_running [of t] by simp
  qed
qed

text \<open>
  C36: a start that fails at any of its system calls returns false with no descriptor left open and
  the server not running; when it fails after the listening socket was made, the pool is stopped
  for good, so that a later start cannot serve a single request.
\<close>

theorem start_failure:
  assumes "Start env (new_TcpServer db k) = (False, s)" "open_fds k = {}" "fresh_env env"
  shows "open_fds (krnl s) = {} \<and> connections s = [] \<and> \<not> running s \<and>
    (fst (InitListenSocket env (new_TcpServer db k)) \<longrightarrow> (\<forall>t. enqueue t (thread_pool s) = None))"
  by (rule start_failure_clean [OF assms])

theorem start_failure_witness:
  "\<exists>s. Start (sample_env\<lparr>epoll_result := -1\<rparr>) (new_TcpServer None sample_kernel) = (False, s) \<and> open_fds (krnl s) = {} \<and>
     (\<forall>t. enqueue t (thread_pool s) = None)"
proof -
  let ?env = "sample_env\<lparr>epoll_result := -1\<rparr>"
  have l: "fst (InitListenSocket ?env (new_TcpServer None sample_kernel))"
    by (simp add: InitListenSocket_def Let_def sample_env_def SetNonBlocking_def)
  obtain s where s: "Start ?env (new_TcpServer None sample_kernel) = (False, s)"
    by (auto simp: Start_def InitListenSocket_def InitEpoll_def Let_def sample_env_def SetNonBlocking_def)
  have "open_fds sample_kernel = {}" "fresh_env ?env" by (simp_all add: sample_kernel_def fresh_env_def sample_env_def)
  from start_failure [OF s this] l s show ?thesis by blast
qed

end
