(* ===== verification/TcpHistory.thy ===== *)
theory TcpHistory
  imports TcpCorrect
begin

text \<open>
  From bytes to responses. The tasks submitted for a connection are what the parser makes of the
  bytes read from it, so the responses a client receives belong to the requests it sent.
\<close>

section \<open>The input of a connection\<close>

text \<open>
  What a handler may do to the input side of a connection it does not read from: nothing, or close it.
\<close>

definition input_step :: "Connection \<Rightarrow> Connection \<Rightarrow> bool" where
  "input_step c d \<longleftrightarrow> generation d = generation c \<and> next_request_seq d = next_request_seq c \<and> (closing c \<longrightarrow> closing d) \<and>
     (\<not> closing d \<longrightarrow> conn_parser d = conn_parser c \<and> input_buffer d = input_buffer c)"

definition inputs_kept :: "TcpServer \<Rightarrow> TcpServer \<Rightarrow> bool" where
  "inputs_kept s s' \<longleftrightarrow> (\<forall>fd d. map_of (connections s') fd = Some d \<longrightarrow>
     (\<exists>c. map_of (connections s) fd = Some c \<and> input_step c d))"

lemma input_step_refl [simp]: "input_step c c"
  by (simp add: input_step_def)

lemma input_step_trans: "input_step c d \<Longrightarrow> input_step d e \<Longrightarrow> input_step c e"
  by (auto simp: input_step_def)

lemma same_input_step: "same_input c d \<Longrightarrow> input_step c d"
  by (simp add: same_input_def input_step_def)

lemma inputs_kept_refl [simp]: "inputs_kept s s"
  by (auto simp: inputs_kept_def)

lemma inputs_kept_trans [trans]: "inputs_kept s t \<Longrightarrow> inputs_kept t u \<Longrightarrow> inputs_kept s u"
  by (meson inputs_kept_def input_step_trans)

lemma inputs_kept_same: "connections s' = connections s \<Longrightarrow> inputs_kept s s'"
  by (auto simp: inputs_kept_def)

lemma inputs_kept_Close: "inputs_kept s (CloseConnection fd s)"
  by (auto simp: inputs_kept_def CloseConnection_def MaybeFinishShutdown_def WakeEventLoop_def RemoveEpollEvent_def on_krnl_def
      split: option.splits if_splits)

lemma connections_Update: "UpdateEpollEvent fd ev s = (b, t) \<Longrightarrow> connections t = connections s"
  by (elim UpdateEpollEvent_cases [elim_format]) auto

lemma flush_pending_input: "flush_pending conn ap = Some (conn', ap') \<Longrightarrow> same_input conn conn'"
proof (induction conn ap arbitrary: conn' ap' rule: flush_pending.induct)
  case (1 conn ap)
  show ?case
  proof (cases "map_of (pending_responses conn) (next_write_seq conn)")
    case None
    then show ?thesis using "1.prems" by (simp add: flush_pending.simps [of conn])
  next
    case (Some resp)
    then obtain ob where ob: "NetworkBuffer_Append resp (output_buffer conn) = Some ob"
      using "1.prems" by (auto simp: flush_pending.simps [of conn] split: option.splits)
    from "1.IH" [OF Some ob] "1.prems" Some ob show ?thesis
      by (auto simp: flush_pending.simps [of conn] same_input_def)
  qed
qed

lemma write_loop_input: "write_loop rs fd conn k = (ok, conn', k') \<Longrightarrow> same_input conn conn'"
  by (induction rs fd conn k rule: write_loop.induct) (auto simp: Let_def same_input_def split: write_result.splits if_splits)

section \<open>Handlers that do not read\<close>

text \<open>
  All handlers but \<open>HandleAccept\<close> and \<open>HandleRead\<close> are made of a few elementary changes: of the
  kernel, of a connection otherwise than on its input side, of the completion queue, closing a
  connection and the end of the shutdown. A preorder that contains these contains the handlers.
\<close>

locale handler_rel =
  fixes R :: "TcpServer \<Rightarrow> TcpServer \<Rightarrow> bool"
  assumes same: "R s s"
    and trans: "R s t \<Longrightarrow> R t u \<Longrightarrow> R s u"
    and krnl: "R s (s\<lparr>krnl := k\<rparr>)"
    and queue: "R s (s\<lparr>completed_queue := q\<rparr>)"
    and conn: "map_of (connections s) fd = Some c \<Longrightarrow> input_step c d \<Longrightarrow> R s (set_conn fd d s)"
    and close: "R s (CloseConnection fd s)"
    and finish: "R s (MaybeFinishShutdown s)"
begin

lemma on_kernel: "R s (on_krnl f s)"
  by (simp add: on_krnl_def krnl)

lemma wake: "R s (WakeEventLoop s)"
  by (simp add: WakeEventLoop_def same on_kernel)

lemma update: "UpdateEpollEvent fd ev s = (b, t) \<Longrightarrow> R s t"
  by (elim UpdateEpollEvent_cases [elim_format]) (auto intro: krnl)

lemma update_close: "R s (update_or_close fd ev s)"
proof -
  obtain b t where u: "UpdateEpollEvent fd ev s = (b, t)" by (cases "UpdateEpollEvent fd ev s")
  show ?thesis using u update [OF u] trans [OF update [OF u] close] by (cases b) (simp_all add: update_or_close_def)
qed

lemma handle_write: "R s (HandleWrite fd s)"
proof (cases "map_of (connections s) fd")
  case (Some conn0)
  obtain ok c k where w: "write_loop (write_script (krnl s)) fd conn0 (krnl s) = (ok, c, k)"
    by (cases "write_loop (write_script (krnl s)) fd conn0 (krnl s)") auto
  let ?t = "set_conn fd c (s\<lparr>krnl := k\<rparr>)"
  have t: "R s ?t"
    using trans [OF krnl conn [OF _ same_input_step [OF write_loop_input [OF w]]]] Some by simp
  have "HandleWrite fd s \<in> {CloseConnection fd ?t, update_or_close fd EPOLLRDHUP ?t, update_or_close fd (EPOLLIN OR EPOLLRDHUP) ?t, ?t}"
    using Some w by (simp add: HandleWrite_def Let_def del: Close_set_conn)
  then show ?thesis using t trans [OF t close] trans [OF t update_close] by (auto simp del: Close_set_conn)
qed (simp add: HandleWrite_def same)

lemma process: "process_completions L s = Some s' \<Longrightarrow> R s s'"
proof (induction L s rule: process_completions.induct)
  case (2 task L s)
  show ?case
  proof (cases "map_of (connections s) (ct_fd task)")
    case None
    then show ?thesis using 2 by simp
  next
    case (Some c)
    show ?thesis
    proof (cases "generation c = ct_generation task")
      case False
      then show ?thesis using "2.IH"(2) [OF Some] "2.prems" Some by simp
    next
      case True
      obtain c2 ap where f: "flush_pending (c\<lparr>pending_responses := try_emplace (ct_seq task) (ct_response task) (pending_responses c)\<rparr>) False = Some (c2, ap)"
        using "2.prems" Some True by (auto split: bind_splits)
      have "input_step c c2" using flush_pending_input [OF f] by (simp add: same_input_def input_step_def)
      then have t: "R s (set_conn (ct_fd task) c2 s)" by (rule conn [OF Some])
      let ?t = "if ap then update_or_close (ct_fd task) (if closing c2 then EPOLLOUT OR EPOLLRDHUP else EPOLLIN OR EPOLLRDHUP OR EPOLLOUT)
          (set_conn (ct_fd task) c2 s) else set_conn (ct_fd task) c2 s"
      have "R s ?t" using t trans [OF t update_close] by simp
      moreover have p: "process_completions L ?t = Some s'" using "2.prems" Some True f by (simp add: Let_def)
      ultimately show ?thesis using trans "2.IH"(3) [OF Some _ f refl refl] True by (metis (no_types, lifting))
    qed
  qed
qed (simp add: same)

lemma completions: "completions_process s = Some s' \<Longrightarrow> R s s'"
  by (auto simp: completions_process_def intro: trans [OF queue trans [OF process finish]])

lemma stop_conns:
  "stop_loop cs s = (tc, s') \<Longrightarrow> distinct (map fst cs) \<Longrightarrow> (\<And>fd c. (fd, c) \<in> set cs \<Longrightarrow> map_of (connections s) fd = Some c) \<Longrightarrow>
   R s s'"
proof (induction cs arbitrary: s tc)
  case (Cons e cs)
  obtain fd c where e: "e = (fd, c)" by (cases e)
  let ?c = "c\<lparr>closing := True, input_buffer := RetrieveAll (input_buffer c)\<rparr>"
  let ?s1 = "set_conn fd ?c s"
  have m: "map_of (connections s) fd = Some c" and Y: "fd \<notin> fst ` set cs" "distinct (map fst cs)" using Cons.prems(2,3) e by auto
  have k1: "R s ?s1" by (rule conn [OF m]) (simp add: input_step_def)
  have keep: "map_of (connections ?s1) f = Some d" if "(f, d) \<in> set cs" for f d
    using that Y(1) Cons.prems(3) [of f d] by (force simp: e)
  obtain t tc' where t: "stop_loop cs t = (tc', s')" "connections t = connections ?s1" "R ?s1 t"
  proof (cases "IsConnectionDrained ?c")
    case True
    then show ?thesis using that [of ?s1] Cons.prems(1) same by (cases "stop_loop cs ?s1") (auto simp: e Let_def)
  next
    case False
    obtain b t where u: "UpdateEpollEvent fd (EPOLLRDHUP OR EPOLLOUT) ?s1 = (b, t)"
      by (cases "UpdateEpollEvent fd (EPOLLRDHUP OR EPOLLOUT) ?s1")
    from that [OF _ connections_Update [OF u] update [OF u]] show ?thesis
      using Cons.prems(1) False u by (cases b; cases "stop_loop cs t") (auto simp: e Let_def)
  qed
  have "R t s'" by (rule Cons.IH [OF t(1) Y(2)]) (use keep t(2) in simp)
  then show ?case by (rule trans [OF k1 trans [OF t(3)]])
qed (simp add: same)

lemma close_all: "R s (fold CloseConnection tc s)"
  by (induction tc arbitrary: s) (auto intro: same trans [OF close])

text \<open>\<open>Stop\<close> itself, after its first step: the server marked as stopping, its listening socket closed.\<close>

lemma stop:
  assumes "distinct (map fst (connections s))" "R s (begin_stop s)"
  shows "R s (Stop s)"
proof (cases "running s \<and> \<not> stopping s")
  case True
  obtain tc s3 where l: "stop_loop (connections (begin_stop s)) (begin_stop s) = (tc, s3)"
    by (cases "stop_loop (connections (begin_stop s)) (begin_stop s)")
  have "R (begin_stop s) s3" by (rule stop_conns [OF l]) (use assms(1) in auto)
  then have "R s (fold CloseConnection tc s3)" by (rule trans [OF assms(2) trans [OF _ close_all]])
  then show ?thesis using trans [OF trans [OF _ wake] finish] l True Stop_begun by simp
qed (auto simp: Stop_def same wake)

end

text \<open>The input side of the connections.\<close>

interpretation kept: handler_rel inputs_kept
proof (unfold_locales, goal_cases)
  case (2 s t u)
  then show ?case by (rule inputs_kept_trans)
next
  case (5 s fd c d)
  then show ?case by (auto simp: inputs_kept_def)
qed (auto intro: inputs_kept_same inputs_kept_Close)

text \<open>The components no handler of this kind touches, and a closed listening socket stays closed.\<close>

definition apart :: "TcpServer \<Rightarrow> TcpServer \<Rightarrow> bool" where
  "apart s s' \<longleftrightarrow> thread_pool s' = thread_pool s \<and> executor_db s' = executor_db s \<and> (listen_fd s < 0 \<longrightarrow> listen_fd s' < 0)"

interpretation apart: handler_rel apart
  using untouched_Close untouched_MaybeFinish
  by unfold_locales (auto simp: apart_def untouched_pool_def untouched_def Close_fields)

lemma Stop_apart: "distinct (map fst (connections s)) \<Longrightarrow> apart s (Stop s)"
  by (rule apart.stop) (simp_all add: apart_def)

section \<open>Requests and bytes\<close>

text \<open>
  The tasks of a connection are the commands parsed from the pieces read so far; while the
  connection is open for input, its parser and its buffer are where that parse has got to. A
  connection whose input was malformed has one more request number than tasks.
\<close>

definition sent_ok :: "(u64 \<Rightarrow> bytes list) \<Rightarrow> WorkerTask list \<Rightarrow> Connection \<Rightarrow> bool" where
  "sent_ok rcv H c \<longleftrightarrow> (\<exists>st p nb.
     feed_chunks new_RESPParser (new_NetworkBuffer initial_buffer_size) (rcv (generation c)) =
       Some (map wt_command (gen_tasks (generation c) H), st, p, nb) \<and>
     (\<not> closing c \<longrightarrow> st = INCOMPLETE \<and> p = conn_parser c \<and> nb = input_buffer c) \<and>
     (st \<noteq> ERROR \<longrightarrow> next_request_seq c = of_nat (length (gen_tasks (generation c) H))))"

definition hist_ok :: "(u64 \<Rightarrow> bytes list) \<Rightarrow> WorkerTask list \<Rightarrow> TcpServer \<Rightarrow> bool" where
  "hist_ok rcv H s \<longleftrightarrow> (\<forall>fd c. map_of (connections s) fd = Some c \<longrightarrow> sent_ok rcv H c)"

lemma sent_ok_step: "sent_ok rcv H c \<Longrightarrow> input_step c d \<Longrightarrow> sent_ok rcv H d"
  by (auto simp: sent_ok_def input_step_def)

lemma hist_ok_kept: "hist_ok rcv H s \<Longrightarrow> inputs_kept s s' \<Longrightarrow> hist_ok rcv H s'"
  unfolding hist_ok_def inputs_kept_def using sent_ok_step by blast

text \<open>One piece of input: the commands in it, and the connection after them.\<close>

definition parsed_to :: "parsed option \<Rightarrow> Connection \<Rightarrow> WorkerTask list \<Rightarrow> Connection \<Rightarrow> bool" where
  "parsed_to r c new d \<longleftrightarrow> generation d = generation c \<and> (\<exists>st p nb. r = Some (map wt_command new, st, p, nb) \<and>
     (if st = INCOMPLETE
      then conn_parser d = p \<and> input_buffer d = nb \<and> next_request_seq d = next_request_seq c + of_nat (length new)
      else st = ERROR \<and> closing d))"

definition fed :: "Connection \<Rightarrow> bytes \<Rightarrow> WorkerTask list \<Rightarrow> Connection \<Rightarrow> bool" where
  "fed c piece new d \<longleftrightarrow> parsed_to (feed_chunks (conn_parser c) (input_buffer c) [piece]) c new d"

lemma parsed_to_buffer [simp]: "parsed_to r (c\<lparr>input_buffer := ib\<rparr>) new d = parsed_to r c new d"
  by (simp add: parsed_to_def)

lemma sent_ok_fed:
  assumes "sent_ok rcv H c" "\<not> closing c" "fed c piece new d" "\<forall>t\<in>set new. wt_generation t = generation c"
  shows "sent_ok (rcv(generation c := rcv (generation c) @ [piece])) (H @ new) d"
proof -
  let ?g = "generation c"
  have f: "feed_chunks new_RESPParser (new_NetworkBuffer initial_buffer_size) (rcv ?g) =
      Some (map wt_command (gen_tasks ?g H), INCOMPLETE, conn_parser c, input_buffer c)"
    and q: "next_request_seq c = of_nat (length (gen_tasks ?g H))"
    using assms(1,2) by (auto simp: sent_ok_def)
  have own: "gen_tasks ?g (H @ new) = gen_tasks ?g H @ new" using assms(4) by (simp add: gen_tasks_def)
  obtain st p nb where s: "feed_chunks (conn_parser c) (input_buffer c) [piece] = Some (map wt_command new, st, p, nb)"
    "generation d = ?g" "if st = INCOMPLETE
      then conn_parser d = p \<and> input_buffer d = nb \<and> next_request_seq d = next_request_seq c + of_nat (length new)
      else st = ERROR \<and> closing d"
    using assms(3) unfolding fed_def parsed_to_def by blast
  have "feed_chunks new_RESPParser (new_NetworkBuffer initial_buffer_size) (rcv ?g @ [piece]) =
      Some (map wt_command (gen_tasks ?g H @ new), st, p, nb)"
    using feed_chunks_snoc [OF f, of piece] s(1) by (simp del: feed_chunks.simps)
  then show ?thesis using s(2,3) own q by (auto simp: sent_ok_def simp del: feed_chunks.simps split: if_splits)
qed

text \<open>The loop of \<open>HandleRead\<close> submits what the parser finds.\<close>

lemma FailConnectionProtocol_input:
  assumes "FailConnectionProtocol conn fd msg s = Some s'" "map_of (connections s') f = Some d"
  shows "if f = fd then generation d = generation conn \<and> closing d else map_of (connections s) f = Some d"
proof -
  obtain c1 c2 ap ev where c: "flush_pending c1 False = Some (c2, ap)" "s' = update_or_close fd ev (set_conn fd c2 s)"
    "generation c1 = generation conn" "closing c1"
    using assms(1) by (auto simp: FailConnectionProtocol_def Let_def elim!: bind_eq_SomeE split: prod.splits)
  obtain e where e: "map_of (connections (set_conn fd c2 s)) f = Some e" "input_step e d"
    using kept.update_close [of "set_conn fd c2 s" fd ev] assms(2) c(2) by (auto simp: inputs_kept_def)
  have i: "generation c2 = generation conn" "closing c2" using flush_pending_input [OF c(1)] c(3,4) by (simp_all add: same_input_def)
  have "map_of (connections s') f = map_of (connections (set_conn fd c2 s)) f \<or> map_of (connections s') f = None"
  proof -
    obtain b t where u: "UpdateEpollEvent fd ev (set_conn fd c2 s) = (b, t)" by (cases "UpdateEpollEvent fd ev (set_conn fd c2 s)")
    have "map_of (connections (CloseConnection fd t)) f = map_of (connections t) f \<or> map_of (connections (CloseConnection fd t)) f = None"
      by (auto simp: CloseConnection_def MaybeFinishShutdown_def WakeEventLoop_def RemoveEpollEvent_def on_krnl_def split: option.splits if_splits)
    then show ?thesis using connections_Update [OF u] u c(2) by (cases b) (auto simp: update_or_close_def)
  qed
  then show ?thesis using assms(2) i e by (auto split: if_splits)
qed

lemma Close_other: "map_of (connections (CloseConnection fd s)) f = Some d \<Longrightarrow> f \<noteq> fd \<and> map_of (connections s) f = Some d"
  by (auto simp: CloseConnection_def MaybeFinishShutdown_def WakeEventLoop_def RemoveEpollEvent_def on_krnl_def split: option.splits if_splits)

lemma Close_pool: "thread_pool (CloseConnection fd s) = thread_pool s"
  using apart.close by (simp add: apart_def)

lemma Fail_pool: "FailConnectionProtocol conn fd msg s = Some s' \<Longrightarrow> thread_pool s' = thread_pool s"
  using apart.update_close
  by (auto simp: FailConnectionProtocol_def Let_def apart_def elim!: bind_eq_SomeE split: prod.splits)

text \<open>What the loop does: it adds tasks, it touches no other connection, and it leaves its own where the parser stopped.\<close>

definition reads :: "int \<Rightarrow> Connection \<Rightarrow> TcpServer \<Rightarrow> WorkerTask list \<Rightarrow> TcpServer \<Rightarrow> bool" where
  "reads fd c s new s' \<longleftrightarrow>
     pool_tasks (thread_pool s') = pool_tasks (thread_pool s) @ new \<and> (\<forall>t\<in>set new. wt_generation t = generation c) \<and>
     (\<forall>f d. map_of (connections s') f = Some d \<longrightarrow> f \<noteq> fd \<longrightarrow> map_of (connections s) f = Some d) \<and>
     (\<forall>d. map_of (connections s') fd = Some d \<longrightarrow> parsed_to (parse_all (conn_parser c) (input_buffer c)) c new d)"

lemma read_loop_reads:
  "read_loop fd conn s = Some s' \<Longrightarrow> map_of (connections s) fd \<noteq> None \<Longrightarrow> \<exists>new. reads fd conn s new s'"
proof (induction fd conn s arbitrary: s' rule: read_loop.induct)
  case (1 fd conn s)
  from "1.prems"(1) show ?case
  proof (cases rule: read_loop_cases)
    case (submit command p ib pool task)
    let ?c = "conn\<lparr>conn_parser := p, input_buffer := ib\<rparr>" and ?s = "s\<lparr>thread_pool := pool\<rparr>"
    let ?c2 = "?c\<lparr>next_request_seq := next_request_seq ?c + 1\<rparr>"
    have "\<exists>new. reads fd ?c2 ?s new s'"
    proof (rule "1.IH" [OF submit(1) refl refl refl refl refl refl refl])
      show "enqueue \<lparr>wt_fd = fd, wt_generation = generation ?c2, wt_seq = next_request_seq ?c, wt_command = command\<rparr> (thread_pool s) = Some pool"
        using submit(2,3) by simp
      show "read_loop fd ?c2 ?s = Some s'" using submit(4) by simp
      show "map_of (connections ?s) fd \<noteq> None" using "1.prems"(2) by simp
    qed simp
    then obtain new where n: "reads fd ?c2 ?s new s'" by blast
    have pool: "pool_tasks pool = pool_tasks (thread_pool s) @ [task]" using submit(3) by (auto simp: enqueue_def split: if_splits)
    have "parsed_to (parse_all (conn_parser conn) (input_buffer conn)) conn (task # new) d" if "parsed_to (parse_all p ib) ?c2 new d" for d
      using that parse_all_success [OF submit(1)] by (auto simp: parsed_to_def submit(2) split: if_splits)
    then have "reads fd conn s (task # new) s'"
      using n pool unfolding reads_def by (simp add: submit(2))
    then show ?thesis by blast
  next
    case refused
    then show ?thesis by (intro exI [of _ "[]"]) (auto simp: reads_def Close_pool dest: Close_other)
  next
    case (incomplete command p ib')
    then show ?thesis
      using parse_all_stop [OF incomplete(1)] "1.prems"(2) by (intro exI [of _ "[]"]) (auto simp: reads_def parsed_to_def)
  next
    case (failed command p ib')
    note F = FailConnectionProtocol_input [OF failed(2)]
    show ?thesis
      using parse_all_stop [OF failed(1)] Fail_pool [OF failed(2)] F [of fd] F
      by (intro exI [of _ "[]"]) (auto simp: reads_def parsed_to_def split: if_splits)
  qed
qed

text \<open>The piece of input that the next call of \<open>HandleRead\<close> takes from an open connection.\<close>

definition next_piece :: "TcpServer \<Rightarrow> bytes option" where
  "next_piece s = (case read_script (krnl s) of Inr c # _ \<Rightarrow> Some c | _ \<Rightarrow> None)"

lemma HandleRead_reads:
  assumes "HandleRead fd s = Some s'" "map_of (connections s) fd = Some c"
  shows "\<exists>new. pool_tasks (thread_pool s') = pool_tasks (thread_pool s) @ new \<and> (\<forall>t\<in>set new. wt_generation t = generation c) \<and>
    (\<forall>f d. map_of (connections s') f = Some d \<longrightarrow> f \<noteq> fd \<longrightarrow> map_of (connections s) f = Some d) \<and>
    (\<forall>d. map_of (connections s') fd = Some d \<longrightarrow>
       (case next_piece s of
          None \<Rightarrow> new = [] \<and> input_step c d
        | Some piece \<Rightarrow> if closing c then new = [] \<and> d = c else fed c piece new d))"
proof (cases "closing c")
  case True
  then show ?thesis using assms by (intro exI [of _ "[]"]) (auto simp: HandleRead_def split: option.splits)
next
  case False
  obtain res s1 where r: "read_result s = (res, s1)" by (cases "read_result s")
  have s1: "connections s1 = connections s" "thread_pool s1 = thread_pool s"
    "res = (case next_piece s of None \<Rightarrow> res | Some p \<Rightarrow> Inr p)" "next_piece s = None \<Longrightarrow> \<exists>e. res = Inl e"
    using r by (auto simp: read_result_def next_piece_def on_krnl_def split: list.splits sum.splits)
  obtain n err ib where rd: "ReadFromFd res (input_buffer c) = Some (n, err, ib)"
    using assms False r by (auto simp: HandleRead_def split: bind_splits)
  let ?c = "c\<lparr>input_buffer := ib\<rparr>"
  have U: "(if n = 0 then Some (CloseConnection fd (set_conn fd ?c s1))
      else if n < 0 then (if err = EAGAIN then Some (set_conn fd ?c s1) else if err = EINTR then Some (set_conn fd ?c s1)
        else Some (CloseConnection fd (set_conn fd ?c s1))) else read_loop fd ?c s1) = Some s'"
    using assms by (simp add: HandleRead_def False r rd Let_def del: Close_set_conn)
  consider (close) "s' = CloseConnection fd s1" | (none) "s' = set_conn fd ?c s1" "n < 0" | (loop) "read_loop fd ?c s1 = Some s'" "0 < n"
    using U by (cases "n = 0"; cases "n < 0"; cases "err = EAGAIN"; cases "err = EINTR") simp_all
  then show ?thesis
  proof cases
    case close
    then show ?thesis using s1 by (intro exI [of _ "[]"]) (auto simp: Close_pool dest: Close_other)
  next
    case none
    have e: "\<exists>e. res = Inl e" using rd none(2) by (cases res) (auto simp: ReadFromFd_def Let_def elim!: bind_eq_SomeE split: if_splits)
    then have "next_piece s = None" "ib = input_buffer c" using s1(3) rd by (auto simp: ReadFromFd_def split: option.splits)
    then show ?thesis using none(1) s1 assms(2) by (intro exI [of _ "[]"]) (auto simp: input_step_def)
  next
    case loop
    obtain piece where p: "res = Inr piece" "next_piece s = Some piece"
      using s1(3,4) rd loop(2) by (cases "next_piece s") (auto simp: ReadFromFd_def)
    obtain new where new: "reads fd ?c s1 new s'" using read_loop_reads [OF loop(1)] s1(1) assms(2) by auto
    have "feed_chunks (conn_parser c) (input_buffer c) [piece] = parse_all (conn_parser c) ib"
      using rd p(1) by (cases "parse_all (conn_parser c) ib") auto
    then show ?thesis
      using new s1(1,2) p(2) False unfolding reads_def fed_def by (intro exI [of _ new]) (simp del: feed_chunks.simps)
  qed
qed

lemma hist_ok_read:
  assumes ok: "hist_ok rcv H s" "shape s" and h: "HandleRead fd s = Some s'" and c: "map_of (connections s) fd = Some c"
    and new: "pool_tasks (thread_pool s') = pool_tasks (thread_pool s) @ new"
  shows "hist_ok (case next_piece s of Some piece \<Rightarrow> if closing c then rcv else rcv(generation c := rcv (generation c) @ [piece]) | None \<Rightarrow> rcv)
    (H @ new) s'" (is "hist_ok ?rcv _ _")
proof -
  have R: "\<forall>t\<in>set new. wt_generation t = generation c"
    "\<And>f d. map_of (connections s') f = Some d \<Longrightarrow> f \<noteq> fd \<Longrightarrow> map_of (connections s) f = Some d"
    "\<And>d. map_of (connections s') fd = Some d \<Longrightarrow> (case next_piece s of None \<Rightarrow> new = [] \<and> input_step c d
        | Some piece \<Rightarrow> if closing c then new = [] \<and> d = c else fed c piece new d)"
    using HandleRead_reads [OF h c] new by auto
  have sc: "sent_ok rcv H c" using ok(1) c by (auto simp: hist_ok_def)
  show ?thesis
    unfolding hist_ok_def
  proof (intro allI impI)
    fix f d assume d: "map_of (connections s') f = Some d"
    show "sent_ok ?rcv (H @ new) d"
    proof (cases "f = fd")
      case True
      then show ?thesis
        using R(3) d sc sent_ok_step [OF sc] sent_ok_fed [OF sc _ _ R(1)] by (auto split: option.splits if_splits)
    next
      case False
      have o: "map_of (connections s) f = Some d" by (rule R(2) [OF d False])
      then have g: "generation d \<noteq> generation c" using generation_unique [OF ok(2) o c] False by blast
      then have "gen_tasks (generation d) new = []" using R(1) by (auto simp: gen_tasks_def filter_empty_conv)
      then have "gen_tasks (generation d) (H @ new) = gen_tasks (generation d) H" "?rcv (generation d) = rcv (generation d)"
        using g by (auto simp: gen_tasks_append split: option.splits)
      moreover have "sent_ok rcv H d" using ok(1) o by (auto simp: hist_ok_def)
      ultimately show ?thesis by (simp add: sent_ok_def)
    qed
  qed
qed

lemma HandleWrite_pool: "thread_pool (HandleWrite fd s) = thread_pool s"
  using apart.handle_write by (simp add: apart_def)

lemma hist_ok_event:
  assumes ok: "hist_ok rcv H s" "shape s" and h: "HandleConnectionEvent fd ev s = Some s'"
  shows "hist_ok (note_read fd ev s rcv) (H @ new_tasks s s') s'"
proof (cases "running s \<and> \<not> wants ev (EPOLLERR OR EPOLLHUP) \<and> wants ev EPOLLIN \<and> map_of (connections s) fd \<noteq> None")
  case True
  then obtain c where c: "map_of (connections s) fd = Some c" by blast
  obtain s1 where s1: "HandleRead fd s = Some s1" "s' = (if wants ev EPOLLOUT then HandleWrite fd s1 else s1)"
    using h True by (auto simp: HandleConnectionEvent_def elim!: bind_eq_SomeE)
  obtain new where new: "pool_tasks (thread_pool s1) = pool_tasks (thread_pool s) @ new" using HandleRead_reads [OF s1(1) c] by blast
  have "new_tasks s s' = new" using new s1(2) HandleWrite_pool by (auto simp: new_tasks_def)
  moreover have "note_read fd ev s rcv = (case next_piece s of Some piece \<Rightarrow> if closing c then rcv else rcv(generation c := rcv (generation c) @ [piece]) | None \<Rightarrow> rcv)"
    using True c by (auto simp: note_read_def next_piece_def split: list.splits sum.splits)
  moreover have "inputs_kept s1 s'" using s1(2) kept.handle_write by simp
  ultimately show ?thesis using hist_ok_kept [OF hist_ok_read [OF ok s1(1) c new]] by simp
next
  case False
  have "s' \<in> {s, CloseConnection fd s, HandleWrite fd s}"
  proof (cases "wants ev EPOLLIN")
    case True
    then have "HandleRead fd s = Some s \<or> \<not> running s \<or> wants ev (EPOLLERR OR EPOLLHUP)" using False by (auto simp: HandleRead_def)
    then show ?thesis using h by (auto simp: HandleConnectionEvent_def split: if_splits)
  next
    case F: False
    then show ?thesis using h by (auto simp: HandleConnectionEvent_def split: if_splits)
  qed
  then have "inputs_kept s s'" "thread_pool s' = thread_pool s"
    using inputs_kept_Close kept.handle_write Close_pool HandleWrite_pool by auto
  moreover have "note_read fd ev s rcv = rcv" using False by (auto simp: note_read_def split: option.splits list.splits sum.splits)
  ultimately show ?thesis using hist_ok_kept [OF ok(1)] by (simp add: new_tasks_def)
qed

section \<open>New connections\<close>

lemma accept_loop_conns:
  "map_of (connections (accept_loop rs s)) fd = Some c \<Longrightarrow> unat (next_generation s) + length rs < 2 ^ 64 \<Longrightarrow>
   map_of (connections s) fd = Some c \<or> (\<exists>g. c = new_Connection fd g \<and> unat (next_generation s) \<le> unat g)"
proof (induction rs arbitrary: s)
  case (Cons r rs)
  have loop: "map_of (connections s) fd = Some c \<or> (\<exists>g. c = new_Connection fd g \<and> unat (next_generation s) \<le> unat g)"
    if "accept_loop (r # rs) s = accept_loop rs t" "unat (next_generation s) \<le> unat (next_generation t)"
      "unat (next_generation t) \<le> unat (next_generation s) + 1"
      "\<And>d. map_of (connections t) fd = Some d \<Longrightarrow> map_of (connections s) fd = Some d \<or> d = new_Connection fd (next_generation s)" for t
    using Cons.IH [of t] Cons.prems that by fastforce
  show ?case
  proof (cases r)
    case (AcceptErr e)
    then show ?thesis using Cons.prems(1) loop [of s] by (auto simp: on_krnl_def split: if_splits)
  next
    case (AcceptedFd cfd getfl setfl)
    let ?s1 = "on_krnl (sys_open cfd) s"
    have same: "connections ?s1 = connections s" "next_generation ?s1 = next_generation s" by (simp_all add: on_krnl_def)
    have g: "unat (next_generation s + 1) = unat (next_generation s) + 1" using Cons.prems(2) by (intro unat_next_generation) simp
    show ?thesis
    proof (cases "running s \<and> 0 \<le> cfd \<and> cfd \<notin> open_fds (krnl s)")
      case False
      then show ?thesis using AcceptedFd Cons.prems(1) by (auto simp: on_krnl_def not_le split: if_splits)
    next
      case True
      then have go: "running s" "\<not> cfd < 0" "cfd \<notin> open_fds (krnl s)" by auto
      let ?s2 = "?s1\<lparr>next_generation := next_generation s + 1\<rparr>"
      let ?s3 = "?s2\<lparr>connections := connections s @ [(cfd, new_Connection cfd (next_generation s))]\<rparr>"
      obtain added s4 where a: "AddEpollEvent cfd (EPOLLIN OR EPOLLRDHUP) ?s3 = (added, s4)"
        by (cases "AddEpollEvent cfd (EPOLLIN OR EPOLLRDHUP) ?s3")
      obtain k where k: "s4 = ?s3\<lparr>krnl := k\<rparr>" using AddEpollEvent_cases [OF a] by metis
      let ?t1 = "on_krnl (sys_close cfd) ?s1" and ?t2 = "on_krnl (sys_close cfd) ?s2"
      let ?t3 = "if added then s4 else on_krnl (sys_close cfd) (erase_conn cfd s4)"
      consider "\<not> SetNonBlocking getfl setfl" | "SetNonBlocking getfl setfl" "map_of (connections s) cfd \<noteq> None"
        | "SetNonBlocking getfl setfl" "map_of (connections s) cfd = None" by blast
      then show ?thesis
      proof cases
        case 1
        then show ?thesis using go AcceptedFd by (intro loop [of ?t1]) (simp_all add: Let_def same, simp_all add: on_krnl_def)
      next
        case 2
        then show ?thesis
          using go AcceptedFd g by (intro loop [of ?t2]) (simp_all add: Let_def same, simp_all add: on_krnl_def)
      next
        case 3
        then show ?thesis
          using go AcceptedFd a g
          by (intro loop [of ?t3]) (cases added; simp add: Let_def same; auto simp: k on_krnl_def erase_conn_def map_of_filter_key split: if_splits option.splits)+
      qed
    qed
  qed
qed (simp add: on_krnl_def)

section \<open>The invariant\<close>

definition hist_inv :: "net \<Rightarrow> bool" where
  "hist_inv n \<longleftrightarrow> hist_ok (received n) (subs n) (srv n) \<and>
     (\<forall>g. unat (next_generation (srv n)) \<le> unat g \<longrightarrow> received n g = [])"

text \<open>Steps that read nothing and accept nothing.\<close>

lemma hist_inv_quiet:
  assumes "hist_inv n" "inputs_kept (srv n) (srv n')" "unat (next_generation (srv n)) \<le> unat (next_generation (srv n'))"
    "received n' = received n" "subs n' = subs n"
  shows "hist_inv n'"
  using assms hist_ok_kept [of "received n" "subs n" "srv n" "srv n'"] by (auto simp: hist_inv_def)

lemma hist_inv_worker: "worker_step lab n n' \<Longrightarrow> hist_inv n \<Longrightarrow> hist_inv n'"
  by (induction rule: worker_step.induct)
    (auto intro!: inputs_kept_same elim!: hist_inv_quiet simp: push_completed_def task_wake_def on_krnl_def)

lemma sent_ok_new:
  assumes "rcv g = []" "gen_tasks g H = []"
  shows "sent_ok rcv H (new_Connection fd g)"
  using assms by (simp add: sent_ok_def new_Connection_def)

lemma hist_inv_accept:
  assumes inv: "hist_inv n" "net_inv n" and s: "s = with_scripts ctl acc rd wr intr (srv n)" "unat (next_generation s) + length acc < 2 ^ 64"
    and grows: "unat (next_generation s) \<le> unat (next_generation (HandleAccept s))"
  shows "hist_inv (n\<lparr>srv := HandleAccept s\<rparr>)"
proof -
  have "sent_ok (received n) (subs n) c" if "map_of (connections (HandleAccept s)) fd = Some c" for fd c
  proof -
    have "map_of (connections s) fd = Some c \<or> (\<exists>g. c = new_Connection fd g \<and> unat (next_generation s) \<le> unat g)"
      by (rule accept_loop_conns [of acc]) (use that s in \<open>simp_all add: HandleAccept_def\<close>)
    moreover have "sent_ok (received n) (subs n) (new_Connection fd g)" if g: "unat (next_generation s) \<le> unat g" for g
    proof (rule sent_ok_new)
      show "received n g = []" using inv(1) g s(1) by (simp add: hist_inv_def)
      have "task_bound (subs n) (srv n)" using net_invD(2) [OF inv(2)] by (simp add: task_inv_def)
      then show "gen_tasks g (subs n) = []" using g s(1) by (intro gen_tasks_fresh) (fastforce simp: task_bound_def)
    qed
    ultimately show ?thesis using inv(1) s(1) by (auto simp: hist_inv_def hist_ok_def)
  qed
  then show ?thesis using inv(1) s(1) grows by (auto simp: hist_inv_def hist_ok_def)
qed

lemma hist_inv_connection:
  assumes inv: "hist_inv n" "net_inv n" and s: "s = with_scripts ctl acc rd wr intr (srv n)"
    and h: "HandleConnectionEvent fd ev s = Some s'" and grows: "unat (next_generation s) \<le> unat (next_generation s')"
  shows "hist_inv (n\<lparr>srv := s', subs := subs n @ new_tasks s s', received := note_read fd ev s (received n)\<rparr>)"
proof -
  have sh: "shape s" using with_scripts_ok [OF net_invD(1) [OF inv(2)]] s by (simp add: conns_ok_def)
  have "hist_ok (received n) (subs n) s" using inv(1) s by (simp add: hist_inv_def hist_ok_def)
  from hist_ok_event [OF this sh h] have "hist_ok (note_read fd ev s (received n)) (subs n @ new_tasks s s') s'" .
  moreover have "note_read fd ev s (received n) g = []" if g: "unat (next_generation s') \<le> unat g" for g
  proof -
    have "generation c \<noteq> g" if "map_of (connections s) fd = Some c" for c
      using generation_bound [OF sh that] g grows by auto
    moreover have "received n g = []" using inv(1) g grows s by (simp add: hist_inv_def)
    ultimately show ?thesis by (auto simp: note_read_def split: option.splits list.splits sum.splits)
  qed
  ultimately show ?thesis by (simp add: hist_inv_def)
qed

lemma worker_step_generation: "worker_step lab n n' \<Longrightarrow> next_generation (srv n') = next_generation (srv n)"
  by (induction rule: worker_step.induct) (simp_all add: push_completed_def task_wake_def on_krnl_def)

lemma net_step_generation: "net_step lab n n' \<Longrightarrow> net_inv n \<Longrightarrow> unat (next_generation (srv n)) \<le> unat (next_generation (srv n'))"
  using net_step_loop worker_step_generation by fastforce

lemma hist_inv_step:
  assumes "net_step lab n n'" "net_inv n" "hist_inv n"
  shows "hist_inv n'"
  using assms net_step_generation [OF assms(1,2)]
proof (induction rule: net_step.induct)
  case (accept s ctl acc rd wr intr n)
  show ?case by (rule hist_inv_accept [OF accept(7,6,1,5)]) (use accept(1,8) in simp)
next
  case (connection s ctl acc rd wr intr n fd ev s')
  show ?case by (rule hist_inv_connection [OF connection(9,8,1,7)]) (use connection(1,10) in simp)
next
  case (drain s ctl acc rd wr intr n)
  show ?case by (rule hist_inv_quiet [OF drain(5) inputs_kept_same]) (use drain(1,6) in \<open>simp_all add: completions_drain_def on_krnl_def\<close>)
next
  case (process s ctl acc rd wr intr n s')
  have "inputs_kept (srv n) s'"
    using inputs_kept_trans [OF inputs_kept_same kept.completions [OF process(3)]] process(1) by simp
  then show ?case by (intro hist_inv_quiet [OF process(5)]) (use process(6) in simp_all)
next
  case (stop s ctl acc rd wr intr n)
  have "distinct (map fst (connections s))" using net_invD(1) [OF stop(2)] stop(1) by (simp add: conns_ok_def shape_def)
  then have "inputs_kept (srv n) (Stop s)"
    using inputs_kept_trans [OF inputs_kept_same kept.stop] stop(1) inputs_kept_same [of "begin_stop s" s] by simp
  then show ?case by (intro hist_inv_quiet [OF stop(3)]) (use stop(4) in simp_all)
next
  case (worker lab n n')
  then show ?case using hist_inv_worker by blast
qed

lemma hist_inv_start: "new_server_started db k env s \<Longrightarrow> hist_inv (start_net s)"
  using Start_fields(1) by (auto simp: new_server_started_def hist_inv_def hist_ok_def start_net_def)

lemma net_reach_hist: "net_reach Q n0 n \<Longrightarrow> net_inv n0 \<Longrightarrow> hist_inv n0 \<Longrightarrow> hist_inv n"
  by (induction rule: net_reach.induct) (auto intro: hist_inv_step net_reach_inv)

section \<open>From requests to responses\<close>

lemma conn_written_le:
  assumes "net_inv n" "map_of (connections (srv n)) fd = Some conn"
  shows "unat (next_write_seq conn) \<le> unat (next_request_seq conn)" "length (gen_tasks (generation conn) (subs n)) < 2 ^ 64"
proof -
  obtain m w R where o: "ordered R m w (wire (krnl (srv n)) fd) conn" "answered (subs n) (take (taken n) (execs n)) conn m R"
    using conns_okD(1) [OF net_invD(1) [OF assms(1)] assms(2)] by (auto simp: conn_order_def)
  then show "unat (next_write_seq conn) \<le> unat (next_request_seq conn)" "length (gen_tasks (generation conn) (subs n)) < 2 ^ 64"
    using u64_of_nat [of w] u64_of_nat [of m] by (auto simp: ordered_def answered_def Let_def)
qed

lemma gen_tasks_nth:
  assumes "numbered H" "i < length (gen_tasks g H)"
  shows "wt_generation (gen_tasks g H ! i) = g" "wt_seq (gen_tasks g H ! i) = of_nat i"
proof -
  show "wt_generation (gen_tasks g H ! i) = g" using nth_mem [OF assms(2)] by (auto simp: gen_tasks_def)
  have "map wt_seq (gen_tasks g H) ! i = map of_nat [0..<length (gen_tasks g H)] ! i" using assms(1) by (simp add: numbered_def)
  then show "wt_seq (gen_tasks g H ! i) = of_nat i" using assms(2) by simp
qed

lemma input_answered:
  assumes inv: "net_inv n" "hist_inv n" and c: "map_of (connections (srv n)) fd = Some conn"
    and reqs: "\<forall>r\<in>set reqs. request_ok r" "concat (received n (generation conn)) @ rest = concat (map array_bytes reqs)"
  shows "\<exists>later. reqs = map wt_command (gen_tasks (generation conn) (subs n)) @ later"
    "rest = [] \<Longrightarrow> map wt_command (gen_tasks (generation conn) (subs n)) = reqs"
    "\<exists>rs. wire (krnl (srv n)) fd @ Peek (output_buffer conn) = concat rs \<and> length rs \<le> length (gen_tasks (generation conn) (subs n)) \<and>
       (\<forall>i<length rs. (gen_tasks (generation conn) (subs n) ! i, rs ! i) \<in> set (execs n))"
proof -
  let ?g = "generation conn" and ?T = "gen_tasks (generation conn) (subs n)"
  have "sent_ok (received n) (subs n) conn" using inv(2) c by (auto simp: hist_inv_def hist_ok_def)
  then obtain st p nb where f: "feed_chunks new_RESPParser (new_NetworkBuffer initial_buffer_size) (received n ?g) = Some (map wt_command ?T, st, p, nb)"
    and q: "st \<noteq> ERROR \<longrightarrow> next_request_seq conn = of_nat (length ?T)"
    unfolding sent_ok_def by blast
  note P = feed_prefix [OF f reqs(2,1)]
  show "\<exists>later. reqs = map wt_command ?T @ later" using P(2) by blast
  show "rest = [] \<Longrightarrow> map wt_command ?T = reqs" using P(3) by blast
  obtain rs where rs: "wire (krnl (srv n)) fd @ Peek (output_buffer conn) = concat rs" "length rs = unat (next_write_seq conn)"
    "\<forall>i<length rs. if i < length ?T then (?T ! i, rs ! i) \<in> set (execs n) else closing conn \<and> i = length ?T \<and> rs ! i = protocol_error_reply"
    using conn_responses [OF inv(1) c] by blast
  have le: "length rs \<le> length ?T"
    using conn_written_le [OF inv(1) c] rs(2) q P(1) u64_of_nat [of "length ?T"] by simp
  then show "\<exists>rs. wire (krnl (srv n)) fd @ Peek (output_buffer conn) = concat rs \<and> length rs \<le> length ?T \<and>
      (\<forall>i<length rs. (?T ! i, rs ! i) \<in> set (execs n))"
    using rs(1,3) by auto
qed

text \<open>
  C4: a client's bytes become its responses. When the pieces of input read from a connection, in
  whatever way they were cut, are the beginning of a sequence of well-formed requests, then the
  tasks submitted for it are the first of these requests (all of them, when the whole sequence has
  been read), and what has been sent or is about to be sent is one response for each of the first
  ones, in order, computed by a worker for that very request. No protocol error is reported.
\<close>

theorem requests_answered_in_order:
  assumes "new_server_started db k env s0" "net_reach Q (start_net s0) n" "map_of (connections (srv n)) fd = Some conn"
    and "\<forall>r\<in>set reqs. request_ok r" "concat (received n (generation conn)) @ rest = concat (map array_bytes reqs)"
  shows "(\<exists>later. reqs = map wt_command (gen_tasks (generation conn) (subs n)) @ later) \<and>
    (rest = [] \<longrightarrow> map wt_command (gen_tasks (generation conn) (subs n)) = reqs) \<and>
    (\<exists>rs. wire (krnl (srv n)) fd @ Peek (output_buffer conn) = concat rs \<and> length rs \<le> length reqs \<and>
       (\<forall>i<length rs. \<exists>t. wt_command t = reqs ! i \<and> wt_generation t = generation conn \<and> wt_seq t = of_nat i \<and> (t, rs ! i) \<in> set (execs n)))"
proof -
  let ?g = "generation conn" and ?T = "gen_tasks (generation conn) (subs n)"
  have inv: "net_inv n" by (rule net_reach_inv [OF assms(2) Start_inv [OF assms(1)]])
  have hist: "hist_inv n" by (rule net_reach_hist [OF assms(2) Start_inv [OF assms(1)] hist_inv_start [OF assms(1)]])
  note A = input_answered [OF inv hist assms(3-5)]
  obtain later where later: "reqs = map wt_command ?T @ later" using A(1) by blast
  obtain rs where rs: "wire (krnl (srv n)) fd @ Peek (output_buffer conn) = concat rs" "length rs \<le> length ?T"
    "\<forall>i<length rs. (?T ! i, rs ! i) \<in> set (execs n)"
    using A(3) by blast
  have num: "numbered (subs n)" using net_invD(2) [OF inv] by (simp add: task_inv_def)
  have "\<exists>t. wt_command t = reqs ! i \<and> wt_generation t = ?g \<and> wt_seq t = of_nat i \<and> (t, rs ! i) \<in> set (execs n)" if i: "i < length rs" for i
    using rs(2,3) i later gen_tasks_nth [OF num, of i ?g] by (intro exI [of _ "?T ! i"]) (auto simp: nth_append)
  then show ?thesis using later A(2) rs(1,2) by auto
qed

theorem requests_answered_in_order_witness:
  "\<exists>n c. net_reach (\<lambda>_ _. True) (start_net (sample_server None)) n \<and> map_of (connections (srv n)) 7 = Some c \<and>
     received n (generation c) = [array_bytes [''GET'']] \<and> map wt_command (gen_tasks (generation c) (subs n)) = [[''GET'']]"
proof -
  obtain n c where n: "net_reach (\<lambda>_ _. True) (start_net (sample_server None)) n" "map_of (connections (srv n)) 7 = Some c"
    "received n 1 = [array_bytes [''GET'']]" "generation c = 1" "request_ok [''GET'']"
    using sample_get by blast
  from requests_answered_in_order [OF sample_started n(1,2), of "[[''GET'']]" "[]"] n show ?thesis by auto
qed

end
