(* ===== verification/DBShutdown.thy ===== *)
theory DBShutdown
  imports DBRecovery
begin

text \<open>
  Closing a database and opening its directory again: which table files a run leaves behind, the
  last flush of the destructor, and what the next start shows. A start that finds leftover logs
  replays them over everything else, so they decide whether a clean shutdown keeps the data.
\<close>

section \<open>Table files\<close>

text \<open>\<open>tables_in X db\<close>: every table file in the directory is listed in the manifest or numbered in \<open>X\<close>.\<close>

definition tables_in :: "u64 set \<Rightarrow> DBImpl \<Rightarrow> bool" where
  "tables_in X db \<longleftrightarrow> set (numbered_files [''.sst''] (db_dir db)) \<subseteq> sst_name ` (sst_ids (db_state db) \<union> X)"

lemma sst_ext_not_manifest: "path_ext f = ''.sst'' \<Longrightarrow> f \<notin> manifest_names"
  by (auto simp: manifest_names_def manifest_path_def manifest_tmp_path_def manifest_log_path_def path_ext_def)

lemma sst_ext_not_wal: "path_ext f = ''.sst'' \<Longrightarrow> f \<noteq> wal_name i"
  by auto

text \<open>A step that makes no table file but those in \<open>Y\<close> and drops a number only with its file.\<close>

lemma tables_in_step:
  assumes "tables_in X db"
    and "\<And>f. path_ext f = ''.sst'' \<Longrightarrow> fs_read (db_dir db') f \<noteq> None \<Longrightarrow> fs_read (db_dir db) f \<noteq> None \<or> f \<in> sst_name ` Y"
    and "\<And>i. i \<in> sst_ids (db_state db) \<union> X \<Longrightarrow> i \<in> sst_ids (db_state db') \<union> Y \<or> fs_read (db_dir db') (sst_name i) = None"
  shows "tables_in Y db'"
  unfolding tables_in_def
proof
  fix f assume f: "f \<in> set (numbered_files [''.sst''] (db_dir db'))"
  then have e: "path_ext f = ''.sst''" "fs_read (db_dir db') f \<noteq> None" by (auto simp: set_numbered_files)
  show "f \<in> sst_name ` (sst_ids (db_state db') \<union> Y)"
  proof (cases "f \<in> sst_name ` Y")
    case False
    then have "f \<in> set (numbered_files [''.sst''] (db_dir db))" using f assms(2) [OF e] by (auto simp: set_numbered_files)
    then obtain i where "i \<in> sst_ids (db_state db) \<union> X" "f = sst_name i" using assms(1) by (auto simp: tables_in_def)
    then show ?thesis using assms(3) [of i] e(2) by auto
  qed auto
qed

lemma tables_in_mono: "tables_in X db \<Longrightarrow> X \<subseteq> Y \<Longrightarrow> tables_in Y db"
  by (auto simp: tables_in_def)

lemma tables_in_frame:
  assumes "tables_in X db" "\<And>f. path_ext f = ''.sst'' \<Longrightarrow> fs_read (db_dir db') f = fs_read (db_dir db) f"
    and "sst_levels (db_state db') = sst_levels (db_state db)"
  shows "tables_in X db'"
  by (rule tables_in_step [OF assms(1)]) (use assms(2,3) in \<open>auto simp: sst_ids_def\<close>)

lemma tables_in_no_orphans: "tables_in {} db \<Longrightarrow> no_orphans db"
  by (auto simp: tables_in_def no_orphans_def sst_ids_def)

lemma tables_allocate:
  assumes "db_inv db" "fits db" "AllocateFileNumber (db_mf db) = (n, mf)" "tables_in X db"
  shows "tables_in X (set_mf mf db)"
  by (rule tables_in_frame [OF assms(4)])
     (use allocate_db [OF assms(1-3)] in \<open>auto simp: same_files_def dest: sst_ext_not_manifest\<close>)

lemma tables_minor_prepare:
  assumes "db_inv db" "fits db" "Minor_prepare db = (c, db')" "tables_in X db"
  shows "tables_in X db'"
  using assms(3,4) tables_allocate [OF assms(1,2) _ assms(4)]
  by (cases "AllocateFileNumber (db_mf db)") (auto simp: Minor_prepare_def split: option.splits)

lemma tables_compact_prepare:
  assumes "db_inv db" "fits db" "Compact_prepare db = Some (c, db')" "tables_in X db"
  shows "tables_in X db'"
proof -
  obtain n mf where a: "AllocateFileNumber (db_mf db) = (n, mf)" by (cases "AllocateFileNumber (db_mf db)")
  have s: "set_mf (db_mf db) db = db" by (simp add: set_mf_def db_mf_def)
  have "db' = db \<or> db' = set_mf mf db"
    using assms(3) a s
    by (auto simp: Compact_prepare_def PrepareL0ToL1_def Let_def elim!: bind_eq_SomeE split: if_splits prod.splits)
  then show ?thesis using tables_allocate [OF assms(1,2) a assms(4)] assms(4) by auto
qed

lemma tables_minor_build:
  assumes "db_inv db" "minor_pending db ctx" "Minor_build ctx db = Some (r, db')" "tables_in X db" "minor_sst_id ctx \<in> X"
  shows "tables_in X db'"
  by (rule tables_in_step [OF assms(4)])
     (use Minor_build_ok [OF assms(1,2)] assms(3,5) in \<open>auto simp: db_state_def\<close>)

lemma tables_minor_install:
  assumes "db_inv db" "fits db" "minor_built db ctx r" "Minor_install ctx r db = (t, db')" "tables_in (insert (minor_sst_id ctx) X) db"
  shows "tables_in X db'"
proof (rule tables_in_step [OF assms(5)])
  obtain man fs where st: "mstate man = ApplyEdit DelWAL (imm_wal_id db) 0 (ApplyEdit AddSST (minor_sst_id ctx) 0 (db_state db))"
    and rd: "\<forall>n. n \<notin> manifest_names \<longrightarrow> fs_read fs n = (if n = wal_name (imm_wal_id db) then None else fs_read (db_dir db) n)"
    and db': "db' = (set_mf (man, fs) db)\<lparr>db_levels := (db_levels db)\<lparr>level0 := level0 (db_levels db) @ [opened (opt_rows (db_imm db))]\<rparr>,
          db_imm := None, imm_wal_id := 0\<rparr>"
    using Minor_install_eq [OF assms(1-3)] assms(4) by auto
  show "fs_read (db_dir db) f \<noteq> None \<or> f \<in> sst_name ` X" if "path_ext f = ''.sst''" "fs_read (db_dir db') f \<noteq> None" for f
    using that rd sst_ext_not_manifest [of f] by (auto simp: db' split: if_splits)
  have "sst_ids (db_state db') = insert (minor_sst_id ctx) (sst_ids (db_state db))"
    using keys_upsert [of "minor_sst_id ctx" 0 "sst_levels (db_state db)"] by (simp add: db' db_state_def st sst_ids_def)
  then show "i \<in> sst_ids (db_state db') \<union> X \<or> fs_read (db_dir db') (sst_name i) = None"
    if "i \<in> sst_ids (db_state db) \<union> insert (minor_sst_id ctx) X" for i using that by auto
qed

text \<open>The number of the table a compaction writes, if it writes one.\<close>

definition out_ids :: "L0ToL1Ctx \<Rightarrow> u64 set" where
  "out_ids ctx = (if has_output ctx then {new_sst_id ctx} else {})"

lemma tables_compact_build:
  assumes "db_inv db" "job_pending db ctx" "Compact_build ctx db = Some (r, db')" "tables_in X db" "out_ids ctx \<subseteq> X"
  shows "tables_in X db'"
proof (cases "has_output ctx")
  case True
  then show ?thesis
    by (intro tables_in_step [OF assms(4)])
       (use Compact_build_ok [OF assms(1,2)] assms(3,5) in \<open>auto simp: db_state_def out_ids_def\<close>)
next
  case False
  then show ?thesis using assms(3,4) by (simp add: Compact_build_def)
qed

lemma tables_compact_install:
  assumes "db_inv db" "fits db" "job_built db ctx r" "tables_in (out_ids ctx \<union> X) db"
  shows "tables_in X (Compact_install ctx r db)"
proof -
  let ?db = "Compact_install ctx r db"
  have p: "job_pending db ctx" using assms(3) by (simp add: job_built_def)
  show ?thesis
  proof (cases "ids_at 0 (db_state db) = l0_input_ids ctx")
    case True
    obtain man fs where st: "mstate man = merged_state ctx (db_state db)"
      and rd: "\<forall>n. n \<notin> manifest_names \<longrightarrow> fs_read fs n = (if n \<in> sst_name ` set (l0_input_ids ctx) then None else fs_read (db_dir db) n)"
      and eqn: "?db = (set_mf (man, fs) db)\<lparr>db_levels := \<lparr>level0 = [], level1 = merged_level1 ctx (level1 (db_levels db))\<rparr>\<rparr>"
      using Compact_install_match [OF assms(1-3) True] by blast
    have "sst_ids (db_state ?db) = sst_ids (db_state db) \<union> out_ids ctx - set (l0_input_ids ctx)"
      using merged_state_ids(3) [OF db_invD(10) [OF assms(1)] True [symmetric]] p True
      by (auto simp: eqn db_state_def st job_pending_def job_ctx_def out_ids_def)
    then show ?thesis
      by (intro tables_in_step [OF assms(4)])
         (use rd sst_ext_not_manifest in \<open>auto simp: eqn split: if_splits\<close>)
  next
    case False
    have path: "has_output ctx \<Longrightarrow> new_sst_path ctx \<noteq> []" "new_sst_path ctx \<noteq> [] \<Longrightarrow> new_sst_path ctx = sst_name (new_sst_id ctx)"
      using p by (auto simp: job_pending_def job_ctx_def)
    show ?thesis
      unfolding Compact_install_mismatch(1) [OF assms(1) p False]
      by (intro tables_in_step [OF assms(4)]) (use path in \<open>auto simp: db_state_def out_ids_def split: if_splits\<close>)
  qed
qed

section \<open>Table files during a run\<close>

fun task_files :: "task \<Rightarrow> u64 set" where
  "task_files (MinorBuild ctx) = {minor_sst_id ctx}"
| "task_files (MinorInstall ctx r) = {minor_sst_id ctx}"
| "task_files (JobBuild ctx) = out_ids ctx"
| "task_files (JobInstall ctx r) = out_ids ctx"

text \<open>Every table file is listed or belongs to a compaction in progress.\<close>

definition tables_inv :: "sys \<Rightarrow> bool" where
  "tables_inv s \<longleftrightarrow> tables_in (\<Union> (task_files ` set (tasks s))) (sys_db s)"

definition next_files :: "task option \<Rightarrow> u64 set" where
  "next_files t = (case t of None \<Rightarrow> {} | Some u \<Rightarrow> task_files u)"

lemma tables_task:
  assumes inv: "db_inv db" "fits db" and g: "task_good db t" and st: "task_step t db = Some (t', tr, db')"
    and t: "tables_in (task_files t \<union> X) db"
  shows "tables_in (next_files t' \<union> X) db'"
proof (cases t)
  case (MinorBuild ctx)
  then obtain r where "Minor_build ctx db = Some (r, db')" "t' = Some (MinorInstall ctx r)"
    using st by (auto elim!: bind_eq_SomeE)
  then show ?thesis using tables_minor_build [OF inv(1)] g t MinorBuild by (auto simp: next_files_def)
next
  case (MinorInstall ctx r)
  then show ?thesis
    using st g t tables_minor_install [OF inv, of ctx r tr db' X] by (auto simp: next_files_def split: prod.splits)
next
  case (JobBuild ctx)
  then obtain r where r: "Compact_build ctx db = Some (r, db')" "t' = map_option (JobInstall ctx) r"
    using st by (auto elim!: bind_eq_SomeE)
  then have "r \<noteq> None" using Compact_build_ok [OF inv(1), of ctx] g JobBuild by auto
  then show ?thesis
    using tables_compact_build [OF inv(1) _ r(1), of "out_ids ctx \<union> X"] r(2) g t JobBuild by (auto simp: next_files_def)
next
  case (JobInstall ctx r)
  then show ?thesis using st g t tables_compact_install [OF inv, of ctx r X] by (auto simp: next_files_def)
qed

lemma tables_rotate:
  assumes "db_inv db" "fits db" "tables_in X db"
  shows "tables_in X (rotate_memtable m db)"
proof -
  obtain m' man fs where "rotate_memtable m db = (set_mf (man, fs) db)\<lparr>imm_wal_id := active_wal_id db, db_imm := Some m,
      db_mem := Some m', active_wal_id := next_file_number (db_state db) + 1, bg_compaction_scheduled := True\<rparr>"
    "mstate man = (db_state db)\<lparr>next_file_number := next_file_number (db_state db) + 1,
       live_wals := oset_insert (next_file_number (db_state db) + 1) (live_wals (db_state db))\<rparr>"
    "\<forall>f. f \<notin> manifest_names \<longrightarrow> fs_read fs f = (if f = wal_name (next_file_number (db_state db) + 1)
       then (case fs_read (db_dir db) f of None \<Rightarrow> Some [] | Some c \<Rightarrow> Some c) else fs_read (db_dir db) f)"
    using rotate_memtable_eq [OF assms(1,2) refl, of m] by blast
  then show ?thesis
    by (intro tables_in_frame [OF assms(3)]) (auto simp: db_state_def sst_ext_not_manifest)
qed

lemma tables_put:
  assumes "db_inv db" "row_ok (k, v)" "plain_row (k, v)" "Put_write coin k v db = Some db'" "tables_in X db"
  shows "tables_in X db'"
proof -
  obtain m m' where m: "db_mem db = Some m"
    and db': "db' = db\<lparr>db_mem := Some m', db_dir := AddLog (wal m) k (rvalue v) (vtype v) (db_dir db)\<rparr>"
    using Put_write_ok(1) [OF assms(1-3), of coin] assms(4) by auto
  have "filename (wal m) = wal_name (active_wal_id db)" by (rule db_invD(11) [OF assms(1) m])
  then show ?thesis
    by (intro tables_in_frame [OF assms(5)]) (auto simp: db' fs_read_AddLog db_state_def)
qed

lemma tables_inv_step:
  assumes "step ev s s'" "sys_inv s" "fits (sys_db s)" "tables_inv s"
  shows "tables_inv s'"
proof -
  note D = sys_invD [OF assms(2)]
  have good: "task_good (sys_db s) t" if "t \<in> set (bg_tasks (bg s) @ callers s)" for t
    using D(2) that by (simp add: tasks_inv_def)
  have T: "tables_in (\<Union> (task_files ` set (bg_tasks (bg s) @ callers s))) (sys_db s)"
    using assms(4) by (simp add: tables_inv_def tasks_def)
  show ?thesis
    using assms(1)
  proof cases
    case (put_begin db' r)
    obtain m where m: "db_mem (sys_db s) = Some m" using db_invD(2) [OF D(1)] by blast
    show ?thesis
      using put_begin m T tables_rotate [OF D(1) assms(3) T, of m]
      by (auto simp: Put_rotate_def tables_inv_def tasks_def split: if_splits)
  next
    case (put_end k v coin db')
    then show ?thesis using tables_put [OF D(1) _ _ put_end(4) T] D(3) by (auto simp: tables_inv_def tasks_def)
  next
    case bg_wake
    then show ?thesis using T by (auto simp: tables_inv_def tasks_def)
  next
    case (bg_prepare c db')
    have "tables_in (\<Union> (task_files ` set (callers s))) db'"
      using tables_minor_prepare [OF D(1) assms(3) bg_prepare(4)] T bg_prepare(3) by simp
    then show ?thesis
      using bg_prepare by (auto simp: tables_inv_def tasks_def intro: tables_in_mono split: option.splits)
  next
    case (bg_flush t t' trigger db')
    have "tables_in (task_files t \<union> \<Union> (task_files ` set (callers s))) (sys_db s)" using T bg_flush(3) by simp
    from tables_task [OF D(1) assms(3) good bg_flush(4) this] show ?thesis
      using bg_flush by (auto simp: tables_inv_def tasks_def next_files_def split: option.splits)
  next
    case (bg_triggered c db')
    have "tables_in (\<Union> (task_files ` set (callers s))) db'"
      using tables_compact_prepare [OF D(1) assms(3) bg_triggered(4)] T bg_triggered(3) by simp
    then show ?thesis
      using bg_triggered by (auto simp: tables_inv_def tasks_def intro: tables_in_mono split: option.splits)
  next
    case (bg_merge t t' trigger db')
    have "tables_in (task_files t \<union> \<Union> (task_files ` set (callers s))) (sys_db s)" using T bg_merge(3) by simp
    from tables_task [OF D(1) assms(3) good bg_merge(4) this] show ?thesis
      using bg_merge by (auto simp: tables_inv_def tasks_def next_files_def split: option.splits)
  next
    case bg_finish
    have "tables_in X ((sys_db s)\<lparr>bg_compaction_scheduled := False\<rparr>) = tables_in X (sys_db s)" for X
      by (simp add: tables_in_def db_state_def)
    then show ?thesis using bg_finish T by (auto simp: tables_inv_def tasks_def)
  next
    case (call_compact c db')
    from tables_compact_prepare [OF D(1) assms(3) call_compact(3) T] show ?thesis
      using call_compact by (auto simp: tables_inv_def tasks_def intro: tables_in_mono split: option.splits)
  next
    case (call_step xs t ys t' trigger db')
    have "tables_in (task_files t \<union> \<Union> (task_files ` set (bg_tasks (bg s) @ xs @ ys))) (sys_db s)"
      using T call_step(3) by (auto intro: tables_in_mono)
    from tables_task [OF D(1) assms(3) good call_step(4) this] show ?thesis
      using call_step by (auto simp: tables_inv_def tasks_def next_files_def intro: tables_in_mono split: option.splits)
  qed
qed

lemma reach_tables_inv:
  assumes "reach (idle db0) ws s" "db_inv db0" "tables_in {} db0"
  shows "tables_inv s"
  using assms(1)
proof induction
  case start
  then show ?case using assms(3) by (simp add: tables_inv_def idle_def tasks_def)
next
  case (silent ws s s')
  then show ?case using tables_inv_step [OF silent(3)] reach_inv [OF silent(1) assms(2)] by blast
next
  case (written ws s r s')
  then show ?case using tables_inv_step [OF written(3)] reach_inv [OF written(1) assms(2)] by blast
qed

section \<open>The files after a flush\<close>

lemma compact_files:
  assumes inv: "db_inv db" and room: "roomy (Suc n) db" and c: "CompactL0ToL1 db = Some db'" and t: "tables_in {} db"
  shows "wal_same db db' \<and> tables_in {} db' \<and> (0 < n \<longrightarrow> state_room (db_state db'))"
proof (cases "level0 (db_levels db) = []")
  case True
  then show ?thesis using c t room by (simp add: CompactL0ToL1_empty roomy_def state_room_def)
next
  case False
  note fits = roomy_fits [OF room]
  obtain ctx r db1 db2 where p: "Compact_prepare db = Some (Some ctx, db1)" "db_inv db1" "job_pending db1 ctx"
    and b: "Compact_build ctx db1 = Some (Some r, db2)" "db_inv db2" "fits db2" "job_built db2 ctx r"
      "ids_at 0 (db_state db2) = l0_input_ids ctx" "roomy n db2"
    and i: "CompactL0ToL1 db = Some (Compact_install ctx r db2)"
    using CompactL0ToL1_phases [OF inv room False] roomy_fits by blast
  have t1: "tables_in (out_ids ctx) db1" using tables_compact_prepare [OF inv fits p(1) t] by (rule tables_in_mono) simp
  have "tables_in (out_ids ctx \<union> {}) db2" using tables_compact_build [OF p(2,3) b(1) t1] by simp
  then have "tables_in {} db'" using tables_compact_install [OF b(2-4)] i c by simp
  moreover have "wal_same db db'"
    using wal_same_compact_prepare [OF inv fits p(1)] wal_same_compact_build [OF p(2,3) b(1)]
      wal_same_compact_install [OF b(2-4)] i c by (auto simp: wal_same_def)
  moreover have "state_room (db_state db')" if "0 < n"
  proof -
    have ds: "db_state db' = merged_state ctx (db_state db2)"
      using Compact_install_match [OF b(2-5)] i c by (auto simp: db_state_def)
    have "state_size (merged_state ctx (db_state db2)) \<le> state_size (db_state db2) + 1"
      using length_upsert_le [of "new_sst_id ctx" 1 "sst_levels (db_state db2)"]
      by (auto simp: merged_state_def erase_ssts_def state_size_def intro: le_trans [OF length_filter_le])
    then have "state_size (db_state db') \<le> state_size (db_state db2) + 1" by (simp only: ds)
    moreover have "next_file_number (db_state db') = next_file_number (db_state db2)"
      using Compact_install_ok(6) [OF b(2-5) refl] i c by simp
    ultimately show ?thesis using b(6) that by (simp add: state_room_def roomy_def)
  qed
  ultimately show ?thesis by blast
qed

text \<open>A flush removes the log of the memtable it wrote out, and no other; its table is listed.\<close>

lemma minor_files:
  assumes inv: "db_inv db" and room: "roomy (Suc (Suc (Suc n))) db" and imm: "db_imm db \<noteq> None" and m: "MinorCompaction db = Some db'" and t: "tables_in {} db"
  shows "live_wals (db_state db') = oset_erase (imm_wal_id db) (live_wals (db_state db))"
    "next_file_number (db_state db) \<le> next_file_number (db_state db')"
    "\<And>f. path_ext f = ''.wal'' \<Longrightarrow> fs_read (db_dir db') f = (if f = wal_name (imm_wal_id db) then None else fs_read (db_dir db) f)"
    "tables_in {} db'" "0 < n \<Longrightarrow> state_room (db_state db')" "wal_inv db \<Longrightarrow> wal_inv db'"
proof -
  note fits = roomy_fits [OF room]
  obtain ctx r db1 db2 tr db3 where p: "Minor_prepare db = (Some ctx, db1)" "db_inv db1" "minor_pending db1 ctx"
    and b: "Minor_build ctx db1 = Some (r, db2)" "db_inv db2" "fits db2" "minor_built db2 ctx r" "imm_wal_id db2 = imm_wal_id db"
    and i: "Minor_install ctx r db2 = (tr, db3)" "db_inv db3" "roomy (Suc n) db3"
    and run: "MinorCompaction db = (if tr then CompactL0ToL1 db3 else Some db3)"
    using MinorCompaction_phases [OF inv room imm] by auto
  obtain man fs where st: "mstate man = ApplyEdit DelWAL (imm_wal_id db2) 0 (ApplyEdit AddSST (minor_sst_id ctx) 0 (db_state db2))"
    and rd: "\<forall>n. n \<notin> manifest_names \<longrightarrow> fs_read fs n = (if n = wal_name (imm_wal_id db2) then None else fs_read (db_dir db2) n)"
    and db3: "db3 = (set_mf (man, fs) db2)\<lparr>db_levels := (db_levels db2)\<lparr>level0 := level0 (db_levels db2) @ [opened (opt_rows (db_imm db2))]\<rparr>,
          db_imm := None, imm_wal_id := 0\<rparr>"
    using Minor_install_eq [OF b(2-4)] i(1) by auto
  have ds3: "db_state db3 = mstate man" by (simp add: db3 db_state_def)
  have t1: "tables_in {minor_sst_id ctx} db1" using tables_minor_prepare [OF inv fits p(1) t] by (rule tables_in_mono) simp
  have "tables_in {minor_sst_id ctx} db2" using tables_minor_build [OF p(2,3) b(1) t1] by simp
  then have t3: "tables_in {} db3" by (rule tables_minor_install [OF b(2-4) i(1)])
  have w2: "live_wals (db_state db2) = live_wals (db_state db)" "next_file_number (db_state db) \<le> next_file_number (db_state db2)"
    "\<And>f. path_ext f = ''.wal'' \<Longrightarrow> fs_read (db_dir db2) f = fs_read (db_dir db) f"
    using wal_same_minor_prepare [OF inv fits p(1)] wal_same_minor_build [OF p(2,3) b(1)] by (auto simp: wal_same_def)
  have w3: "wal_same db3 db' \<and> tables_in {} db' \<and> (0 < n \<longrightarrow> state_room (db_state db'))"
  proof (cases tr)
    case True
    then show ?thesis using compact_files [OF i(2,3) _ t3] run m by simp
  next
    case False
    then show ?thesis using run m t3 i(3) by (simp add: state_room_def roomy_def)
  qed
  show "tables_in {} db'" "0 < n \<Longrightarrow> state_room (db_state db')" using w3 by blast+
  show "wal_inv db'" if "wal_inv db"
  proof -
    have "wal_inv db2"
      using wal_inv_same [OF wal_inv_same [OF that wal_same_minor_prepare [OF inv fits p(1)]] wal_same_minor_build [OF p(2,3) b(1)]] .
    then show ?thesis using wal_inv_same [OF wal_inv_minor_install [OF b(2-4) i(1)]] w3 by blast
  qed
  show "live_wals (db_state db') = oset_erase (imm_wal_id db) (live_wals (db_state db))"
    using w3 w2(1) b(5) by (simp add: wal_same_def ds3 st)
  show "next_file_number (db_state db) \<le> next_file_number (db_state db')"
    using w3 w2(2) by (auto simp: wal_same_def ds3 st)
  show "fs_read (db_dir db') f = (if f = wal_name (imm_wal_id db) then None else fs_read (db_dir db) f)" if "path_ext f = ''.wal''" for f
    using that w3 w2(3) [OF that] rd b(5) wal_ext_not_manifest [OF that] by (simp add: wal_same_def db3)
qed

section \<open>Calls that keep the logs and the tables in order\<close>

text \<open>A session without leftover logs and stray tables stays one, whatever it executes.\<close>

definition durable :: "DBImpl \<Rightarrow> bool" where
  "durable db \<longleftrightarrow> wal_inv db \<and> tables_in {} db"

lemma durable_scheduled: "durable db \<Longrightarrow> durable (db\<lparr>bg_compaction_scheduled := b\<rparr>)"
  using wal_inv_same [of db "db\<lparr>bg_compaction_scheduled := b\<rparr>"] by (simp add: durable_def wal_same_def db_state_def tables_in_def)

lemma durable_BackgroundRound:
  assumes "db_inv db" "roomy 3 db" "durable db" "BackgroundRound db = Some (Some db')"
  shows "durable db'"
proof -
  obtain db1 where m: "MinorCompaction db = Some db1" "db' = db1\<lparr>bg_compaction_scheduled := False\<rparr>"
    using assms(4) by (auto simp: BackgroundRound_def split: if_splits bind_splits)
  have "durable db1"
  proof (cases "db_imm db")
    case None
    then show ?thesis using m(1) assms(3) by (simp add: MinorCompaction_def Minor_prepare_def)
  next
    case (Some mt)
    then show ?thesis
      using minor_files(4,6) [of db 0, OF assms(1) _ _ m(1)] assms(2,3) by (simp add: durable_def numeral_3_eq_3)
  qed
  then show ?thesis unfolding m(2) by (rule durable_scheduled)
qed

lemma durable_Put:
  assumes "db_inv db" "fits db" "row_ok (k, v)" "plain_row (k, v)" "durable db" "DBImpl_Put coin k v db = Some (Some db')"
  shows "durable db'"
proof -
  obtain db1 where r: "Put_rotate db = Some (RotateDone db1)" and w: "Put_write coin k v db1 = Some db'"
    using assms(6) by (auto simp: DBImpl_Put_def split: bind_splits rotate_result.splits)
  obtain m where m: "db_mem db = Some m" using db_invD(2) [OF assms(1)] by blast
  have inv1: "db_inv db1" using Put_rotate_ok [OF assms(1,2) r] by blast
  have "durable db1"
    using r m assms(5) wal_inv_rotate [OF assms(1,2) m] tables_rotate [OF assms(1,2)]
    by (auto simp: Put_rotate_def durable_def split: if_splits)
  then show ?thesis
    using wal_inv_put [OF inv1 assms(3,4) w] tables_put [OF inv1 assms(3,4) w] by (simp add: durable_def)
qed

section \<open>The destructor\<close>

text \<open>A compaction does not look at the active memtable.\<close>

lemma compaction_ignores_mem:
  "Minor_prepare (db\<lparr>db_mem := x\<rparr>) = map_prod id (\<lambda>d. d\<lparr>db_mem := x\<rparr>) (Minor_prepare db)"
  "Minor_build mctx (db\<lparr>db_mem := x\<rparr>) = map_option (map_prod id (\<lambda>d. d\<lparr>db_mem := x\<rparr>)) (Minor_build mctx db)"
  "Minor_install mctx r (db\<lparr>db_mem := x\<rparr>) = map_prod id (\<lambda>d. d\<lparr>db_mem := x\<rparr>) (Minor_install mctx r db)"
  "Compact_prepare (db\<lparr>db_mem := x\<rparr>) = map_option (map_prod id (\<lambda>d. d\<lparr>db_mem := x\<rparr>)) (Compact_prepare db)"
  "Compact_build ctx (db\<lparr>db_mem := x\<rparr>) = map_option (map_prod id (\<lambda>d. d\<lparr>db_mem := x\<rparr>)) (Compact_build ctx db)"
  "Compact_install ctx r (db\<lparr>db_mem := x\<rparr>) = (Compact_install ctx r db)\<lparr>db_mem := x\<rparr>"
  by (auto simp: Minor_prepare_def Minor_build_def Minor_install_def Compact_prepare_def Compact_build_def Compact_install_def
      set_mf_def db_mf_def Let_def split: option.splits prod.splits bool.splits bind_splits)

lemma CompactL0ToL1_ignores_mem:
  "CompactL0ToL1 (db\<lparr>db_mem := x\<rparr>) = map_option (\<lambda>d. d\<lparr>db_mem := x\<rparr>) (CompactL0ToL1 db)"
  by (auto simp: CompactL0ToL1_def compaction_ignores_mem split: option.splits prod.splits bind_splits)

lemma MinorCompaction_ignores_mem:
  "MinorCompaction (db\<lparr>db_mem := x\<rparr>) = map_option (\<lambda>d. d\<lparr>db_mem := x\<rparr>) (MinorCompaction db)"
  by (auto simp: MinorCompaction_def compaction_ignores_mem CompactL0ToL1_ignores_mem split: option.splits prod.splits bind_splits)

lemma close_flush:
  assumes inv: "db_inv db" and room: "roomy 4 db" and m: "db_mem db = Some m" "mem_rows m \<noteq> []" "db_imm db = None" and t: "tables_in {} db"
    and small: "length (mem_rows m) < 2 ^ 31"
  shows "\<exists>db'. close_DBImpl db = Some (db_dir db') \<and> db_inv db' \<and> view db' = view db \<and> opt_rows (db_mem db') = [] \<and> db_imm db' = None \<and>
    live_wals (db_state db') = oset_erase (active_wal_id db) (live_wals (db_state db)) \<and>
    next_file_number (db_state db) \<le> next_file_number (db_state db') \<and>
    (\<forall>f. path_ext f = ''.wal'' \<longrightarrow> fs_read (db_dir db') f = (if f = wal_name (active_wal_id db) then None else fs_read (db_dir db) f)) \<and>
    tables_in {} db' \<and> state_room (db_state db')"
proof -
  note D = db_invD [OF inv]
  obtain e fs where nm: "new_MemTable (wal_name (active_wal_id db)) memtable_max_level (db_dir db) = (e, fs)"
    by (cases "new_MemTable (wal_name (active_wal_id db)) memtable_max_level (db_dir db)")
  note E = new_MemTable_ok [OF nm]
  let ?F = "db\<lparr>bg_stopped := True, db_imm := Some m, imm_wal_id := active_wal_id db, db_mem := Some e\<rparr>"
  have same: "db_state ?F = db_state db" "db_mf ?F = db_mf db" "layers ?F = layers db"
    using E(2) m by (simp_all add: db_state_def db_mf_def layers_def opt_rows_def)
  have "mem_fine e" using E by (simp add: mem_fine_def)
  then have F: "db_inv ?F"
    using inv m E(3) unfolding db_inv_def same(1,2) by (simp add: parts_fine_def)
  have vF: "view ?F = view db" unfolding view_def same(3) ..
  have "roomy 4 ?F" "roomy 3 ?F" using room unfolding roomy_def same(1,3) by auto
  obtain db' where c: "MinorCompaction ?F = Some db'" "db_inv db'" "view db' = view ?F" "db_imm db' = None" "db_mem db' = Some e"
    using MinorCompaction_ok [OF F \<open>roomy 3 ?F\<close>] by auto
  have "tables_in {} ?F" using t unfolding tables_in_def same(1) by simp
  note M = minor_files [of ?F 1, OF F _ _ c(1) this]
  have "MemTable_Count m > 0"
    using m D(1) small by (simp add: MemTable_Count_small parts_fine_def mem_fine_def)
  then have "close_DBImpl db = map_option db_dir (MinorCompaction (?F\<lparr>db_mem := None\<rparr>))"
    using m(1) by (simp add: close_DBImpl_def) (cases "MinorCompaction (?F\<lparr>db_mem := None\<rparr>)"; simp)
  then have "close_DBImpl db = Some (db_dir db')" by (simp only: MinorCompaction_ignores_mem [of None ?F] c(1)) simp
  moreover have "roomy (Suc (Suc (Suc 1))) ?F" using \<open>roomy 4 ?F\<close> by (simp add: eval_nat_numeral)
  ultimately show ?thesis using c M vF E(2) unfolding same(1) by (intro exI [of _ db']) (simp add: opt_rows_def)
qed

section \<open>Opening after a shutdown\<close>

lemma upsert_all_Nil: "upsert_all rs [] = [] \<longleftrightarrow> rs = []"
proof
  assume "upsert_all rs [] = []"
  then have "map_of (rev rs) = Map.empty" using map_of_upsert_all [of "[]" rs] by simp
  then show "rs = []" by simp
qed simp

definition replayed :: "(u64 \<Rightarrow> row list) \<Rightarrow> u64 list \<Rightarrow> (bytes \<Rightarrow> bytes option) \<Rightarrow> bytes \<Rightarrow> bytes option" where
  "replayed logs ws m k = (case map_of (upsert_all (concat (map logs ws)) []) k of None \<Rightarrow> m k | Some v \<Rightarrow> live (Some v))"

lemma replayed_Nil [simp]: "replayed logs [] m = m"
  by (simp add: replayed_def fun_eq_iff)

lemma reopen_logs:
  assumes inv: "db_inv db" and t: "tables_in {} db" and room: "state_room (db_state db)"
    and L: "logs_on_disk logs db" "\<forall>w\<in>set (live_wals (db_state db)). w \<le> next_file_number (db_state db)" and j: "junk_ok junk"
    and n: "n = next_file_number (db_state db) + 1"
  shows "\<exists>d mt. new_DBImpl junk coin (db_dir db) = Some d \<and> db_inv d \<and>
    layers d = disk_rows (db_state db) (level0 (db_levels db)) (level1 (db_levels db)) logs \<and>
    db_mem d = Some mt \<and> mem_rows mt = upsert_all (concat (map logs (live_wals (db_state db)))) [] \<and>
    wal mt = \<lparr>filename = wal_name n, is_open = True\<rparr> \<and> db_imm d = None \<and> active_wal_id d = n \<and>
    db_state d = (db_state db)\<lparr>next_file_number := n, live_wals := live_wals (db_state db) @ [n]\<rparr> \<and>
    n \<notin> set (live_wals (db_state db)) \<and> tables_in {} d \<and> logs_on_disk (logs(n := [])) d"
proof -
  note D = db_invD [OF inv]
  let ?st = "db_state db" and ?l0 = "level0 (db_levels db)" and ?l1 = "level1 (db_levels db)"
  have den: "denotes (db_dir db) ?st" using D(4) by (simp add: mirrored_def db_mf_def db_state_def)
  have disk: "disk_ok (db_dir db) ?st ?l0 ?l1 logs"
    using den D(1,5-9) tables_in_no_orphans [OF t] L by (auto simp: disk_ok_def no_orphans_def parts_fine_def logs_on_disk_def)
  obtain d mt where d: "new_DBImpl junk coin (db_dir db) = Some d" "db_inv d" "layers d = disk_rows ?st ?l0 ?l1 logs"
    "db_mem d = Some mt" "mem_rows mt = upsert_all (concat (map logs (live_wals ?st))) []"
    "wal mt = \<lparr>filename = wal_name n, is_open = True\<rparr>" "db_imm d = None" "active_wal_id d = n"
    "db_state d = ?st\<lparr>next_file_number := n, live_wals := live_wals ?st @ [n]\<rparr>"
    and rd: "\<forall>f. f \<notin> manifest_names \<longrightarrow> fs_read (db_dir d) f = (if f = wal_name n then Some [] else fs_read (db_dir db) f)"
    using new_DBImpl_ok [OF disk room j n, of coin] by blast
  have fresh: "n \<notin> set (live_wals ?st)" using fresh_wal(1) [OF disk, of n] state_room_next [OF room] n by simp
  have "tables_in {} d"
    by (rule tables_in_frame [OF t]) (use d(9) rd sst_ext_not_manifest in auto)
  moreover have "logs_on_disk (logs(n := [])) d"
    unfolding logs_on_disk_def d(9)
  proof (intro conjI ballI subsetI)
    fix w assume "w \<in> set (live_wals (?st\<lparr>next_file_number := n, live_wals := live_wals ?st @ [n]\<rparr>))"
    then have w: "w \<in> set (live_wals ?st) \<and> w \<noteq> n \<or> w = n" using fresh by auto
    then show "fs_read (db_dir d) (wal_name w) = Some (concat (map wal_record ((logs(n := [])) w)))"
      using L(1) rd by (auto simp: logs_on_disk_def)
    fix r assume "r \<in> set ((logs(n := [])) w)"
    then show "row_ok r" "plain_row r" using L(1) w by (auto simp: logs_on_disk_def)
  next
    fix f assume f: "f \<in> set (numbered_files [''.wal''] (db_dir d))"
    show "f \<in> wal_name ` set (live_wals (?st\<lparr>next_file_number := n, live_wals := live_wals ?st @ [n]\<rparr>))"
    proof (cases "f = wal_name n")
      case False
      then have "f \<in> set (numbered_files [''.wal''] (db_dir db))"
        using f rd wal_ext_not_manifest [of f] by (auto simp: set_numbered_files)
      then show ?thesis using L(1) by (auto simp: logs_on_disk_def)
    qed simp
  qed
  ultimately show ?thesis using d fresh by blast
qed

text \<open>The logs that are still listed decide over everything in the tables.\<close>

lemma reopen_replays:
  assumes inv: "db_inv db" and e: "opt_rows (db_mem db) = []" "db_imm db = None" and t: "tables_in {} db" and room: "state_room (db_state db)"
    and L: "logs_on_disk logs db" "\<forall>w\<in>set (live_wals (db_state db)). w \<le> next_file_number (db_state db)" and j: "junk_ok junk"
  shows "\<exists>d. new_DBImpl junk coin (db_dir db) = Some d \<and> db_inv d \<and>
    view d = replayed logs (live_wals (db_state db)) (view db) \<and> tables_in {} d \<and>
    ((\<forall>w\<in>set (live_wals (db_state db)). logs w = []) \<longrightarrow> wal_inv d)"
proof -
  let ?st = "db_state db" and ?l0 = "level0 (db_levels db)" and ?l1 = "level1 (db_levels db)"
  let ?n = "next_file_number ?st + 1"
  obtain d mt where d: "new_DBImpl junk coin (db_dir db) = Some d" "db_inv d" "layers d = disk_rows ?st ?l0 ?l1 logs"
    "db_mem d = Some mt" "mem_rows mt = upsert_all (concat (map logs (live_wals ?st))) []"
    "wal mt = \<lparr>filename = wal_name ?n, is_open = True\<rparr>" "db_imm d = None" "active_wal_id d = ?n"
    "db_state d = ?st\<lparr>next_file_number := ?n, live_wals := live_wals ?st @ [?n]\<rparr>"
    "tables_in {} d" "logs_on_disk (logs(?n := [])) d"
    using reopen_logs [OF inv t room L j refl, of coin] by blast
  have "layers db = newest_first ?l0 @ newest_first ?l1" using e by (simp add: layers_def opt_rows_def)
  then have "view d = replayed logs (live_wals ?st) (view db)"
    by (auto simp: view_def d(3) disk_rows_def replayed_def fun_eq_iff map_add_def split: option.splits)
  moreover have "mem_logged (logs(?n := [])) d" if blank: "\<forall>w\<in>set (live_wals ?st). logs w = []"
  proof -
    have "mem_rows mt = upsert_all [] []" unfolding d(5) by (rule arg_cong [where f = "\<lambda>rs. upsert_all rs []"]) (use blank in simp)
    moreover have "\<forall>w\<in>set (live_wals ?st). (logs(?n := [])) w = [] \<and> w < ?n"
      using blank L(2) state_room_next [OF room] by fastforce
    ultimately show ?thesis using d(4-9) by (simp add: mem_logged_def)
  qed
  ultimately show ?thesis using d(1,2,10,11) by (auto simp: wal_inv_def)
qed

lemma logs_erased:
  assumes "logs_on_disk logs db" "live_wals (db_state db') = oset_erase a (live_wals (db_state db))"
    and rd: "\<forall>f. path_ext f = ''.wal'' \<longrightarrow> fs_read (db_dir db') f = (if f = wal_name a then None else fs_read (db_dir db) f)"
  shows "logs_on_disk logs db'"
  unfolding logs_on_disk_def
proof (intro conjI ballI subsetI)
  fix w assume "w \<in> set (live_wals (db_state db'))"
  then have w: "w \<in> set (live_wals (db_state db))" "w \<noteq> a" by (auto simp: assms(2))
  then show "fs_read (db_dir db') (wal_name w) = Some (concat (map wal_record (logs w)))"
    using assms(1) rd by (auto simp: logs_on_disk_def)
  fix r assume "r \<in> set (logs w)"
  then show "row_ok r" "plain_row r" using assms(1) w by (auto simp: logs_on_disk_def)
next
  fix f assume f: "f \<in> set (numbered_files [''.wal''] (db_dir db'))"
  then have "f \<noteq> wal_name a" "f \<in> set (numbered_files [''.wal''] (db_dir db))"
    using rd by (auto simp: set_numbered_files split: if_splits)
  then show "f \<in> wal_name ` set (live_wals (db_state db'))" using assms(1) by (auto simp: logs_on_disk_def assms(2))
qed

lemma close_reopen:
  assumes inv: "db_inv db" and room: "roomy 4 db" and m: "db_mem db = Some m" "mem_rows m \<noteq> []" "db_imm db = None" and t: "tables_in {} db"
    and L: "logs_on_disk logs db" "live_wals (db_state db) = old @ [active_wal_id db]" "active_wal_id db \<notin> set old"
      "\<forall>w\<in>set old. w \<le> next_file_number (db_state db)" and j: "junk_ok junk" and small: "length (mem_rows m) < 2 ^ 31"
  shows "\<exists>fs d. close_DBImpl db = Some fs \<and> new_DBImpl junk coin fs = Some d \<and> db_inv d \<and>
    view d = replayed logs old (view db) \<and> tables_in {} d \<and> ((\<forall>w\<in>set old. logs w = []) \<longrightarrow> wal_inv d)"
proof -
  obtain db' where c: "close_DBImpl db = Some (db_dir db')" "db_inv db'" "view db' = view db" "opt_rows (db_mem db') = []" "db_imm db' = None"
    "live_wals (db_state db') = oset_erase (active_wal_id db) (live_wals (db_state db))"
    "next_file_number (db_state db) \<le> next_file_number (db_state db')"
    "\<forall>f. path_ext f = ''.wal'' \<longrightarrow> fs_read (db_dir db') f = (if f = wal_name (active_wal_id db) then None else fs_read (db_dir db) f)"
    "tables_in {} db'" "state_room (db_state db')"
    using close_flush [OF inv room m t small] by blast
  have old: "live_wals (db_state db') = old" using c(6) L(2,3) by (auto simp: oset_erase_def intro: filter_True)
  have "\<forall>w\<in>set (live_wals (db_state db')). w \<le> next_file_number (db_state db')" using old L(4) c(7) by auto
  from reopen_replays [OF c(2,4,5,9,10) logs_erased [OF L(1) c(6,8)] this j, of coin] show ?thesis
    using c(1,3) old by auto
qed

text \<open>A session that was opened without leftover logs and has nothing left to flush ends cleanly.\<close>

lemma close_session:
  assumes inv: "db_inv db" "wal_inv db" "tables_in {} db" "db_imm db = None" "roomy 4 db" and j: "junk_ok junk"
    and small: "length (opt_rows (db_mem db)) < 2 ^ 31"
  shows "\<exists>fs d. close_DBImpl db = Some fs \<and> new_DBImpl junk coin fs = Some d \<and> db_inv d \<and> view d = view db \<and> tables_in {} d \<and> wal_inv d"
proof -
  obtain m where m: "db_mem db = Some m" using db_invD(2) [OF inv(1)] by blast
  obtain logs where L: "mem_logged logs db" "logs_on_disk logs db" using inv(2) by (auto simp: wal_inv_def)
  obtain old where old: "\<forall>w\<in>set old. logs w = [] \<and> w < active_wal_id db" "live_wals (db_state db) = old @ [active_wal_id db]"
    and a: "active_wal_id db \<le> next_file_number (db_state db)" "mem_rows m = upsert_all (logs (active_wal_id db)) []"
    using L(1) inv(4) m by (auto simp: mem_logged_def)
  have blank: "concat (map logs old) = []" using old(1) by simp
  have le: "\<forall>w\<in>set (live_wals (db_state db)). w \<le> next_file_number (db_state db)"
    using mem_logged_live [OF L(1)] a(1) by (auto intro: order_trans)
  show ?thesis
  proof (cases "mem_rows m = []")
    case True
    then have "MemTable_Count m = 0" using m db_invD(1) [OF inv(1)] by (simp add: MemTable_Count_rows parts_fine_def mem_fine_def)
    then have c: "close_DBImpl db = Some (db_dir db)" using m by (simp add: close_DBImpl_def)
    have e: "opt_rows (db_mem db) = []" using True m by (simp add: opt_rows_def)
    have room: "state_room (db_state db)" using inv(5) by (simp add: roomy_def state_room_def)
    have n: "logs (active_wal_id db) = []" using True a(2) upsert_all_Nil by metis
    then have "concat (map logs (live_wals (db_state db))) = []" using old by simp
    then have "replayed logs (live_wals (db_state db)) (view db) = view db" unfolding replayed_def by (simp only:) simp
    then show ?thesis
      using reopen_replays [OF inv(1) e inv(4,3) room L(2) le j, of coin] old n c by auto
  next
    case False
    have "replayed logs old (view db) = view db" unfolding replayed_def blank by simp
    moreover have "\<forall>w\<in>set old. w \<le> next_file_number (db_state db)" "active_wal_id db \<notin> set old" using le old by auto
    ultimately show ?thesis
      using close_reopen [OF inv(1,5) m False inv(4,3) L(2) old(2) _ _ j, of coin] old(1) small m by (auto simp: opt_rows_def)
  qed
qed

section \<open>Leftover logs\<close>

lemma Put_small:
  assumes "db_inv db" "db_mem db = Some m" "length (mem_rows m) < 10000"
  shows "DBImpl_Put coin k v db = map_option Some (Put_write coin k v db)"
proof -
  have "MemTable_Count m < memtable_limit"
    using assms db_invD(1) [OF assms(1)] by (simp add: MemTable_Count_small parts_fine_def mem_fine_def memtable_limit_def)
  then have "Put_rotate db = Some (RotateDone db)" using assms(2) by (simp add: Put_rotate_def)
  then show ?thesis by (simp add: DBImpl_Put_def map_conv_bind_option) (simp add: comp_def)
qed

lemma one_row_size: "row_ok r \<Longrightarrow> rows_size [r] < 2 ^ 56"
  by (cases r) (simp add: row_ok_def rows_size_def row_size_def)

lemma Put_logged:
  assumes inv: "db_inv db" and m: "db_mem db = Some m" "length (mem_rows m) < 10000" "wal m = \<lparr>filename = wal_name a, is_open = True\<rparr>"
    and L: "logs_on_disk logs db" "a \<in> set (live_wals (db_state db))" and t: "tables_in {} db" and row: "row_ok (k, v)" "plain_row (k, v)"
  shows "\<exists>db' m'. DBImpl_Put coin k v db = Some (Some db') \<and> db_inv db' \<and> view db' = (view db)(k := live (Some v)) \<and>
    db_mem db' = Some m' \<and> mem_rows m' = upsert k v (mem_rows m) \<and> db_imm db' = db_imm db \<and> db_levels db' = db_levels db \<and>
    active_wal_id db' = active_wal_id db \<and> db_state db' = db_state db \<and> tables_in {} db' \<and> logs_on_disk (logs(a := logs a @ [(k, v)])) db'"
proof -
  obtain db' where w: "Put_write coin k v db = Some db'" using Put_write_ok(1) [OF inv row, of coin] by blast
  obtain m' fs where m': "db_mem db' = Some m'" "mem_rows m' = upsert k v (mem_rows m)" "db' = db\<lparr>db_mem := Some m', db_dir := fs\<rparr>"
    "logs_on_disk (logs(a := logs a @ [(k, v)])) db'"
    using logs_put [OF inv row w m(1,3) L(2,1)] by blast
  have "db_imm db' = db_imm db" "db_levels db' = db_levels db" "active_wal_id db' = active_wal_id db" "db_state db' = db_state db"
    by (simp_all add: m'(3) db_state_def)
  then show ?thesis
    using Put_small [OF inv m(1,2), of coin k v] w Put_write_ok(2) [OF inv row w] tables_put [OF inv row w t] m'(1,2,4)
    by (intro exI [of _ db'] exI [of _ m']) simp
qed

text \<open>
  A write, a crash, a restart, a second write to the same key, a clean shutdown and a restart: the
  log of the first session is still listed and its value comes back.
\<close>

lemma stale_log_run:
  assumes j: "junk_ok junk" and row: "row_ok (k, v1)" "plain_row (k, v1)" "row_ok (k, v2)" "plain_row (k, v2)"
  shows "\<exists>db0 db1 db2 db3 fs db4. new_DBImpl junk coin empty_fs = Some db0 \<and> DBImpl_Put coin k v1 db0 = Some (Some db1) \<and>
    new_DBImpl junk coin (db_dir db1) = Some db2 \<and> DBImpl_Put coin k v2 db2 = Some (Some db3) \<and> db_inv db3 \<and> view db3 k = live (Some v2) \<and>
    close_DBImpl db3 = Some fs \<and> new_DBImpl junk coin fs = Some db4 \<and> db_inv db4 \<and> view db4 k = live (Some v1)"
proof -
  obtain db0 where d0: "new_DBImpl junk coin empty_fs = Some db0" "db_inv db0" "wal_inv db0" "no_orphans db0" "layers db0 = []"
    "active_wal_id db0 = 1" "db_imm db0 = None" "db_state db0 = \<lparr>next_file_number = 1, sst_levels = [], live_wals = [1]\<rparr>"
    using open_new [OF j, of coin] by blast
  obtain m0 where m0: "db_mem db0 = Some m0" using db_invD(2) [OF d0(2)] by blast
  obtain logs where L: "mem_logged logs db0" "logs_on_disk logs db0" using d0(3) by (auto simp: wal_inv_def)
  have w0: "wal m0 = \<lparr>filename = wal_name 1, is_open = True\<rparr>" "mem_rows m0 = upsert_all (logs 1) []" "mem_rows m0 = []"
    "newest_first (level0 (db_levels db0)) = []" "newest_first (level1 (db_levels db0)) = []" "tables_in {} db0"
    using L(1) m0 d0(4-8) by (auto simp: mem_logged_def layers_def opt_rows_def tables_in_def no_orphans_def)
  let ?logs = "logs(1 := logs 1 @ [(k, v1)])"
  obtain db1 where d1: "DBImpl_Put coin k v1 db0 = Some (Some db1)" "db_inv db1" "db_levels db1 = db_levels db0"
    "db_state db1 = db_state db0" "tables_in {} db1" "logs_on_disk ?logs db1"
    using Put_logged [OF d0(2) m0 _ w0(1) L(2) _ w0(6) row(1,2), of coin] d0(8) w0(3) by auto
  have old: "upsert_all (?logs 1) [] = [(k, v1)]" using w0(2,3) by (simp add: upsert_all_append)
  have room: "state_room (db_state db1)" by (simp add: d1(4) d0(8) state_room_def state_size_def)
  obtain db2 m2 where d2: "new_DBImpl junk coin (db_dir db1) = Some db2" "db_inv db2"
    "layers db2 = disk_rows (db_state db1) (level0 (db_levels db1)) (level1 (db_levels db1)) ?logs"
    "db_mem db2 = Some m2" "mem_rows m2 = upsert_all (concat (map ?logs [1])) []" "wal m2 = \<lparr>filename = wal_name 2, is_open = True\<rparr>"
    "db_imm db2 = None" "active_wal_id db2 = 2" "db_state db2 = \<lparr>next_file_number = 2, sst_levels = [], live_wals = [1, 2]\<rparr>"
    "tables_in {} db2" "logs_on_disk (?logs(2 := [])) db2"
    using reopen_logs [OF d1(2,5) room d1(6) _ j refl, of coin] by (auto simp: d1(4) d0(8))
  have m2: "mem_rows m2 = [(k, v1)]" using d2(5) old by simp
  have nf2: "newest_first (level0 (db_levels db2)) = []" "newest_first (level1 (db_levels db2)) = []"
    using d2(3,4,7) m2 old w0(4,5) by (simp_all add: disk_rows_def d1(3,4) d0(8) layers_def opt_rows_def)
  let ?logs3 = "(?logs(2 := []))(2 := (?logs(2 := [])) 2 @ [(k, v2)])"
  obtain db3 m3 where d3: "DBImpl_Put coin k v2 db2 = Some (Some db3)" "db_inv db3" "view db3 = (view db2)(k := live (Some v2))"
    "db_mem db3 = Some m3" "mem_rows m3 = upsert k v2 (mem_rows m2)" "db_imm db3 = db_imm db2" "db_levels db3 = db_levels db2"
    "active_wal_id db3 = active_wal_id db2" "db_state db3 = db_state db2" "tables_in {} db3" "logs_on_disk ?logs3 db3"
    using Put_logged [OF d2(2,4) _ d2(6,11) _ d2(10) row(3,4), of coin] m2 d2(9) by auto
  have m3: "mem_rows m3 \<noteq> []" "layers db3 = [(k, v2)]" "length (mem_rows m3) < 2 ^ 31"
    using d3(4-7) m2 nf2 d2(7) by (simp_all add: layers_def opt_rows_def)
  have room3: "roomy 4 db3" using one_row_size [OF row(3)] by (simp add: roomy_def m3(2) d3(9) d2(9) state_size_def)
  obtain fs db4 where d4: "close_DBImpl db3 = Some fs" "new_DBImpl junk coin fs = Some db4" "db_inv db4"
    "view db4 = replayed ?logs3 [1] (view db3)"
    using close_reopen [OF d3(2) room3 d3(4) m3(1) _ d3(10,11), of "[1]" junk coin] d3(6,8,9) d2(7-9) j m3(3) by auto
  have "view db4 k = live (Some v1)" using old by (simp add: d4(4) replayed_def)
  then show ?thesis using d0(1) d1(1) d2(1) d3(1-3) d4(1-3) by auto
qed

section \<open>A flush that the destructor drops\<close>

text \<open>
  The destructor replaces an immutable memtable that is not flushed yet by the active one. The log
  of the dropped memtable stays listed, and the next start replays it over the newer table.
\<close>

lemma close_drops_imm:
  assumes inv: "db_inv db" "durable db" and m: "db_mem db = Some m" "mem_rows m \<noteq> []" "db_imm db = Some mi"
    and room: "roomy 4 db" and j: "junk_ok junk" and k: "map_of (mem_rows mi) k = Some v" and small: "length (mem_rows m) < 2 ^ 31"
  shows "\<exists>fs d. close_DBImpl db = Some fs \<and> new_DBImpl junk coin fs = Some d \<and> db_inv d \<and> view d k = live (Some v)"
proof -
  let ?db = "db\<lparr>db_imm := None\<rparr>"
  have same: "db_state ?db = db_state db" "db_mf ?db = db_mf db" "db_dir ?db = db_dir db" by (simp_all add: db_state_def db_mf_def)
  obtain logs where L: "mem_logged logs db" "logs_on_disk logs db" using inv(2) by (auto simp: durable_def wal_inv_def)
  obtain old where old: "live_wals (db_state db) = (old @ [imm_wal_id db]) @ [active_wal_id db]" "\<forall>w\<in>set old. logs w = [] \<and> w < imm_wal_id db"
    and i: "imm_wal_id db < active_wal_id db" "mem_rows mi = upsert_all (logs (imm_wal_id db)) []"
    using L(1) m(3) by (auto simp: mem_logged_def)
  have "db_inv ?db" using inv(1) unfolding db_inv_def same by (simp add: parts_fine_def)
  moreover have "roomy 4 ?db"
    using room unfolding roomy_def same by (auto simp: layers_def opt_rows_def rows_size_def)
  moreover have "tables_in {} ?db" using inv(2) unfolding durable_def tables_in_def same by simp
  moreover have "logs_on_disk logs ?db" using L(2) unfolding logs_on_disk_def same by simp
  moreover have "\<forall>w\<in>set (old @ [imm_wal_id db]). w \<le> next_file_number (db_state ?db)"
    using mem_logged_live [OF L(1)] L(1) old(1) unfolding same by (auto simp: mem_logged_def intro: order_trans)
  moreover have "active_wal_id db \<notin> set (old @ [imm_wal_id db])" using old(2) i(1) by auto
  ultimately obtain fs d where d: "close_DBImpl ?db = Some fs" "new_DBImpl junk coin fs = Some d" "db_inv d"
    "view d = replayed logs (old @ [imm_wal_id db]) (view ?db)"
    using close_reopen [of ?db m logs "old @ [imm_wal_id db]" junk coin] m(1,2) old(1) j small unfolding same by auto
  have "MemTable_Count m > 0" using m(1,2) small db_invD(1) [OF inv(1)] by (simp add: MemTable_Count_small parts_fine_def mem_fine_def)
  then have "close_DBImpl db = close_DBImpl ?db" using m(1) by (simp add: close_DBImpl_def)
  moreover have c: "concat (map logs (old @ [imm_wal_id db])) = logs (imm_wal_id db)" using old(2) by simp
  have "view d k = live (Some v)" unfolding d(4) replayed_def c using k i(2) by simp
  ultimately show ?thesis using d by auto
qed

text \<open>A sequence of writes; \<open>None\<close> inside when one has to wait.\<close>

fun put_all :: "(nat \<Rightarrow> bool) \<Rightarrow> row list \<Rightarrow> DBImpl \<Rightarrow> DBImpl option option" where
  "put_all coin [] db = Some (Some db)"
| "put_all coin ((k, v) # rs) db =
     (case DBImpl_Put coin k v db of Some (Some db') \<Rightarrow> put_all coin rs db' | r \<Rightarrow> r)"

lemma length_upsert_all:
  assumes "distinct (map fst rs)"
  shows "length (upsert_all rs []) = length rs"
proof -
  have "distinct (map fst (upsert_all rs []))" by (simp add: sorted_keys_distinct)
  then have "length (upsert_all rs []) = card (fst ` set (upsert_all rs []))" using distinct_card by fastforce
  also have "\<dots> = length rs" using keys_upsert_all [of rs "[]"] distinct_card [OF assms] by simp
  finally show ?thesis .
qed

lemma rows_size_bound: "\<forall>r\<in>set rs. row_ok r \<Longrightarrow> rows_size rs \<le> length rs * 2 ^ 34"
proof (induction rs)
  case (Cons r rs)
  then have "row_size r \<le> 2 ^ 34" by (simp add: row_ok_def row_size_def)
  then show ?case using Cons by (simp add: rows_size_def)
qed (simp add: rows_size_def)

lemma fill_memtable:
  assumes "db_inv db" "durable db" "db_mem db = Some m" "length (mem_rows m) + length rs \<le> 10000" "\<forall>r\<in>set rs. row_ok r \<and> plain_row r"
  shows "\<exists>db' m'. put_all coin rs db = Some (Some db') \<and> db_inv db' \<and> durable db' \<and> db_mem db' = Some m' \<and>
    mem_rows m' = upsert_all rs (mem_rows m) \<and> (\<exists>fs. db' = db\<lparr>db_mem := Some m', db_dir := fs\<rparr>)"
  using assms
proof (induction rs arbitrary: db m)
  case Nil
  show ?case using Nil(1-3) by (intro exI [of _ db] exI [of _ m] conjI exI [of _ "db_dir db"]) simp_all
next
  case (Cons r rs)
  obtain k v where r: "r = (k, v)" by (cases r)
  have row: "row_ok (k, v)" "plain_row (k, v)" using Cons.prems(5) r by auto
  obtain db1 where w: "Put_write coin k v db = Some db1" using Put_write_ok(1) [OF Cons.prems(1) row, of coin] by blast
  obtain m1 fs where m1: "mem_rows m1 = upsert k v (mem_rows m)" "db1 = db\<lparr>db_mem := Some m1, db_dir := fs\<rparr>"
    using Put_write_ok(1) [OF Cons.prems(1) row, of coin] w Cons.prems(3) by auto
  have p: "DBImpl_Put coin k v db = Some (Some db1)" using Put_small [OF Cons.prems(1,3), of coin k v] Cons.prems(4) w by simp
  have inv1: "db_inv db1" "durable db1"
    using Put_write_ok(2) [OF Cons.prems(1) row w] wal_inv_put [OF Cons.prems(1) row w] tables_put [OF Cons.prems(1) row w] Cons.prems(2)
    by (auto simp: durable_def)
  have le: "length (mem_rows m1) + length rs \<le> 10000" using Cons.prems(4) m1(1) length_upsert_le [of k v "mem_rows m"] by simp
  have mem1: "db_mem db1 = Some m1" by (simp add: m1(2))
  obtain db' m' fs' where "put_all coin rs db1 = Some (Some db')" "db_inv db'" "durable db'" "db_mem db' = Some m'"
    "mem_rows m' = upsert_all rs (mem_rows m1)" "db' = db1\<lparr>db_mem := Some m', db_dir := fs'\<rparr>"
    using Cons.IH [OF inv1 mem1 le] Cons.prems(5) by auto
  then show ?case using p r m1 by (intro exI [of _ db'] exI [of _ m']) auto
qed

text \<open>
  Filling the memtable, overwriting one of its keys, which rotates it, and shutting down before the
  background thread runs: the next start returns the value that was overwritten.
\<close>

lemma rotated_run:
  assumes j: "junk_ok junk" and rs: "length rs = 10000" "distinct (map fst rs)" "\<forall>r\<in>set rs. row_ok r \<and> plain_row r"
    and row: "row_ok (k, v2)" "plain_row (k, v2)"
  shows "\<exists>db0 db1 db2 m1 m3. new_DBImpl junk coin empty_fs = Some db0 \<and> put_all coin rs db0 = Some (Some db1) \<and>
    DBImpl_Put coin k v2 db1 = Some (Some db2) \<and> db_inv db2 \<and> durable db2 \<and> view db2 k = live (Some v2) \<and> roomy 4 db2 \<and>
    db_mem db2 = Some m3 \<and> mem_rows m3 = [(k, v2)] \<and> db_imm db2 = Some m1 \<and> mem_rows m1 = upsert_all rs [] \<and>
    bg_compaction_scheduled db2 \<and> \<not> bg_stopped db2"
proof -
  obtain db0 where d0: "new_DBImpl junk coin empty_fs = Some db0" "db_inv db0" "wal_inv db0" "no_orphans db0" "layers db0 = []"
    "db_imm db0 = None" "db_state db0 = \<lparr>next_file_number = 1, sst_levels = [], live_wals = [1]\<rparr>" "bg_stopped db0 = False"
    using open_new [OF j, of coin] by blast
  obtain m0 where m0: "db_mem db0 = Some m0" using db_invD(2) [OF d0(2)] by blast
  have e: "mem_rows m0 = []" "newest_first (level0 (db_levels db0)) = []" "newest_first (level1 (db_levels db0)) = []" "durable db0"
    using d0(3-7) m0 by (auto simp: layers_def opt_rows_def durable_def tables_in_def no_orphans_def)
  obtain db1 m1 fs1 where d1: "put_all coin rs db0 = Some (Some db1)" "db_inv db1" "durable db1" "db_mem db1 = Some m1" "mem_rows m1 = upsert_all rs []"
    "db1 = db0\<lparr>db_mem := Some m1, db_dir := fs1\<rparr>"
    using fill_memtable [OF d0(2) e(4) m0, of rs coin] e(1) rs(1,3) by auto
  have st1: "db_state db1 = db_state db0" "db_imm db1 = None" "layers db1 = mem_rows m1"
    using d0(6) e(2,3) by (simp_all add: d1(6) db_state_def layers_def opt_rows_def)
  have ok1: "\<forall>r\<in>set (mem_rows m1). row_ok r" using upsert_all_subset [of rs "[]"] rs(3) d1(5) by auto
  have len: "length (mem_rows m1) = 10000" using length_upsert_all [OF rs(2)] rs(1) d1(5) by simp
  have fits1: "fits db1" using rows_size_bound [OF ok1] len by (simp add: fits_def st1 d0(7) state_size_def)
  let ?r = "rotate_memtable m1 db1"
  have "MemTable_Count m1 = 10000"
    using len d1(4) db_invD(1) [OF d1(2)] by (simp add: MemTable_Count_small parts_fine_def mem_fine_def)
  then have rot: "Put_rotate db1 = Some (RotateDone ?r)" using d1(4) st1(2) by (simp add: Put_rotate_def memtable_limit_def)
  obtain m2 man fs2 where r: "?r = (set_mf (man, fs2) db1)\<lparr>imm_wal_id := active_wal_id db1, db_imm := Some m1, db_mem := Some m2,
      active_wal_id := next_file_number (db_state db1) + 1, bg_compaction_scheduled := True\<rparr>" "mem_rows m2 = []"
    and man: "mstate man = (db_state db1)\<lparr>next_file_number := next_file_number (db_state db1) + 1,
      live_wals := oset_insert (next_file_number (db_state db1) + 1) (live_wals (db_state db1))\<rparr>"
    using rotate_memtable_eq [OF d1(2) fits1 refl, of m1] by blast
  have invr: "db_inv ?r" using Put_rotate_ok [OF d1(2) fits1 rot] by blast
  obtain db2 where w: "Put_write coin k v2 ?r = Some db2" using Put_write_ok(1) [OF invr row, of coin] by blast
  obtain m3 fs3 where m3: "mem_rows m3 = [(k, v2)]" "db2 = ?r\<lparr>db_mem := Some m3, db_dir := fs3\<rparr>"
    using Put_write_ok(1) [OF invr row, of coin] w r(1,2) by auto
  have p: "DBImpl_Put coin k v2 db1 = Some (Some db2)" using rot w by (simp add: DBImpl_Put_def)
  have d2: "db_inv db2" "view db2 k = live (Some v2)" using Put_write_ok(2) [OF invr row w] by auto
  have "rows_size (layers db2) < 2 ^ 56"
  proof -
    have "layers db2 = (k, v2) # mem_rows m1" using m3 r(1) e(2,3) by (simp add: layers_def opt_rows_def d1(6))
    then show ?thesis using rows_size_bound [of "layers db2"] ok1 row(1) len by simp
  qed
  moreover have "db_state db2 = mstate man" by (simp add: m3(2) r(1) db_state_def)
  moreover have "next_file_number (mstate man) = 2" "state_size (mstate man) = 2"
    by (simp_all add: man st1(1) d0(7) state_size_def oset_insert_def)
  ultimately have room: "roomy 4 db2" by (simp add: roomy_def)
  have m: "db_mem db2 = Some m3" "db_imm db2 = Some m1" "bg_compaction_scheduled db2" "bg_stopped db2 = bg_stopped db1" using m3 r(1) by simp_all
  have "durable db2" by (rule durable_Put [OF d1(2) fits1 row d1(3) p])
  moreover have "\<not> bg_stopped db2" using m(4) d1(6) d0(8) by simp
  ultimately show ?thesis using d0(1) d1(1,5) p d2 room m m3(1)
    by (intro exI [of _ db0] exI [of _ db1] exI [of _ db2] exI [of _ m1] exI [of _ m3]) simp
qed

lemma dropped_flush_run:
  assumes j: "junk_ok junk" and rs: "length rs = 10000" "distinct (map fst rs)" "\<forall>r\<in>set rs. row_ok r \<and> plain_row r" "(k, v1) \<in> set rs"
    and row: "row_ok (k, v2)" "plain_row (k, v2)"
  shows "\<exists>db0 db1 db2 fs db3. new_DBImpl junk coin empty_fs = Some db0 \<and> put_all coin rs db0 = Some (Some db1) \<and>
    DBImpl_Put coin k v2 db1 = Some (Some db2) \<and> db_inv db2 \<and> view db2 k = live (Some v2) \<and>
    close_DBImpl db2 = Some fs \<and> new_DBImpl junk coin fs = Some db3 \<and> db_inv db3 \<and> view db3 k = live (Some v1)"
proof -
  obtain db0 db1 db2 m1 m3 where r: "new_DBImpl junk coin empty_fs = Some db0" "put_all coin rs db0 = Some (Some db1)"
    "DBImpl_Put coin k v2 db1 = Some (Some db2)" "db_inv db2" "durable db2" "view db2 k = live (Some v2)" "roomy 4 db2"
    and m: "db_mem db2 = Some m3" "mem_rows m3 = [(k, v2)]" "db_imm db2 = Some m1" "mem_rows m1 = upsert_all rs []"
    using rotated_run [OF j rs(1-3) row, of coin] by blast
  have "map_of (rev rs) k = Some v1" using rs(2,4) by (simp add: rev_map [symmetric])
  then have k1: "map_of (mem_rows m1) k = Some v1" using m(4) by (simp add: map_of_upsert_all)
  have "mem_rows m3 \<noteq> []" "length (mem_rows m3) < 2 ^ 31" using m(2) by simp_all
  from close_drops_imm [OF r(4,5) m(1) this(1) m(3) r(7) j k1 this(2), of coin] show ?thesis using r by blast
qed

text \<open>Ten thousand rows, to fill a memtable with.\<close>

definition sample_rows :: "row list" where
  "sample_rows = map (\<lambda>i. (replicate i CHR ''a'', \<lparr>vtype = kValue, rvalue = ''old''\<rparr>)) [0..<10000]"

lemma sample_rows_ok:
  "length sample_rows = 10000" "distinct (map fst sample_rows)" "\<forall>r\<in>set sample_rows. row_ok r \<and> plain_row r"
  "(''a'', \<lparr>vtype = kValue, rvalue = ''old''\<rparr>) \<in> set sample_rows"
proof -
  show "length sample_rows = 10000" "distinct (map fst sample_rows)" "\<forall>r\<in>set sample_rows. row_ok r \<and> plain_row r"
    by (simp_all add: sample_rows_def distinct_map inj_on_def comp_def replicate_eq_replicate row_ok_def plain_row_def)
  show "(''a'', \<lparr>vtype = kValue, rvalue = ''old''\<rparr>) \<in> set sample_rows"
    by (simp add: sample_rows_def image_iff) (rule bexI [of _ 1], simp_all)
qed

end
