(* ===== verification/ServerMain.thy ===== *)
theory ServerMain
  imports TcpHistory DBShutdown
begin

text \<open>
  The program (\<open>server_main.cpp\<close>): it opens the database, starts the server, serves until a signal
  or an error ends the event loop, waits for the workers, destroys the server and then the database,
  and returns an exit code. The theorems put the server and the database together: what a session
  answered is what the next session finds, after a crash or after a stop.
\<close>

section \<open>The phases of main\<close>

text \<open>
  \<open>Joining\<close> is the wait of \<open>Cleanup\<close> for the workers, \<open>Leaving\<close> the end of the \<open>try\<close> block with the
  server destroyed (its last state is kept, for its database) and \<open>Exited\<close> the end of \<open>main\<close> with
  the directory it leaves behind; the directory is not described after an exception. An exception
  out of the destructor of the database aborts the program.
\<close>

datatype main_phase =
    Opening fsys
  | Serving net
  | Joining net
  | Leaving int TcpServer
  | Exited_main int "fsys option"
  | Aborted

text \<open>\<open>g_server\<close> points to the server while \<open>main\<close> is between its construction and the end of \<open>Run\<close>.\<close>

definition HandleStopSignal :: "TcpServer option \<Rightarrow> TcpServer option" where
  "HandleStopSignal g_server = (case g_server of None \<Rightarrow> None | Some server \<Rightarrow> Some (Stop server))"

text \<open>From the construction of the database to the call of \<open>Run\<close>, or out again with exit code 1.\<close>

definition main_start :: "start_env \<Rightarrow> kernel \<Rightarrow> junk \<Rightarrow> (nat \<Rightarrow> bool) \<Rightarrow> fsys \<Rightarrow> main_phase" where
  "main_start env k junk coin kDbPath =
     (case new_DBImpl junk coin kDbPath of
        None \<Rightarrow> Exited_main 1 None
      | Some db \<Rightarrow>
          (case Start env (new_TcpServer (Some db) k) of
             (False, server) \<Rightarrow> Leaving 1 (delete_TcpServer server)
           | (True, server) \<Rightarrow> Serving (start_net server)))"

definition main_end :: "int \<Rightarrow> TcpServer \<Rightarrow> main_phase" where
  "main_end code server =
     (case executor_db server of
        None \<Rightarrow> Exited_main code None
      | Some db \<Rightarrow> (case close_DBImpl db of None \<Rightarrow> Aborted | Some fs \<Rightarrow> Exited_main code (Some fs)))"

text \<open>
  A stop signal while \<open>Run\<close> serves is the step \<open>stop\<close> of the server; one that arrives during the wait
  for the workers is the step \<open>signal\<close>. \<open>epoll_error\<close> is the error number of an \<open>epoll_wait\<close> that
  failed, if one did.
\<close>

inductive main_step :: "net_label \<Rightarrow> main_phase \<Rightarrow> main_phase \<Rightarrow> bool" where
  open_db: "open_fds k = {} \<Longrightarrow> fresh_env env \<Longrightarrow> junk_ok junk \<Longrightarrow>
    main_step Silent (Opening fs) (main_start env k junk coin fs)"
| serve: "net_step lab n n' \<Longrightarrow> main_step lab (Serving n) (Serving n')"
| throw_read: "s = with_scripts ctl acc rd wr intr (srv n) \<Longrightarrow> running s \<Longrightarrow> \<not> io_drained n \<Longrightarrow> HandleConnectionEvent fd ev s = None \<Longrightarrow>
    main_step Silent (Serving n) (Exited_main 1 None)"
| throw_completion: "s = with_scripts ctl acc rd wr intr (srv n) \<Longrightarrow> io_drained n \<Longrightarrow> completions_process s = None \<Longrightarrow>
    main_step Silent (Serving n) (Exited_main 1 None)"
| loop_exit: "\<not> io_drained n \<Longrightarrow> (case epoll_error of None \<Rightarrow> \<not> running (srv n) | Some e \<Rightarrow> e \<noteq> EINTR) \<Longrightarrow>
    main_step Silent (Serving n) (Joining (n\<lparr>srv := Cleanup_begin (srv n)\<rparr>))"
| finish_tasks: "worker_step lab n n' \<Longrightarrow> main_step lab (Joining n) (Joining n')"
| signal: "HandleStopSignal (Some (with_scripts ctl acc rd wr intr (srv n))) = Some s' \<Longrightarrow>
    main_step Silent (Joining n) (Joining (n\<lparr>srv := s'\<rparr>))"
| run_returns: "joined (thread_pool (srv n)) \<Longrightarrow>
    main_step Silent (Joining n) (Leaving 0 (delete_TcpServer (Cleanup_end (srv n))))"
| last_flush: "executor_db s = Some db \<Longrightarrow> bg_ready db \<Longrightarrow> BackgroundRound db = Some (Some db') \<Longrightarrow>
    main_step Silent (Leaving code s) (Leaving code (s\<lparr>executor_db := Some db'\<rparr>))"
| closing_db: "main_step Silent (Leaving code s) (main_end code s)"

text \<open>A run of the program, with its labels, whose states and labels satisfy a condition.\<close>

inductive main_run :: "(main_phase \<Rightarrow> net_label \<Rightarrow> bool) \<Rightarrow> main_phase \<Rightarrow> net_label list \<Rightarrow> main_phase \<Rightarrow> bool" for Q p0 where
  begins: "main_run Q p0 [] p0"
| continues: "main_run Q p0 labs p \<Longrightarrow> Q p lab \<Longrightarrow> main_step lab p p' \<Longrightarrow> main_run Q p0 (labs @ [lab]) p'"

text \<open>The commands a run executed, with their responses.\<close>

fun label_exec :: "net_label \<Rightarrow> (bytes list \<times> bytes) list" where
  "label_exec Silent = []"
| "label_exec (Exec t resp) = [(wt_command t, resp)]"
| "label_exec (Threw t resp) = [(wt_command t, resp)]"

definition executed :: "net_label list \<Rightarrow> (bytes list \<times> bytes) list" where
  "executed labs = concat (map label_exec labs)"

fun phase_db :: "main_phase \<Rightarrow> DBImpl option" where
  "phase_db (Opening fs) = None"
| "phase_db (Serving n) = executor_db (srv n)"
| "phase_db (Joining n) = executor_db (srv n)"
| "phase_db (Leaving code s) = executor_db s"
| "phase_db (Exited_main code fs) = None"
| "phase_db Aborted = None"

text \<open>Runs in which no call throws, the database has room, and arguments fit the length fields of the files.\<close>

definition steady :: "main_phase \<Rightarrow> net_label \<Rightarrow> bool" where
  "steady p lab \<longleftrightarrow> (\<forall>db. phase_db p = Some db \<longrightarrow> roomy 3 db \<and> \<not> bg_stopped db) \<and>
     (case lab of Silent \<Rightarrow> True | Exec t resp \<Rightarrow> command_ok (wt_command t) | Threw t resp \<Rightarrow> False)"

text \<open>A directory that opens, with any choice of levels, as a session without leftover writes that holds \<open>m\<close>.\<close>

definition opens_clean :: "(bytes \<rightharpoonup> bytes) \<Rightarrow> fsys \<Rightarrow> bool" where
  "opens_clean m fs \<longleftrightarrow> (\<forall>junk coin. junk_ok junk \<longrightarrow>
     (\<exists>db. new_DBImpl junk coin fs = Some db \<and> db_inv db \<and> durable db \<and> view db = m))"

section \<open>The database of the server\<close>

lemma put_and_ok_put: "put_and_ok coin k v db nb = Some (Some (db', nb')) \<Longrightarrow> DBImpl_Put coin k v db = Some (Some db')"
  by (auto simp: put_and_ok_def split: bind_splits option.splits)

lemma ExpectArgCount_bind:
  assumes "ExpectArgCount command n nb \<bind> (\<lambda>(ok, nb1). if \<not> ok then Some (Some (db, nb1)) else f nb1) = Some (Some (db', nb'))"
  shows "db' = db \<or> length command = n \<and> f nb = Some (Some (db', nb'))"
proof (cases "length command = n")
  case True
  then show ?thesis using assms ExpectArgCount_cases(1) by simp
next
  case False
  then show ?thesis using assms ExpectArgCount_cases(2) by (auto split: bind_splits)
qed

lemma row_of_command:
  assumes "command_ok command" "1 < length command"
  shows "row_ok (command ! 1, \<lparr>vtype = kDeletion, rvalue = []\<rparr>)" "plain_row (command ! 1, \<lparr>vtype = kDeletion, rvalue = []\<rparr>)"
    "2 < length command \<Longrightarrow> row_ok (command ! 1, \<lparr>vtype = kValue, rvalue = command ! 2\<rparr>)"
    "plain_row (command ! 1, \<lparr>vtype = kValue, rvalue = command ! 2\<rparr>)"
  using assms by (auto simp: command_ok_def row_ok_def plain_row_def)

text \<open>A command leaves the database as it is or makes one call of \<open>Put\<close>.\<close>

lemma dispatch_puts:
  assumes d: "dispatch coin command db nb = Some (Some (db', nb'))" and ok: "command_ok command"
  shows "db' = db \<or> (\<exists>k v. row_ok (k, v) \<and> plain_row (k, v) \<and> DBImpl_Put coin k v db = Some (Some db'))"
proof -
  consider "db' = db" | "HandleSet coin command db nb = Some (Some (db', nb'))" | "HandleDel coin command db nb = Some (Some (db', nb'))"
    | "HandleGet command db nb = Some (Some (db', nb'))" | "HandleRScan command db nb = Some (Some (db', nb'))"
    using d by (auto simp: dispatch_def Let_def split: if_splits)
  then show ?thesis
  proof cases
    case 1
    then show ?thesis by simp
  next
    case 2
    from ExpectArgCount_bind [OF this [unfolded HandleSet_def]] show ?thesis
    proof
      assume "length command = 3 \<and> put_and_ok coin (command ! 1) \<lparr>vtype = kValue, rvalue = command ! 2\<rparr> db nb = Some (Some (db', nb'))"
      then show ?thesis using row_of_command(3,4) [OF ok] by (auto dest!: put_and_ok_put)
    qed simp
  next
    case 3
    from ExpectArgCount_bind [OF this [unfolded HandleDel_def]] show ?thesis
    proof
      assume "length command = 2 \<and> put_and_ok coin (command ! 1) \<lparr>vtype = kDeletion, rvalue = []\<rparr> db nb = Some (Some (db', nb'))"
      then show ?thesis using row_of_command(1,2) [OF ok] by (auto dest!: put_and_ok_put)
    qed simp
  next
    case 4
    from ExpectArgCount_bind [OF this [unfolded HandleGet_def]] show ?thesis by (auto elim!: bind_eq_SomeE)
  next
    case 5
    from ExpectArgCount_bind [OF this [unfolded HandleRScan_def]] show ?thesis by (auto elim!: bind_eq_SomeE)
  qed
qed

lemma task_response_puts:
  assumes "task_response None coin command (Some db) = Some (Some (resp, Some db'))" "command_ok command"
  shows "db' = db \<or> (\<exists>k v. row_ok (k, v) \<and> plain_row (k, v) \<and> DBImpl_Put coin k v db = Some (Some db'))"
proof -
  obtain nb where "dispatch coin command db (new_NetworkBuffer initial_buffer_size) = Some (Some (db', nb))"
    using assms(1) by (auto simp: task_response_def Execute_dispatch)
  then show ?thesis using dispatch_puts assms(2) by blast
qed

lemma task_response_durable:
  assumes "db_inv db" "fits db" "durable db" "command_ok command" "task_response None coin command (Some db) = Some (Some (resp, Some db'))"
  shows "durable db'"
  using task_response_puts [OF assms(5,4)] assms(1-3) durable_Put by blast

lemma Put_write_same: "Put_write coin k v db = Some db' \<Longrightarrow>
    db_imm db' = db_imm db \<and> bg_compaction_scheduled db' = bg_compaction_scheduled db"
  by (auto simp: Put_write_def elim!: bind_eq_SomeE split: option.splits prod.splits)

lemma new_DBImpl_imm: "new_DBImpl junk coin fs = Some db \<Longrightarrow> db_imm db = None"
  by (auto simp: new_DBImpl_def elim!: bind_eq_SomeE split: prod.splits bool.splits)

section \<open>Invariant\<close>

text \<open>
  The database holds what the executed commands make of the map the session started with, and a flush
  is scheduled whenever there is something to flush. The latter holds because a background round is
  one step here: within the round a rotation can fall between the flush and the reset of the flag.
\<close>

definition flush_scheduled :: "DBImpl \<Rightarrow> bool" where
  "flush_scheduled db \<longleftrightarrow> (db_imm db \<noteq> None \<longrightarrow> bg_compaction_scheduled db)"

definition session_inv :: "(bytes \<rightharpoonup> bytes) \<Rightarrow> net_label list \<Rightarrow> DBImpl \<Rightarrow> bool" where
  "session_inv m0 labs db \<longleftrightarrow> db_inv db \<and> durable db \<and> flush_scheduled db \<and>
     map snd (executed labs) = map reply_bytes (fst (kv_run (map fst (executed labs)) m0)) \<and>
     view db = snd (kv_run (map fst (executed labs)) m0)"

lemma Put_flush_scheduled:
  assumes "flush_scheduled db" "DBImpl_Put coin k v db = Some (Some db')"
  shows "flush_scheduled db'"
proof -
  obtain db1 where r: "Put_rotate db = Some (RotateDone db1)" and w: "Put_write coin k v db1 = Some db'"
    using assms(2) by (auto simp: DBImpl_Put_def split: bind_splits rotate_result.splits)
  have "db1 = db \<or> bg_compaction_scheduled db1"
    using r by (auto simp: Put_rotate_def rotate_memtable_def elim!: bind_eq_SomeE split: if_splits prod.splits)
  then show ?thesis using assms(1) Put_write_same [OF w] by (auto simp: flush_scheduled_def)
qed

lemma executed_snoc [simp]: "executed [] = []" "executed (labs @ [lab]) = executed labs @ label_exec lab"
  by (simp_all add: executed_def)

lemma session_silent: "session_inv m0 (labs @ [Silent]) db = session_inv m0 labs db"
  by (simp add: session_inv_def)

lemma session_exec:
  assumes "session_inv m0 labs db" "roomy 3 db" "command_ok (wt_command t)"
    and r: "task_response None coin (wt_command t) (Some db) = Some (Some (resp, odb))"
  shows "\<exists>db'. odb = Some db' \<and> session_inv m0 (labs @ [Exec t resp]) db'"
proof -
  have i: "db_inv db" "durable db" using assms(1) by (simp_all add: session_inv_def)
  obtain db' where db': "odb = Some db'" "db_inv db'" "resp = reply_bytes (fst (kv_command (wt_command t) (view db)))"
    "view db' = snd (kv_command (wt_command t) (view db))"
    using task_response_answers [OF i(1) roomy_fits [OF assms(2)] assms(3) r] by blast
  have "durable db'" using task_response_durable [OF i(1) roomy_fits [OF assms(2)] i(2) assms(3)] r db'(1) by blast
  moreover have "flush_scheduled db'"
    using task_response_puts [of coin _ db resp db', OF _ assms(3)] r db'(1) assms(1) Put_flush_scheduled by (auto simp: session_inv_def)
  ultimately show ?thesis using assms(1) db' by (simp add: session_inv_def kv_run_snoc)
qed

lemma session_background:
  assumes "session_inv m0 labs db" "roomy 3 db" "BackgroundRound db = Some (Some db')"
  shows "session_inv m0 labs db'"
proof -
  have i: "db_inv db" "durable db" using assms(1) by (simp_all add: session_inv_def)
  have "\<not> bg_stopped db" using assms(3) by (auto simp: BackgroundRound_def)
  then show ?thesis
    using BackgroundRound_ok [OF i(1) assms(2)] durable_BackgroundRound [OF i(1) assms(2) i(2) assms(3)] assms(1,3)
    by (auto simp: session_inv_def flush_scheduled_def sync_ready_def)
qed

definition has_session :: "(bytes \<rightharpoonup> bytes) \<Rightarrow> net_label list \<Rightarrow> TcpServer \<Rightarrow> bool" where
  "has_session m0 labs s \<longleftrightarrow> (\<exists>db. executor_db s = Some db \<and> session_inv m0 labs db)"

text \<open>The pool before and after \<open>Shutdown\<close> was called.\<close>

definition pool_state :: "bool \<Rightarrow> net \<Rightarrow> bool" where
  "pool_state stopped n \<longleftrightarrow> pool_stop (thread_pool (srv n)) = stopped \<and> workers (thread_pool (srv n)) \<noteq> [] \<and> pool_inv (thread_pool (srv n))"

definition served :: "net_label list \<Rightarrow> net \<Rightarrow> bool" where
  "served labs n \<longleftrightarrow> executed labs = map (map_prod wt_command id) (execs n)"

fun main_inv :: "(bytes \<rightharpoonup> bytes) \<Rightarrow> net_label list \<Rightarrow> main_phase \<Rightarrow> bool" where
  "main_inv m0 labs (Opening fs) \<longleftrightarrow> opens_clean m0 fs \<and> executed labs = []"
| "main_inv m0 labs (Serving n) \<longleftrightarrow> net_inv n \<and> pool_state False n \<and> served labs n \<and> has_session m0 labs (srv n)"
| "main_inv m0 labs (Joining n) \<longleftrightarrow> net_inv n \<and> listen_fd (srv n) < 0 \<and> pool_state True n \<and> served labs n \<and> has_session m0 labs (srv n)"
| "main_inv m0 labs (Leaving code s) \<longleftrightarrow> open_fds (krnl s) = {} \<and> has_session m0 labs s"
| "main_inv m0 labs (Exited_main code fs) \<longleftrightarrow> True"
| "main_inv m0 labs Aborted \<longleftrightarrow> True"

lemma worker_session:
  assumes "worker_step lab n n'" "has_session m0 labs (srv n)" "steady p lab" "phase_db p = executor_db (srv n)"
  shows "has_session m0 (labs @ [lab]) (srv n')"
proof -
  obtain db where db: "executor_db (srv n) = Some db" "session_inv m0 labs db" using assms(2) by (auto simp: has_session_def)
  have room: "roomy 3 db" using assms(3,4) db(1) by (simp add: steady_def)
  note W = worker_step_db [OF assms(1)]
  show ?thesis
  proof (cases lab)
    case Silent
    then show ?thesis using W db session_background [OF db(2) room] by (auto simp: has_session_def session_silent)
  next
    case (Exec t resp)
    then show ?thesis using W db session_exec [OF db(2) room] assms(3) by (auto simp: has_session_def steady_def)
  next
    case (Threw t resp)
    then show ?thesis using assms(3) by (simp add: steady_def)
  qed
qed

lemma worker_served: "worker_step lab n n' \<Longrightarrow> served labs n \<Longrightarrow> served (labs @ [lab]) n'"
  by (induction rule: worker_step.induct) (simp_all add: served_def)

lemma worker_pool: "worker_step lab n n' \<Longrightarrow> pool_state b n \<Longrightarrow> pool_state b n'"
proof (induction rule: worker_step.induct)
  case (work_start i n pool)
  from work_start(3,1) show ?case
    using work_start(4) by (cases rule: worker_wake_cases) (auto simp: pool_state_def pool_inv_def dest: set_update_Exited)
next
  case (work_end s ctl acc rd wr intr n i)
  then show ?case by (auto simp: pool_state_def pool_inv_def worker_done_def dest: set_update_Exited)
qed (simp_all add: pool_state_def push_completed_def)

text \<open>Stopping and cleaning up leave the database alone.\<close>

lemma worker_listen: "worker_step lab n n' \<Longrightarrow> listen_fd (srv n') = listen_fd (srv n)"
  by (induction rule: worker_step.induct) (simp_all add: push_completed_def task_wake_def on_krnl_def)

lemma Cleanup_db: "executor_db (Cleanup_begin s) = executor_db s" "executor_db (Cleanup_end s) = executor_db s"
proof -
  show "executor_db (Cleanup_begin s) = executor_db s"
    by (simp add: Cleanup_begin_def Let_def close_listen_def RemoveEpollEvent_def on_krnl_def)
  obtain k where "fold (\<lambda>(fd, conn) t. on_krnl (sys_close fd) (RemoveEpollEvent fd t)) (connections s) (s\<lparr>completed_queue := []\<rparr>) =
      s\<lparr>completed_queue := []\<rparr>\<lparr>krnl := k\<rparr>"
    using fold_sys_close [of "connections s" "s\<lparr>completed_queue := []\<rparr>"] by blast
  then show "executor_db (Cleanup_end s) = executor_db s"
    by (simp add: Cleanup_end_def Let_def on_krnl_def RemoveEpollEvent_def)
qed

lemma Cleanup_end_conns [simp]: "connections (Cleanup_end s) = []"
  by (simp add: Cleanup_end_def Let_def on_krnl_def RemoveEpollEvent_def)

lemma delete_db: "connections s = [] \<Longrightarrow> executor_db (delete_TcpServer s) = executor_db s"
  using Stop_apart [of s] by (simp add: delete_TcpServer_def Cleanup_def Cleanup_db apart_def)

lemma Start_db: "Start env s = (b, s') \<Longrightarrow> executor_db s' = executor_db s"
  by (auto simp: Start_def InitListenSocket_def InitEpoll_def InitWakeFd_def Let_def on_krnl_def Cleanup_def Cleanup_db close_listen_def
      split: if_splits prod.splits bool.splits elim!: AddEpollEvent_cases)

text \<open>Destroying a server that was cleaned up already opens nothing.\<close>

lemma delete_clean:
  assumes "open_fds (krnl s) = {}" "connections s = []"
  shows "open_fds (krnl (delete_TcpServer s)) = {}"
proof -
  have "open_fds (krnl (Stop s)) = {}"
    using assms by (auto simp: Stop_def Let_def MaybeFinishShutdown_def WakeEventLoop_def on_krnl_def close_listen_def RemoveEpollEvent_def
        sys_close_def epoll_del_def)
  then have sub: "open_fds (krnl (Stop s)) \<subseteq> fixed_fds (Stop s) \<union> fst ` set (connections (Stop s))" by simp
  note B = Cleanup_begin_fields [OF sub]
  show ?thesis unfolding delete_TcpServer_def Cleanup_def by (rule Cleanup_end_closes(1)) (use B in simp)
qed

section \<open>The invariant holds\<close>

lemma Cleanup_begin_inv:
  assumes "net_inv n"
  shows "net_inv (n\<lparr>srv := Cleanup_begin (srv n)\<rparr>)"
proof -
  note D = net_invD [OF assms]
  let ?s1 = "if listen_fd (srv n) \<ge> 0 then close_listen (RemoveEpollEvent (listen_fd (srv n)) (srv n)) else srv n"
  have s1: "conns_ok {} (subs n) (take (taken n) (execs n)) ?s1" "untouched_pool (srv n) ?s1" using D(1) close_listen_ok [OF D(1)] by auto
  have c: "Cleanup_begin (srv n) = ?s1\<lparr>thread_pool := snd (Shutdown_begin (thread_pool ?s1))\<rparr>" by (simp only: Cleanup_begin_def Let_def)
  have p: "workers (snd (Shutdown_begin (thread_pool ?s1))) = workers (thread_pool (srv n))"
    "pool_tasks (snd (Shutdown_begin (thread_pool ?s1))) = pool_tasks (thread_pool (srv n))"
    using s1(2) by (simp_all add: Shutdown_begin_def untouched_pool_def)
  have u: "completed_queue ?s1 = completed_queue (srv n)" "next_generation ?s1 = next_generation (srv n)" "wake_counter (krnl ?s1) = wake_counter (krnl (srv n))"
    by (simp_all add: close_listen_def RemoveEpollEvent_def on_krnl_def sys_close_def epoll_del_def)
  have "conns_ok {} (subs n) (take (taken n) (execs n)) (Cleanup_begin (srv n))" unfolding c using s1(1) by simp
  moreover have "task_inv (n\<lparr>srv := Cleanup_begin (srv n)\<rparr>)"
    using D(2) p u unfolding c by (simp add: task_inv_def task_bound_def del: if_split)
  moreover have "wake_inv (n\<lparr>srv := Cleanup_begin (srv n)\<rparr>)" using D(3) u unfolding c by (simp add: wake_inv_def del: if_split)
  ultimately show ?thesis by (simp add: net_inv_def)
qed

lemma Cleanup_begin_pool: "pool_state b n \<Longrightarrow> pool_state True (n\<lparr>srv := Cleanup_begin (srv n)\<rparr>)"
  by (auto simp: pool_state_def Cleanup_begin_def Let_def close_listen_def RemoveEpollEvent_def on_krnl_def Shutdown_begin_def pool_inv_def)

lemma main_inv_open:
  assumes k: "open_fds k = {}" "fresh_env env" "junk_ok junk" and i: "opens_clean m0 fs" "executed labs = []"
  shows "main_inv m0 labs (main_start env k junk coin fs)"
proof -
  obtain db where db: "new_DBImpl junk coin fs = Some db" "db_inv db" "durable db" "view db = m0"
    using i(1) k(3) unfolding opens_clean_def by blast
  have ses: "session_inv m0 labs db" using db i(2) new_DBImpl_imm [OF db(1)] by (simp add: session_inv_def flush_scheduled_def)
  obtain b s where s: "Start env (new_TcpServer (Some db) k) = (b, s)" by (cases "Start env (new_TcpServer (Some db) k)")
  have e: "executor_db s = Some db" using Start_db [OF s] by (simp add: new_TcpServer_def)
  show ?thesis
  proof (cases b)
    case True
    then have st: "new_server_started (Some db) k env s" using s k by (simp add: new_server_started_def)
    have "pool_state False (start_net s)"
      using Start_fields(2) [of env _ k s] s True
      by (auto simp: pool_state_def start_net_def new_ThreadPool_def pool_inv_def)
    then show ?thesis
      using Start_inv [OF st] db(1) s True e ses i(2) by (simp add: main_start_def has_session_def served_def) (simp add: start_net_def)
  next
    case False
    then have "open_fds (krnl s) = {}" "connections s = []" using start_failure_clean [of env "Some db" k s] s k by auto
    then show ?thesis using delete_clean db(1) s False e ses by (simp add: main_start_def has_session_def delete_db)
  qed
qed

lemma main_inv_serve:
  assumes "net_step lab n n'" "main_inv m0 labs (Serving n)" "steady (Serving n) lab"
  shows "main_inv m0 (labs @ [lab]) (Serving n')"
proof -
  have i: "net_inv n" "pool_state False n" "served labs n" "has_session m0 labs (srv n)" using assms(2) by simp_all
  from net_step_loop [OF assms(1) i(1)] show ?thesis
  proof
    assume "worker_step lab n n'"
    then show ?thesis
      using net_inv_step [OF assms(1) i(1)] worker_pool i(2,3) worker_served worker_session [OF _ i(4) assms(3)] by simp
  next
    assume "lab = Silent \<and> execs n' = execs n \<and> executor_db (srv n') = executor_db (srv n) \<and>
      unat (next_generation (srv n)) \<le> unat (next_generation (srv n')) \<and>
      workers (thread_pool (srv n')) = workers (thread_pool (srv n)) \<and> pool_stop (thread_pool (srv n')) = pool_stop (thread_pool (srv n))"
    then show ?thesis
      using net_inv_step [OF assms(1) i(1)] i(2-4) by (auto simp: pool_state_def pool_inv_def served_def has_session_def session_silent)
  qed
qed

lemma main_inv_join:
  assumes "worker_step lab n n'" "main_inv m0 labs (Joining n)" "steady (Joining n) lab"
  shows "main_inv m0 (labs @ [lab]) (Joining n')"
  using assms net_inv_worker worker_pool worker_served worker_session [OF assms(1)] worker_listen by simp

lemma joined_clean:
  assumes "net_inv n" "listen_fd (srv n) < 0"
  shows "open_fds (krnl (Cleanup_end (srv n))) = {}" "connections (Cleanup_end (srv n)) = []"
proof -
  have "open_fds (krnl (srv n)) = fixed_fds (srv n) \<union> fst ` set (connections (srv n))"
    using net_invD(1) [OF assms(1)] by (simp add: conns_ok_def shape_def)
  then have "open_fds (krnl (srv n)) \<subseteq> {x. 0 \<le> x \<and> (x = wake_fd (srv n) \<or> x = epoll_fd (srv n))} \<union> fst ` set (connections (srv n))"
    using assms(2) by (auto simp: fixed_fds_def)
  then show "open_fds (krnl (Cleanup_end (srv n))) = {}" "connections (Cleanup_end (srv n)) = []" by (rule Cleanup_end_closes)+
qed

lemma main_inv_step:
  assumes "main_step lab p p'" "main_inv m0 labs p" "steady p lab"
  shows "main_inv m0 (labs @ [lab]) p'"
  using assms
proof (induction rule: main_step.induct)
  case (open_db k env junk fs coin)
  then show ?case using main_inv_open [OF open_db(1-3)] by simp
next
  case (serve lab n n')
  then show ?case by (rule main_inv_serve)
next
  case (loop_exit n epoll_error)
  then have i: "net_inv n" "pool_state False n" "served labs n" "has_session m0 labs (srv n)" by simp_all
  have "listen_fd (Cleanup_begin (srv n)) < 0"
    by (simp add: Cleanup_begin_def Let_def close_listen_def RemoveEpollEvent_def on_krnl_def)
  then show ?case
    using Cleanup_begin_inv [OF i(1)] Cleanup_begin_pool [OF i(2)] i(3,4)
    by (simp add: served_def has_session_def session_silent Cleanup_db)
next
  case (finish_tasks lab n n')
  then show ?case by (rule main_inv_join)
next
  case (signal ctl acc rd wr intr n s')
  let ?s = "with_scripts ctl acc rd wr intr (srv n)"
  have i: "net_inv n" "listen_fd (srv n) < 0" "pool_state True n" "served labs n" "has_session m0 labs (srv n)" using signal(2) by simp_all
  have s': "s' = Stop ?s" using signal(1) by (simp add: HandleStopSignal_def)
  have S: "conns_ok {} (subs n) (take (taken n) (execs n)) s'" "untouched_pool ?s s'"
    using Stop_ok [OF with_scripts_ok [OF net_invD(1) [OF i(1)]]] s' by auto
  have "net_inv (n\<lparr>srv := s'\<rparr>)" by (rule net_inv_quiet [OF i(1) S refl])
  moreover have "thread_pool s' = thread_pool (srv n)" using S(2) by (simp add: untouched_pool_def)
  moreover have "executor_db s' = executor_db (srv n)" "listen_fd s' < 0" 
    using Stop_apart [of ?s] net_invD(1) [OF i(1)] i(2) by (simp_all add: s' apart_def conns_ok_def shape_def)
  ultimately show ?case using i(3-5) by (simp add: pool_state_def served_def has_session_def session_silent)
next
  case (run_returns n)
  then have i: "net_inv n" "listen_fd (srv n) < 0" "has_session m0 labs (srv n)" by simp_all
  show ?case
    using delete_clean [OF joined_clean [OF i(1,2)]] i(3) by (simp add: has_session_def session_silent delete_db Cleanup_db)
next
  case (last_flush s db db' code)
  then show ?case using session_background [of m0 labs db db'] by (auto simp: has_session_def session_silent steady_def)
next
  case (closing_db code s)
  then show ?case by (auto simp: main_end_def split: option.splits)
qed simp_all

lemma main_run_inv:
  assumes "main_run steady (Opening fs) labs p" "opens_clean m0 fs"
  shows "main_inv m0 labs p"
  using assms(1)
proof induction
  case begins
  then show ?case using assms(2) by simp
next
  case (continues labs p lab p')
  then show ?case by (intro main_inv_step)
qed

section \<open>A sample session\<close>

lemma empty_opens_clean: "opens_clean Map.empty empty_fs"
  unfolding opens_clean_def
proof (intro allI impI)
  fix junk :: junk and coin assume "junk_ok junk"
  from open_new [OF this, of coin] show "\<exists>db. new_DBImpl junk coin empty_fs = Some db \<and> db_inv db \<and> durable db \<and> view db = Map.empty"
    by (auto simp: durable_def tables_in_def no_orphans_def)
qed

lemma main_run_net:
  assumes "net_reach calm n0 n" "main_run steady p0 labs (Serving n0)"
  shows "\<exists>labs'. main_run steady p0 labs' (Serving n)"
  using assms(1)
proof induction
  case start
  then show ?case using assms(2) by blast
next
  case (more n lab n')
  then obtain labs' where "main_run steady p0 labs' (Serving n)" by blast
  moreover have "steady (Serving n) lab" using more(2) by (simp add: calm_def steady_def)
  ultimately show ?case using main_run.continues main_step.serve [OF more(3)] by blast
qed

text \<open>Workers without a task leave one after the other.\<close>

lemma workers_leave:
  assumes "main_run steady p0 labs (Joining n)" "pool_stop (thread_pool (srv n))" "pool_tasks (thread_pool (srv n)) = []"
    and "\<forall>w\<in>set (workers (thread_pool (srv n))). w = Waiting \<or> w = Exited"
    and "\<And>db. executor_db (srv n) = Some db \<Longrightarrow> roomy 3 db \<and> \<not> bg_stopped db"
  shows "\<exists>labs' n'. main_run steady p0 labs' (Joining n') \<and> joined (thread_pool (srv n')) \<and> executor_db (srv n') = executor_db (srv n) \<and>
    executed labs' = executed labs \<and> subs n' = subs n"
  using assms
proof (induction "length (filter (\<lambda>w. w = Waiting) (workers (thread_pool (srv n))))" arbitrary: n labs rule: less_induct)
  case less
  let ?p = "thread_pool (srv n)"
  show ?case
  proof (cases "joined ?p")
    case True
    then show ?thesis using less.prems(1) by blast
  next
    case False
    then obtain i where i: "i < length (workers ?p)" "workers ?p ! i \<noteq> Exited" by (auto simp: joined_def list_all_length)
    then have w: "workers ?p ! i = Waiting" using less.prems(4) nth_mem by blast
    let ?n = "n\<lparr>srv := (srv n)\<lparr>thread_pool := ?p\<lparr>workers := (workers ?p)[i := Exited]\<rparr>\<rparr>\<rparr>"
    have "worker_step Silent n ?n"
      by (rule worker_step.work_start [OF i(1) w]) (simp add: worker_wake_def less.prems(2,3))
    moreover have "steady (Joining n) Silent" using less.prems(5) by (simp add: steady_def)
    ultimately have r: "main_run steady p0 (labs @ [Silent]) (Joining ?n)"
      using main_run.continues [OF less.prems(1)] main_step.finish_tasks by blast
    have all: "\<forall>w\<in>set ((workers ?p)[i := Exited]). w = Waiting \<or> w = Exited"
      using less.prems(4) set_update_subset_insert [of "workers ?p" i Exited] by auto
    have "length (filter (\<lambda>w. w = Waiting) ((workers ?p)[i := Exited])) < length (filter (\<lambda>w. w = Waiting) (workers ?p))"
      by (subst (2) id_take_nth_drop [OF i(1)]) (simp add: upd_conv_take_nth_drop [OF i(1)] w)
    from less.hyps [of ?n "labs @ [Silent]"] this r all less.prems(2,3,5) show ?thesis by simp
  qed
qed

abbreviation sample_set :: "bytes list" where
  "sample_set \<equiv> [''SET'', ''k'', ''v'']"

lemma sample_map: "snd (kv_run [sample_set] Map.empty) = [''k'' \<mapsto> ''v'']"
proof -
  have "NormalizeCommandName ''SET'' = ''SET''" by code_simp
  then show ?thesis by (simp add: kv_command_def known_commands_def argc_def split_beta)
qed

text \<open>A session on an empty directory in which one client stored a value.\<close>

lemma sample_put:
  assumes d: "db_inv db0" "layers db0 = []" "db_imm db0 = None" "bg_stopped db0 = False"
    and st: "db_state db0 = \<lparr>next_file_number = 1, sst_levels = [], live_wals = [1]\<rparr>"
    and p: "task_response None coin sample_set (Some db0) = Some (Some (resp, odb))"
  shows "\<exists>db. odb = Some db \<and> roomy 4 db \<and> db_imm db = None \<and> \<not> bg_stopped db \<and> length (opt_rows (db_mem db)) < 10000"
proof -
  let ?v = "\<lparr>vtype = kValue, rvalue = ''v''\<rparr>"
  have N: "NormalizeCommandName ''SET'' = ''SET''" by code_simp
  obtain db nb where h: "HandleSet coin sample_set db0 (new_NetworkBuffer initial_buffer_size) = Some (Some (db, nb))" "odb = Some db"
    using p by (auto simp: task_response_def Execute_dispatch dispatch_def N)
  have "put_and_ok coin ''k'' ?v db0 (new_NetworkBuffer initial_buffer_size) = Some (Some (db, nb))"
    using h(1) by (simp add: HandleSet_def ExpectArgCount_cases(1))
  then have put: "DBImpl_Put coin ''k'' ?v db0 = Some (Some db)" by (rule put_and_ok_put)
  obtain m where m: "db_mem db0 = Some m" using db_invD(2) [OF d(1)] by blast
  have e: "mem_rows m = []" "newest_first (level0 (db_levels db0)) = []" "newest_first (level1 (db_levels db0)) = []"
    using d(2) m by (auto simp: layers_def opt_rows_def)
  have w: "Put_write coin ''k'' ?v db0 = Some db" using put Put_small [OF d(1) m, of coin "''k''" ?v] e(1) by simp
  have row: "row_ok (''k'', ?v)" "plain_row (''k'', ?v)" by (simp_all add: row_ok_def plain_row_def)
  obtain m' fs where m': "mem_rows m' = upsert ''k'' ?v (mem_rows m)" "db = db0\<lparr>db_mem := Some m', db_dir := fs\<rparr>"
    using Put_write_ok(1) [OF d(1) row, of coin] w m by auto
  have "layers db = [(''k'', ?v)]" using m' e d(3) by (simp add: layers_def opt_rows_def)
  then have "roomy 4 db" using one_row_size [OF row(1)] st by (simp add: roomy_def m'(2) db_state_def state_size_def)
  moreover have "length (opt_rows (db_mem db)) < 10000" using m' e by (simp add: opt_rows_def)
  ultimately show ?thesis using h(2) m'(2) d(3,4) by simp
qed

lemma sample_session:
  "\<exists>labs n db t. main_run steady (Opening empty_fs) labs (Serving n) \<and> executor_db (srv n) = Some db \<and> map fst (executed labs) = [sample_set] \<and>
     roomy 4 db \<and> db_imm db = None \<and> \<not> bg_stopped db \<and> length (opt_rows (db_mem db)) < 10000 \<and> subs n = [t] \<and> wt_command t = sample_set \<and>
     workers (thread_pool (srv n)) = Running t # replicate 7 Waiting \<and> pool_tasks (thread_pool (srv n)) = [] \<and> pushed n = {0} \<and> \<not> io_drained n"
proof -
  obtain db0 where d: "new_DBImpl sample_junk (\<lambda>_. False) empty_fs = Some db0" "db_inv db0" "layers db0 = []" "db_imm db0 = None" "bg_stopped db0 = False"
    "db_state db0 = \<lparr>next_file_number = 1, sst_levels = [], live_wals = [1]\<rparr>"
    using open_new [OF sample_ok(4), of "\<lambda>_. False"] by blast
  have room: "roomy 3 db0" "fits db0" by (simp_all add: roomy_def fits_def d rows_size_def state_size_def)
  have c: "command_ok sample_set" "request_ok sample_set" by (simp_all add: command_ok_def request_ok_def int64_max_def)
  have "\<not> put_blocks db0" using d(4) by (simp add: put_blocks_def)
  then obtain resp odb where r: "task_response None (\<lambda>_. False) sample_set (Some db0) = Some (Some (resp, odb))"
    using Execute_answers [OF d(2) room(2) nb_ok_new c(1), of "\<lambda>_. False" initial_buffer_size] by (auto simp: task_response_def Let_def)
  obtain db where db: "odb = Some db" "roomy 4 db" "db_imm db = None" "\<not> bg_stopped db" "length (opt_rows (db_mem db)) < 10000" using sample_put [OF d(2-6) r] by blast
  have len: "length (array_bytes sample_set) \<le> extra_buffer_size"
    by (simp add: array_bytes_def bulk_bytes_def extra_buffer_size_def kCRLF_def) (simp add: to_string.simps)
  obtain n where n: "net_reach calm (start_net (sample_server (Some db0))) n" "executor_db (srv n) = Some db" "map (wt_command \<circ> fst) (execs n) = [sample_set]"
    "workers (thread_pool (srv n)) = Running \<lparr>wt_fd = 7, wt_generation = 1, wt_seq = 0, wt_command = sample_set\<rparr> # replicate 7 Waiting"
    "pool_tasks (thread_pool (srv n)) = []" "pushed n = {0}" "\<not> io_drained n" "subs n = [\<lparr>wt_fd = 7, wt_generation = 1, wt_seq = 0, wt_command = sample_set\<rparr>]"
    using sample_exec [of "Some db0" calm sample_set resp, OF _ c(2) len r] c(1) room(1) d(5) db(1) by (auto simp: calm_def)
  have "Start sample_env (new_TcpServer (Some db0) sample_kernel) = (True, sample_server (Some db0))"
    using sample_started by (simp add: new_server_started_def)
  then have "main_start sample_env sample_kernel sample_junk (\<lambda>_. False) empty_fs = Serving (start_net (sample_server (Some db0)))"
    by (simp add: main_start_def d(1))
  moreover have "open_fds sample_kernel = {}" "fresh_env sample_env" using sample_started by (simp_all add: new_server_started_def)
  ultimately have "main_step Silent (Opening empty_fs) (Serving (start_net (sample_server (Some db0))))"
    using main_step.open_db [OF _ _ sample_ok(4), of sample_kernel sample_env empty_fs "\<lambda>_. False"] by simp
  moreover have "steady (Opening empty_fs) Silent" by (simp add: steady_def)
  ultimately have "main_run steady (Opening empty_fs) [Silent] (Serving (start_net (sample_server (Some db0))))"
    using main_run.continues [OF main_run.begins] by fastforce
  then obtain labs where labs: "main_run steady (Opening empty_fs) labs (Serving n)" using main_run_net [OF n(1)] by blast
  then have "served labs n" using main_run_inv [OF labs empty_opens_clean] by simp
  then have "map fst (executed labs) = [sample_set]" using n(3) by (simp add: served_def)
  then show ?thesis using labs n(2,4-8) db(2-5)
    by (intro exI [of _ labs] exI [of _ n] exI [of _ db]
        exI [of _ "\<lparr>wt_fd = 7, wt_generation = 1, wt_seq = 0, wt_command = sample_set\<rparr>"]) simp
qed

lemma sample_joined:
  "\<exists>labs n db t. main_run steady (Opening empty_fs) labs (Joining n) \<and> joined (thread_pool (srv n)) \<and> executor_db (srv n) = Some db \<and>
     map fst (executed labs) = [sample_set] \<and> roomy 4 db \<and> db_imm db = None \<and> \<not> bg_stopped db \<and> length (opt_rows (db_mem db)) < 10000 \<and> subs n = [t] \<and> wt_command t = sample_set"
proof -
  obtain labs n db t where s: "main_run steady (Opening empty_fs) labs (Serving n)" "executor_db (srv n) = Some db" "map fst (executed labs) = [sample_set]"
    "roomy 4 db" "db_imm db = None" "\<not> bg_stopped db" "subs n = [t]" "wt_command t = sample_set"
    "workers (thread_pool (srv n)) = Running t # replicate 7 Waiting" "pool_tasks (thread_pool (srv n)) = []" "pushed n = {0}" "\<not> io_drained n" "length (opt_rows (db_mem db)) < 10000"
    using sample_session by (elim exE conjE) (rule that)
  have r3: "roomy 3 db" using s(4) by (simp add: roomy_def)
  let ?n1 = "n\<lparr>srv := Cleanup_begin (srv n)\<rparr>"
  have c: "executor_db (srv ?n1) = Some db" "workers (thread_pool (srv ?n1)) = Running t # replicate 7 Waiting" "pool_tasks (thread_pool (srv ?n1)) = []"
    "pool_stop (thread_pool (srv ?n1))" "pushed ?n1 = {0}"
    using s(2,9-11) by (simp_all add: Cleanup_db) (simp_all add: Cleanup_begin_def Let_def close_listen_def RemoveEpollEvent_def on_krnl_def Shutdown_begin_def)
  have "main_step Silent (Serving n) (Joining ?n1)" by (rule main_step.loop_exit [OF s(12), of "Some (EINTR + 1)"]) simp
  moreover have "steady (Serving n) Silent" using s(2,6) r3 by (simp add: steady_def)
  ultimately have m1: "main_run steady (Opening empty_fs) (labs @ [Silent]) (Joining ?n1)" using main_run.continues [OF s(1)] by blast
  let ?w = "with_scripts [] [] [] [] [] (srv ?n1)"
  let ?n2 = "?n1\<lparr>srv := (task_wake ?w)\<lparr>thread_pool := worker_done 0 (thread_pool ?w)\<rparr>, pushed := pushed ?n1 - {0}\<rparr>"
  have "worker_step Silent ?n1 ?n2" by (rule worker_step.work_end [OF refl]) (simp add: c(5) del: net.simps) 
  moreover have "steady (Joining ?n1) Silent" using c(1) s(6) r3 by (simp add: steady_def)
  ultimately have m2: "main_run steady (Opening empty_fs) ((labs @ [Silent]) @ [Silent]) (Joining ?n2)"
    using main_run.continues [OF m1] main_step.finish_tasks by blast
  have d: "executor_db (srv ?n2) = Some db" "workers (thread_pool (srv ?n2)) = Waiting # replicate 7 Waiting" "pool_tasks (thread_pool (srv ?n2)) = []"
    "pool_stop (thread_pool (srv ?n2))" "subs ?n2 = [t]"
    using c(1-4) s(7) by (simp_all add: worker_done_def task_wake_def on_krnl_def)
  obtain labs' n' where "main_run steady (Opening empty_fs) labs' (Joining n')" "joined (thread_pool (srv n'))" "executor_db (srv n') = executor_db (srv ?n2)"
    "executed labs' = executed ((labs @ [Silent]) @ [Silent])" "subs n' = subs ?n2"
    using workers_leave [OF m2 d(4,3)] d(1,2) s(6) r3 by auto
  then show ?thesis using d(1,5) s(3-6,8,13) by (intro exI [of _ labs'] exI [of _ n'] exI [of _ db] exI [of _ t]) (simp add: executed_def)
qed

section \<open>Properties\<close>

lemma main_run_session:
  assumes "opens_clean m0 fs" "main_run steady (Opening fs) labs p" "phase_db p = Some db"
  shows "session_inv m0 labs db"
  using main_run_inv [OF assms(2,1)] assms(3) by (cases p) (auto simp: has_session_def)

text \<open>
  C5: what the server answered survives a kill. The directory was one that opens without leftover
  logs and stray tables, holding \<open>m0\<close>, and the run had no exceptions and room in its files. In
  whatever state the program is (serving, waiting for its workers, before the database is closed),
  and however far the critical sections of further commands, of a flush and of merges then got, the
  responses given so far are those of the executed commands on a map that starts as \<open>m0\<close>; and when the
  program is killed there, with no compaction in progress or at least no table file while the manifest
  lists none, opening the directory again succeeds and shows the map these commands lead to,
  with the writes of unfinished commands that reached the log.
\<close>

theorem served_data_survives_crash:
  assumes "opens_clean m0 fs" "main_run steady (Opening fs) labs p" "phase_db p = Some db"
    and "reach (idle db) ws s" "fits (sys_db s)" "tasks s = [] \<or> no_orphans (sys_db s)" "junk_ok junk"
  shows "map snd (executed labs) = map reply_bytes (fst (kv_run (map fst (executed labs)) m0)) \<and>
    (\<exists>db'. new_DBImpl junk coin (db_dir (sys_db s)) = Some db' \<and> db_inv db' \<and>
      (\<forall>key. DBImpl_Get db' key = Some (as_value (apply_writes ws (snd (kv_run (map fst (executed labs)) m0)) key))))"
proof -
  have i: "db_inv db" "wal_inv db" "tables_in {} db" and e: "map snd (executed labs) = map reply_bytes (fst (kv_run (map fst (executed labs)) m0))"
    "view db = snd (kv_run (map fst (executed labs)) m0)"
    using main_run_session [OF assms(1-3)] by (simp_all add: session_inv_def durable_def)
  have r: "db_inv (sys_db s)" "view (sys_db s) = apply_writes ws (view db)"
    using reach_inv [OF assms(4) i(1)] by (auto simp: sys_inv_def)
  have "no_orphans (sys_db s)"
    using assms(6) reach_tables_inv [OF assms(4) i(1,3)] tables_in_no_orphans by (auto simp: tables_inv_def)
  then obtain db' where "new_DBImpl junk coin (db_dir (sys_db s)) = Some db'" "db_inv db'" "view db' = view (sys_db s)"
    using crash_recovery_aux [OF r(1) reach_wal_inv [OF assms(4) i(1,2)] _ assms(5,7), of coin] by blast
  then show ?thesis using e r(2) DBImpl_Get_view db_invD(1) by metis
qed

theorem served_data_survives_crash_witness:
  "\<exists>labs n db s db'. main_run steady (Opening empty_fs) labs (Serving n) \<and> executor_db (srv n) = Some db \<and>
     reach (idle db) [] s \<and> writer s = Some sample_row \<and>
     new_DBImpl sample_junk (\<lambda>_. False) (db_dir (sys_db s)) = Some db' \<and> DBImpl_Get db' ''k'' = Some (Some \<lparr>vtype = kValue, rvalue = ''v''\<rparr>)"
proof -
  obtain labs n db t where s: "main_run steady (Opening empty_fs) labs (Serving n)" "executor_db (srv n) = Some db" "map fst (executed labs) = [sample_set]"
    "roomy 4 db" "length (opt_rows (db_mem db)) < 10000"
    using sample_session by (elim exE conjE) (rule that)
  have d: "phase_db (Serving n) = Some db" using s(2) by simp
  have inv: "db_inv db" using main_run_session [OF empty_opens_clean s(1) d] by (simp add: session_inv_def)
  obtain m where m: "db_mem db = Some m" using db_invD(2) [OF inv] by blast
  have "MemTable_Count m < memtable_limit"
    using m s(5) db_invD(1) [OF inv] by (simp add: MemTable_Count_small parts_fine_def mem_fine_def memtable_limit_def opt_rows_def)
  then have r: "Put_rotate db = Some (RotateDone db)" using m by (simp add: Put_rotate_def)
  let ?s = "(idle db)\<lparr>sys_db := db, writer := Some sample_row\<rparr>"
  have "step None (idle db) ?s" by (rule step.put_begin) (simp_all add: idle_def r sample_ok(1,2))
  moreover have "fits (sys_db (idle db))" using roomy_fits [OF s(4)] by (simp add: idle_def)
  ultimately have run: "reach (idle db) [] ?s" using reach.silent [OF reach.start] by blast
  have "tasks ?s = []" by (simp add: tasks_def idle_def)
  moreover have "fits (sys_db ?s)" using roomy_fits [OF s(4)] by simp
  ultimately obtain db' where "new_DBImpl sample_junk (\<lambda>_. False) (db_dir (sys_db ?s)) = Some db'"
    "DBImpl_Get db' ''k'' = Some (as_value (apply_writes [] (snd (kv_run [sample_set] Map.empty)) ''k''))"
    using served_data_survives_crash [OF empty_opens_clean s(1) d run _ _ sample_ok(4), of "\<lambda>_. False"] unfolding s(3) by blast
  then show ?thesis
    using s(1,2) run unfolding sample_map
    by (intro exI [of _ labs] exI [of _ n] exI [of _ db] exI [of _ ?s] exI [of _ db']) (simp add: as_value_def apply_writes_def)
qed

text \<open>
  C6: a session that ends leaves a directory the next one can trust. It was started on a directory that
  opens without leftover logs and stray tables, and ran without exceptions and with room in its files.
  When \<open>main\<close> leaves its \<open>try\<close> block, with exit code 0 after serving or 1 after a failed start, no
  descriptor is open; if the immutable memtable was flushed and the active one has fewer than
  \<open>2 ^ 31\<close> rows, the program ends with that exit code, and the directory opens again without leftover
  logs and stray tables and holds exactly the map the executed commands lead to.
\<close>

theorem served_session_ends_clean:
  assumes "opens_clean m0 fs" "main_run steady (Opening fs) labs (Leaving code s)"
    and "executor_db s = Some db" "db_imm db = None" "roomy 4 db" "length (opt_rows (db_mem db)) < 2 ^ 31"
  shows "open_fds (krnl s) = {} \<and> (\<exists>fs'. main_step Silent (Leaving code s) (Exited_main code (Some fs')) \<and>
    opens_clean (snd (kv_run (map fst (executed labs)) m0)) fs')"
proof -
  have i: "db_inv db" "wal_inv db" "tables_in {} db" "view db = snd (kv_run (map fst (executed labs)) m0)"
    using main_run_session [OF assms(1,2)] assms(3) by (simp_all add: session_inv_def durable_def)
  have fd: "open_fds (krnl s) = {}" using main_run_inv [OF assms(2,1)] by simp
  have c: "\<exists>fs' d. close_DBImpl db = Some fs' \<and> new_DBImpl junk coin fs' = Some d \<and> db_inv d \<and> durable d \<and> view d = view db" if "junk_ok junk" for junk coin
    using close_session [OF i(1-3) assms(4,5) that assms(6), of coin] by (auto simp: durable_def)
  obtain fs' where fs': "close_DBImpl db = Some fs'" using c [OF sample_ok(4)] by blast
  have "main_end code s = Exited_main code (Some fs')" by (simp add: main_end_def assms(3) fs')
  then have "main_step Silent (Leaving code s) (Exited_main code (Some fs'))" using main_step.closing_db [of code s] by simp
  moreover have "opens_clean (snd (kv_run (map fst (executed labs)) m0)) fs'"
    using c fs' i(4) unfolding opens_clean_def by fastforce
  ultimately show ?thesis using fd by blast
qed

theorem served_session_ends_clean_witness:
  "\<exists>labs s fs'. main_run steady (Opening empty_fs) labs (Leaving 0 s) \<and> main_step Silent (Leaving 0 s) (Exited_main 0 (Some fs')) \<and>
     opens_clean [''k'' \<mapsto> ''v''] fs'"
proof -
  obtain labs n db t where s: "main_run steady (Opening empty_fs) labs (Joining n)" "joined (thread_pool (srv n))" "executor_db (srv n) = Some db"
    "map fst (executed labs) = [sample_set]" "roomy 4 db" "db_imm db = None" "\<not> bg_stopped db" "length (opt_rows (db_mem db)) < 10000"
    using sample_joined by (elim exE conjE) (rule that)
  let ?s = "delete_TcpServer (Cleanup_end (srv n))"
  have "steady (Joining n) Silent" using s(3,5,7) by (simp add: steady_def roomy_def)
  then have r: "main_run steady (Opening empty_fs) (labs @ [Silent]) (Leaving 0 ?s)"
    using main_run.continues [OF s(1)] main_step.run_returns [OF s(2)] by blast
  have d: "executor_db ?s = Some db" by (simp add: delete_db Cleanup_db s(3))
  have small: "length (opt_rows (db_mem db)) < 2 ^ 31" using s(8) by simp
  obtain fs' where "main_step Silent (Leaving 0 ?s) (Exited_main 0 (Some fs'))"
    "opens_clean (snd (kv_run (map fst (executed labs)) Map.empty)) fs'"
    using served_session_ends_clean [OF empty_opens_clean r d s(6,5) small] by auto
  then show ?thesis
    using r unfolding s(4) sample_map by (intro exI [of _ "labs @ [Silent]"] exI [of _ ?s] exI [of _ fs'] conjI)
qed












end
