(* ===== verification/TcpShutdown.thy ===== *)
theory TcpShutdown
  imports TcpHistory
begin

text \<open>
  The server after \<open>Stop\<close>: what holds in every state between the call and the end of the event
  loop, whatever the workers, the clients and further calls of \<open>Stop\<close> do meanwhile.
\<close>

section \<open>Orderly handlers\<close>

text \<open>
  What a handler that neither accepts nor reads does: it opens nothing, reopens no connection and,
  while the server is stopping, it takes the last connection away only together with \<open>running_\<close>.
\<close>

definition orderly :: "TcpServer \<Rightarrow> TcpServer \<Rightarrow> bool" where
  "orderly s s' \<longleftrightarrow> inputs_kept s s' \<and> stopping s' = stopping s \<and> listen_fd s' = listen_fd s \<and> (running s' \<longrightarrow> running s) \<and>
     (stopping s \<and> listen_fd s < 0 \<and> connections s \<noteq> [] \<and> connections s' = [] \<longrightarrow> \<not> running s')"

lemma orderly_same:
  "connections s' = connections s \<Longrightarrow> stopping s' = stopping s \<Longrightarrow> listen_fd s' = listen_fd s \<Longrightarrow> (running s' \<Longrightarrow> running s) \<Longrightarrow>
   orderly s s'"
  by (auto simp: orderly_def intro: inputs_kept_same)

lemma finish_running: "running (MaybeFinishShutdown s) \<Longrightarrow> running s"
  by (auto simp: MaybeFinishShutdown_def WakeEventLoop_def on_krnl_def split: if_splits)

lemma Close_running:
  assumes "running (CloseConnection fd s)"
  shows "running s" "stopping s \<Longrightarrow> listen_fd s < 0 \<Longrightarrow> connections s \<noteq> [] \<Longrightarrow> connections (CloseConnection fd s) \<noteq> []"
proof -
  let ?t = "erase_conn fd (on_krnl (sys_close fd) (RemoveEpollEvent fd s))"
  have t: "running ?t = running s" "stopping ?t = stopping s" "listen_fd ?t = listen_fd s"
    by (simp_all add: erase_conn_def on_krnl_def RemoveEpollEvent_def)
  have C: "CloseConnection fd s = s \<or> CloseConnection fd s = MaybeFinishShutdown ?t"
    by (simp add: CloseConnection_def split: option.split)
  show "running s" using C assms finish_running [of ?t] t(1) by metis
  show "connections (CloseConnection fd s) \<noteq> []" if "stopping s" "listen_fd s < 0" "connections s \<noteq> []"
    using C assms that finish_stops [of ?t] t finish_fields(1) [of ?t] by metis
qed

lemma orderly_Close: "orderly s (CloseConnection fd s)"
  unfolding orderly_def using inputs_kept_Close Close_running [of fd s] Close_fields(3,4) [of fd s] by blast

interpretation orderly: handler_rel orderly
proof (unfold_locales, goal_cases)
  case (2 s t u)
  then show ?case unfolding orderly_def using inputs_kept_trans by metis
next
  case (5 s fd c d)
  then have "inputs_kept s (set_conn fd d s)" by (rule kept.conn)
  then show ?case by (simp add: orderly_def) (simp add: set_conn_def)
next
  case (7 s)
  show ?case by (rule orderly_same) (simp_all add: finish_running)
qed (auto intro: orderly_same orderly_Close)

section \<open>A stopping server\<close>

text \<open>
  While the server is stopping its listening socket is closed, all connections are closing, and the
  event loop runs only as long as one of them is left.
\<close>

definition winding_down :: "TcpServer \<Rightarrow> bool" where
  "winding_down s \<longleftrightarrow> listen_fd s < 0 \<and> (\<forall>fd c. map_of (connections s) fd = Some c \<longrightarrow> closing c) \<and>
     (running s \<longrightarrow> connections s \<noteq> [])"

lemma winding_down_orderly:
  assumes "orderly s s'" "stopping s \<longrightarrow> winding_down s"
  shows "stopping s' \<longrightarrow> winding_down s'"
proof
  assume st: "stopping s'"
  then have w: "winding_down s" "stopping s" using assms by (simp_all add: orderly_def)
  have "closing d" if "map_of (connections s') fd = Some d" for fd d
    using that assms(1) w(1) unfolding orderly_def inputs_kept_def winding_down_def input_step_def by blast
  then show "winding_down s'" using assms(1) w unfolding orderly_def winding_down_def by auto
qed

lemma winding_down_Stop:
  assumes "distinct (map fst (connections s))" "running s" "\<not> stopping s"
  shows "winding_down (Stop s)"
  using stop_begins_shutdown [OF assms] by (auto simp: winding_down_def)

lemma orderly_Stop: "\<not> running s \<or> stopping s \<Longrightarrow> orderly s (Stop s)"
  by (auto simp: Stop_def orderly.same orderly.wake)

text \<open>A stopping server reads nothing: \<open>HandleRead\<close> returns at once for a closing connection.\<close>

lemma winding_down_event:
  assumes "winding_down s" "HandleConnectionEvent fd ev s = Some s'"
  shows "orderly s s'" "new_tasks s s' = []" "note_read fd ev s rcv = rcv"
proof -
  have cl: "closing c" if "map_of (connections s) fd = Some c" for c using assms(1) that by (auto simp: winding_down_def)
  have "HandleRead fd s = Some s" using cl by (simp add: HandleRead_def split: option.split)
  then have "s' \<in> {s, CloseConnection fd s, HandleWrite fd s}"
    using assms(2) by (auto simp: HandleConnectionEvent_def split: if_splits)
  then have "orderly s s' \<and> apart s s'"
    using orderly.same orderly.close orderly.handle_write apart.same apart.close apart.handle_write by auto
  then show "orderly s s'" "new_tasks s s' = []" by (simp_all add: new_tasks_def apart_def)
  show "note_read fd ev s rcv = rcv" using cl by (auto simp: note_read_def split: option.split list.split sum.split)
qed

lemma orderly_worker: "worker_step lab n n' \<Longrightarrow> orderly (srv n) (srv n')"
  by (induction rule: worker_step.induct) (auto intro!: orderly_same simp: push_completed_def task_wake_def on_krnl_def)

lemma worker_input: "worker_step lab n n' \<Longrightarrow> subs n' = subs n \<and> received n' = received n"
  by (induction rule: worker_step.induct) simp_all

lemma orderly_scripts: "orderly (with_scripts ctl acc rd wr intr s) s' \<Longrightarrow> orderly s s'"
  by (rule orderly.trans [OF orderly_same]) simp_all

lemma stopping_step:
  assumes "net_step lab n n'" "stopping (srv n)" "winding_down (srv n)"
  shows "orderly (srv n) (srv n') \<and> subs n' = subs n \<and> received n' = received n"
  using assms
proof (induction rule: net_step.induct)
  case (connection s ctl acc rd wr intr n fd ev s')
  have "winding_down s" using connection(1,9) by (simp add: winding_down_def)
  from winding_down_event [OF this connection(7)] show ?case using connection(1) orderly_scripts by simp
next
  case (process s ctl acc rd wr intr n s')
  have "orderly s s'" by (rule orderly.completions [OF process(3)])
  then show ?case using process(1) orderly_scripts by simp
next
  case (stop s ctl acc rd wr intr n)
  have "orderly s (Stop s)" by (rule orderly_Stop) (use stop in simp)
  then show ?case using stop(1) orderly_scripts by simp
next
  case (worker lab n n')
  then show ?case using orderly_worker worker_input by blast
next
  case (drain s ctl acc rd wr intr n)
  then show ?case by (auto intro!: orderly_same simp: completions_drain_def on_krnl_def)
qed (simp add: winding_down_def)

lemma stopping_reach:
  "net_reach Q n n' \<Longrightarrow> stopping (srv n) \<Longrightarrow> winding_down (srv n) \<Longrightarrow>
   orderly (srv n) (srv n') \<and> stopping (srv n') \<and> winding_down (srv n') \<and> subs n' = subs n \<and> received n' = received n"
proof (induction rule: net_reach.induct)
  case (more n1 lab n2)
  then have i: "orderly (srv n) (srv n1)" "stopping (srv n1)" "winding_down (srv n1)" "subs n1 = subs n" "received n1 = received n" by simp_all
  note st = stopping_step [OF more(3) i(2,3)]
  have "stopping (srv n2)" using st i(2) by (simp add: orderly_def)
  then show ?case using st i orderly.trans [OF i(1)] winding_down_orderly [of "srv n1" "srv n2"] by simp
qed (simp add: orderly.same)

text \<open>
  C31: \<open>Stop\<close> is final. When it is called on a running server, connections with nothing left to send
  are closed at once and the others are registered for output. In every later state, whatever the
  clients, the workers, failing system calls and further calls of \<open>Stop\<close> do, the listening socket is
  closed, no connection is there that was not there before the call and none of them reads; not one
  byte was read and not one request submitted since; and the event loop has ended if no connection is
  left.
\<close>

theorem stop_is_final:
  assumes "new_server_started db k env s0" "net_reach Q (start_net s0) n" "running (srv n)" "\<not> stopping (srv n)"
    and "net_reach Q' (n\<lparr>srv := Stop (srv n)\<rparr>) n'"
  shows "(\<forall>fd c. map_of (connections (Stop (srv n))) fd = Some c \<longrightarrow> \<not> IsConnectionDrained c \<and>
      interest (krnl (Stop (srv n))) fd = Some (EPOLLRDHUP OR EPOLLOUT)) \<and>
    stopping (srv n') \<and> listen_fd (srv n') < 0 \<and> received n' = received n \<and> subs n' = subs n \<and>
    (\<forall>fd c. map_of (connections (srv n')) fd = Some c \<longrightarrow> closing c \<and>
       (\<exists>b. map_of (connections (srv n)) fd = Some b \<and> generation b = generation c)) \<and>
    (connections (srv n') = [] \<longrightarrow> \<not> running (srv n'))"
proof -
  have "net_inv n" by (rule net_reach_inv [OF assms(2) Start_inv [OF assms(1)]])
  then have d: "distinct (map fst (connections (srv n)))" using net_invD(1) by (simp add: conns_ok_def shape_def)
  note B = stop_begins_shutdown [OF d assms(3,4)]
  note R = stopping_reach [OF assms(5), simplified, OF B(1) winding_down_Stop [OF d assms(3,4)]]
  have "inputs_kept (srv n) (Stop (srv n))" by (rule kept.stop [OF d inputs_kept_same]) simp
  then have k: "inputs_kept (srv n) (srv n')" using R inputs_kept_trans by (simp add: orderly_def)
  have "\<exists>b. map_of (connections (srv n)) fd = Some b \<and> generation b = generation c" if "map_of (connections (srv n')) fd = Some c" for fd c
    using k that unfolding inputs_kept_def input_step_def by metis
  moreover have "listen_fd (srv n') < 0" "\<And>fd c. map_of (connections (srv n')) fd = Some c \<Longrightarrow> closing c"
    "connections (srv n') = [] \<longrightarrow> \<not> running (srv n')"
    using R by (auto simp: winding_down_def)
  ultimately show ?thesis using R B(3) by (intro conjI allI impI) simp_all
qed

theorem stop_is_final_witness:
  "\<exists>n n'. net_reach (\<lambda>_ _. True) (start_net (sample_server None)) n \<and> map wt_command (subs n) = [[''GET'']] \<and> running (srv n) \<and>
     net_step Silent (n\<lparr>srv := Stop (srv n)\<rparr>) n' \<and> listen_fd (srv n') < 0 \<and> subs n' = subs n"
proof -
  obtain n where n: "net_reach (\<lambda>_ _. True) (start_net (sample_server None)) n" "running (srv n)" "map wt_command (subs n) = [[''GET'']]"
    "\<not> stopping (srv n)"
    using sample_get by (elim exE conjE) (rule that)
  let ?n1 = "n\<lparr>srv := Stop (srv n)\<rparr>"
  let ?n2 = "?n1\<lparr>srv := Stop (with_scripts [] [] [] [] [] (srv ?n1))\<rparr>"
  have st: "net_step Silent ?n1 ?n2" by (rule net_step.stop [OF refl])
  have "net_reach (\<lambda>_ _. True) ?n1 ?n2" by (rule net_reach.more [OF net_reach.start TrueI st])
  from stop_is_final [OF sample_started n(1,2,4) this] have "listen_fd (srv ?n2) < 0 \<and> subs ?n2 = subs n" by (elim conjE) (intro conjI)
  then show ?thesis using st n(1-3) by (intro exI [of _ n] exI [of _ ?n2] conjI) simp_all
qed

end
