(* ===== verification/TcpOrder.thy ===== *)
theory TcpOrder
  imports TcpHistory
begin

text \<open>
  The order of effects. The responses of a connection are always in the order of its requests; the
  commands take effect in that order when the client waits for each response before it sends the
  next request, and need not when it does not.
\<close>

section \<open>Clients that wait\<close>

text \<open>The executed requests of a connection, and the number of those not executed yet.\<close>

definition gen_execs :: "u64 \<Rightarrow> net \<Rightarrow> WorkerTask list" where
  "gen_execs g n = gen_tasks g (map fst (execs n))"

definition outstanding :: "u64 \<Rightarrow> net \<Rightarrow> nat" where
  "outstanding g n = length (gen_tasks g (subs n)) - length (gen_execs g n)"

lemma net_step_history:
  "net_step lab n n' \<Longrightarrow> (\<exists>new. subs n' = subs n @ new \<and> execs n' = execs n) \<or> (\<exists>e. subs n' = subs n \<and> execs n' = execs n @ [e])"
  by (induction rule: net_step.induct) (auto elim: worker_step.cases)

lemma gen_execs_subset: "net_inv n \<Longrightarrow> mset (gen_execs g n) \<subseteq># mset (gen_tasks g (subs n))"
  using net_invD(2) [of n] by (auto simp: task_inv_def gen_execs_def gen_tasks_def mset_filter intro!: multiset_filter_mono)

lemma in_order_step:
  assumes "net_step lab n n'" "net_inv n'" "outstanding g n \<le> 1" "gen_tasks g (subs n) = gen_execs g n @ later"
  shows "\<exists>later'. gen_tasks g (subs n') = gen_execs g n' @ later'"
  using net_step_history [OF assms(1)]
proof (elim disjE exE conjE)
  fix new assume "subs n' = subs n @ new" "execs n' = execs n"
  then show ?thesis using assms(4) by (simp add: gen_execs_def gen_tasks_append)
next
  fix e assume e: "subs n' = subs n" "execs n' = execs n @ [e]"
  show ?thesis
  proof (cases "wt_generation (fst e) = g")
    case True
    then have g: "gen_execs g n' = gen_execs g n @ [fst e]" using e(2) by (simp add: gen_execs_def gen_tasks_def)
    have "mset (gen_execs g n) + {#fst e#} \<subseteq># mset (gen_execs g n) + mset later"
      using gen_execs_subset [OF assms(2), of g] e(1) by (simp add: g assms(4))
    then have "fst e \<in> set later" by simp
    moreover have "length later \<le> 1" using assms(3,4) by (simp add: outstanding_def)
    ultimately have "later = [fst e]" by (cases later) auto
    then show ?thesis using g e(1) assms(4) by simp
  next
    case False
    then have "gen_execs g n' = gen_execs g n" using e(2) by (simp add: gen_execs_def gen_tasks_def)
    then show ?thesis using e(1) assms(4) by simp
  qed
qed

lemma in_order_reach:
  "net_reach Q n0 n \<Longrightarrow> net_inv n0 \<Longrightarrow> gen_tasks g (subs n0) = [] \<Longrightarrow> execs n0 = [] \<Longrightarrow> (\<And>m lab. Q m lab \<Longrightarrow> outstanding g m \<le> 1) \<Longrightarrow>
   \<exists>later. gen_tasks g (subs n) = gen_execs g n @ later"
proof (induction rule: net_reach.induct)
  case start
  then show ?case by (simp add: gen_execs_def gen_tasks_def)
next
  case (more n lab n')
  have "net_inv n'" by (rule net_reach_inv [OF net_reach.more [OF more(1-3)] more(5)])
  moreover obtain later where "gen_tasks g (subs n) = gen_execs g n @ later" using more(4-8) by blast
  ultimately show ?case using in_order_step [OF more(3)] more(2,8) by blast
qed

lemma kv_run_append: "fst (kv_run (cs @ ds) m) = fst (kv_run cs m) @ fst (kv_run ds (snd (kv_run cs m)))"
  by (induction cs arbitrary: m) (simp_all add: split_beta)

lemma length_kv_run [simp]: "length (fst (kv_run cs m)) = length cs"
  by (induction cs arbitrary: m) (simp_all add: split_beta)

text \<open>A response recorded for the task at a position of a list of executions is the one at that position.\<close>

lemma exec_at:
  assumes "T = map fst E @ later" "distinct T" "i < length T" "(T ! i, r) \<in> set E"
  shows "i < length E \<and> snd (E ! i) = r"
proof -
  obtain j where j: "j < length E" "E ! j = (T ! i, r)" using assms(4) by (auto simp: in_set_conv_nth)
  have "T ! j = T ! i" using j assms(1) by (auto simp: nth_append)
  moreover have "j < length T" using j(1) assms(1) by auto
  ultimately have "j = i" using assms(2,3) nth_eq_iff_index_eq by metis
  then show ?thesis using j by simp
qed

text \<open>
  C8: a client that waits is served in order. While at most one request of a connection is submitted
  and not executed (which a client ensures by sending a request only after the response to the one
  before), the commands of the connection take effect in the order in which it sent them, whatever
  other connections do. If it is the only client, the bytes it was sent and those about to be sent are
  the replies which its requests get one after the other on a map that starts with the contents of the
  database: the server is a map.
\<close>

theorem waiting_client_in_order:
  assumes "new_server_started (Some db0) k env s0" "db_inv db0"
    and "net_reach (\<lambda>m lab. calm m lab \<and> outstanding g m \<le> 1) (start_net s0) n"
    and "map_of (connections (srv n)) fd = Some conn" "generation conn = g"
    and "\<forall>r\<in>set reqs. request_ok r" "concat (received n g) @ rest = concat (map array_bytes reqs)"
  shows "(\<exists>later. reqs = map wt_command (gen_execs g n) @ later) \<and>
    ((\<forall>t\<in>set (subs n). wt_generation t = g) \<longrightarrow>
     (\<exists>j\<le>length reqs. wire (krnl (srv n)) fd @ Peek (output_buffer conn) =
        concat (map reply_bytes (take j (fst (kv_run reqs (view db0)))))))"
proof -
  let ?T = "gen_tasks g (subs n)"
  have inv0: "net_inv (start_net s0)" by (rule Start_inv [OF assms(1)])
  have inv: "net_inv n" by (rule net_reach_inv [OF assms(3) inv0])
  have hist: "hist_inv n" by (rule net_reach_hist [OF assms(3) inv0 hist_inv_start [OF assms(1)]])
  note A = input_answered [OF inv hist assms(4), unfolded assms(5), OF assms(6,7)]
  obtain later where T: "?T = gen_execs g n @ later"
    using in_order_reach [OF assms(3) inv0, of g] by (auto simp: start_net_def gen_tasks_def)
  obtain more where reqs: "reqs = map wt_command ?T @ more" using A(1) by blast
  have "\<exists>j\<le>length reqs. wire (krnl (srv n)) fd @ Peek (output_buffer conn) = concat (map reply_bytes (take j (fst (kv_run reqs (view db0)))))"
    if only: "\<forall>t\<in>set (subs n). wt_generation t = g"
  proof -
    have ti: "task_inv n" by (rule net_invD(2) [OF inv])
    have E: "gen_execs g n = map fst (execs n)" using only execs_subset(1) [OF ti] by (force simp: gen_execs_def gen_tasks_def filter_id_conv)
    have "distinct (map task_key (subs n))" using ti by (simp add: task_inv_def)
    then have dist: "distinct ?T" by (simp add: gen_tasks_def distinct_map)
    obtain rs where rs: "wire (krnl (srv n)) fd @ Peek (output_buffer conn) = concat rs" "length rs \<le> length ?T"
      "\<forall>i<length rs. (?T ! i, rs ! i) \<in> set (execs n)"
      using A(3) by blast
    have at: "i < length (execs n) \<and> snd (execs n ! i) = rs ! i" if "i < length rs" for i
      using exec_at [OF T [unfolded E] dist, of i "rs ! i"] rs(2,3) that by simp
    have len: "length rs \<le> length (execs n)" using at [of "length rs - 1"] by (cases "length rs") auto
    have "rs = take (length rs) (map snd (execs n))" using at len by (intro nth_equalityI) auto
    moreover have "kv_inv (view db0) n"
    proof -
      have "net_reach calm (start_net s0) n" by (rule net_reach_mono [OF assms(3)]) simp
      moreover have "executor_db s0 = Some db0" using assms(1) Start_fields(6) by (auto simp: new_server_started_def)
      then have "kv_inv (view db0) (start_net s0)" using assms(2) by (simp add: kv_inv_def start_net_def)
      ultimately show ?thesis using kv_inv_reach inv0 by blast
    qed
    then have "map snd (execs n) = map reply_bytes (fst (kv_run (map wt_command (gen_execs g n)) (view db0)))"
      by (auto simp: kv_inv_def E)
    ultimately have "rs = map reply_bytes (take (length rs) (fst (kv_run (map wt_command (gen_execs g n)) (view db0))))"
      by (simp add: take_map)
    also have "\<dots> = map reply_bytes (take (length rs) (fst (kv_run reqs (view db0))))"
      using len by (simp add: reqs T kv_run_append E)
    finally show ?thesis using rs(1,2) reqs by (intro exI [of _ "length rs"]) auto
  qed
  then show ?thesis using reqs T by auto
qed

theorem waiting_client_in_order_witness:
  "\<exists>db0 n c j. new_DBImpl sample_junk (\<lambda>_. False) empty_fs = Some db0 \<and>
     net_reach (\<lambda>m lab. calm m lab \<and> outstanding 1 m \<le> 1) (start_net (sample_server (Some db0))) n \<and>
     map_of (connections (srv n)) 7 = Some c \<and> map wt_command (gen_execs 1 n) = [[''GET'', ''k'']] \<and>
     wire (krnl (srv n)) 7 @ Peek (output_buffer c) = concat (map reply_bytes (take j [NullReply]))"
proof -
  obtain db0 n c t where n: "new_DBImpl sample_junk (\<lambda>_. False) empty_fs = Some db0" "db_inv db0" "view db0 = Map.empty"
    "net_reach (\<lambda>m lab. calm m lab \<and> length (subs m) \<le> 1) (start_net (sample_server (Some db0))) n"
    "map_of (connections (srv n)) 7 = Some c" "generation c = 1" "received n 1 = [array_bytes [''GET'', ''k'']]"
    "subs n = [t]" "map fst (execs n) = [t]" "wt_generation t = 1" "wt_command t = [''GET'', ''k'']" "request_ok [''GET'', ''k'']"
    using sample_get_key by (elim exE conjE) (rule that)
  have r: "net_reach (\<lambda>m lab. calm m lab \<and> outstanding 1 m \<le> 1) (start_net (sample_server (Some db0))) n"
    by (rule net_reach_mono [OF n(4)]) (use length_gen_tasks [of 1] in \<open>auto simp: outstanding_def intro: order_trans diff_le_self\<close>)
  have w: "\<exists>j\<le>length [[''GET'', ''k'']]. wire (krnl (srv n)) 7 @ Peek (output_buffer c) =
      concat (map reply_bytes (take j (fst (kv_run [[''GET'', ''k'']] (view db0)))))"
    using waiting_client_in_order [OF sample_started n(2) r n(5,6), of "[[''GET'', ''k'']]" "[]"] n(7,8,10,12) by simp
  obtain j where j: "wire (krnl (srv n)) 7 @ Peek (output_buffer c) = concat (map reply_bytes (take j [NullReply]))"
    using w unfolding n(3) kv_get_empty by blast
  have "gen_execs 1 n = [t]" using n(9,10) by (simp add: gen_execs_def gen_tasks_def)
  then show ?thesis using n(1,5,11) r j by (intro exI [of _ db0] exI [of _ n] exI [of _ c] exI [of _ j]) simp
qed

section \<open>Clients that do not wait\<close>

lemma sample_start_worker:
  assumes "i < worker_count n" "worker_at n i = Waiting" "pool_tasks (thread_pool (srv n)) = t # ts" "net_reach calm n0 n" "calm n Silent"
  shows "net_reach calm n0 (n\<lparr>srv := (srv n)\<lparr>thread_pool := (thread_pool (srv n))\<lparr>workers := (workers (thread_pool (srv n)))[i := Running t], pool_tasks := ts\<rparr>\<rparr>\<rparr>)"
  by (rule net_reach.more [OF assms(4,5)], rule net_step.worker, rule worker_step.work_start [OF assms(1,2)])
     (simp add: worker_wake_def assms(3))

lemma get_response_keeps:
  "task_response None coin [''GET'', key] (Some db) = Some (Some (resp, odb)) \<Longrightarrow> odb = Some db"
proof -
  have "NormalizeCommandName ''GET'' = ''GET''" by code_simp
  then show "task_response None coin [''GET'', key] (Some db) = Some (Some (resp, odb)) \<Longrightarrow> odb = Some db"
    by (auto simp: task_response_def Let_def Execute_dispatch dispatch_def HandleGet_def ExpectArgCount_cases split: bind_splits)
qed

text \<open>A state of the sample server with both requests of a client taken by workers.\<close>

lemma sample_two_taken:
  assumes db: "roomy 3 db0" "\<not> bg_stopped db0"
    and cmds: "request_ok a" "length (array_bytes a) \<le> extra_buffer_size" "request_ok b" "length (array_bytes b) \<le> extra_buffer_size"
  shows "\<exists>n t1 t2. net_reach calm (start_net (sample_server (Some db0))) n \<and> executor_db (srv n) = Some db0 \<and> execs n = [] \<and> pushed n = {} \<and>
    subs n = [t1, t2] \<and> wt_command t1 = a \<and> wt_command t2 = b \<and> received n 1 = [array_bytes a, array_bytes b] \<and>
    workers (thread_pool (srv n)) = Running t1 # Running t2 # replicate 6 Waiting"
proof -
  let ?n0 = "start_net (sample_server (Some db0))"
  have calm: "calm m Silent" if "executor_db (srv m) = Some db0" for m using that db by (simp add: calm_def)
  have "executor_db (srv ?n0) = Some db0" using Start_fields(6) sample_started by (metis new_server_started_def start_net_def net.select_convs(1))
  then obtain n1 where n1: "net_reach calm ?n0 n1" "sample_idle 0 n1" "execs n1 = []" "subs n1 = []" "pushed n1 = {}"
    "thread_pool (srv n1) = new_ThreadPool 8" "executor_db (srv n1) = Some db0" "received n1 = (\<lambda>_. [])"
    using sample_accept [of calm "Some db0", OF calm] by (auto simp: sample_idle_def new_ThreadPool_def)
  let ?t1 = "\<lparr>wt_fd = 7, wt_generation = 1, wt_seq = 0, wt_command = a\<rparr>" and ?t2 = "\<lparr>wt_fd = 7, wt_generation = 1, wt_seq = 1, wt_command = b\<rparr>"
  obtain n2 where n2: "net_step Silent n1 n2" "sample_idle 1 n2" "subs n2 = [?t1]" "pool_tasks (thread_pool (srv n2)) = [?t1]"
    "workers (thread_pool (srv n2)) = replicate 8 Waiting" "execs n2 = []" "pushed n2 = {}" "executor_db (srv n2) = Some db0" "received n2 1 = [array_bytes a]"
    using sample_request [OF n1(2) cmds(1,2)] n1 by (auto simp: new_ThreadPool_def)
  obtain n3 where n3: "net_step Silent n2 n3" "subs n3 = [?t1, ?t2]" "pool_tasks (thread_pool (srv n3)) = [?t1, ?t2]"
    "workers (thread_pool (srv n3)) = replicate 8 Waiting" "execs n3 = []" "pushed n3 = {}" "executor_db (srv n3) = Some db0"
    "received n3 1 = [array_bytes a, array_bytes b]"
    using sample_request [OF n2(2) cmds(3,4)] n2 by auto
  have r3: "net_reach calm ?n0 n3"
    by (rule net_reach.more [OF net_reach.more [OF n1(1) calm n2(1)] calm n3(1)]) (simp_all add: n1(7) n2(8))
  let ?n4 = "n3\<lparr>srv := (srv n3)\<lparr>thread_pool := (thread_pool (srv n3))\<lparr>workers := (workers (thread_pool (srv n3)))[0 := Running ?t1], pool_tasks := [?t2]\<rparr>\<rparr>\<rparr>"
  have r4: "net_reach calm ?n0 ?n4" by (rule sample_start_worker [OF _ _ n3(3) r3 calm]) (simp_all add: n3(4,7))
  let ?n5 = "?n4\<lparr>srv := (srv ?n4)\<lparr>thread_pool := (thread_pool (srv ?n4))\<lparr>workers := (workers (thread_pool (srv ?n4)))[1 := Running ?t2], pool_tasks := []\<rparr>\<rparr>\<rparr>"
  have r5: "net_reach calm ?n0 ?n5" by (rule sample_start_worker [OF _ _ _ r4 calm]) (simp_all add: n3(4,7))
  have "(replicate 8 Waiting)[0 := Running ?t1, 1 := Running ?t2] = Running ?t1 # Running ?t2 # replicate 6 Waiting" by (simp add: eval_nat_numeral)
  then show ?thesis using r5 n3 by (intro exI [of _ ?n5] exI [of _ ?t1] exI [of _ ?t2]) simp
qed

text \<open>
  C37: a client that sends a SET and a GET of the same key without waiting may be told that there is no
  such key: the worker that took the GET is faster than the one that took the SET. In the order of the
  requests the replies would be \<open>OK\<close> and the value.
\<close>

theorem pipelined_effects_reordered:
  "\<exists>db0 n t1 t2. new_DBImpl sample_junk (\<lambda>_. False) empty_fs = Some db0 \<and>
     net_reach calm (start_net (sample_server (Some db0))) n \<and> subs n = [t1, t2] \<and>
     wt_command t1 = [''SET'', ''k'', ''v''] \<and> wt_command t2 = [''GET'', ''k''] \<and>
     received n 1 = map array_bytes [wt_command t1, wt_command t2] \<and>
     execs n = [(t2, reply_bytes NullReply), (t1, reply_bytes (SimpleString ''OK''))] \<and>
     fst (kv_run [wt_command t1, wt_command t2] (view db0)) = [SimpleString ''OK'', BulkString ''v'']"
proof -
  obtain db0 where d: "new_DBImpl sample_junk (\<lambda>_. False) empty_fs = Some db0" "db_inv db0" "fits db0" "roomy 3 db0"
    "\<not> bg_stopped db0" "db_imm db0 = None" "view db0 = Map.empty"
    using sample_db by blast
  let ?set = "[''SET'', ''k'', ''v'']" and ?get = "[''GET'', ''k'']" and ?n0 = "start_net (sample_server (Some db0))"
  have ok: "command_ok ?set" "command_ok ?get" "request_ok ?set" "request_ok ?get" by (simp_all add: command_ok_def request_ok_def int64_max_def)
  have len: "length (array_bytes ?set) \<le> extra_buffer_size" "length (array_bytes ?get) \<le> extra_buffer_size"
    by (simp_all add: array_bytes_def bulk_bytes_def extra_buffer_size_def kCRLF_def) (simp_all add: to_string.simps)
  have free: "\<not> put_blocks db0" using d(6) by (simp add: put_blocks_def)
  have resp: "\<exists>resp odb. task_response None (\<lambda>_. False) cmd (Some db0) = Some (Some (resp, odb))" if "command_ok cmd" for cmd
    using Execute_answers [OF d(2,3) nb_ok_new that, of "\<lambda>_. False" initial_buffer_size] free
    by (auto simp: task_response_def Let_def RetrieveAllAsString_def)
  obtain r2 where r2: "task_response None (\<lambda>_. False) ?get (Some db0) = Some (Some (r2, Some db0))"
    using resp [OF ok(2)] get_response_keeps by blast
  obtain r1 odb where r1: "task_response None (\<lambda>_. False) ?set (Some db0) = Some (Some (r1, odb))" using resp [OF ok(1)] by blast
  obtain n t1 t2 where n: "net_reach calm ?n0 n" "executor_db (srv n) = Some db0" "execs n = []" "pushed n = {}" "subs n = [t1, t2]"
    "wt_command t1 = ?set" "wt_command t2 = ?get" "received n 1 = [array_bytes ?set, array_bytes ?get]"
    "workers (thread_pool (srv n)) = Running t1 # Running t2 # replicate 6 Waiting"
    using sample_two_taken [OF d(4,5) ok(3) len(1) ok(4) len(2)] by (elim exE conjE) (rule that)
  let ?n1 = "n\<lparr>srv := push_completed t2 r2 ((srv n)\<lparr>executor_db := Some db0\<rparr>), pushed := insert 1 (pushed n), execs := execs n @ [(t2, r2)]\<rparr>"
  have "net_step (Exec t2 r2) n ?n1"
    by (rule net_step.worker [OF worker_step.work_exec [of 1 _ _ "\<lambda>_. False"]]) (use r2 n in simp_all)
  from net_reach.more [OF n(1) _ this] have m1: "net_reach calm ?n0 ?n1" using n(2,7) ok(2) d(4,5) by (simp add: calm_def)
  let ?n2 = "?n1\<lparr>srv := push_completed t1 r1 ((srv ?n1)\<lparr>executor_db := odb\<rparr>), pushed := insert 0 (pushed ?n1), execs := execs ?n1 @ [(t1, r1)]\<rparr>"
  have "net_step (Exec t1 r1) ?n1 ?n2"
    by (rule net_step.worker [OF worker_step.work_exec [of 0 _ _ "\<lambda>_. False"]]) (use r1 n in \<open>simp_all add: push_completed_def\<close>)
  from net_reach.more [OF m1 _ this] have m2: "net_reach calm ?n0 ?n2"
    using n(6) ok(1) d(4,5) by (simp add: calm_def push_completed_def)
  have N: "NormalizeCommandName ''SET'' = ''SET''" "NormalizeCommandName ''GET'' = ''GET''" by code_simp+
  have a: "r2 = reply_bytes NullReply" "r1 = reply_bytes (SimpleString ''OK'')"
    using task_response_answers [OF d(2,3) ok(2) r2] task_response_answers [OF d(2,3) ok(1) r1]
    by (auto simp: d(7) kv_command_def known_commands_def argc_def N)
  have "fst (kv_run [?set, ?get] (view db0)) = [SimpleString ''OK'', BulkString ''v'']"
    by (simp add: d(7) kv_command_def known_commands_def argc_def N split_beta)
  then show ?thesis
    using m2 d(1) n(3,5-8) a by (intro exI [of _ db0] exI [of _ ?n2] exI [of _ t1] exI [of _ t2]) simp
qed

end
