(* ===== verification/Logger.thy ===== *)
theory Logger
  imports Decimal
begin

text \<open>
  The logger (\<open>include/Logger.h\<close>, \<open>src/Logger.cpp\<close>). Its global variables are a record: the level, the
  path of the open output file, and what has been written to the console and to each file. The text
  of the clock (\<open>NowString\<close>) and whether a file can be opened are parameters. Every operation runs
  under the mutex.
\<close>

section \<open>Levels\<close>

datatype LogLevel = Trace | Debug | Info | Warning | Error | Fatal | Off

fun level_number :: "LogLevel \<Rightarrow> nat" where
  "level_number Trace = 0"
| "level_number Debug = 1"
| "level_number Info = 2"
| "level_number Warning = 3"
| "level_number Error = 4"
| "level_number Fatal = 5"
| "level_number Off = 6"

instantiation LogLevel :: linorder
begin

definition less_eq_LogLevel :: "LogLevel \<Rightarrow> LogLevel \<Rightarrow> bool" where
  "less_eq_LogLevel a b \<longleftrightarrow> level_number a \<le> level_number b"

definition less_LogLevel :: "LogLevel \<Rightarrow> LogLevel \<Rightarrow> bool" where
  "less_LogLevel a b \<longleftrightarrow> level_number a < level_number b"

instance
proof
  fix a b c :: LogLevel
  show "(a < b) = (a \<le> b \<and> \<not> b \<le> a)" by (auto simp: less_eq_LogLevel_def less_LogLevel_def)
  show "a \<le> a" by (simp add: less_eq_LogLevel_def)
  show "a \<le> b \<Longrightarrow> b \<le> c \<Longrightarrow> a \<le> c" by (simp add: less_eq_LogLevel_def)
  show "a \<le> b \<Longrightarrow> b \<le> a \<Longrightarrow> a = b" by (cases a; cases b) (simp_all add: less_eq_LogLevel_def)
  show "a \<le> b \<or> b \<le> a" by (auto simp: less_eq_LogLevel_def)
qed

end

fun level_ToString :: "LogLevel \<Rightarrow> bytes" where
  "level_ToString Trace = ''TRACE''"
| "level_ToString Debug = ''DEBUG''"
| "level_ToString Info = ''INFO''"
| "level_ToString Warning = ''WARN''"
| "level_ToString Error = ''ERROR''"
| "level_ToString Fatal = ''FATAL''"
| "level_ToString Off = ''OFF''"

section \<open>Operations\<close>

record LoggerState =
  g_level :: LogLevel
  g_file :: "bytes option"
  console :: bytes
  log_files :: "bytes \<Rightarrow> bytes"

definition new_Logger :: LoggerState where
  "new_Logger = \<lparr>g_level = Info, g_file = None, console = [], log_files = (\<lambda>_. [])\<rparr>"

definition SetLevel :: "LogLevel \<Rightarrow> LoggerState \<Rightarrow> LoggerState" where
  "SetLevel level g = g\<lparr>g_level := level\<rparr>"

definition SetOutputFile :: "bool \<Rightarrow> bytes \<Rightarrow> LoggerState \<Rightarrow> LoggerState" where
  "SetOutputFile open_ok path g =
     (let g1 = (if g_file g \<noteq> None then g\<lparr>g_file := None\<rparr> else g)
      in if path \<noteq> [] then g1\<lparr>g_file := (if open_ok then Some path else None)\<rparr> else g1)"

definition log_line :: "bytes \<Rightarrow> LogLevel \<Rightarrow> bytes \<Rightarrow> bytes \<Rightarrow> int \<Rightarrow> bytes" where
  "log_line now level msg src line =
     ''['' @ now @ '']'' @ ''['' @ level_ToString level @ '']'' @ ''['' @ src @ '':'' @ int_to_string line @ ''] '' @ msg"

definition Log :: "bytes \<Rightarrow> LogLevel \<Rightarrow> bytes \<Rightarrow> bytes \<Rightarrow> int \<Rightarrow> LoggerState \<Rightarrow> LoggerState" where
  "Log now level msg src line g =
     (if g_level g = Off \<or> level < g_level g then g
      else
        let text = log_line now level msg src line @ [CHR 0x0A] in
        (case g_file g of
           Some path \<Rightarrow> g\<lparr>log_files := (log_files g)(path := log_files g path @ text)\<rparr>
         | None \<Rightarrow> g\<lparr>console := console g @ text\<rparr>))"

section \<open>What is written\<close>

record log_call =
  lc_now :: bytes
  lc_level :: LogLevel
  lc_msg :: bytes
  lc_src :: bytes
  lc_line :: int

definition Log_call :: "log_call \<Rightarrow> LoggerState \<Rightarrow> LoggerState" where
  "Log_call c = Log (lc_now c) (lc_level c) (lc_msg c) (lc_src c) (lc_line c)"

definition call_text :: "log_call \<Rightarrow> bytes" where
  "call_text c = log_line (lc_now c) (lc_level c) (lc_msg c) (lc_src c) (lc_line c) @ [CHR 0x0A]"

definition passes :: "LogLevel \<Rightarrow> log_call \<Rightarrow> bool" where
  "passes level c \<longleftrightarrow> level \<noteq> Off \<and> level \<le> lc_level c"

lemma Log_call_sink:
  "Log_call c g =
     (if \<not> passes (g_level g) c then g
      else case g_file g of
        Some path \<Rightarrow> g\<lparr>log_files := (log_files g)(path := log_files g path @ call_text c)\<rparr>
      | None \<Rightarrow> g\<lparr>console := console g @ call_text c\<rparr>)"
  by (auto simp: Log_call_def Log_def passes_def call_text_def Let_def not_le split: option.split)

text \<open>
  A sequence of calls appends to the open file, or else to the console, one line for each call at
  or above the level, in order, and nothing anywhere else.
\<close>

lemma Log_calls_written:
  "fold Log_call cs g =
     (let text = concat (map call_text (filter (passes (g_level g)) cs)) in
      case g_file g of
        Some path \<Rightarrow> g\<lparr>log_files := (log_files g)(path := log_files g path @ text)\<rparr>
      | None \<Rightarrow> g\<lparr>console := console g @ text\<rparr>)"
proof (induction cs arbitrary: g)
  case (Cons c cs)
  then show ?case by (cases "g_file g") (simp_all add: Log_call_sink Let_def)
qed (simp add: Let_def split: option.split)

lemma Log_calls_off: "g_level g = Off \<Longrightarrow> fold Log_call cs g = g"
  by (induction cs) (simp_all add: Log_call_sink passes_def)

text \<open>After \<open>SetOutputFile\<close> the lines go to the named file, which is appended to, never truncated.\<close>

lemma SetOutputFile_sink:
  "path \<noteq> [] \<Longrightarrow> g_file (SetOutputFile True path g) = Some path"
  "g_file (SetOutputFile False path g) = None" "g_file (SetOutputFile open_ok [] g) = None"
  "log_files (SetOutputFile open_ok path g) = log_files g"
  by (simp_all add: SetOutputFile_def Let_def)

end
