(* ===== verification/Spec2Isabelle.thy ===== *)
theory Spec2Isabelle
  imports ServerMain TcpShutdown TcpOrder Logger
begin

text \<open>
  \<^bold>\<open>NovaKV\<close> is an LSM-tree key-value store with a Redis-style TCP front end. This library models its
  C++ sources, below \<open>src/include\<close> and \<open>src/src\<close>, as HOL functions and step relations, and proves
  what the program promises: that a lookup answers with the last completed write under every
  interleaving of the threads, that the directory survives a crash, that the file formats round-trip,
  and that every client of the server gets the replies to its own requests, in their order.

  \<^bold>\<open>The program and its threads.\<close> A \<open>DBImpl\<close> owns an active \<open>MemTable\<close> (a \<open>SkipList\<close> plus a write-ahead
  log), at most one immutable memtable, two levels of sorted tables (\<open>SSTableReader\<close>) and a
  \<open>ManifestManager\<close> that records which tables and logs are alive. \<open>Put\<close> logs and inserts; a full
  memtable is rotated and a background thread writes it out as a level-0 table
  (\<open>MinorCompaction\<close>) and merges level 0 into level 1 (\<open>CompactionEngine\<close>). Opening a directory
  (\<open>RecoveryLoader\<close>) reads the manifest, opens the tables and replays the logs. A \<open>TcpServer\<close> runs an
  epoll loop over \<open>Connection\<close>s: it parses requests (\<open>RESPParser\<close>), hands them to a \<open>ThreadPool\<close>
  whose workers run the \<open>CommandExecutor\<close> against the database and encode the reply
  (\<open>RESPEncoder\<close>), and takes the replies back through a completion queue and an eventfd, sorting them
  by sequence number per connection before they are written.

  \<^bold>\<open>Theories and sources.\<close> Each theory names the functions of the source in the order of the file it
  models; a member function \<open>C::f\<close> is the definition \<open>f\<close>, or \<open>C_f\<close> where \<open>f\<close> alone would clash.
  A function that releases and retakes a lock is one definition per critical section
  (\<open>Put_rotate\<close>/\<open>Put_write\<close>, \<open>Minor_prepare\<close>/\<open>Minor_build\<close>/\<open>Minor_install\<close>,
  \<open>Compact_prepare\<close>/\<open>Compact_build\<close>/\<open>Compact_install\<close>, \<open>Cleanup_begin\<close>/\<open>Cleanup_end\<close>, \<open>Shutdown_begin\<close>/\<open>joined\<close>),
  and the step relations interleave these sections.

  \<^item> \<open>Prelude\<close>: byte strings, little-endian codecs, word lemmas and association lists; \<open>Decimal\<close>:
    \<open>std::to_string\<close> and \<open>std::stoull\<close>; \<open>FileSystem\<close>: a directory as an ordered list of named files.
  \<^item> \<open>Storage\<close> (\<open>ValueRecord.h\<close>, \<open>Storage.h\<close>), \<open>BloomFilter\<close> (\<open>BloomFilter.h\<close>), \<open>BlockBuilder\<close>,
    \<open>SSTableBuilder\<close> (with \<open>FileFormats.h\<close>) and \<open>SSTableReader\<close>: the table format. A written table is read back
    exactly, by lookups and by traversal, with no read outside the mapping; a failed \<open>Open\<close> leaks neither descriptor nor mapping.
  \<^item> \<open>WalHandler\<close>: the log with its CRC-32. A log is read back; a torn tail costs only the torn record;
    the table-driven CRC equals the bit-serial one.
  \<^item> \<open>SkipList\<close>, \<open>MemTable\<close>: nodes in an explicit heap with their forward pointers. Insertion, search and deletion
    are memory safe, keep the ordering invariant and refine a sorted association list
    (locale \<open>ordered_index\<close>, interpreted for both); the destructor frees every node exactly once.
  \<^item> \<open>ManifestManager\<close>: state, snapshot and edit log at byte level. The operations that write are given by
    their result and their sequence of file operations (\<open>RecordEdit_ops\<close> and so on, \<open>fs_op\<close> in \<open>FileSystem\<close>), and a crash
    stops such a sequence before one of its operations or within a stream write (\<open>crash_in\<close>). While the
    log can be opened the directory denotes the state in memory, and a crash inside an edit leaves the
    state before or after it.
  \<^item> \<open>DBIterator\<close>, \<open>CompactionEngine\<close>, \<open>RecoveryLoader\<close>, \<open>DBImpl\<close>: the database's operations.
    \<open>DBInv\<close> has the invariant \<open>db_inv\<close> and the abstraction \<open>view\<close> (the finite map the database
    shows); \<open>DBSteps\<close> the step relation of a writer, the background thread and further compactions
    (\<open>step\<close>, \<open>reach\<close>); \<open>DBRecovery\<close> the reopening of a directory after a crash; \<open>DBShutdown\<close> the destructor and
    the next start.
  \<^item> \<open>Logger\<close>: levels, the filter and the choice of sink.
  \<^item> \<open>NetworkBuffer\<close>, \<open>RESPEncoder\<close>, \<open>RESPParser\<close> (\<open>src/src/network\<close>): the buffer refines a queue of bytes (locale
    \<open>byte_queue\<close>); encoded replies without carriage returns in their line texts can be split in one way only; encoded requests are parsed back
    however the stream is cut.
  \<^item> \<open>CommandExecutor\<close>: every command refines an operation on a finite map.
  \<^item> \<open>ThreadPool\<close>: exactly-once execution in submission order and a terminating shutdown (locale
    \<open>task_queue\<close>).
  \<^item> \<open>TcpServer\<close> (with \<open>Connection.h\<close>): the definitions; \<open>TcpConn\<close> and \<open>TcpEvents\<close>: every handler keeps the
    invariant of the connections; \<open>TcpSteps\<close>: the interleaving of the event loop, the workers and the background
    thread (\<open>net_step\<close>, \<open>net_reach\<close>); \<open>TcpCorrect\<close>: its properties; \<open>TcpHistory\<close>: from the bytes a client sent to the
    responses it gets (with the locale \<open>handler_rel\<close> for relations that all handlers keep which do not read);
    \<open>TcpShutdown\<close>: what holds from \<open>Stop\<close> to the end of the event loop; \<open>TcpOrder\<close>: a client that waits for its responses sees
    a map, and a client that does not may see its requests take effect in another order.
  \<^item> \<open>ServerMain\<close> (\<open>server_main.cpp\<close>): the program from opening the database to its exit code (\<open>main_step\<close>, \<open>main_run\<close>),
    and what one session leaves to the next.
  \<^item> this theory: the properties of the database as a whole.

  \<^bold>\<open>Results.\<close> \<open>None\<close> is undefined behaviour (a null pointer, a read out of bounds, a signed overflow) or, in
    the database's constructor, an exception; theorems of the form \<open>f x = Some y\<close> therefore include its absence.
  Errors the code handles are ordinary values: the flag a function returns, a failed parse, an error reply.

  \<^bold>\<open>The outside world.\<close> What the program does not compute is a parameter: the coin tosses of the skip list,
  the bytes of uninitialised variables (\<open>junk\<close>), which files can be opened for writing (\<open>can_write\<close>: the
  operations have their failure branches, but the invariant \<open>db_inv\<close>, and with it every property of a database, is about directories whose files
  can all be opened for writing; \<open>failed_flush_stalls\<close> and \<open>record_crash_recovers\<close> describe two failures), and per call of the server the results of the
  system calls as finite scripts (bytes read, bytes accepted by \<open>write\<close>, accepted sockets,
  failures of \<open>epoll_ctl\<close>). An eventfd is a counter that is readable when it is not zero. The order of an
  \<open>unordered_map\<close> is the order of insertion; no property depends on it. The loops of the model terminate by
  a measure or by the length of their script, so no fuel is used.

  \<^bold>\<open>Bounds.\<close> Where a size must fit its field the theorems say so: \<open>row_ok\<close> and \<open>command_ok\<close> (lengths below
  \<open>2^32\<close>), \<open>fits\<close> and \<open>roomy\<close> (less than \<open>2^56\<close> bytes of data, \<open>2^32\<close> manifest entries, file
  numbers below \<open>2^64\<close>), memtables of fewer than \<open>2^31\<close> rows when the destructor asks for their number
  (the counter of the skip list is a 32-bit word that wraps), and for the server the \<open>2^64\<close> connection generations and request numbers.
  In the properties of the buffer and the parser one read from a socket brings at most 65536 bytes.
  The theorems about a crash and about a clean shutdown are about runs that started without leftover logs
  (\<open>wal_inv\<close>) and about directories without stray tables (\<open>no_orphans\<close>, \<open>tables_in\<close>);
  \<open>stale_log_resurrects\<close> shows why the first is needed. A shutdown is clean when the immutable memtable was flushed, which \<open>Sync\<close>
  waits for: the destructor drops one that was not, and leaves its log to the next start
  (\<open>unflushed_memtable_resurrects\<close>).

  \<^bold>\<open>Not modelled.\<close> The log lines other components
  emit, the console output of \<open>main\<close>, clocks and duration metrics, the futures \<open>ThreadPool::enqueue\<close> returns (the program drops them), \<open>SIGPIPE\<close>, a signal
  handler that runs \<open>Stop\<close> in the middle of another function (it runs between two handlers of the event loop, or while \<open>main\<close> waits for the workers),
  what the destructors do after an exception that leaves the event loop, memory exhaustion and writes that reach the disk only in part
  outside the manifest and the log. Notifications of condition variables are not modelled: a waiting thread may go on
  whenever the predicate it waits for holds. In the steps of the server and of \<open>main\<close> a worker executes a command in one
  step, and so does the background thread a round: the interleaving inside the database is the subject of \<open>DBSteps\<close>
  (\<open>served_data_survives_crash\<close> lets a kill fall inside commands and rounds through its relation \<open>reach\<close>). One behaviour is visible only there:
  a rotation between the flush of a round and its end loses its wake-up (\<open>rotation_within_round\<close>, \<open>flush_lost_step\<close>).
\<close>

section \<open>The database as a map\<close>

text \<open>
  C1: linearizability of lookups. Whatever the interleaving of writers, the background thread's
  flushes and merges and concurrent compactions, a lookup in a reached state returns what the
  completed writes, in their order, say: the last value written, nothing after a deletion, and the
  initial contents otherwise. It never reads out of bounds.
\<close>

theorem db_get_linearizable:
  assumes "db_inv db0" "reach (idle db0) ws s"
  shows "DBImpl_Get (sys_db s) key = Some (as_value (apply_writes ws (view db0) key))"
  using reach_inv [OF assms(2,1)] by (simp add: sys_inv_def DBImpl_Get_view db_invD(1))

theorem db_get_linearizable_witness:
  "\<exists>db0 s. new_DBImpl sample_junk (\<lambda>_. False) empty_fs = Some db0 \<and> reach (idle db0) [sample_row] s \<and>
     DBImpl_Get (sys_db s) ''k'' = Some (Some \<lparr>vtype = kValue, rvalue = ''v''\<rparr>)"
proof -
  obtain db0 s where r: "new_DBImpl sample_junk (\<lambda>_. False) empty_fs = Some db0" "db_inv db0" "reach (idle db0) [sample_row] s"
    using sample_run by blast
  have "DBImpl_Get (sys_db s) ''k'' = Some (Some \<lparr>vtype = kValue, rvalue = ''v''\<rparr>)"
    using db_get_linearizable [OF r(2,3), of "''k''"]
    by (simp add: apply_writes_def apply_event_def sample_row_def as_value_def live_def)
  then show ?thesis using r by blast
qed

text \<open>
  C9: an iterator made in a reached state holds, in ascending key order and without duplicates,
  exactly the live pairs that the completed writes produce.
\<close>

theorem db_iterator_linearizable:
  assumes "db_inv db0" "reach (idle db0) ws s"
  shows "\<exists>rows. NewIterator (sys_db s) = Some (new_DBIterator rows) \<and> sorted_keys rows \<and>
           map_of rows = apply_writes ws (view db0)"
  using reach_inv [OF assms(2,1)] NewIterator_view [of "sys_db s"] by (simp add: sys_inv_def db_invD(1))

theorem db_iterator_linearizable_witness:
  "\<exists>db0 s rows. new_DBImpl sample_junk (\<lambda>_. False) empty_fs = Some db0 \<and> reach (idle db0) [sample_row] s \<and>
     NewIterator (sys_db s) = Some (new_DBIterator rows) \<and> sorted_keys rows \<and> map_of rows = [''k'' \<mapsto> ''v'']"
proof -
  obtain db0 s where r: "new_DBImpl sample_junk (\<lambda>_. False) empty_fs = Some db0" "db_inv db0" "view db0 = Map.empty"
    "reach (idle db0) [sample_row] s"
    using sample_run by blast
  have "apply_writes [sample_row] Map.empty = [''k'' \<mapsto> ''v'']"
    by (simp add: apply_writes_def apply_event_def sample_row_def live_def)
  then show ?thesis using db_iterator_linearizable [OF r(2,4)] r by auto
qed

text \<open>
  C14: in a reached state with room for one more step no thread is about to do anything undefined:
  a writer's two critical sections, the next phase of every running compaction, the start of a
  compaction, a lookup and the construction of an iterator are all defined.
\<close>

theorem db_run_defined:
  assumes "db_inv db0" "reach (idle db0) ws s" "fits (sys_db s)"
  shows "Put_rotate (sys_db s) \<noteq> None \<and> (\<forall>k v coin. writer s = Some (k, v) \<longrightarrow> Put_write coin k v (sys_db s) \<noteq> None) \<and>
    (\<forall>t\<in>set (tasks s). task_step t (sys_db s) \<noteq> None) \<and> Compact_prepare (sys_db s) \<noteq> None \<and>
    DBImpl_Get (sys_db s) key \<noteq> None \<and> NewIterator (sys_db s) \<noteq> None"
proof -
  have s: "sys_inv s" "db_inv (sys_db s)" using reach_inv [OF assms(2,1)] by (auto simp: sys_inv_def)
  show ?thesis
    using sys_defined [OF s(1) assms(3)] DBImpl_Get_view [OF db_invD(1) [OF s(2)]] NewIterator_view [OF db_invD(1) [OF s(2)]]
    by auto
qed

theorem db_run_defined_witness:
  "\<exists>db0 s. new_DBImpl sample_junk (\<lambda>_. False) empty_fs = Some db0 \<and> reach (idle db0) [sample_row] s \<and>
     Put_rotate (sys_db s) \<noteq> None \<and> Compact_prepare (sys_db s) \<noteq> None \<and> NewIterator (sys_db s) \<noteq> None"
proof -
  obtain db0 s where r: "new_DBImpl sample_junk (\<lambda>_. False) empty_fs = Some db0" "db_inv db0" "reach (idle db0) [sample_row] s" "fits (sys_db s)"
    using sample_run by blast
  show ?thesis using db_run_defined [OF r(2-4)] r(1,3) by blast
qed

text \<open>
  C13: a call of \<open>Put\<close> on a database with room blocks exactly when the active memtable is full and
  the previous one is not flushed yet; otherwise every later lookup of the key returns what was
  written and every other key keeps its value.
\<close>

theorem db_put_get:
  assumes "db_inv db" "fits db" "row_ok (k, v)" "plain_row (k, v)" "db_mem db = Some mt"
  shows "if memtable_limit \<le> MemTable_Count mt \<and> db_imm db \<noteq> None then DBImpl_Put coin k v db = Some None
    else \<exists>db'. DBImpl_Put coin k v db = Some (Some db') \<and> db_inv db' \<and>
      (\<forall>key. DBImpl_Get db' key = (if key = k then Some (as_value (live (Some v))) else DBImpl_Get db key))"
proof (cases "memtable_limit \<le> MemTable_Count mt \<and> db_imm db \<noteq> None")
  case True
  then show ?thesis using DBImpl_Put_cases(1) [OF assms] by simp
next
  case False
  then obtain db' where "DBImpl_Put coin k v db = Some (Some db')" "db_inv db'" "view db' = (view db)(k := live (Some v))"
    using DBImpl_Put_cases(2) [OF assms, of coin] by (meson not_le_imp_less)
  then show ?thesis
    unfolding if_not_P [OF False] using assms(1) by (intro exI [of _ db']) (simp add: DBImpl_Get_view db_invD(1))
qed

theorem db_put_get_witness:
  "\<exists>db0 db'. new_DBImpl sample_junk (\<lambda>_. False) empty_fs = Some db0 \<and>
     DBImpl_Put (\<lambda>_. True) ''k'' \<lparr>vtype = kDeletion, rvalue = []\<rparr> db0 = Some (Some db') \<and>
     DBImpl_Get db' ''k'' = Some None"
proof -
  obtain db0 where d: "new_DBImpl sample_junk (\<lambda>_. False) empty_fs = Some db0" "db_inv db0" "db_imm db0 = None" "layers db0 = []"
    "db_state db0 = \<lparr>next_file_number = 1, sst_levels = [], live_wals = [1]\<rparr>"
    using open_new [OF sample_ok(4), of "\<lambda>_. False"] by blast
  obtain mt where m: "db_mem db0 = Some mt" using db_invD(2) [OF d(2)] by blast
  have f: "fits db0" by (simp add: fits_def d rows_size_def state_size_def)
  have "row_ok (''k'', \<lparr>vtype = kDeletion, rvalue = []\<rparr>)" "plain_row (''k'', \<lparr>vtype = kDeletion, rvalue = []\<rparr>)"
    by (simp_all add: row_ok_def plain_row_def)
  from db_put_get [OF d(2) f this m, of "\<lambda>_. True"] obtain db' where
    "DBImpl_Put (\<lambda>_. True) ''k'' \<lparr>vtype = kDeletion, rvalue = []\<rparr> db0 = Some (Some db')"
    "DBImpl_Get db' ''k'' = Some (as_value (live (Some \<lparr>vtype = kDeletion, rvalue = []\<rparr>)))"
    using d(3) by auto
  then show ?thesis using d(1) by (auto simp: as_value_def live_def)
qed

text \<open>
  C12: in a database whose files can all be opened for writing (part of \<open>db_inv\<close>), a round of the
  background thread that no other thread interrupts finishes: it flushes the immutable memtable (and
  merges level 0 when that fills it), loses and changes nothing, and ends in a state in which \<open>Sync\<close>
  returns and in which a writer that waited for room goes on. When the table cannot be written, or
  when a writer rotates before the round ends, both may wait forever (\<open>failed_flush_stalls\<close>,
  \<open>rotation_within_round\<close> and \<open>flush_lost_step\<close> in \<open>DBSteps\<close>).
\<close>

theorem background_round_flushes:
  assumes "db_inv db" "roomy 3 db" "\<not> bg_stopped db"
  shows "\<exists>db'. BackgroundRound db = Some (Some db') \<and> db_inv db' \<and> view db' = view db \<and> sync_ready db' \<and>
    (\<exists>db''. Put_rotate db' = Some (RotateDone db''))"
proof -
  obtain db' where b: "BackgroundRound db = Some (Some db')" "db_inv db'" "view db' = view db" "sync_ready db'"
    using BackgroundRound_ok [OF assms] by blast
  then show ?thesis using db_invD(2) [OF b(2)] by (auto simp: Put_rotate_def sync_ready_def)
qed

theorem background_round_flushes_witness:
  "\<exists>db0 db1 db2 db'. new_DBImpl sample_junk (\<lambda>_. False) empty_fs = Some db0 \<and> put_all (\<lambda>_. False) sample_rows db0 = Some (Some db1) \<and>
     DBImpl_Put (\<lambda>_. False) ''k'' \<lparr>vtype = kValue, rvalue = ''v''\<rparr> db1 = Some (Some db2) \<and> db_imm db2 \<noteq> None \<and> bg_ready db2 \<and>
     BackgroundRound db2 = Some (Some db') \<and> view db' = view db2 \<and> db_imm db' = None \<and> sync_ready db'"
proof -
  obtain db0 db1 db2 m1 where r: "new_DBImpl sample_junk (\<lambda>_. False) empty_fs = Some db0" "put_all (\<lambda>_. False) sample_rows db0 = Some (Some db1)"
    "DBImpl_Put (\<lambda>_. False) ''k'' \<lparr>vtype = kValue, rvalue = ''v''\<rparr> db1 = Some (Some db2)" "db_inv db2" "roomy 4 db2" "db_imm db2 = Some m1"
    "bg_compaction_scheduled db2" "\<not> bg_stopped db2"
    using rotated_run [OF sample_ok(4) sample_rows_ok(1-3) sample_ok(1,2) [unfolded sample_row_def], of "\<lambda>_. False"] by blast
  have room: "roomy 3 db2" using r(5) by (simp add: roomy_def)
  obtain db' where b: "BackgroundRound db2 = Some (Some db')" "view db' = view db2" "sync_ready db'"
    using background_round_flushes [OF r(4) room r(8)] by blast
  have "bg_ready db2" using r(7) by (simp add: bg_ready_def)
  moreover have "db_imm db' = None" using b(3) by (simp add: sync_ready_def)
  ultimately show ?thesis using r(1-3,6) b
    by (intro exI [of _ db0] exI [of _ db1] exI [of _ db2] exI [of _ db']) simp
qed

text \<open>
  C2: crash safety. A run that started without logs left over from an earlier one (\<open>wal_inv\<close>), with all
  files writable (\<open>db_inv\<close>) and room in them, is cut off between two critical sections, with flushes
  and merges possibly half done; excluded is only the moment between writing the very first table and
  listing it in the manifest (\<open>no_orphans\<close>: a manifest without tables goes with a directory without
  tables). Then opening the directory again succeeds and every lookup returns what the completed writes
  say: no acknowledged write is lost.
\<close>

theorem crash_recovery:
  assumes "db_inv db0" "wal_inv db0" "reach (idle db0) ws s"
    and "fits (sys_db s)" "no_orphans (sys_db s)" "junk_ok junk"
  shows "\<exists>db'. new_DBImpl junk coin (db_dir (sys_db s)) = Some db' \<and> db_inv db' \<and>
    DBImpl_Get db' key = Some (as_value (apply_writes ws (view db0) key))"
proof -
  have s: "db_inv (sys_db s)" "view (sys_db s) = apply_writes ws (view db0)"
    using reach_inv [OF assms(3,1)] by (auto simp: sys_inv_def)
  have "wal_inv (sys_db s)" by (rule reach_wal_inv [OF assms(3,1,2)])
  then show ?thesis
    using crash_recovery_aux [OF s(1) _ assms(5,4,6), of coin] DBImpl_Get_view db_invD(1) s(2) by metis
qed

theorem crash_recovery_witness:
  "\<exists>db0 s db'. new_DBImpl sample_junk (\<lambda>_. False) empty_fs = Some db0 \<and> reach (idle db0) [sample_row] s \<and>
     new_DBImpl sample_junk (\<lambda>_. False) (db_dir (sys_db s)) = Some db' \<and>
     DBImpl_Get db' ''k'' = Some (Some \<lparr>vtype = kValue, rvalue = ''v''\<rparr>)"
proof -
  obtain db0 s where r: "new_DBImpl sample_junk (\<lambda>_. False) empty_fs = Some db0" "db_inv db0" "wal_inv db0"
    "reach (idle db0) [sample_row] s" "fits (sys_db s)" "no_orphans (sys_db s)"
    using sample_run by blast
  from crash_recovery [OF r(2-6) sample_ok(4), of "\<lambda>_. False" "''k''"] r show ?thesis
    by (auto simp: apply_writes_def apply_event_def sample_row_def as_value_def live_def)
qed

text \<open>
  Opening an empty directory creates a database that satisfies the invariants of the other
  properties: it is empty, its manifest is on disk and lists one log, numbered 1.
\<close>

theorem new_database:
  assumes "junk_ok junk"
  shows "\<exists>db. new_DBImpl junk coin empty_fs = Some db \<and> db_inv db \<and> wal_inv db \<and> no_orphans db \<and>
    DBImpl_Get db key = Some None \<and> recover_manifest (db_dir db) =
      (True, \<lparr>edits_since_checkpoint = 0, mstate = \<lparr>next_file_number = 1, sst_levels = [], live_wals = [1]\<rparr>\<rparr>)"
proof -
  obtain db where d: "new_DBImpl junk coin empty_fs = Some db" "db_inv db" "wal_inv db" "no_orphans db" "view db = Map.empty"
    "db_state db = \<lparr>next_file_number = 1, sst_levels = [], live_wals = [1]\<rparr>"
    using open_new [OF assms, of coin] by blast
  have "denotes (db_dir db) (db_state db)" using db_invD(4) [OF d(2)] by (simp add: mirrored_def db_mf_def db_state_def)
  then show ?thesis
    using d recover_denotes DBImpl_Get_view [OF db_invD(1) [OF d(2)], of key] by (auto simp: as_value_def)
qed

theorem new_database_witness:
  "\<exists>db. new_DBImpl sample_junk (\<lambda>_. True) empty_fs = Some db \<and> DBImpl_Get db ''k'' = Some None"
  using new_database [OF sample_ok(4)] by blast

section \<open>Shutdown\<close>

text \<open>
  C10: a clean shutdown keeps the data. When a run that started without logs left over from an earlier one
  and without stray tables is over, no compaction is in progress, the immutable memtable is flushed and
  the active one has fewer than \<open>2 ^ 31\<close> rows, the destructor finishes, and opening the
  directory again shows exactly the completed writes and satisfies the assumptions on the start of the
  run again, so that any number of sessions can follow each other.
\<close>

theorem clean_shutdown:
  assumes "db_inv db0" "wal_inv db0" "tables_in {} db0" "reach (idle db0) ws s"
    and "tasks s = []" "db_imm (sys_db s) = None" "roomy 4 (sys_db s)" "junk_ok junk"
    and "length (opt_rows (db_mem (sys_db s))) < 2 ^ 31"
  shows "\<exists>fs db'. close_DBImpl (sys_db s) = Some fs \<and> new_DBImpl junk coin fs = Some db' \<and> db_inv db' \<and> tables_in {} db' \<and> wal_inv db' \<and>
    (\<forall>key. DBImpl_Get db' key = Some (as_value (apply_writes ws (view db0) key)))"
proof -
  have s: "db_inv (sys_db s)" "view (sys_db s) = apply_writes ws (view db0)"
    using reach_inv [OF assms(4,1)] by (auto simp: sys_inv_def)
  have t: "tables_in {} (sys_db s)" using reach_tables_inv [OF assms(4,1,3)] assms(5) by (simp add: tables_inv_def)
  from close_session [OF s(1) reach_wal_inv [OF assms(4,1,2)] t assms(6-9), of coin] show ?thesis
    using s(2) DBImpl_Get_view db_invD(1) by metis
qed

theorem clean_shutdown_witness:
  "\<exists>db0 s fs db'. new_DBImpl sample_junk (\<lambda>_. False) empty_fs = Some db0 \<and> reach (idle db0) [sample_row] s \<and>
     opt_rows (db_mem (sys_db s)) = [sample_row] \<and> close_DBImpl (sys_db s) = Some fs \<and>
     new_DBImpl sample_junk (\<lambda>_. False) fs = Some db' \<and> DBImpl_Get db' ''k'' = Some (Some \<lparr>vtype = kValue, rvalue = ''v''\<rparr>)"
proof -
  obtain db0 s where r: "new_DBImpl sample_junk (\<lambda>_. False) empty_fs = Some db0" "db_inv db0" "wal_inv db0" "reach (idle db0) [sample_row] s"
    "no_orphans db0" "sst_levels (db_state db0) = []" "tasks s = []" "db_imm (sys_db s) = None" "roomy 4 (sys_db s)"
    "opt_rows (db_mem (sys_db s)) = [sample_row]"
    using sample_run by (elim exE conjE) (rule that)
  have t: "tables_in {} db0" using r(5,6) by (simp add: tables_in_def no_orphans_def)
  have "length (opt_rows (db_mem (sys_db s))) < 2 ^ 31" by (simp add: r(10))
  from clean_shutdown [OF r(2,3) t r(4,7-9) sample_ok(4) this, of "\<lambda>_. False"] obtain fs db' where
    c: "close_DBImpl (sys_db s) = Some fs" "new_DBImpl sample_junk (\<lambda>_. False) fs = Some db'"
      "\<forall>key. DBImpl_Get db' key = Some (as_value (apply_writes [sample_row] (view db0) key))"
    by blast
  have "DBImpl_Get db' ''k'' = Some (Some \<lparr>vtype = kValue, rvalue = ''v''\<rparr>)"
    using c(3) by (simp add: apply_writes_def apply_event_def sample_row_def as_value_def live_def)
  then show ?thesis using r(1,4,10) c(1,2) by (intro exI [of _ db0] exI [of _ s] exI [of _ fs] exI [of _ db']) simp
qed

text \<open>
  C38: the logs of a session that crashed are replayed by the next session but never removed. A write
  to a key, a crash, a restart, a second write to the same key that lookups see, a clean shutdown
  and another restart: lookups return the first value again.
\<close>

theorem stale_log_resurrects:
  assumes "junk_ok junk" "row_ok (k, v1)" "plain_row (k, v1)" "row_ok (k, v2)" "plain_row (k, v2)"
  shows "\<exists>db0 db1 db2 db3 fs db4. new_DBImpl junk coin empty_fs = Some db0 \<and> DBImpl_Put coin k v1 db0 = Some (Some db1) \<and>
    new_DBImpl junk coin (db_dir db1) = Some db2 \<and> DBImpl_Put coin k v2 db2 = Some (Some db3) \<and>
    DBImpl_Get db3 k = Some (as_value (live (Some v2))) \<and>
    close_DBImpl db3 = Some fs \<and> new_DBImpl junk coin fs = Some db4 \<and> DBImpl_Get db4 k = Some (as_value (live (Some v1)))"
  using stale_log_run [OF assms, of coin] DBImpl_Get_view db_invD(1) by metis

theorem stale_log_resurrects_witness:
  "\<exists>db3 fs db4. DBImpl_Get db3 ''k'' = Some (Some \<lparr>vtype = kValue, rvalue = ''new''\<rparr>) \<and>
    close_DBImpl db3 = Some fs \<and> new_DBImpl sample_junk (\<lambda>_. False) fs = Some db4 \<and>
    DBImpl_Get db4 ''k'' = Some (Some \<lparr>vtype = kValue, rvalue = ''old''\<rparr>)"
proof -
  have "row_ok (''k'', \<lparr>vtype = kValue, rvalue = ''old''\<rparr>)" "plain_row (''k'', \<lparr>vtype = kValue, rvalue = ''old''\<rparr>)"
    "row_ok (''k'', \<lparr>vtype = kValue, rvalue = ''new''\<rparr>)" "plain_row (''k'', \<lparr>vtype = kValue, rvalue = ''new''\<rparr>)"
    by (simp_all add: row_ok_def plain_row_def)
  from stale_log_resurrects [OF sample_ok(4) this, of "\<lambda>_. False"] show ?thesis by (auto simp: as_value_def live_def)
qed

text \<open>
  C39: a shutdown before the flush undoes writes. Fill the memtable with 10000 keys, write a new value
  to one of them, which rotates the memtable, and shut down before the background thread has flushed
  it: lookups saw the new value, the destructor succeeds, and after the next start lookups return the
  old value again.
\<close>

theorem unflushed_memtable_resurrects:
  assumes "junk_ok junk" "length rs = 10000" "distinct (map fst rs)" "\<forall>r\<in>set rs. row_ok r \<and> plain_row r" "(k, v1) \<in> set rs"
    and "row_ok (k, v2)" "plain_row (k, v2)"
  shows "\<exists>db0 db1 db2 fs db3. new_DBImpl junk coin empty_fs = Some db0 \<and> put_all coin rs db0 = Some (Some db1) \<and>
    DBImpl_Put coin k v2 db1 = Some (Some db2) \<and> DBImpl_Get db2 k = Some (as_value (live (Some v2))) \<and>
    close_DBImpl db2 = Some fs \<and> new_DBImpl junk coin fs = Some db3 \<and> DBImpl_Get db3 k = Some (as_value (live (Some v1)))"
  using dropped_flush_run [OF assms, of coin] DBImpl_Get_view db_invD(1) by metis

theorem unflushed_memtable_resurrects_witness:
  "\<exists>db2 fs db3. DBImpl_Get db2 ''a'' = Some (Some \<lparr>vtype = kValue, rvalue = ''new''\<rparr>) \<and>
    close_DBImpl db2 = Some fs \<and> new_DBImpl sample_junk (\<lambda>_. False) fs = Some db3 \<and>
    DBImpl_Get db3 ''a'' = Some (Some \<lparr>vtype = kValue, rvalue = ''old''\<rparr>)"
proof -
  have "row_ok (''a'', \<lparr>vtype = kValue, rvalue = ''new''\<rparr>)" "plain_row (''a'', \<lparr>vtype = kValue, rvalue = ''new''\<rparr>)"
    by (simp_all add: row_ok_def plain_row_def)
  then show ?thesis
    using unflushed_memtable_resurrects [OF sample_ok(4) sample_rows_ok, of "\<lparr>vtype = kValue, rvalue = ''new''\<rparr>" "\<lambda>_. False"]
    by (auto simp: as_value_def live_def)
qed

end
